(* ===== verification/BrbPrelude.thy ===== *)
theory BrbPrelude
  imports Main "HOL-Library.Word" "HOL-Library.Multiset" "HOL-Library.Signed_Division"
begin

text \<open>
  Shared vocabulary of the development: the faults a C statement can run into, the result
  type of a fallible operation, non-recursive mutexes, C arrays of machine words as lists with
  checked access, and the generic lemmas on lists and maps the components use.

  A pointer is an address (a natural number), and the null pointer is address 0, as in C. Memory
  is a partial map from addresses to cells: an address outside the domain is not allocated, and
  reading or writing it is a fault of the model instead of undefined behaviour.
\<close>

section \<open>Faults and results\<close>

text \<open>
  \<open>NullDeref\<close>: a null pointer is dereferenced. \<open>BadPtr\<close>: an address that is not
  allocated is dereferenced. \<open>OutOfBounds\<close>: an array is accessed outside its allocation.
  \<open>AssertFail\<close>: an \<open>assert\<close> of the source fails. \<open>SelfDeadlock\<close>: the running thread locks a
  mutex it already holds; the mutexes are the default, non-recursive ones. \<open>FuelOut\<close>: the fuel
  given to a pointer-chasing loop was not enough. \<open>DivByZero\<close>: an integer division by zero.
  \<open>BadShift\<close>: a shift by a negative amount or by more than the width. \<open>Overflow\<close>: the result of
  an operation on signed integers does not fit its type.
\<close>

datatype fault = NullDeref | BadPtr | OutOfBounds | AssertFail | SelfDeadlock | FuelOut | DivByZero | BadShift | Overflow

type_synonym 'a result = "fault + 'a"

definition and_then :: "'a result \<Rightarrow> ('a \<Rightarrow> 'b result) \<Rightarrow> 'b result" where
  "and_then m f = (case m of Inl e \<Rightarrow> Inl e | Inr x \<Rightarrow> f x)"

definition assert_c :: "bool \<Rightarrow> unit result" where
  "assert_c b = (if b then Inr () else Inl AssertFail)"

named_theorems result_simps

lemma and_then_Inl [simp, result_simps]: "and_then (Inl e) f = Inl e"
  by (simp add: and_then_def)

lemma and_then_Inr [simp, result_simps]: "and_then (Inr x) f = f x"
  by (simp add: and_then_def)

lemma and_then_eq_Inr: "and_then m f = Inr y \<longleftrightarrow> (\<exists>x. m = Inr x \<and> f x = Inr y)"
  by (cases m) simp_all

lemma and_then_cong [fundef_cong]:
  "m = m' \<Longrightarrow> (\<And>x. m' = Inr x \<Longrightarrow> f x = f' x) \<Longrightarrow> and_then m f = and_then m' f'"
  by (cases m') simp_all

lemma and_then_assoc: "and_then (and_then m f) g = and_then m (\<lambda>x. and_then (f x) g)"
  by (cases m) simp_all

lemma assert_c_True [simp, result_simps]: "assert_c True = Inr ()"
  by (simp add: assert_c_def)

lemma assert_c_False [simp, result_simps]: "assert_c False = Inl AssertFail"
  by (simp add: assert_c_def)

section \<open>Mutexes\<close>

text \<open>
  \<open>MUTEX_LOCK\<close> and \<open>MUTEX_UNLOCK\<close> (libbrb_data.h) expand to \<open>pthread_mutex_lock\<close> and
  \<open>pthread_mutex_unlock\<close>. The sources use them under \<open>if (flags.thread_safe)\<close>. The state of a
  mutex, seen from one thread, is whether that thread holds it.
\<close>

definition mutex_lock :: "bool \<Rightarrow> bool \<Rightarrow> bool result" where
  "mutex_lock thread_safe held =
     (if thread_safe then (if held then Inl SelfDeadlock else Inr True) else Inr held)"

definition mutex_unlock :: "bool \<Rightarrow> bool \<Rightarrow> bool" where
  "mutex_unlock thread_safe held = (if thread_safe then False else held)"

lemma mutex_lock_free [simp, result_simps]: "mutex_lock ts False = Inr ts"
  by (simp add: mutex_lock_def)

lemma mutex_unlock_held [simp, result_simps]: "mutex_unlock ts ts = False"
  by (simp add: mutex_unlock_def)

lemma mutex_relock: "mutex_lock True True = Inl SelfDeadlock"
  by (simp add: mutex_lock_def)

section \<open>Addresses\<close>

type_synonym addr = nat

definition NULL :: addr where "NULL = 0"

lemma Suc_neq_NULL [simp]: "Suc n \<noteq> NULL" "NULL \<noteq> Suc n" "Suc n = NULL \<longleftrightarrow> False"
  by (simp_all add: NULL_def)

section \<open>C arrays\<close>

text \<open>
  An array is the list of its allocated elements. Indices are C integers, so a negative index
  is out of bounds as well.
\<close>

definition arr_get :: "'a list \<Rightarrow> int \<Rightarrow> 'a result" where
  "arr_get xs i = (if 0 \<le> i \<and> nat i < length xs then Inr (xs ! nat i) else Inl OutOfBounds)"

definition arr_set :: "'a list \<Rightarrow> int \<Rightarrow> 'a \<Rightarrow> 'a list result" where
  "arr_set xs i v = (if 0 \<le> i \<and> nat i < length xs then Inr (xs[nat i := v]) else Inl OutOfBounds)"

lemma arr_get_in [simp, result_simps]:
  "0 \<le> i \<Longrightarrow> nat i < length xs \<Longrightarrow> arr_get xs i = Inr (xs ! nat i)"
  by (simp add: arr_get_def)

lemma arr_set_in [simp, result_simps]:
  "0 \<le> i \<Longrightarrow> nat i < length xs \<Longrightarrow> arr_set xs i v = Inr (xs[nat i := v])"
  by (simp add: arr_set_def)

lemma arr_get_nat: "n < length xs \<Longrightarrow> arr_get xs (int n) = Inr (xs ! n)"
  by (simp add: arr_get_def)

lemma arr_set_nat: "n < length xs \<Longrightarrow> arr_set xs (int n) v = Inr (xs[n := v])"
  by (simp add: arr_set_def)

text \<open>
  \<open>memset\<close> of a range, and \<open>realloc\<close> to a larger size, whose new elements are indeterminate: the
  caller names the value they are taken to have.
\<close>

definition arr_fill :: "'a list \<Rightarrow> int \<Rightarrow> int \<Rightarrow> 'a \<Rightarrow> 'a list result" where
  "arr_fill xs start n v = (if 0 \<le> start \<and> 0 \<le> n \<and> nat start + nat n \<le> length xs
     then Inr (take (nat start) xs @ replicate (nat n) v @ drop (nat start + nat n) xs)
     else Inl OutOfBounds)"

definition arr_realloc :: "'a \<Rightarrow> 'a list \<Rightarrow> int \<Rightarrow> 'a list" where
  "arr_realloc junk xs n = take (nat n) xs @ replicate (nat n - length xs) junk"

lemma arr_realloc_length [simp]: "length (arr_realloc junk xs n) = nat n"
  by (simp add: arr_realloc_def)

text \<open>\<open>memcpy\<close>: of a whole list of bytes, and of the first \<open>n\<close> bytes of a source.\<close>

definition arr_copy :: "'a list \<Rightarrow> int \<Rightarrow> 'a list \<Rightarrow> 'a list result" where
  "arr_copy xs start ys = (if 0 \<le> start \<and> nat start + length ys \<le> length xs
     then Inr (take (nat start) xs @ ys @ drop (nat start + length ys) xs) else Inl OutOfBounds)"

lemma arr_copy_nat: "n + length ys \<le> length xs \<Longrightarrow>
  arr_copy xs (int n) ys = Inr (take n xs @ ys @ drop (n + length ys) xs)"
  by (simp add: arr_copy_def)

definition mem_copy :: "'a list \<Rightarrow> int \<Rightarrow> 'a list \<Rightarrow> int \<Rightarrow> 'a list result" where
  "mem_copy xs start src n = (if n \<le> int (length src) then arr_copy xs start (take (nat n) src) else Inl OutOfBounds)"

lemma mem_copy_all: "n = int (length src) \<Longrightarrow> mem_copy xs start src n = arr_copy xs start src"
  by (simp add: mem_copy_def)

text \<open>Division and remainder of C integers round towards zero.\<close>

definition c_div :: "int \<Rightarrow> int \<Rightarrow> int result" where
  "c_div a b = (if b = 0 then Inl DivByZero else Inr (a sdiv b))"

definition c_mod :: "int \<Rightarrow> int \<Rightarrow> int result" where
  "c_mod a b = (if b = 0 then Inl DivByZero else Inr (a smod b))"

lemma sdiv_nonneg: "0 \<le> a \<Longrightarrow> 0 < b \<Longrightarrow> a sdiv b = a div (b :: int)"
  by (auto simp: signed_divide_int_def sgn_if)

lemma smod_nonneg: "0 \<le> a \<Longrightarrow> 0 < b \<Longrightarrow> a smod b = a mod (b :: int)"
  by (auto simp: signed_modulo_int_def sgn_if)

lemma c_div_pos [simp]: "0 \<le> a \<Longrightarrow> 0 < b \<Longrightarrow> c_div a b = Inr (a div b)"
  by (simp add: c_div_def sdiv_nonneg)

lemma c_mod_pos [simp]: "0 \<le> a \<Longrightarrow> 0 < b \<Longrightarrow> c_mod a b = Inr (a mod b)"
  by (simp add: c_mod_def smod_nonneg)

section \<open>Signed integers\<close>

text \<open>
  Values of \<open>int\<close> and \<open>long\<close> are integers. The result of an operation on them must fit, \<open>in_int\<close> and
  \<open>in_long\<close>; a conversion to \<open>int\<close> keeps the low 32 bits, \<open>c_int\<close>, a conversion to \<open>long\<close> or
  \<open>size_t\<close> the low 64 bits, \<open>c_long\<close> and \<open>c_size\<close>.
\<close>

definition in_int :: "int \<Rightarrow> int result" where
  "in_int i = (if - (2 ^ 31) \<le> i \<and> i < 2 ^ 31 then Inr i else Inl Overflow)"

definition in_long :: "int \<Rightarrow> int result" where
  "in_long i = (if - (2 ^ 63) \<le> i \<and> i < 2 ^ 63 then Inr i else Inl Overflow)"

definition c_int :: "int \<Rightarrow> int" where
  "c_int i = sint (word_of_int i :: 32 word)"

definition c_long :: "int \<Rightarrow> int" where
  "c_long i = sint (word_of_int i :: 64 word)"

definition c_size :: "int \<Rightarrow> int" where
  "c_size i = uint (word_of_int i :: 64 word)"

lemma in_int_in [simp]: "- 2147483648 \<le> i \<Longrightarrow> i < 2147483648 \<Longrightarrow> in_int i = Inr i"
  by (simp add: in_int_def)

lemma in_long_in [simp]: "- 9223372036854775808 \<le> i \<Longrightarrow> i < 9223372036854775808 \<Longrightarrow> in_long i = Inr i"
  by (simp add: in_long_def)

lemma c_int_in: "- (2 ^ 31) \<le> i \<Longrightarrow> i < 2 ^ 31 \<Longrightarrow> c_int i = i"
  by (simp add: c_int_def signed_take_bit_int_eq_self sint_sbintrunc')

lemma c_int_nat: "n < 2 ^ 31 \<Longrightarrow> c_int (int n) = int n"
  by (rule c_int_in) simp_all

lemma c_long_in: "- (2 ^ 63) \<le> i \<Longrightarrow> i < 2 ^ 63 \<Longrightarrow> c_long i = i"
  by (simp add: c_long_def signed_take_bit_int_eq_self sint_sbintrunc')

lemma c_size_in: "0 \<le> i \<Longrightarrow> i < 2 ^ 64 \<Longrightarrow> c_size i = i"
  by (simp add: c_size_def uint_word_of_int)

section \<open>Flags and unsigned sums\<close>

text \<open>\<open>EBIT_SET\<close> and \<open>EBIT_CLR\<close> of libbrb_core.h.\<close>

definition EBIT_SET :: "32 word \<Rightarrow> nat \<Rightarrow> 32 word" where
  "EBIT_SET flag b = or flag (push_bit b 1)"

definition EBIT_CLR :: "32 word \<Rightarrow> nat \<Rightarrow> 32 word" where
  "EBIT_CLR flag b = and flag (not (push_bit b 1))"

lemma unat_add_small: "unat x + unat y < 2 ^ LENGTH('a) \<Longrightarrow> unat (x + y) = unat x + unat y" for x y :: "'a::len word"
  by (rule unat_add_lem [THEN iffD1])

lemma sint_small: "unat w < 2 ^ 31 \<Longrightarrow> sint w = int (unat w)" for w :: "32 word"
proof -
  assume "unat w < 2 ^ 31"
  then have "uint w < 2 ^ 31" by (simp add: nat_less_iff flip: nat_uint_eq)
  then have "signed_take_bit 31 (uint w) = uint w" by (intro signed_take_bit_int_eq_self) (auto intro: order_trans [of _ 0])
  then show ?thesis by (simp add: sint_uint)
qed

section \<open>C truth values\<close>

definition c_bool :: "bool \<Rightarrow> int" where
  "c_bool b = (if b then 1 else 0)"

lemma c_bool_simps [simp]: "c_bool True = 1" "c_bool False = 0"
  by (simp_all add: c_bool_def)

lemma c_bool_eq [simp]: "c_bool a = c_bool b \<longleftrightarrow> a = b"
  by (simp add: c_bool_def)

lemma c_bool_eq_0 [simp]: "c_bool a = 0 \<longleftrightarrow> \<not> a" "c_bool a = 1 \<longleftrightarrow> a"
  by (simp_all add: c_bool_def)

section \<open>First and last elements with a default\<close>

definition first_or :: "'a list \<Rightarrow> 'a \<Rightarrow> 'a" where
  "first_or xs q = (case xs of [] \<Rightarrow> q | x # _ \<Rightarrow> x)"

definition last_or :: "'a \<Rightarrow> 'a list \<Rightarrow> 'a" where
  "last_or p xs = (if xs = [] then p else last xs)"

lemma first_or_simps [simp]: "first_or [] q = q" "first_or (x # xs) q = x"
  by (simp_all add: first_or_def)

lemma last_or_simps [simp]: "last_or p [] = p" "last_or p (xs @ [x]) = x" "last_or p [x] = x"
  by (simp_all add: last_or_def)

lemma last_or_Cons: "last_or p (x # xs) = last_or x xs"
  by (simp add: last_or_def)

lemma first_or_append: "first_or (xs @ ys) q = first_or xs (first_or ys q)"
  by (cases xs) simp_all

lemma last_or_append: "last_or p (xs @ ys) = last_or (last_or p xs) ys"
  by (simp add: last_or_def)

lemma first_or_in_set: "xs \<noteq> [] \<Longrightarrow> first_or xs q \<in> set xs"
  by (cases xs) simp_all

lemma last_or_in_set: "xs \<noteq> [] \<Longrightarrow> last_or p xs \<in> set xs"
  by (simp add: last_or_def)

lemma split_at_elem:
  assumes "x \<in> set xs" "distinct xs"
  obtains as bs where "xs = as @ x # bs" "x \<notin> set as" "x \<notin> set bs"
  using assms by (metis distinct.simps(2) distinct_append not_distinct_conv_prefix
      split_list disjoint_iff list.set_intros(1))

lemma last_or_eq_NULL_iff: "NULL \<notin> set xs \<Longrightarrow> last_or NULL xs = NULL \<longleftrightarrow> xs = []"
  by (metis last_or_def last_in_set)

lemma first_or_eq_NULL_iff: "NULL \<notin> set xs \<Longrightarrow> first_or xs NULL = NULL \<longleftrightarrow> xs = []"
  by (cases xs) auto

lemma distinct_last_eq: "distinct (as @ x # bs) \<Longrightarrow> last (as @ x # bs) = x \<longleftrightarrow> bs = []"
  by (cases bs rule: rev_cases) auto

section \<open>Counting loops\<close>

text \<open>
  A \<open>for\<close> loop whose index runs through a fixed list, with a body that may fault, and its invariant
  rule.
\<close>

primrec for_each :: "('i \<Rightarrow> 's \<Rightarrow> 's result) \<Rightarrow> 'i list \<Rightarrow> 's \<Rightarrow> 's result" where
  "for_each f [] s = Inr s"
| "for_each f (i # is) s = and_then (f i s) (for_each f is)"

lemma for_each_append: "for_each f (xs @ ys) s = and_then (for_each f xs s) (for_each f ys)"
  by (induction xs arbitrary: s) (auto simp: and_then_assoc intro!: and_then_cong)

lemma for_each_inv:
  assumes "\<And>i s. i \<in> set is \<Longrightarrow> I s \<Longrightarrow> \<exists>s'. f i s = Inr s' \<and> I s'" "I s"
  shows "\<exists>s'. for_each f is s = Inr s' \<and> I s'"
  using assms
proof (induction "is" arbitrary: s)
  case (Cons i "is")
  then obtain s1 where "f i s = Inr s1" "I s1" by fastforce
  then show ?case using Cons.IH Cons.prems(1) by simp
qed simp

lemma for_each_cong [fundef_cong]:
  "is = js \<Longrightarrow> s = t \<Longrightarrow> (\<And>i u. i \<in> set js \<Longrightarrow> f i u = g i u) \<Longrightarrow> for_each f is s = for_each g js t"
proof (induction js arbitrary: "is" s t)
  case (Cons j js)
  have "for_each f js = for_each g js" using Cons by (intro ext) auto
  then show ?case using Cons by simp
qed simp

end
