(* ===== verification/DListHeap.thy ===== *)
theory DListHeap
  imports BrbPrelude
begin

text \<open>
  Memory of the intrusive doubly linked lists: nodes (\<open>DLinkedListNode\<close>), the list header
  (\<open>DLinkedList\<close>), checked loads and stores through a node pointer, and the heap predicates the
  proofs use. \<open>dchain h p xs q\<close> says that the nodes at the addresses \<open>xs\<close> are linked in
  both directions, the first one's \<open>prev\<close> being \<open>p\<close> and the last one's \<open>next\<close> being \<open>q\<close>;
  \<open>schain h p xs\<close> is the singly linked view the merge sort works on.
\<close>

section \<open>Nodes and headers\<close>

record dnode =
  dn_data :: addr
  dn_prev :: addr
  dn_next :: addr

type_synonym dheap = "addr \<rightharpoonup> dnode"

record dlist =
  dl_head :: addr
  dl_tail :: addr
  dl_held :: bool
  dl_size :: "64 word"
  dl_thread_safe :: bool

section \<open>Loads and stores\<close>

definition load :: "dheap \<Rightarrow> addr \<Rightarrow> dnode result" where
  "load h p = (if p = NULL then Inl NullDeref
     else case h p of None \<Rightarrow> Inl BadPtr | Some n \<Rightarrow> Inr n)"

definition get_next :: "dheap \<Rightarrow> addr \<Rightarrow> addr result" where
  "get_next h p = and_then (load h p) (\<lambda>n. Inr (dn_next n))"

definition get_prev :: "dheap \<Rightarrow> addr \<Rightarrow> addr result" where
  "get_prev h p = and_then (load h p) (\<lambda>n. Inr (dn_prev n))"

definition get_data :: "dheap \<Rightarrow> addr \<Rightarrow> addr result" where
  "get_data h p = and_then (load h p) (\<lambda>n. Inr (dn_data n))"

definition set_next :: "dheap \<Rightarrow> addr \<Rightarrow> addr \<Rightarrow> dheap result" where
  "set_next h p v = and_then (load h p) (\<lambda>n. Inr (h(p \<mapsto> n\<lparr>dn_next := v\<rparr>)))"

definition set_prev :: "dheap \<Rightarrow> addr \<Rightarrow> addr \<Rightarrow> dheap result" where
  "set_prev h p v = and_then (load h p) (\<lambda>n. Inr (h(p \<mapsto> n\<lparr>dn_prev := v\<rparr>)))"

definition set_data :: "dheap \<Rightarrow> addr \<Rightarrow> addr \<Rightarrow> dheap result" where
  "set_data h p v = and_then (load h p) (\<lambda>n. Inr (h(p \<mapsto> n\<lparr>dn_data := v\<rparr>)))"

named_theorems heap_simps

lemma load_Some [simp, heap_simps]: "p \<noteq> NULL \<Longrightarrow> h p = Some n \<Longrightarrow> load h p = Inr n"
  by (simp add: load_def)

lemma load_NULL [simp]: "load h NULL = Inl NullDeref"
  by (simp add: load_def)

lemma get_Some [simp, heap_simps]:
  assumes "p \<noteq> NULL" "h p = Some n"
  shows "get_next h p = Inr (dn_next n)" "get_prev h p = Inr (dn_prev n)"
    "get_data h p = Inr (dn_data n)"
  using assms by (simp_all add: get_next_def get_prev_def get_data_def)

lemma set_Some [simp, heap_simps]:
  assumes "p \<noteq> NULL" "h p = Some n"
  shows "set_next h p v = Inr (h(p \<mapsto> n\<lparr>dn_next := v\<rparr>))"
    "set_prev h p v = Inr (h(p \<mapsto> n\<lparr>dn_prev := v\<rparr>))"
    "set_data h p v = Inr (h(p \<mapsto> n\<lparr>dn_data := v\<rparr>))"
  using assms by (simp_all add: set_next_def set_prev_def set_data_def)

text \<open>The payloads the nodes carry; its domain is the set of allocated nodes.\<close>

definition dview :: "dheap \<Rightarrow> addr \<rightharpoonup> addr" where
  "dview h = (\<lambda>a. map_option dn_data (h a))"

lemma dview_upd [simp]:
  "dview (h(p \<mapsto> n)) = (dview h)(p \<mapsto> dn_data n)"
  by (auto simp: dview_def)

lemma dview_same [simp]: "h p = Some n \<Longrightarrow> dn_data n = d \<Longrightarrow> (dview h)(p \<mapsto> d) = dview h"
  by (auto simp: dview_def)

lemma dom_dview [simp]: "dom (dview h) = dom h"
  by (auto simp: dview_def dom_def)

lemma dview_Some_iff: "dview h a = Some d \<longleftrightarrow> (\<exists>n. h a = Some n \<and> dn_data n = d)"
  by (auto simp: dview_def)

lemma dview_dom_eq: "dview h' = (dview h)(x \<mapsto> d) \<Longrightarrow> dom h' = insert x (dom h)"
  by (metis dom_dview dom_fun_upd option.simps(3))

section \<open>Chains of nodes\<close>

primrec dchain :: "dheap \<Rightarrow> addr \<Rightarrow> addr list \<Rightarrow> addr \<Rightarrow> bool" where
  "dchain h p [] q \<longleftrightarrow> True"
| "dchain h p (x # xs) q \<longleftrightarrow>
     x \<noteq> NULL \<and> (\<exists>n. h x = Some n \<and> dn_prev n = p \<and> dn_next n = first_or xs q) \<and> dchain h x xs q"

primrec schain :: "dheap \<Rightarrow> addr \<Rightarrow> addr list \<Rightarrow> bool" where
  "schain h p [] \<longleftrightarrow> p = NULL"
| "schain h p (x # xs) \<longleftrightarrow> p = x \<and> x \<noteq> NULL \<and> (\<exists>n. h x = Some n \<and> schain h (dn_next n) xs)"

lemma dchain_append:
  "dchain h p (xs @ ys) q \<longleftrightarrow> dchain h p xs (first_or ys q) \<and> dchain h (last_or p xs) ys q"
  by (induction xs arbitrary: p) (auto simp: first_or_append last_or_Cons)

lemma dchain_frame: "(\<And>a. a \<in> set xs \<Longrightarrow> h' a = h a) \<Longrightarrow> dchain h' p xs q = dchain h p xs q"
  by (induction xs arbitrary: p) simp_all

lemma dchain_upd_out [simp]: "a \<notin> set xs \<Longrightarrow> dchain (h(a := v)) p xs q = dchain h p xs q"
  by (rule dchain_frame) auto

lemma dchain_dom: "dchain h p xs q \<Longrightarrow> x \<in> set xs \<Longrightarrow> x \<noteq> NULL \<and> (\<exists>n. h x = Some n)"
  by (induction xs arbitrary: p) auto

lemma dchain_NULL: "dchain h p xs q \<Longrightarrow> NULL \<notin> set xs"
  using dchain_dom by blast

lemma schain_frame: "(\<And>a. a \<in> set xs \<Longrightarrow> h' a = h a) \<Longrightarrow> schain h' p xs = schain h p xs"
  by (induction xs arbitrary: p) simp_all

lemma schain_upd_out [simp]: "a \<notin> set xs \<Longrightarrow> schain (h(a := v)) p xs = schain h p xs"
  by (rule schain_frame) auto

lemma schain_first: "schain h p xs \<Longrightarrow> p = first_or xs NULL"
  by (cases xs) auto

lemma schain_NULL: "schain h p xs \<Longrightarrow> NULL \<notin> set xs"
  by (induction xs arbitrary: p) auto

lemma schain_dom: "schain h p xs \<Longrightarrow> x \<in> set xs \<Longrightarrow> \<exists>n. h x = Some n"
  by (induction xs arbitrary: p) auto

lemma schain_NULL_iff [simp]: "schain h NULL xs \<longleftrightarrow> xs = []"
  by (cases xs) auto

lemma dchain_schain: "dchain h p xs NULL \<Longrightarrow> schain h (first_or xs NULL) xs"
proof (induction xs arbitrary: p)
  case (Cons x xs)
  then show ?case by (cases xs) auto
qed simp

text \<open>Relinking the two ends of a chain, as the guarded stores of the source do.\<close>

definition relink_prev :: "dheap \<Rightarrow> addr list \<Rightarrow> addr \<Rightarrow> dheap" where
  "relink_prev h bs v = (case bs of [] \<Rightarrow> h
     | b # _ \<Rightarrow> h(b := map_option (\<lambda>n. n\<lparr>dn_prev := v\<rparr>) (h b)))"

definition relink_next :: "dheap \<Rightarrow> addr list \<Rightarrow> addr \<Rightarrow> dheap" where
  "relink_next h as v = (if as = [] then h
     else h(last as := map_option (\<lambda>n. n\<lparr>dn_next := v\<rparr>) (h (last as))))"

lemma relink_out [simp]:
  "a \<notin> set bs \<Longrightarrow> relink_prev h bs v a = h a"
  "a \<notin> set as \<Longrightarrow> relink_next h as v a = h a"
  by (auto simp: relink_prev_def relink_next_def split: list.splits)

lemma dview_relink [simp]: "dview (relink_prev h bs v) = dview h" "dview (relink_next h as v) = dview h"
  by (auto simp: relink_prev_def relink_next_def dview_def option.map_comp comp_def split: list.splits)

lemma dchain_relink_prev:
  "dchain h p bs q \<Longrightarrow> distinct bs \<Longrightarrow> dchain (relink_prev h bs v) v bs q"
  by (cases bs) (auto simp: relink_prev_def)

lemma dchain_relink_next:
  assumes "dchain h p as q" "distinct as"
  shows "dchain (relink_next h as v) p as v"
proof (cases as rule: rev_cases)
  case (snoc as' a)
  with assms show ?thesis
    by (auto simp: relink_next_def dchain_append)
qed simp

lemma dchain_relink_prev_out [simp]:
  "set xs \<inter> set bs = {} \<Longrightarrow> dchain (relink_prev h bs v) p xs q = dchain h p xs q"
  by (rule dchain_frame) (simp add: disjoint_iff)

lemma dchain_relink_next_out [simp]:
  "set xs \<inter> set as = {} \<Longrightarrow> dchain (relink_next h as v) p xs q = dchain h p xs q"
  by (rule dchain_frame) (simp add: disjoint_iff)

lemma set_prev_relink:
  assumes "dchain h p bs NULL" "nx = first_or bs NULL"
  shows "(if nx \<noteq> NULL then set_prev h nx v else Inr h) = Inr (relink_prev h bs v)"
  using assms by (cases bs) (auto simp: relink_prev_def)

lemma set_next_relink:
  assumes "dchain h NULL as q" "pv = last_or NULL as"
  shows "(if pv \<noteq> NULL then set_next h pv v else Inr h) = Inr (relink_next h as v)"
proof (cases as rule: rev_cases)
  case (snoc as' a)
  with assms show ?thesis
    by (auto simp: relink_next_def dchain_append)
qed (simp add: assms relink_next_def)

section \<open>A list header and its nodes\<close>

definition is_dlist :: "dheap \<Rightarrow> dlist \<Rightarrow> addr list \<Rightarrow> bool" where
  "is_dlist h l xs \<longleftrightarrow> distinct xs \<and> dchain h NULL xs NULL \<and>
     dl_head l = first_or xs NULL \<and> dl_tail l = last_or NULL xs"

text \<open>
  The invariant of a list at rest: its links, its element count, and its mutex released.
\<close>

definition dlist_inv :: "dheap \<Rightarrow> dlist \<Rightarrow> addr list \<Rightarrow> bool" where
  "dlist_inv h l xs \<longleftrightarrow> is_dlist h l xs \<and> dl_size l = of_nat (length xs) \<and> \<not> dl_held l"

lemma is_dlistI:
  "distinct xs \<Longrightarrow> dchain h NULL xs NULL \<Longrightarrow> dl_head l = first_or xs NULL \<Longrightarrow>
   dl_tail l = last_or NULL xs \<Longrightarrow> is_dlist h l xs"
  by (simp add: is_dlist_def)

lemma is_dlistD:
  assumes "is_dlist h l xs"
  shows "distinct xs" "dchain h NULL xs NULL" "dl_head l = first_or xs NULL"
    "dl_tail l = last_or NULL xs" "NULL \<notin> set xs"
  using assms dchain_NULL by (auto simp: is_dlist_def)

lemma is_dlist_frame: "(\<And>a. a \<in> set xs \<Longrightarrow> h' a = h a) \<Longrightarrow> is_dlist h' l xs = is_dlist h l xs"
  by (simp add: is_dlist_def dchain_frame [of xs h' h])

lemma dlist_inv_frame: "(\<And>a. a \<in> set xs \<Longrightarrow> h' a = h a) \<Longrightarrow> dlist_inv h' l xs = dlist_inv h l xs"
  by (simp add: dlist_inv_def is_dlist_frame [of xs h' h])

lemma is_dlist_fields:
  "dl_head l' = dl_head l \<Longrightarrow> dl_tail l' = dl_tail l \<Longrightarrow> is_dlist h l' xs = is_dlist h l xs"
  by (simp add: is_dlist_def)

lemma is_dlist_head_iff: "is_dlist h l xs \<Longrightarrow> dl_head l = NULL \<longleftrightarrow> xs = []"
  using first_or_eq_NULL_iff is_dlistD(3,5) by metis

lemma is_dlist_tail_iff: "is_dlist h l xs \<Longrightarrow> dl_tail l = NULL \<longleftrightarrow> xs = []"
  using last_or_eq_NULL_iff is_dlistD(4,5) by metis

lemma schain_unique: "schain h p xs \<Longrightarrow> schain h p ys \<Longrightarrow> xs = ys"
proof (induction xs arbitrary: p ys)
  case (Cons x xs)
  then show ?case by (cases ys) auto
qed simp

text \<open>The nodes of a list are determined by the heap and the header.\<close>

lemma is_dlist_unique: "is_dlist h l xs \<Longrightarrow> is_dlist h l ys \<Longrightarrow> xs = ys"
  by (metis dchain_schain is_dlist_def schain_unique)

end
