(* ===== verification/DLinkedList.thy ===== *)
theory DLinkedList
  imports DListHeap
begin

text \<open>
  The doubly linked list of libbrb_core/data/core/dlinked_list.c, operation by operation: every
  load and store of the source is a checked heap access, \<open>MUTEX_LOCK\<close> under \<open>thread_safe\<close> is
  \<open>dl_lock\<close>, and a list argument is the header structure itself (so the \<open>!list\<close> tests of the
  source, which ask whether the pointer to it is null, are always false). Loops that chase
  pointers take fuel; the lemmas show that the length of the list is enough.
\<close>

section \<open>Locking\<close>

definition dl_lock :: "dlist \<Rightarrow> dlist result" where
  "dl_lock l = and_then (mutex_lock (dl_thread_safe l) (dl_held l)) (\<lambda>b. Inr (l\<lparr>dl_held := b\<rparr>))"

definition dl_unlock :: "dlist \<Rightarrow> dlist" where
  "dl_unlock l = l\<lparr>dl_held := mutex_unlock (dl_thread_safe l) (dl_held l)\<rparr>"

section \<open>Initialisation\<close>

definition DLinkedListInit :: "bool \<Rightarrow> dlist" where
  "DLinkedListInit thread_safe =
     \<lparr>dl_head = NULL, dl_tail = NULL, dl_held = False, dl_size = 0, dl_thread_safe = thread_safe\<rparr>"

definition DLinkedListReset :: "dlist \<Rightarrow> dlist" where
  "DLinkedListReset l = l\<lparr>dl_held := False, dl_head := NULL, dl_tail := NULL, dl_size := 0\<rparr>"

section \<open>Linking at the ends\<close>

text \<open>The statements every insertion at the head shares, from \<open>node->prev = NULL\<close> on.\<close>

definition dl_link_head :: "dheap \<Rightarrow> dlist \<Rightarrow> addr \<Rightarrow> (dheap \<times> dlist) result" where
  "dl_link_head h l node =
     and_then (set_prev h node NULL) (\<lambda>h.
     and_then (set_next h node (dl_head l)) (\<lambda>h.
     and_then (if dl_head l \<noteq> NULL then set_prev h (dl_head l) node else Inr h) (\<lambda>h.
     let l = l\<lparr>dl_head := node\<rparr>;
         l = (if dl_tail l = NULL then l\<lparr>dl_tail := node\<rparr> else l)
     in Inr (h, l))))"

definition dl_link_tail :: "dheap \<Rightarrow> dlist \<Rightarrow> addr \<Rightarrow> (dheap \<times> dlist) result" where
  "dl_link_tail h l node =
     and_then (set_next h node NULL) (\<lambda>h.
     and_then (set_prev h node (dl_tail l)) (\<lambda>h.
     and_then (if dl_tail l \<noteq> NULL then set_next h (dl_tail l) node else Inr h) (\<lambda>h.
     let l = l\<lparr>dl_tail := node\<rparr>;
         l = (if dl_head l = NULL then l\<lparr>dl_head := node\<rparr> else l)
     in Inr (h, l))))"

definition dl_inc :: "dlist \<Rightarrow> dlist" where
  "dl_inc l = l\<lparr>dl_size := dl_size l + 1\<rparr>"

definition dl_dec :: "dlist \<Rightarrow> dlist" where
  "dl_dec l = l\<lparr>dl_size := dl_size l - 1\<rparr>"

definition DLinkedListAddUnsafe :: "dheap \<Rightarrow> dlist \<Rightarrow> addr \<Rightarrow> addr \<Rightarrow> (dheap \<times> dlist) result" where
  "DLinkedListAddUnsafe h l node d =
     and_then (set_data h node d) (\<lambda>h.
     and_then (dl_link_head h l node) (\<lambda>(h, l).
     Inr (h, dl_inc l)))"

definition DLinkedListAdd :: "dheap \<Rightarrow> dlist \<Rightarrow> addr \<Rightarrow> addr \<Rightarrow> (dheap \<times> dlist) result" where
  "DLinkedListAdd h l node d =
     and_then (dl_lock l) (\<lambda>l.
     and_then (set_data h node d) (\<lambda>h.
     and_then (dl_link_head h l node) (\<lambda>(h, l).
     Inr (h, dl_unlock (dl_inc l)))))"

definition DLinkedListAddHead :: "dheap \<Rightarrow> dlist \<Rightarrow> addr \<Rightarrow> addr \<Rightarrow> (dheap \<times> dlist) result" where
  "DLinkedListAddHead h l node d = DLinkedListAdd h l node d"

definition DLinkedListAddTail :: "dheap \<Rightarrow> dlist \<Rightarrow> addr \<Rightarrow> addr \<Rightarrow> (dheap \<times> dlist) result" where
  "DLinkedListAddTail h l node d =
     and_then (dl_lock l) (\<lambda>l.
     and_then (set_data h node d) (\<lambda>h.
     and_then (dl_link_tail h l node) (\<lambda>(h, l).
     Inr (h, dl_unlock (dl_inc l)))))"

text \<open>The debug insertions first walk the list and assert that the node is not in it.\<close>

fun dl_assert_absent :: "nat \<Rightarrow> dheap \<Rightarrow> addr \<Rightarrow> addr \<Rightarrow> unit result" where
  "dl_assert_absent fuel h aux node =
     (if aux = NULL then Inr ()
      else case fuel of 0 \<Rightarrow> Inl FuelOut
      | Suc k \<Rightarrow> and_then (assert_c (aux \<noteq> node)) (\<lambda>_.
          and_then (get_next h aux) (\<lambda>nx. dl_assert_absent k h nx node)))"

declare dl_assert_absent.simps [simp del]

definition DLinkedListAddDebug :: "nat \<Rightarrow> dheap \<Rightarrow> dlist \<Rightarrow> addr \<Rightarrow> addr \<Rightarrow> (dheap \<times> dlist) result" where
  "DLinkedListAddDebug fuel h l node d =
     and_then (dl_lock l) (\<lambda>l.
     and_then (dl_assert_absent fuel h (dl_head l) node) (\<lambda>_.
     and_then (set_data h node d) (\<lambda>h.
     and_then (dl_link_head h l node) (\<lambda>(h, l).
     Inr (h, dl_unlock (dl_inc l))))))"

definition DLinkedListAddTailDebug :: "nat \<Rightarrow> dheap \<Rightarrow> dlist \<Rightarrow> addr \<Rightarrow> addr \<Rightarrow> (dheap \<times> dlist) result" where
  "DLinkedListAddTailDebug fuel h l node d =
     and_then (dl_lock l) (\<lambda>l.
     and_then (dl_assert_absent fuel h (dl_head l) node) (\<lambda>_.
     and_then (set_data h node d) (\<lambda>h.
     and_then (dl_link_tail h l node) (\<lambda>(h, l).
     Inr (h, dl_unlock (dl_inc l))))))"

section \<open>Insertion next to a node\<close>

definition DLinkedListAddBefore ::
  "dheap \<Rightarrow> dlist \<Rightarrow> addr \<Rightarrow> addr \<Rightarrow> addr \<Rightarrow> (dheap \<times> dlist) result" where
  "DLinkedListAddBefore h l node_pos node_new d =
     (if node_pos = NULL \<or> node_new = NULL \<or> d = NULL then Inr (h, l)
      else and_then (dl_lock l) (\<lambda>l.
      and_then (set_data h node_new d) (\<lambda>h.
      and_then (get_prev h node_pos) (\<lambda>pv.
      and_then (set_prev h node_new pv) (\<lambda>h.
      and_then (set_next h node_new node_pos) (\<lambda>h.
      and_then (set_prev h node_pos node_new) (\<lambda>h.
      and_then (get_prev h node_new) (\<lambda>pv.
      and_then (if pv \<noteq> NULL then set_next h pv node_new else Inr h) (\<lambda>h.
      let l = (if dl_head l = NULL then l\<lparr>dl_head := node_new\<rparr>
               else if dl_head l = node_pos then l\<lparr>dl_head := node_new\<rparr> else l);
          l = (if dl_tail l = NULL then l\<lparr>dl_tail := node_new\<rparr> else l)
      in Inr (h, dl_unlock l))))))))))"

definition DLinkedListAddAfter ::
  "dheap \<Rightarrow> dlist \<Rightarrow> addr \<Rightarrow> addr \<Rightarrow> addr \<Rightarrow> (dheap \<times> dlist) result" where
  "DLinkedListAddAfter h l node_pos node_new d =
     (if node_pos = NULL \<or> node_new = NULL \<or> d = NULL then Inr (h, l)
      else and_then (dl_lock l) (\<lambda>l.
      and_then (set_data h node_new d) (\<lambda>h.
      and_then (set_prev h node_new node_pos) (\<lambda>h.
      and_then (get_next h node_pos) (\<lambda>nx.
      and_then (set_next h node_new nx) (\<lambda>h.
      and_then (set_next h node_pos node_new) (\<lambda>h.
      and_then (get_next h node_new) (\<lambda>nx.
      and_then (if nx \<noteq> NULL then set_prev h nx node_new else Inr h) (\<lambda>h.
      let l = (if dl_head l = NULL then l\<lparr>dl_head := node_new\<rparr> else l);
          l = (if dl_tail l = NULL then l\<lparr>dl_tail := node_new\<rparr>
               else if dl_tail l = node_pos then l\<lparr>dl_tail := node_new\<rparr> else l)
      in Inr (h, dl_unlock l))))))))))"

section \<open>Insertion at a position\<close>

text \<open>
  The walk of \<open>DLinkedListAddPos\<close>. \<open>None\<close> is the jump to \<open>add_tail\<close> (the list ended before
  the position was reached); \<open>Some\<close> is the heap after the node was linked in at its position.
\<close>

fun dl_addpos_walk ::
  "nat \<Rightarrow> dheap \<Rightarrow> addr \<Rightarrow> 32 word \<Rightarrow> 64 word \<Rightarrow> addr \<Rightarrow> dheap option result" where
  "dl_addpos_walk fuel h node_ptr i pos node =
     (if node_ptr = NULL then Inr None
      else if pos = ucast i then
        and_then (get_prev h node_ptr) (\<lambda>pv.
        and_then (if pv \<noteq> NULL then set_next h pv node else Inr h) (\<lambda>h.
        and_then (set_next h node node_ptr) (\<lambda>h.
        and_then (get_prev h node_ptr) (\<lambda>pv.
        and_then (set_prev h node pv) (\<lambda>h.
        and_then (set_prev h node_ptr node) (\<lambda>h.
        Inr (Some h)))))))
      else case fuel of 0 \<Rightarrow> Inl FuelOut
      | Suc k \<Rightarrow> and_then (get_next h node_ptr) (\<lambda>nx. dl_addpos_walk k h nx (i + 1) pos node))"

declare dl_addpos_walk.simps [simp del]

definition DLinkedListAddPos ::
  "nat \<Rightarrow> dheap \<Rightarrow> dlist \<Rightarrow> 64 word \<Rightarrow> addr \<Rightarrow> addr \<Rightarrow> (dheap \<times> dlist) result" where
  "DLinkedListAddPos fuel h l pos node d =
     and_then (dl_lock l) (\<lambda>l.
     let add_head = and_then (set_data h node d) (\<lambda>h.
           and_then (dl_link_head h l node) (\<lambda>(h, l). Inr (h, dl_unlock (dl_inc l))));
         add_tail = and_then (set_data h node d) (\<lambda>h.
           and_then (dl_link_tail h l node) (\<lambda>(h, l). Inr (h, dl_unlock (dl_inc l))))
     in if pos \<le> 0 then add_head
        else if dl_size l \<le> pos then add_tail
        else and_then (dl_addpos_walk fuel h (dl_head l) 0 pos node) (\<lambda>r.
          case r of None \<Rightarrow> add_tail | Some h \<Rightarrow> Inr (h, dl_unlock l)))"

section \<open>Removal\<close>

text \<open>
  The unlinking statements shared by \<open>DLinkedListDelete\<close>, \<open>DLinkedListPopHead\<close> and the two move
  operations: each \<open>node->next\<close> and \<open>node->prev\<close> is read again where the source reads it.
\<close>

definition dl_unlink :: "dheap \<Rightarrow> dlist \<Rightarrow> addr \<Rightarrow> (dheap \<times> dlist) result" where
  "dl_unlink h l node =
     and_then (get_next h node) (\<lambda>nx. and_then (get_prev h node) (\<lambda>pv.
     and_then (if nx \<noteq> NULL then set_prev h nx pv else Inr h) (\<lambda>h.
     and_then (get_prev h node) (\<lambda>pv. and_then (get_next h node) (\<lambda>nx.
     and_then (if pv \<noteq> NULL then set_next h pv nx else Inr h) (\<lambda>h.
     and_then (get_next h node) (\<lambda>nx. and_then (get_prev h node) (\<lambda>pv.
     let l = (if node = dl_head l then l\<lparr>dl_head := nx\<rparr> else l);
         l = (if node = dl_tail l then l\<lparr>dl_tail := pv\<rparr> else l)
     in Inr (h, l)))))))))"

definition dl_is_orphan :: "dheap \<Rightarrow> dlist \<Rightarrow> addr \<Rightarrow> bool result" where
  "dl_is_orphan h l node =
     (if dl_head l \<noteq> node then and_then (load h node) (\<lambda>n. Inr (dn_next n = NULL \<and> dn_prev n = NULL))
      else Inr False)"

definition DLinkedListDelete :: "dheap \<Rightarrow> dlist \<Rightarrow> addr \<Rightarrow> (dheap \<times> dlist) result" where
  "DLinkedListDelete h l node =
     and_then (dl_lock l) (\<lambda>l.
     and_then (dl_is_orphan h l node) (\<lambda>orphan.
     if orphan then Inr (h, dl_unlock l)
     else and_then (dl_unlink h l node) (\<lambda>(h, l).
       let l = dl_dec l in
       and_then (set_next h node NULL) (\<lambda>h.
       and_then (set_prev h node NULL) (\<lambda>h.
       Inr (h, dl_unlock l))))))"

fun dl_find :: "nat \<Rightarrow> dheap \<Rightarrow> addr \<Rightarrow> addr \<Rightarrow> bool result" where
  "dl_find fuel h aux node =
     (if aux = NULL then Inr False
      else if aux = node then Inr True
      else case fuel of 0 \<Rightarrow> Inl FuelOut
      | Suc k \<Rightarrow> and_then (get_next h aux) (\<lambda>nx. dl_find k h nx node))"

declare dl_find.simps [simp del]

definition DLinkedListDeleteDebug :: "nat \<Rightarrow> dheap \<Rightarrow> dlist \<Rightarrow> addr \<Rightarrow> (dheap \<times> dlist) result" where
  "DLinkedListDeleteDebug fuel h l node =
     and_then (dl_lock l) (\<lambda>l.
     and_then (dl_find fuel h (dl_head l) node) (\<lambda>found.
     and_then (assert_c found) (\<lambda>_.
     and_then (dl_is_orphan h l node) (\<lambda>orphan.
     if orphan then Inr (h, dl_unlock l)
     else and_then (dl_unlink h l node) (\<lambda>(h, l).
       let l = dl_dec l in
       and_then (set_prev h node NULL) (\<lambda>h.
       and_then (set_next h node NULL) (\<lambda>h.
       Inr (h, dl_unlock l))))))))"

text \<open>The pops return the payload of the node, \<open>NULL\<close> when the list is empty.\<close>

definition DLinkedListPopHead :: "dheap \<Rightarrow> dlist \<Rightarrow> (dheap \<times> dlist \<times> addr) result" where
  "DLinkedListPopHead h l =
     and_then (dl_lock l) (\<lambda>l.
     if dl_head l = NULL then Inr (h, dl_unlock l, NULL)
     else let node = dl_head l in
       and_then (dl_unlink h l node) (\<lambda>(h, l).
       and_then (set_prev h node NULL) (\<lambda>h.
       and_then (set_next h node NULL) (\<lambda>h.
       let l = dl_unlock (dl_dec l) in
       and_then (get_data h node) (\<lambda>d. Inr (h, l, d))))))"

definition DLinkedListPopTail :: "dheap \<Rightarrow> dlist \<Rightarrow> (dheap \<times> dlist \<times> addr) result" where
  "DLinkedListPopTail h l =
     and_then (dl_lock l) (\<lambda>l.
     if dl_tail l = NULL then Inr (h, dl_unlock l, NULL)
     else let node = dl_tail l;
              l = (if node = dl_head l then l\<lparr>dl_head := NULL, dl_tail := NULL\<rparr> else l) in
       and_then (get_prev h node) (\<lambda>pv.
       and_then (if pv \<noteq> NULL then set_next h pv NULL else Inr h) (\<lambda>h.
       and_then (get_prev h node) (\<lambda>pv.
       let l = l\<lparr>dl_tail := pv\<rparr> in
       and_then (set_next h node NULL) (\<lambda>h.
       and_then (set_prev h node NULL) (\<lambda>h.
       let l = dl_unlock (dl_dec l) in
       and_then (get_data h node) (\<lambda>d. Inr (h, l, d))))))))"

section \<open>Moving a node to an end\<close>

definition DLinkedListMoveToTail :: "dheap \<Rightarrow> dlist \<Rightarrow> addr \<Rightarrow> (dheap \<times> dlist) result" where
  "DLinkedListMoveToTail h l node =
     and_then (dl_lock l) (\<lambda>l.
     if node = dl_tail l then Inr (h, dl_unlock l)
     else and_then (dl_is_orphan h l node) (\<lambda>orphan.
       and_then (if orphan then Inr (h, l) else dl_unlink h l node) (\<lambda>(h, l).
       and_then (dl_link_tail h l node) (\<lambda>(h, l).
       Inr (h, dl_unlock l)))))"

definition DLinkedListMoveToHead :: "dheap \<Rightarrow> dlist \<Rightarrow> addr \<Rightarrow> (dheap \<times> dlist) result" where
  "DLinkedListMoveToHead h l node =
     and_then (dl_lock l) (\<lambda>l.
     if node = dl_head l then Inr (h, dl_unlock l)
     else and_then (dl_is_orphan h l node) (\<lambda>orphan.
       and_then (if orphan then Inr (h, l) else dl_unlink h l node) (\<lambda>(h, l).
       and_then (dl_link_head h l node) (\<lambda>(h, l).
       Inr (h, dl_unlock l)))))"

section \<open>Callbacks\<close>

text \<open>
  A comparison or filter function is handed a node. The model gives it the node's address and
  its payload: it may look at both, but not at the links, which are in flux while the list is
  being sorted.
\<close>

type_synonym dnode_view = "addr \<times> addr"

definition node_view :: "dheap \<Rightarrow> addr \<Rightarrow> dnode_view result" where
  "node_view h a = and_then (get_data h a) (\<lambda>d. Inr (a, d))"

section \<open>Allocation\<close>

text \<open>
  \<open>calloc\<close> is outside the sources: the addresses its successive calls return are an argument,
  a null address (or the end of the list) being a failed allocation.
\<close>

definition calloc_node :: "dheap \<Rightarrow> addr list \<Rightarrow> dheap \<times> addr list \<times> addr" where
  "calloc_node h al = (case al of [] \<Rightarrow> (h, [], NULL)
     | a # al' \<Rightarrow> if a = NULL then (h, al', NULL)
         else (h(a \<mapsto> \<lparr>dn_data = NULL, dn_prev = NULL, dn_next = NULL\<rparr>), al', a))"

section \<open>Duplication\<close>

text \<open>
  The loop of the four duplicating operations. \<open>skip\<close> is the test that leaves a node out, \<open>add\<close>
  the insertion used.
\<close>

fun dl_dup_loop :: "(dnode_view \<Rightarrow> bool) \<Rightarrow> (dheap \<Rightarrow> dlist \<Rightarrow> addr \<Rightarrow> addr \<Rightarrow> (dheap \<times> dlist) result) \<Rightarrow>
  nat \<Rightarrow> dheap \<Rightarrow> addr list \<Rightarrow> addr \<Rightarrow> dlist \<Rightarrow> (dheap \<times> addr list \<times> dlist) result" where
  "dl_dup_loop skip add fuel h al node ret =
     (if node = NULL then Inr (h, al, ret)
      else case fuel of 0 \<Rightarrow> Inl FuelOut
      | Suc k \<Rightarrow> and_then (node_view h node) (\<lambda>v.
          and_then (if skip v then Inr (h, al, ret)
             else let (h, al, new) = calloc_node h al in
               and_then (get_data h node) (\<lambda>d.
               and_then (set_data h new d) (\<lambda>h.
               and_then (get_data h new) (\<lambda>d.
               and_then (add h ret new d) (\<lambda>(h, ret).
               Inr (h, al, ret)))))) (\<lambda>(h, al, ret).
          and_then (get_next h node) (\<lambda>nx.
          dl_dup_loop skip add k h al nx ret))))"

declare dl_dup_loop.simps [simp del]

text \<open>A null filter function skips every node.\<close>

definition dl_filtered :: "(dnode_view \<Rightarrow> int) option \<Rightarrow> dnode_view \<Rightarrow> bool" where
  "dl_filtered f v = (case f of None \<Rightarrow> True | Some g \<Rightarrow> g v \<noteq> 0)"

definition DLinkedListDup :: "nat \<Rightarrow> dheap \<Rightarrow> addr list \<Rightarrow> dlist \<Rightarrow> dlist \<Rightarrow>
  (dheap \<times> addr list \<times> dlist \<times> dlist) result" where
  "DLinkedListDup fuel h al l ret =
     and_then (dl_lock l) (\<lambda>l.
     and_then (dl_dup_loop (\<lambda>_. False) DLinkedListAdd fuel h al (dl_head l) ret) (\<lambda>(h, al, ret).
     Inr (h, al, dl_unlock l, ret)))"

definition DLinkedListDupFilter :: "(dnode_view \<Rightarrow> int) option \<Rightarrow> nat \<Rightarrow> dheap \<Rightarrow> addr list \<Rightarrow> dlist \<Rightarrow> dlist \<Rightarrow>
  (dheap \<times> addr list \<times> dlist \<times> dlist) result" where
  "DLinkedListDupFilter f fuel h al l ret =
     and_then (dl_lock l) (\<lambda>l.
     and_then (dl_dup_loop (dl_filtered f) DLinkedListAdd fuel h al (dl_head l) ret) (\<lambda>(h, al, ret).
     Inr (h, al, dl_unlock l, ret)))"

definition DLinkedListDupUnsafe :: "nat \<Rightarrow> dheap \<Rightarrow> addr list \<Rightarrow> dlist \<Rightarrow> dlist \<Rightarrow>
  (dheap \<times> addr list \<times> dlist) result" where
  "DLinkedListDupUnsafe fuel h al l ret = dl_dup_loop (\<lambda>_. False) DLinkedListAdd fuel h al (dl_head l) ret"

definition DLinkedListDupFilterUnsafe :: "(dnode_view \<Rightarrow> int) option \<Rightarrow> nat \<Rightarrow> dheap \<Rightarrow> addr list \<Rightarrow> dlist \<Rightarrow> dlist \<Rightarrow>
  (dheap \<times> addr list \<times> dlist) result" where
  "DLinkedListDupFilterUnsafe f fuel h al l ret =
     dl_dup_loop (dl_filtered f) DLinkedListAddUnsafe fuel h al (dl_head l) ret"

section \<open>Emptying a list\<close>

definition free_node :: "dheap \<Rightarrow> addr \<Rightarrow> dheap" where
  "free_node h p = h(p := None)"

text \<open>
  Both loops save the successor, delete the node from the list and free it;
  \<open>DLinkedListDestroyData\<close> frees the payload as well, which is recorded in \<open>freed\<close>.
\<close>

fun dl_clean_loop :: "bool \<Rightarrow> nat \<Rightarrow> dheap \<Rightarrow> dlist \<Rightarrow> addr \<Rightarrow> addr list \<Rightarrow> (dheap \<times> dlist \<times> addr list) result" where
  "dl_clean_loop with_data fuel h l node freed =
     (if node = NULL then Inr (h, l, freed)
      else case fuel of 0 \<Rightarrow> Inl FuelOut
      | Suc k \<Rightarrow> and_then (get_next h node) (\<lambda>nx.
          and_then (DLinkedListDelete h l node) (\<lambda>(h, l).
          and_then (if with_data then and_then (get_data h node) (\<lambda>d. Inr (freed @ [d])) else Inr freed) (\<lambda>freed.
          dl_clean_loop with_data k (free_node h node) l nx freed))))"

declare dl_clean_loop.simps [simp del]

definition DLinkedListClean :: "nat \<Rightarrow> dheap \<Rightarrow> dlist \<Rightarrow> (dheap \<times> dlist) result" where
  "DLinkedListClean fuel h l =
     and_then (dl_lock l) (\<lambda>l.
     and_then (dl_clean_loop False fuel h l (dl_head l) []) (\<lambda>(h, l, _).
     Inr (h, dl_unlock l)))"

definition DLinkedListDestroyData :: "nat \<Rightarrow> dheap \<Rightarrow> dlist \<Rightarrow> (dheap \<times> dlist \<times> addr list) result" where
  "DLinkedListDestroyData fuel h l =
     and_then (dl_lock l) (\<lambda>l.
     and_then (dl_clean_loop True fuel h l (dl_head l) []) (\<lambda>(h, l, freed).
     Inr (h, dl_unlock l, freed)))"

end
