(* ===== verification/DLinkedListProps.thy ===== *)
theory DLinkedListProps
  imports DLinkedList
begin

text \<open>
  Functional correctness of the list operations. Each lemma says that on a well-formed list the
  operation does not fault, gives the well-formed list with the expected node sequence, changes
  payloads only where it should (\<open>dview\<close>) and leaves every node outside the list and outside
  its arguments untouched (\<open>frame_out\<close>), so lists that share memory do not disturb each other.
\<close>

section \<open>Frames\<close>

definition frame_out :: "addr set \<Rightarrow> dheap \<Rightarrow> dheap \<Rightarrow> bool" where
  "frame_out A h h' \<longleftrightarrow> (\<forall>a. a \<notin> A \<longrightarrow> h' a = h a)"

definition keeps :: "dlist \<Rightarrow> dlist \<Rightarrow> bool" where
  "keeps l l' \<longleftrightarrow> dl_size l' = dl_size l \<and> dl_held l' = dl_held l \<and> dl_thread_safe l' = dl_thread_safe l"

lemma frame_outD: "frame_out A h h' \<Longrightarrow> a \<notin> A \<Longrightarrow> h' a = h a"
  by (simp add: frame_out_def)

lemma frame_out_refl [simp]: "frame_out A h h"
  by (simp add: frame_out_def)

lemma frame_out_mono: "frame_out A h h' \<Longrightarrow> A \<subseteq> B \<Longrightarrow> frame_out B h h'"
  by (auto simp: frame_out_def)

lemma frame_out_trans: "frame_out A h h' \<Longrightarrow> frame_out A h' h'' \<Longrightarrow> frame_out A h h''"
  by (auto simp: frame_out_def)

lemma frame_out_upd [simp]: "p \<in> A \<Longrightarrow> frame_out A h (h'(p := v)) = frame_out A h h'"
  by (auto simp: frame_out_def)

lemma frame_out_relink [simp]:
  "set bs \<subseteq> A \<Longrightarrow> frame_out A h (relink_prev h' bs v) = frame_out A h h'"
  "set as \<subseteq> A \<Longrightarrow> frame_out A h (relink_next h' as v) = frame_out A h h'"
proof -
  assume "set bs \<subseteq> A"
  then have "a \<notin> A \<Longrightarrow> relink_prev h' bs v a = h' a" for a by (intro relink_out) auto
  then show "frame_out A h (relink_prev h' bs v) = frame_out A h h'" by (simp add: frame_out_def)
next
  assume "set as \<subseteq> A"
  then have "a \<notin> A \<Longrightarrow> relink_next h' as v a = h' a" for a by (intro relink_out) auto
  then show "frame_out A h (relink_next h' as v) = frame_out A h h'" by (simp add: frame_out_def)
qed

lemma is_dlist_frame_out:
  "frame_out A h h' \<Longrightarrow> set xs \<inter> A = {} \<Longrightarrow> is_dlist h' l xs = is_dlist h l xs"
  by (rule is_dlist_frame) (auto simp: frame_out_def)

lemma dlist_inv_frame_out:
  "frame_out A h h' \<Longrightarrow> set xs \<inter> A = {} \<Longrightarrow> dlist_inv h' l xs = dlist_inv h l xs"
  by (rule dlist_inv_frame) (auto simp: frame_out_def)

lemma schain_frame_out:
  "frame_out A h h' \<Longrightarrow> set xs \<inter> A = {} \<Longrightarrow> schain h' p xs = schain h p xs"
  by (rule schain_frame) (auto simp: frame_out_def)

lemma is_dlist_upd_out [simp]: "a \<notin> set xs \<Longrightarrow> is_dlist (h(a := v)) l xs = is_dlist h l xs"
  by (rule is_dlist_frame) auto

lemma dlist_inv_upd_out [simp]: "a \<notin> set xs \<Longrightarrow> dlist_inv (h(a := v)) l xs = dlist_inv h l xs"
  by (simp add: dlist_inv_def)

lemma dview_frame: "dview h' = dview h \<Longrightarrow> h a = None \<longleftrightarrow> h' a = None"
  by (metis dview_def map_option_is_None)

section \<open>Locks\<close>

lemma dl_lock_free: "\<not> dl_held l \<Longrightarrow> dl_lock l = Inr (l\<lparr>dl_held := dl_thread_safe l\<rparr>)"
  by (simp add: dl_lock_def)

lemma dl_unlock_locked: "dl_held l = dl_thread_safe l \<Longrightarrow> dl_unlock l = l\<lparr>dl_held := False\<rparr>"
  by (simp add: dl_unlock_def)

lemma dl_lock_held: "dl_thread_safe l \<Longrightarrow> dl_held l \<Longrightarrow> dl_lock l = Inl SelfDeadlock"
  by (simp add: dl_lock_def mutex_lock_def)

section \<open>Linking\<close>

lemma dl_link_head_spec:
  assumes "is_dlist h l xs" "h node = Some n" "node \<noteq> NULL" "node \<notin> set xs"
  obtains h' l' where "dl_link_head h l node = Inr (h', l')" "is_dlist h' l' (node # xs)"
    "keeps l l'" "dview h' = dview h" "frame_out (set (node # xs)) h h'"
proof -
  note d = is_dlistD [OF assms(1)]
  define h1 where "h1 = h(node \<mapsto> n\<lparr>dn_prev := NULL, dn_next := dl_head l\<rparr>)"
  define h' where "h' = relink_prev h1 xs node"
  define l' where "l' = (let l = l\<lparr>dl_head := node\<rparr> in if dl_tail l = NULL then l\<lparr>dl_tail := node\<rparr> else l)"
  have c1: "dchain h1 NULL xs NULL" using d assms(4) by (simp add: h1_def)
  have "dchain h' node xs NULL"
    using dchain_relink_prev [OF c1 d(1)] by (simp add: h'_def)
  moreover have "h' node = Some (n\<lparr>dn_prev := NULL, dn_next := first_or xs NULL\<rparr>)"
    using assms(4) d(3) by (simp add: h'_def h1_def)
  ultimately have "dchain h' NULL (node # xs) NULL" using assms(3) by simp
  moreover have "dl_head l' = node" "dl_tail l' = last_or NULL (node # xs)"
    using is_dlist_tail_iff [OF assms(1)] d(4)
    by (auto simp: l'_def Let_def last_or_def)
  ultimately have "is_dlist h' l' (node # xs)" using d(1) assms(4) by (simp add: is_dlist_def)
  moreover have "dl_link_head h l node = Inr (h', l')"
    using assms(2,3) set_prev_relink [OF c1 d(3), of node]
    by (simp add: dl_link_head_def flip: h1_def h'_def split del: if_split) (simp add: l'_def Let_def)
  moreover have "dview h' = dview h" "frame_out (set (node # xs)) h h'"
    using assms(2) by (simp_all add: h'_def h1_def subset_insertI)
  moreover have "keeps l l'" by (simp add: l'_def keeps_def Let_def)
  ultimately show ?thesis using that by blast
qed

lemma dl_link_tail_spec:
  assumes "is_dlist h l xs" "h node = Some n" "node \<noteq> NULL" "node \<notin> set xs"
  obtains h' l' where "dl_link_tail h l node = Inr (h', l')" "is_dlist h' l' (xs @ [node])"
    "keeps l l'" "dview h' = dview h" "frame_out (set (node # xs)) h h'"
proof -
  note d = is_dlistD [OF assms(1)]
  define h1 where "h1 = h(node \<mapsto> n\<lparr>dn_next := NULL, dn_prev := dl_tail l\<rparr>)"
  define h' where "h' = relink_next h1 xs node"
  define l' where "l' = (let l = l\<lparr>dl_tail := node\<rparr> in if dl_head l = NULL then l\<lparr>dl_head := node\<rparr> else l)"
  have c1: "dchain h1 NULL xs NULL" using d assms(4) by (simp add: h1_def)
  have "dchain h' NULL xs node"
    using dchain_relink_next [OF c1 d(1)] by (simp add: h'_def)
  moreover have "h' node = Some (n\<lparr>dn_next := NULL, dn_prev := last_or NULL xs\<rparr>)"
    using assms(4) d(4) by (simp add: h'_def h1_def)
  ultimately have "dchain h' NULL (xs @ [node]) NULL" using assms(3) by (simp add: dchain_append)
  moreover have "dl_tail l' = last_or NULL (xs @ [node])" by (simp add: l'_def Let_def)
  moreover have "dl_head l' = first_or (xs @ [node]) NULL"
  proof (cases xs)
    case (Cons a as)
    then show ?thesis using d(3,5) by (simp add: l'_def Let_def)
  qed (simp add: l'_def Let_def d(3))
  ultimately have "is_dlist h' l' (xs @ [node])" using d(1) assms(4) by (simp add: is_dlist_def)
  moreover have "dl_link_tail h l node = Inr (h', l')"
    using assms(2,3) set_next_relink [OF c1 d(4), of node]
    by (simp add: dl_link_tail_def flip: h1_def h'_def split del: if_split) (simp add: l'_def Let_def)
  moreover have "dview h' = dview h" "frame_out (set (node # xs)) h h'"
    using assms(2) by (simp_all add: h'_def h1_def subset_insertI)
  moreover have "keeps l l'" by (simp add: l'_def keeps_def Let_def)
  ultimately show ?thesis using that by blast
qed

section \<open>Unlinking\<close>

text \<open>Unlinking a node in the middle, at an end, or alone in the list, in one statement.\<close>

lemma dl_unlink_spec:
  assumes "is_dlist h l (as @ node # bs)"
  obtains h' l' where "dl_unlink h l node = Inr (h', l')" "is_dlist h' l' (as @ bs)"
    "keeps l l'" "dview h' = dview h" "frame_out (set (as @ bs)) h h'"
proof -
  note d = is_dlistD [OF assms]
  have ca: "dchain h NULL as node" and cb: "dchain h node bs NULL" and n0: "node \<noteq> NULL"
    and dist: "distinct as" "distinct bs" "set as \<inter> set bs = {}" "node \<notin> set as" "node \<notin> set bs"
    using d(1,2) by (auto simp: dchain_append)
  obtain n where n: "h node = Some n" "dn_prev n = last_or NULL as" "dn_next n = first_or bs NULL"
    using d(2) by (auto simp: dchain_append)
  define h1 where "h1 = relink_prev h bs (last_or NULL as)"
  define h' where "h' = relink_next h1 as (first_or bs NULL)"
  define l' where "l' = (let l = (if node = dl_head l then l\<lparr>dl_head := first_or bs NULL\<rparr> else l)
     in if node = dl_tail l then l\<lparr>dl_tail := last_or NULL as\<rparr> else l)"
  have hn: "h1 node = Some n" "h' node = Some n" using n(1) dist by (simp_all add: h1_def h'_def)
  have ca1: "dchain h1 NULL as node" using ca dist by (simp add: h1_def)
  have s1: "(if first_or bs NULL \<noteq> NULL then set_prev h (first_or bs NULL) (last_or NULL as) else Inr h) = Inr h1"
    unfolding h1_def by (rule set_prev_relink [OF cb refl])
  have s2: "(if last_or NULL as \<noteq> NULL then set_next h1 (last_or NULL as) (first_or bs NULL) else Inr h1) = Inr h'"
    unfolding h'_def by (rule set_next_relink [OF ca1 refl])
  have run: "dl_unlink h l node = Inr (h', l')"
    using n n0 hn by (simp add: dl_unlink_def s1 s2 split del: if_split) (simp add: l'_def Let_def)
  have "dchain h' NULL as (first_or bs NULL)"
    using dchain_relink_next [OF ca1 dist(1)] by (simp add: h'_def)
  moreover have "dchain h' (last_or NULL as) bs NULL"
    using dchain_relink_prev [OF cb dist(2)] dist by (simp add: h'_def h1_def Int_commute)
  ultimately have "dchain h' NULL (as @ bs) NULL" by (simp add: dchain_append)
  moreover have "dl_head l' = first_or (as @ bs) NULL"
    using d(3) dist by (cases as) (auto simp: l'_def Let_def)
  moreover have "dl_tail l' = last_or NULL (as @ bs)"
    using d(4) dist by (cases bs rule: rev_cases) (auto simp: l'_def Let_def last_or_append last_or_def)
  ultimately have "is_dlist h' l' (as @ bs)" using d(1) by (simp add: is_dlist_def)
  moreover have "keeps l l'" by (simp add: l'_def keeps_def Let_def)
  moreover have "dview h' = dview h" "frame_out (set (as @ bs)) h h'"
    by (simp_all add: h'_def h1_def)
  ultimately show ?thesis using run that by blast
qed

lemma dl_is_orphan_member:
  assumes "is_dlist h l xs" "node \<in> set xs"
  shows "dl_is_orphan h l node = Inr False"
proof -
  obtain as bs where xs: "xs = as @ node # bs" using assms(2) split_list by metis
  note d = is_dlistD [OF assms(1)]
  obtain n where n: "h node = Some n" "node \<noteq> NULL" "dn_prev n = last_or NULL as"
    using d(2) xs by (auto simp: dchain_append)
  have "dl_head l \<noteq> node \<Longrightarrow> as \<noteq> []" using d(3) xs by auto
  then have "dl_head l \<noteq> node \<Longrightarrow> dn_prev n \<noteq> NULL"
    using d(5) xs n(3) last_or_eq_NULL_iff [of as] by auto
  then show ?thesis using n by (simp add: dl_is_orphan_def)
qed

section \<open>Operations\<close>

text \<open>What one operation guarantees: the new node sequence and the new payloads.\<close>

definition list_step ::
  "dheap \<Rightarrow> dlist \<Rightarrow> addr set \<Rightarrow> dheap \<Rightarrow> dlist \<Rightarrow> addr list \<Rightarrow> (addr \<rightharpoonup> addr) \<Rightarrow> bool" where
  "list_step h l A h' l' xs' v \<longleftrightarrow> dlist_inv h' l' xs' \<and> dl_thread_safe l' = dl_thread_safe l \<and>
     dview h' = v \<and> frame_out A h h'"

lemma list_stepD:
  assumes "list_step h l A h' l' xs' v"
  shows "dlist_inv h' l' xs'" "dl_thread_safe l' = dl_thread_safe l" "dview h' = v" "frame_out A h h'"
  using assms by (simp_all add: list_step_def)

lemma dlist_invD:
  assumes "dlist_inv h l xs"
  shows "is_dlist h l xs" "dl_size l = of_nat (length xs)" "\<not> dl_held l"
  using assms by (simp_all add: dlist_inv_def)

lemma dlist_inv_locked:
  assumes "dlist_inv h l xs"
  shows "dl_lock l = Inr (l\<lparr>dl_held := dl_thread_safe l\<rparr>)"
    "is_dlist h (l\<lparr>dl_held := dl_thread_safe l\<rparr>) xs"
  using assms by (simp_all add: dlist_inv_def dl_lock_free is_dlist_def)

lemma dlist_inv_NULL: "dlist_inv h l xs \<Longrightarrow> NULL \<notin> set xs"
  by (auto simp: dlist_inv_def dest: is_dlistD(5))

lemma dlist_inv_distinct: "dlist_inv h l xs \<Longrightarrow> distinct xs"
  by (auto simp: dlist_inv_def dest: is_dlistD(1))

lemma dlist_inv_dom: "dlist_inv h l xs \<Longrightarrow> x \<in> set xs \<Longrightarrow> \<exists>n. h x = Some n"
  using dchain_dom dlist_invD(1) is_dlistD(2) by blast

text \<open>Releasing the mutex after the element count was raised, lowered or kept.\<close>

lemma list_step_intros:
  assumes "is_dlist h' l' xs'" "keeps (l\<lparr>dl_held := dl_thread_safe l\<rparr>) l'" "dl_size l = of_nat n"
    "dview h' = v" "frame_out A h h'"
  shows "length xs' = Suc n \<Longrightarrow> list_step h l A h' (dl_unlock (dl_inc l')) xs' v"
    "n = Suc (length xs') \<Longrightarrow> list_step h l A h' (dl_unlock (dl_dec l')) xs' v"
    "n = length xs' \<Longrightarrow> list_step h l A h' (dl_unlock l') xs' v"
  using assms by (auto simp: list_step_def dlist_inv_def dl_unlock_def dl_inc_def dl_dec_def
      keeps_def is_dlist_def mutex_unlock_def)

lemma DLinkedListAdd_spec:
  assumes inv: "dlist_inv h l xs" and node: "node \<in> dom h" "node \<noteq> NULL" "node \<notin> set xs"
  obtains h' l' where "DLinkedListAdd h l node d = Inr (h', l')"
    "list_step h l (set (node # xs)) h' l' (node # xs) ((dview h)(node \<mapsto> d))"
proof -
  obtain n where n: "h node = Some n" using node(1) by auto
  let ?l = "l\<lparr>dl_held := dl_thread_safe l\<rparr>" and ?h = "h(node \<mapsto> n\<lparr>dn_data := d\<rparr>)"
  have "is_dlist ?h ?l xs" using dlist_inv_locked(2) [OF inv] node(3) by simp
  then obtain h' l' where link: "dl_link_head ?h ?l node = Inr (h', l')" "is_dlist h' l' (node # xs)"
    "keeps ?l l'" "dview h' = dview ?h" "frame_out (set (node # xs)) ?h h'"
    using dl_link_head_spec [of ?h ?l xs node] node by (metis fun_upd_same)
  have "DLinkedListAdd h l node d = Inr (h', dl_unlock (dl_inc l'))"
    using dlist_inv_locked(1) [OF inv] n node(2) link(1) by (simp add: DLinkedListAdd_def)
  moreover have "frame_out (set (node # xs)) h h'" using link(5) by (auto simp: frame_out_def)
  ultimately show ?thesis using link dlist_invD(2) [OF inv]
    by (intro that) (auto intro!: list_step_intros(1) [where l' = l'])
qed

lemma DLinkedListAddTail_spec:
  assumes inv: "dlist_inv h l xs" and node: "node \<in> dom h" "node \<noteq> NULL" "node \<notin> set xs"
  obtains h' l' where "DLinkedListAddTail h l node d = Inr (h', l')"
    "list_step h l (set (node # xs)) h' l' (xs @ [node]) ((dview h)(node \<mapsto> d))"
proof -
  obtain n where n: "h node = Some n" using node(1) by auto
  let ?l = "l\<lparr>dl_held := dl_thread_safe l\<rparr>" and ?h = "h(node \<mapsto> n\<lparr>dn_data := d\<rparr>)"
  have "is_dlist ?h ?l xs" using dlist_inv_locked(2) [OF inv] node(3) by simp
  then obtain h' l' where link: "dl_link_tail ?h ?l node = Inr (h', l')" "is_dlist h' l' (xs @ [node])"
    "keeps ?l l'" "dview h' = dview ?h" "frame_out (set (node # xs)) ?h h'"
    using dl_link_tail_spec [of ?h ?l xs node] node by (metis fun_upd_same)
  have "DLinkedListAddTail h l node d = Inr (h', dl_unlock (dl_inc l'))"
    using dlist_inv_locked(1) [OF inv] n node(2) link(1) by (simp add: DLinkedListAddTail_def)
  moreover have "frame_out (set (node # xs)) h h'" using link(5) by (auto simp: frame_out_def)
  ultimately show ?thesis using link dlist_invD(2) [OF inv]
    by (intro that) (auto intro!: list_step_intros(1) [where l' = l'])
qed

lemma DLinkedListDelete_spec:
  assumes inv: "dlist_inv h l (as @ node # bs)"
  obtains h' l' where "DLinkedListDelete h l node = Inr (h', l')"
    "list_step h l (set (as @ node # bs)) h' l' (as @ bs) (dview h)"
    "h' node = Some \<lparr>dn_data = dn_data (the (h node)), dn_prev = NULL, dn_next = NULL\<rparr>"
proof -
  let ?l = "l\<lparr>dl_held := dl_thread_safe l\<rparr>"
  note lk = dlist_inv_locked [OF inv]
  obtain h1 l1 where un: "dl_unlink h ?l node = Inr (h1, l1)" "is_dlist h1 l1 (as @ bs)" "keeps ?l l1"
    "dview h1 = dview h" "frame_out (set (as @ bs)) h h1"
    using dl_unlink_spec [OF lk(2)] by blast
  have d: "distinct (as @ node # bs)" "node \<noteq> NULL"
    using dlist_inv_distinct [OF inv] dlist_inv_NULL [OF inv] by auto
  obtain n where n: "h node = Some n" using dlist_inv_dom [OF inv] by fastforce
  have n1: "h1 node = Some n" using un(5) d n by (simp add: frame_out_def)
  let ?h' = "h1(node \<mapsto> n\<lparr>dn_next := NULL, dn_prev := NULL\<rparr>)"
  have "dl_is_orphan h ?l node = Inr False" by (rule dl_is_orphan_member [OF lk(2)]) simp
  then have "DLinkedListDelete h l node = Inr (?h', dl_unlock (dl_dec l1))"
    using lk(1) un(1) d(2) n1 by (simp add: DLinkedListDelete_def)
  moreover have "list_step h l (set (as @ node # bs)) ?h' (dl_unlock (dl_dec l1)) (as @ bs) (dview h)"
  proof (rule list_step_intros(2))
    show "is_dlist ?h' l1 (as @ bs)" using un(2) d by simp
    show "dview ?h' = dview h" using un(4) n by simp
    show "frame_out (set (as @ node # bs)) h ?h'"
      using frame_out_mono [OF un(5), of "set (as @ node # bs)"] by (simp add: subset_insertI2)
  qed (use un(3) dlist_invD(2) [OF inv] in simp_all)
  moreover have "?h' node = Some \<lparr>dn_data = dn_data (the (h node)), dn_prev = NULL, dn_next = NULL\<rparr>"
    using n by simp
  ultimately show ?thesis by (rule that)
qed

lemma DLinkedListPopHead_spec:
  assumes inv: "dlist_inv h l (x # xs)"
  obtains h' l' where "DLinkedListPopHead h l = Inr (h', l', dn_data (the (h x)))"
    "list_step h l (set (x # xs)) h' l' xs (dview h)"
    "h' x = Some \<lparr>dn_data = dn_data (the (h x)), dn_prev = NULL, dn_next = NULL\<rparr>"
proof -
  let ?l = "l\<lparr>dl_held := dl_thread_safe l\<rparr>"
  note lk = dlist_inv_locked [OF inv]
  obtain h1 l1 where un: "dl_unlink h ?l x = Inr (h1, l1)" "is_dlist h1 l1 xs" "keeps ?l l1"
    "dview h1 = dview h" "frame_out (set xs) h h1"
    using dl_unlink_spec [of h ?l "[]" x xs] lk(2) by auto
  have d: "x \<notin> set xs" "x \<noteq> NULL" "dl_head l = x"
    using dlist_inv_distinct [OF inv] dlist_inv_NULL [OF inv] is_dlistD(3) [OF dlist_invD(1) [OF inv]]
    by auto
  obtain n where n: "h x = Some n" using dlist_inv_dom [OF inv] by fastforce
  have n1: "h1 x = Some n" using un(5) d n by (simp add: frame_out_def)
  let ?h' = "h1(x \<mapsto> n\<lparr>dn_prev := NULL, dn_next := NULL\<rparr>)"
  have "DLinkedListPopHead h l = Inr (?h', dl_unlock (dl_dec l1), dn_data (the (h x)))"
    using lk(1) un(1) d(2,3) n1 n by (simp add: DLinkedListPopHead_def Let_def)
  moreover have "list_step h l (set (x # xs)) ?h' (dl_unlock (dl_dec l1)) xs (dview h)"
  proof (rule list_step_intros(2))
    show "is_dlist ?h' l1 xs" using un(2) d by simp
    show "dview ?h' = dview h" using un(4) n by simp
    show "frame_out (set (x # xs)) h ?h'"
      using frame_out_mono [OF un(5), of "set (x # xs)"] by (simp add: subset_insertI)
  qed (use un(3) dlist_invD(2) [OF inv] in simp_all)
  moreover have "?h' x = Some \<lparr>dn_data = dn_data (the (h x)), dn_prev = NULL, dn_next = NULL\<rparr>"
    using n by simp
  ultimately show ?thesis by (rule that)
qed

lemma DLinkedListPopHead_empty:
  assumes inv: "dlist_inv h l []"
  shows "DLinkedListPopHead h l = Inr (h, l, NULL)" "DLinkedListPopTail h l = Inr (h, l, NULL)"
proof -
  have "dl_head l = NULL" "dl_tail l = NULL" "\<not> dl_held l"
    using inv by (auto simp: dlist_inv_def is_dlist_def)
  then show "DLinkedListPopHead h l = Inr (h, l, NULL)" "DLinkedListPopTail h l = Inr (h, l, NULL)"
    by (auto simp: DLinkedListPopHead_def DLinkedListPopTail_def dl_lock_free dl_unlock_def
        mutex_unlock_def intro: dlist.equality)
qed

text \<open>
  \<open>DLinkedListPopTail\<close> unlinks by hand: it clears the head when the node is the only one, then
  follows \<open>prev\<close>.
\<close>

lemma DLinkedListPopTail_spec:
  assumes inv: "dlist_inv h l (xs @ [x])"
  obtains h' l' where "DLinkedListPopTail h l = Inr (h', l', dn_data (the (h x)))"
    "list_step h l (set (xs @ [x])) h' l' xs (dview h)"
    "h' x = Some \<lparr>dn_data = dn_data (the (h x)), dn_prev = NULL, dn_next = NULL\<rparr>"
proof -
  let ?l = "l\<lparr>dl_held := dl_thread_safe l\<rparr>"
  note lk = dlist_inv_locked [OF inv]
  note d = is_dlistD [OF lk(2)]
  have x: "x \<notin> set xs" "x \<noteq> NULL" "dl_tail l = x" "distinct xs" using d by auto
  have c: "dchain h NULL xs x" using d(2) by (simp add: dchain_append)
  obtain n where n: "h x = Some n" "dn_prev n = last_or NULL xs" "dn_next n = NULL"
    using d(2) by (auto simp: dchain_append)
  let ?h1 = "relink_next h xs NULL"
  let ?h' = "?h1(x \<mapsto> n\<lparr>dn_next := NULL, dn_prev := NULL\<rparr>)"
  let ?l1 = "(if x = dl_head l then ?l\<lparr>dl_head := NULL, dl_tail := NULL\<rparr> else ?l)\<lparr>dl_tail := last_or NULL xs\<rparr>"
  have n1: "?h1 x = Some n" using n x by simp
  have s: "(if last_or NULL xs \<noteq> NULL then set_next h (last_or NULL xs) NULL else Inr h) = Inr ?h1"
    by (rule set_next_relink [OF c refl])
  have "DLinkedListPopTail h l = Inr (?h', dl_unlock (dl_dec ?l1), dn_data (the (h x)))"
    using lk(1) x(2,3) n n1 by (simp add: DLinkedListPopTail_def Let_def s split del: if_split)
  moreover have "list_step h l (set (xs @ [x])) ?h' (dl_unlock (dl_dec ?l1)) xs (dview h)"
  proof (rule list_step_intros(2))
    have "dl_head ?l1 = first_or xs NULL"
      using d(3) x by (cases xs) auto
    then show "is_dlist ?h' ?l1 xs"
      using dchain_relink_next [OF c x(4), of NULL] x by (simp add: is_dlist_def)
    show "keeps ?l ?l1" by (simp add: keeps_def)
    show "dview ?h' = dview h" using n by simp
    show "frame_out (set (xs @ [x])) h ?h'" by (simp add: subset_insertI)
  qed (use dlist_invD(2) [OF inv] in simp_all)
  moreover have "?h' x = Some \<lparr>dn_data = dn_data (the (h x)), dn_prev = NULL, dn_next = NULL\<rparr>"
    using n by simp
  ultimately show ?thesis by (rule that)
qed

section \<open>Moving\<close>

lemma list_step_still:
  assumes "dlist_inv h l xs"
  shows "list_step h l A h (dl_unlock (l\<lparr>dl_held := dl_thread_safe l\<rparr>)) xs (dview h)"
  using dlist_inv_locked(2) [OF assms] dlist_invD(2) [OF assms]
  by (intro list_step_intros(3) [where l' = "l\<lparr>dl_held := dl_thread_safe l\<rparr>"]) (auto simp: keeps_def)

lemma dl_move_unlinked:
  assumes inv: "dlist_inv h l (as @ node # bs)"
  obtains h1 l1 n where "dl_unlink h (l\<lparr>dl_held := dl_thread_safe l\<rparr>) node = Inr (h1, l1)"
    "is_dlist h1 l1 (as @ bs)" "keeps (l\<lparr>dl_held := dl_thread_safe l\<rparr>) l1" "dview h1 = dview h"
    "frame_out (set (node # as @ bs)) h h1" "h1 node = Some n" "node \<noteq> NULL" "node \<notin> set (as @ bs)"
proof -
  obtain h1 l1 where un: "dl_unlink h (l\<lparr>dl_held := dl_thread_safe l\<rparr>) node = Inr (h1, l1)"
    "is_dlist h1 l1 (as @ bs)" "keeps (l\<lparr>dl_held := dl_thread_safe l\<rparr>) l1"
    "dview h1 = dview h" "frame_out (set (as @ bs)) h h1"
    using dl_unlink_spec [OF dlist_inv_locked(2) [OF inv]] by blast
  have d: "node \<notin> set (as @ bs)" "node \<noteq> NULL"
    using dlist_inv_distinct [OF inv] dlist_inv_NULL [OF inv] by auto
  obtain n where "h node = Some n" using dlist_inv_dom [OF inv] by fastforce
  then have "h1 node = Some n" using un(5) d by (simp add: frame_out_def)
  moreover have "frame_out (set (node # as @ bs)) h h1"
    by (rule frame_out_mono [OF un(5)]) auto
  ultimately show ?thesis using that [OF un(1-4) _ _ d(2,1)] by blast
qed

lemma keeps_trans: "keeps l l1 \<Longrightarrow> keeps l1 l2 \<Longrightarrow> keeps l l2"
  by (simp add: keeps_def)

lemma DLinkedListMoveToTail_spec:
  assumes inv: "dlist_inv h l (as @ node # bs)"
  obtains h' l' where "DLinkedListMoveToTail h l node = Inr (h', l')"
    "list_step h l (set (node # as @ bs)) h' l' (as @ bs @ [node]) (dview h)"
proof (cases "bs = []")
  case True
  then have "dl_tail l = node" using is_dlistD(4) [OF dlist_invD(1) [OF inv]] by simp
  then have "DLinkedListMoveToTail h l node = Inr (h, dl_unlock (l\<lparr>dl_held := dl_thread_safe l\<rparr>))"
    using dlist_inv_locked(1) [OF inv] by (simp add: DLinkedListMoveToTail_def)
  then show ?thesis using list_step_still [OF inv] True that by auto
next
  case False
  let ?l = "l\<lparr>dl_held := dl_thread_safe l\<rparr>"
  obtain h1 l1 n where un: "dl_unlink h ?l node = Inr (h1, l1)" "is_dlist h1 l1 (as @ bs)"
    "keeps ?l l1" "dview h1 = dview h" "frame_out (set (node # as @ bs)) h h1" "h1 node = Some n"
    "node \<noteq> NULL" "node \<notin> set (as @ bs)"
    by (rule dl_move_unlinked [OF inv])
  obtain h2 l2 where li: "dl_link_tail h1 l1 node = Inr (h2, l2)" "is_dlist h2 l2 ((as @ bs) @ [node])"
    "keeps l1 l2" "dview h2 = dview h1" "frame_out (set (node # as @ bs)) h1 h2"
    by (rule dl_link_tail_spec [OF un(2,6,7,8)])
  have "dl_tail l \<noteq> node"
    using is_dlistD(4) [OF dlist_invD(1) [OF inv]] False un(8) last_in_set [OF False]
    by (auto simp: last_or_def)
  moreover have "dl_is_orphan h ?l node = Inr False"
    by (rule dl_is_orphan_member [OF dlist_inv_locked(2) [OF inv]]) simp
  ultimately have "DLinkedListMoveToTail h l node = Inr (h2, dl_unlock l2)"
    using dlist_inv_locked(1) [OF inv] un(1) li(1) by (simp add: DLinkedListMoveToTail_def)
  moreover have "list_step h l (set (node # as @ bs)) h2 (dl_unlock l2) (as @ bs @ [node]) (dview h)"
    using li un(4) dlist_invD(2) [OF inv] frame_out_trans [OF un(5) li(5)] keeps_trans [OF un(3) li(3)]
    by (intro list_step_intros(3)) auto
  ultimately show ?thesis by (rule that)
qed

lemma DLinkedListMoveToHead_spec:
  assumes inv: "dlist_inv h l (as @ node # bs)"
  obtains h' l' where "DLinkedListMoveToHead h l node = Inr (h', l')"
    "list_step h l (set (node # as @ bs)) h' l' (node # as @ bs) (dview h)"
proof (cases "as = []")
  case True
  then have "dl_head l = node" using is_dlistD(3) [OF dlist_invD(1) [OF inv]] by simp
  then have "DLinkedListMoveToHead h l node = Inr (h, dl_unlock (l\<lparr>dl_held := dl_thread_safe l\<rparr>))"
    using dlist_inv_locked(1) [OF inv] by (simp add: DLinkedListMoveToHead_def)
  then show ?thesis using list_step_still [OF inv] True that by auto
next
  case False
  let ?l = "l\<lparr>dl_held := dl_thread_safe l\<rparr>"
  obtain h1 l1 n where un: "dl_unlink h ?l node = Inr (h1, l1)" "is_dlist h1 l1 (as @ bs)"
    "keeps ?l l1" "dview h1 = dview h" "frame_out (set (node # as @ bs)) h h1" "h1 node = Some n"
    "node \<noteq> NULL" "node \<notin> set (as @ bs)"
    by (rule dl_move_unlinked [OF inv])
  obtain h2 l2 where li: "dl_link_head h1 l1 node = Inr (h2, l2)" "is_dlist h2 l2 (node # as @ bs)"
    "keeps l1 l2" "dview h2 = dview h1" "frame_out (set (node # as @ bs)) h1 h2"
    by (rule dl_link_head_spec [OF un(2,6,7,8)])
  have "dl_head l \<noteq> node"
    using is_dlistD(3) [OF dlist_invD(1) [OF inv]] False un(8) by (cases as) auto
  moreover have "dl_is_orphan h ?l node = Inr False"
    by (rule dl_is_orphan_member [OF dlist_inv_locked(2) [OF inv]]) simp
  ultimately have "DLinkedListMoveToHead h l node = Inr (h2, dl_unlock l2)"
    using dlist_inv_locked(1) [OF inv] un(1) li(1) by (simp add: DLinkedListMoveToHead_def)
  moreover have "list_step h l (set (node # as @ bs)) h2 (dl_unlock l2) (node # as @ bs) (dview h)"
    using li un(4) dlist_invD(2) [OF inv] frame_out_trans [OF un(5) li(5)] keeps_trans [OF un(3) li(3)]
    by (intro list_step_intros(3)) auto
  ultimately show ?thesis by (rule that)
qed

section \<open>Insertion inside the list\<close>

text \<open>The heap after a node was linked in between \<open>as\<close> and \<open>bs\<close>.\<close>

definition linked_between :: "dheap \<Rightarrow> addr list \<Rightarrow> addr list \<Rightarrow> addr \<Rightarrow> dnode \<Rightarrow> dheap" where
  "linked_between h as bs node n = relink_prev (relink_next
     (h(node \<mapsto> n\<lparr>dn_prev := last_or NULL as, dn_next := first_or bs NULL\<rparr>)) as node) bs node"

lemma linked_between_chain:
  assumes "dchain h NULL (as @ bs) NULL" "distinct (as @ bs)" "node \<notin> set (as @ bs)" "node \<noteq> NULL"
  shows "dchain (linked_between h as bs node n) NULL (as @ node # bs) NULL"
proof -
  let ?h1 = "h(node \<mapsto> n\<lparr>dn_prev := last_or NULL as, dn_next := first_or bs NULL\<rparr>)"
  have c: "dchain ?h1 NULL as (first_or bs NULL)" "dchain ?h1 (last_or NULL as) bs NULL"
    using assms by (simp_all add: dchain_append)
  have "dchain (relink_next ?h1 as node) NULL as node" "dchain (relink_next ?h1 as node) (last_or NULL as) bs NULL"
    using dchain_relink_next [OF c(1)] c(2) assms(2) by (simp_all add: Int_commute)
  then have "dchain (linked_between h as bs node n) NULL as node"
    "dchain (linked_between h as bs node n) node bs NULL"
    using dchain_relink_prev assms(2) by (auto simp: linked_between_def)
  moreover have "linked_between h as bs node n node
      = Some (n\<lparr>dn_prev := last_or NULL as, dn_next := first_or bs NULL\<rparr>)"
    using assms(3) by (simp add: linked_between_def)
  ultimately show ?thesis using assms(4) by (simp add: dchain_append)
qed

lemma linked_between_view [simp]:
  "dview (linked_between h as bs node n) = (dview h)(node \<mapsto> dn_data n)"
  "frame_out (set (node # as @ bs)) h (linked_between h as bs node n)"
  by (simp_all add: linked_between_def subset_insertI2)

lemma DLinkedListAddBefore_spec:
  assumes inv: "dlist_inv h l (as @ p # bs)"
    and node: "node \<in> dom h" "node \<noteq> NULL" "node \<notin> set (as @ p # bs)" and d: "d \<noteq> NULL"
  obtains h' l' where "DLinkedListAddBefore h l p node d = Inr (h', l')"
    "is_dlist h' l' (as @ node # p # bs)" "dl_size l' = dl_size l" "\<not> dl_held l'"
    "dview h' = (dview h)(node \<mapsto> d)" "frame_out (set (node # as @ p # bs)) h h'"
proof -
  let ?l = "l\<lparr>dl_held := dl_thread_safe l\<rparr>"
  note lk = dlist_inv_locked [OF inv]
  note ds = is_dlistD [OF lk(2)]
  obtain n where n: "h node = Some n" using node(1) by auto
  obtain m where m: "h p = Some m" "dn_prev m = last_or NULL as" "p \<noteq> NULL"
    using ds(2) by (auto simp: dchain_append)
  let ?n = "n\<lparr>dn_data := d\<rparr>"
  let ?h1 = "h(node \<mapsto> ?n\<lparr>dn_prev := last_or NULL as, dn_next := p\<rparr>, p \<mapsto> m\<lparr>dn_prev := node\<rparr>)"
  let ?l1 = "if dl_head ?l = p then ?l\<lparr>dl_head := node\<rparr> else ?l"
  have c: "dchain ?h1 NULL as p" using ds node by (simp add: dchain_append)
  have s: "(if last_or NULL as \<noteq> NULL then set_next ?h1 (last_or NULL as) node else Inr ?h1)
      = Inr (relink_next ?h1 as node)" by (rule set_next_relink [OF c refl])
  have hd: "dl_head ?l \<noteq> NULL" "dl_tail ?l \<noteq> NULL"
    using is_dlist_head_iff [OF lk(2)] is_dlist_tail_iff [OF lk(2)] by auto
  have eq: "relink_next ?h1 as node = linked_between h as (p # bs) node ?n"
    using ds(1) node(3) m by (auto simp: linked_between_def relink_next_def relink_prev_def fun_eq_iff)
  have "DLinkedListAddBefore h l p node d = Inr (relink_next ?h1 as node, dl_unlock ?l1)"
    using lk(1) n m node d hd s by (simp add: DLinkedListAddBefore_def Let_def split del: if_split) auto
  moreover have "is_dlist (relink_next ?h1 as node) (dl_unlock ?l1) (as @ node # p # bs)"
    using linked_between_chain [OF ds(2,1) node(3,2), of ?n] ds node unfolding eq
    by (cases as) (auto simp: is_dlist_def dl_unlock_def last_or_def)
  moreover have "dl_size (dl_unlock ?l1) = dl_size l" "\<not> dl_held (dl_unlock ?l1)"
    by (simp_all add: dl_unlock_def mutex_unlock_def)
  moreover have "dview (relink_next ?h1 as node) = (dview h)(node \<mapsto> d)"
    "frame_out (set (node # as @ p # bs)) h (relink_next ?h1 as node)"
    unfolding eq using linked_between_view(2) [of node as "p # bs"] by simp_all
  ultimately show ?thesis by (rule that)
qed

lemma DLinkedListAddAfter_spec:
  assumes inv: "dlist_inv h l (as @ p # bs)"
    and node: "node \<in> dom h" "node \<noteq> NULL" "node \<notin> set (as @ p # bs)" and d: "d \<noteq> NULL"
  obtains h' l' where "DLinkedListAddAfter h l p node d = Inr (h', l')"
    "is_dlist h' l' (as @ p # node # bs)" "dl_size l' = dl_size l" "\<not> dl_held l'"
    "dview h' = (dview h)(node \<mapsto> d)" "frame_out (set (node # as @ p # bs)) h h'"
proof -
  let ?l = "l\<lparr>dl_held := dl_thread_safe l\<rparr>"
  note lk = dlist_inv_locked [OF inv]
  note ds = is_dlistD [OF lk(2)]
  obtain n where n: "h node = Some n" using node(1) by auto
  obtain m where m: "h p = Some m" "dn_next m = first_or bs NULL" "p \<noteq> NULL"
    using ds(2) by (auto simp: dchain_append)
  let ?n = "n\<lparr>dn_data := d\<rparr>"
  let ?h1 = "h(node \<mapsto> ?n\<lparr>dn_prev := p, dn_next := first_or bs NULL\<rparr>, p \<mapsto> m\<lparr>dn_next := node\<rparr>)"
  let ?l1 = "if dl_tail ?l = p then ?l\<lparr>dl_tail := node\<rparr> else ?l"
  have c: "dchain ?h1 p bs NULL" using ds node by (simp add: dchain_append)
  have s: "(if first_or bs NULL \<noteq> NULL then set_prev ?h1 (first_or bs NULL) node else Inr ?h1)
      = Inr (relink_prev ?h1 bs node)" by (rule set_prev_relink [OF c refl])
  have hd: "dl_head ?l \<noteq> NULL" "dl_tail ?l \<noteq> NULL"
    using is_dlist_head_iff [OF lk(2)] is_dlist_tail_iff [OF lk(2)] by auto
  have eq: "relink_prev ?h1 bs node = linked_between h (as @ [p]) bs node ?n"
    using ds(1) node(3) m by (auto simp: linked_between_def relink_next_def relink_prev_def fun_eq_iff
        split: list.splits)
  have "DLinkedListAddAfter h l p node d = Inr (relink_prev ?h1 bs node, dl_unlock ?l1)"
    using lk(1) n m node d hd s by (simp add: DLinkedListAddAfter_def Let_def split del: if_split) auto
  moreover have "is_dlist (relink_prev ?h1 bs node) (dl_unlock ?l1) (as @ p # node # bs)"
    using linked_between_chain [of h "as @ [p]" bs node ?n] ds node unfolding eq
    by (cases bs rule: rev_cases)
      (auto simp: is_dlist_def dl_unlock_def last_or_append last_or_Cons first_or_append)
  moreover have "dl_size (dl_unlock ?l1) = dl_size l" "\<not> dl_held (dl_unlock ?l1)"
    by (simp_all add: dl_unlock_def mutex_unlock_def)
  moreover have "dview (relink_prev ?h1 bs node) = (dview h)(node \<mapsto> d)"
    "frame_out (set (node # as @ p # bs)) h (relink_prev ?h1 bs node)"
    unfolding eq using linked_between_view(2) [of node "as @ [p]" bs] by simp_all
  ultimately show ?thesis by (rule that)
qed

end
