(* ===== verification/DLinkedListMore.thy ===== *)
theory DLinkedListMore
  imports DLinkedListProps
begin

text \<open>
  The list operations that walk the list: the debug insertions and removal, insertion at a
  position, duplication with and without a filter, and the two operations that empty a list.
  The fuel of every walk is bounded by the number of nodes.
\<close>

section \<open>Debug variants\<close>

lemma dl_assert_absent_spec:
  "schain h p xs \<Longrightarrow> length xs \<le> fuel \<Longrightarrow>
   dl_assert_absent fuel h p node = (if node \<in> set xs then Inl AssertFail else Inr ())"
proof (induction xs arbitrary: p fuel)
  case (Cons x xs)
  then obtain k where "fuel = Suc k" by (cases fuel) auto
  with Cons show ?case by (cases "x = node") (auto simp: dl_assert_absent.simps [of "Suc k"])
qed (simp add: dl_assert_absent.simps)

lemma dl_find_spec:
  "schain h p xs \<Longrightarrow> length xs \<le> fuel \<Longrightarrow> dl_find fuel h p node = Inr (node \<in> set xs)"
proof (induction xs arbitrary: p fuel)
  case (Cons x xs)
  then obtain k where "fuel = Suc k" by (cases fuel) auto
  with Cons show ?case by (cases "x = node") (auto simp: dl_find.simps [of "Suc k"])
qed (simp add: dl_find.simps)

lemma dlist_inv_schain:
  assumes "dlist_inv h l xs"
  shows "schain h (dl_head l) xs"
  using dchain_schain is_dlistD(2,3) [OF dlist_invD(1) [OF assms]] by metis

lemma DLinkedListAddDebug_eq:
  assumes inv: "dlist_inv h l xs" and fuel: "length xs \<le> fuel"
  shows "DLinkedListAddDebug fuel h l node d =
      (if node \<in> set xs then Inl AssertFail else DLinkedListAdd h l node d)"
    "DLinkedListAddTailDebug fuel h l node d =
      (if node \<in> set xs then Inl AssertFail else DLinkedListAddTail h l node d)"
  using dl_assert_absent_spec [OF dlist_inv_schain [OF inv] fuel, of node] dlist_inv_locked(1) [OF inv]
  by (simp_all add: DLinkedListAddDebug_def DLinkedListAdd_def DLinkedListAddTailDebug_def
      DLinkedListAddTail_def)

lemma upd_next_prev:
  "n\<lparr>dn_next := a, dn_prev := b\<rparr> = n\<lparr>dn_prev := b, dn_next := a\<rparr>"
  by simp

lemma set_next_prev_commute:
  "and_then (set_next h p a) (\<lambda>h. and_then (set_prev h p b) f)
   = and_then (set_prev h p b) (\<lambda>h. and_then (set_next h p a) f)"
  by (cases "p = NULL"; cases "h p")
    (simp_all add: set_next_def set_prev_def load_def upd_next_prev)

lemma DLinkedListDeleteDebug_eq:
  assumes inv: "dlist_inv h l xs" and fuel: "length xs \<le> fuel"
  shows "DLinkedListDeleteDebug fuel h l node =
      (if node \<in> set xs then DLinkedListDelete h l node else Inl AssertFail)"
  using dl_find_spec [OF dlist_inv_schain [OF inv] fuel, of node] dlist_inv_locked(1) [OF inv]
  by (simp add: DLinkedListDeleteDebug_def DLinkedListDelete_def Let_def
      set_next_prev_commute cong: if_cong)

section \<open>Insertion at a position\<close>

lemma unat_ucast_of_nat_32:
  "k < 2 ^ 32 \<Longrightarrow> unat (ucast (of_nat k :: 32 word) :: 64 word) = k"
  by (simp add: unsigned_ucast_eq unsigned_of_nat take_bit_nat_eq_self)

lemma dl_addpos_walk_spec:
  assumes "h node = Some n" "node \<noteq> NULL" "node \<notin> set (as @ zs)" "distinct (as @ zs)"
    and "dchain h NULL (as @ zs) NULL" "length (as @ zs) \<le> 2 ^ 32"
    and "unat pos = length as + j" "j < length zs" "j \<le> fuel"
  shows "dl_addpos_walk fuel h (first_or zs NULL) (of_nat (length as)) pos node
    = Inr (Some (linked_between h (as @ take j zs) (drop j zs) node n))"
  using assms
proof (induction j arbitrary: as zs fuel)
  case 0
  then obtain z zs' where zs: "zs = z # zs'" by (cases zs) auto
  have pos: "pos = ucast (of_nat (length as) :: 32 word)"
    unfolding word_unat_eq_iff using 0(6,7) zs unat_ucast_of_nat_32 [of "length as"] by simp
  obtain m where m: "h z = Some m" "dn_prev m = last_or NULL as" "z \<noteq> NULL"
    using 0(5) zs by (auto simp: dchain_append)
  have c: "dchain h NULL as z" using 0(5) zs by (simp add: dchain_append)
  have s: "(if last_or NULL as \<noteq> NULL then set_next h (last_or NULL as) node else Inr h)
      = Inr (relink_next h as node)" by (rule set_next_relink [OF c refl])
  have ne: "node \<noteq> z" "node \<notin> set as" "z \<notin> set as" using 0(3,4) zs by auto
  then have la: "as \<noteq> [] \<Longrightarrow> node \<noteq> last as" "as \<noteq> [] \<Longrightarrow> z \<noteq> last as"
    by (metis last_in_set)+
  have "(relink_next h as node)(node \<mapsto> n\<lparr>dn_next := z, dn_prev := last_or NULL as\<rparr>,
      z \<mapsto> m\<lparr>dn_prev := node\<rparr>) = linked_between h as zs node n"
    using ne la m zs
    by (auto simp: linked_between_def relink_next_def relink_prev_def fun_eq_iff)
  then show ?case using zs m ne 0(1,2) s pos
    by (simp add: dl_addpos_walk.simps split del: if_split)
next
  case (Suc j)
  then obtain z zs' where zs: "zs = z # zs'" by (cases zs) auto
  obtain m where m: "h z = Some m" "dn_next m = first_or zs' NULL" "z \<noteq> NULL"
    using Suc(6) zs by (auto simp: dchain_append)
  obtain k where k: "fuel = Suc k" using Suc(10) by (cases fuel) auto
  have "length as < 2 ^ 32" using Suc(7) zs by simp
  then have pos: "pos \<noteq> ucast (of_nat (length as) :: 32 word)"
    using Suc(8) unat_ucast_of_nat_32 [of "length as"] by auto
  have "dl_addpos_walk k h (first_or zs' NULL) (of_nat (length (as @ [z]))) pos node
    = Inr (Some (linked_between h ((as @ [z]) @ take j zs') (drop j zs') node n))"
    by (rule Suc.IH) (use Suc zs k in simp_all)
  then show ?case using zs m k pos by (simp add: dl_addpos_walk.simps [of "Suc k"] add.commute)
qed

text \<open>
  At position 0 and from the end on, \<open>DLinkedListAddPos\<close> is an insertion at the head or the tail.
\<close>

lemma DLinkedListAddPos_ends:
  assumes inv: "dlist_inv h l xs"
  shows "DLinkedListAddPos fuel h l 0 node d = DLinkedListAdd h l node d"
    "pos \<noteq> 0 \<Longrightarrow> dl_size l \<le> pos \<Longrightarrow> DLinkedListAddPos fuel h l pos node d = DLinkedListAddTail h l node d"
  using dlist_inv_locked(1) [OF inv]
  by (simp_all add: DLinkedListAddPos_def DLinkedListAdd_def DLinkedListAddTail_def Let_def)

lemma DLinkedListAddPos_mid:
  assumes inv: "dlist_inv h l xs" and len: "length xs \<le> 2 ^ 32"
    and pos: "0 < unat pos" "unat pos < length xs" "unat pos \<le> fuel"
    and node: "node \<in> dom h" "node \<noteq> NULL" "node \<notin> set xs"
  obtains h' where "DLinkedListAddPos fuel h l pos node d = Inr (h', l)"
    "is_dlist h' l (take (unat pos) xs @ node # drop (unat pos) xs)"
    "dview h' = dview h" "frame_out (set (node # xs)) h h'"
proof -
  let ?p = "unat pos" and ?l = "l\<lparr>dl_held := dl_thread_safe l\<rparr>"
  obtain n where n: "h node = Some n" using node(1) by auto
  note ds = is_dlistD [OF dlist_invD(1) [OF inv]]
  let ?h' = "linked_between h (take ?p xs) (drop ?p xs) node n"
  have "dl_addpos_walk fuel h (dl_head l) 0 pos node = Inr (Some ?h')"
    using dl_addpos_walk_spec [of h node n "[]" xs pos ?p fuel] n node ds len pos by simp
  moreover have "unat (dl_size l) = length xs"
    using dlist_invD(2) [OF inv] len by (simp add: unsigned_of_nat take_bit_nat_eq_self)
  then have "\<not> dl_size l \<le> pos" using pos by (simp add: word_le_nat_alt)
  moreover have "pos \<noteq> 0" using pos by auto
  moreover have "dl_unlock ?l = l"
    using dlist_invD(3) [OF inv] by (auto simp: dl_unlock_def mutex_unlock_def intro: dlist.equality)
  ultimately have "DLinkedListAddPos fuel h l pos node d = Inr (?h', l)"
    using dlist_inv_locked(1) [OF inv] by (simp add: DLinkedListAddPos_def Let_def)
  moreover have "is_dlist ?h' l (take ?p xs @ node # drop ?p xs)"
  proof -
    have "first_or (take ?p xs @ node # drop ?p xs) NULL = first_or xs NULL"
      using pos by (cases xs; cases ?p) auto
    moreover have "last_or NULL (take ?p xs @ node # drop ?p xs) = last_or NULL xs"
      using pos by (auto simp: last_or_def)
    moreover
    have "distinct (take ?p xs @ node # drop ?p xs)"
      using ds(1) node(3) set_take_disj_set_drop_if_distinct [of xs ?p ?p]
      by (auto dest: in_set_takeD in_set_dropD)
    ultimately show ?thesis
      using linked_between_chain [of h "take ?p xs" "drop ?p xs" node n] ds node
      by (simp add: is_dlist_def dlist_inv_def)
  qed
  moreover have "frame_out (set (node # xs)) h ?h'"
    using linked_between_view(2) [of node "take ?p xs" "drop ?p xs" h n] by simp
  ultimately show ?thesis using that n by simp
qed

section \<open>Duplication\<close>

text \<open>
  What the duplicating loop relies on: an insertion that puts the node in front of the list and
  stores the payload in it.
\<close>

locale dl_inserter =
  fixes add :: "dheap \<Rightarrow> dlist \<Rightarrow> addr \<Rightarrow> addr \<Rightarrow> (dheap \<times> dlist) result"
  assumes add_law: "dlist_inv h r ys \<Longrightarrow> new \<in> dom h \<Longrightarrow> new \<noteq> NULL \<Longrightarrow> new \<notin> set ys \<Longrightarrow>
    \<exists>h' r'. add h r new d = Inr (h', r') \<and>
      list_step h r (set (new # ys)) h' r' (new # ys) ((dview h)(new \<mapsto> d))"
begin

lemma dup_loop_spec:
  assumes "schain h p zs" "dlist_inv h r ys" "set zs \<inter> set ys = {}" "length zs \<le> fuel"
    and "kept = filter (\<lambda>a. \<not> skip (a, the (dview h a))) zs" "new = take (length kept) al"
    and "length kept \<le> length al" "distinct new" "NULL \<notin> set new" "set new \<inter> dom h = {}"
  shows "\<exists>h' r'. dl_dup_loop skip add fuel h al p r = Inr (h', drop (length kept) al, r') \<and>
    dlist_inv h' r' (rev new @ ys) \<and> dl_thread_safe r' = dl_thread_safe r \<and>
    dview h' = (dview h)(new [\<mapsto>] map (\<lambda>a. the (dview h a)) kept) \<and>
    frame_out (set new \<union> set ys) h h'"
  using assms
proof (induction zs arbitrary: h p r ys fuel kept new al)
  case Nil
  then show ?case by (simp add: dl_dup_loop.simps)
next
  case (Cons z zs)
  obtain k where k: "fuel = Suc k" using Cons(5) by (cases fuel) auto
  obtain n where n: "h z = Some n" "z \<noteq> NULL" "p = z" "schain h (dn_next n) zs" using Cons(2) by auto
  let ?v = "(z, dn_data n)"
  have v: "node_view h z = Inr ?v" "the (dview h z) = dn_data n"
    using n by (simp_all add: node_view_def dview_def)
  show ?case
  proof (cases "skip ?v")
    case True
    then have kept: "kept = filter (\<lambda>a. \<not> skip (a, the (dview h a))) zs" using Cons(6) v by simp
    show ?thesis
      using Cons.IH [OF n(4) Cons(3) _ _ kept Cons(7-11), of k] Cons(4,5) k n v(1) True
      by (simp add: dl_dup_loop.simps [of _ _ "Suc k"])
  next
    case False
    define kept' where "kept' = filter (\<lambda>a. \<not> skip (a, the (dview h a))) zs"
    have kept: "kept = z # kept'" using Cons(6) v False by (simp add: kept'_def)
    then obtain a al' where al: "al = a # al'" using Cons(8) by (cases al) auto
    define new' where "new' = take (length kept') al'"
    have new: "new = a # new'" using Cons(7) kept al by (simp add: new'_def)
    have a: "a \<noteq> NULL" "h a = None" "a \<notin> set new'" "a \<noteq> z" "a \<notin> set zs" "a \<notin> set ys"
      using Cons(9-11) new n schain_dom [OF n(4), of a] dlist_inv_dom [OF Cons(3), of a] by auto
    let ?h1 = "h(a \<mapsto> \<lparr>dn_data = dn_data n, dn_prev = NULL, dn_next = NULL\<rparr>)"
    have "dlist_inv ?h1 r ys" using Cons(3) a by (simp add: dlist_inv_def)
    then obtain h2 r2 where add: "add ?h1 r a (dn_data n) = Inr (h2, r2)"
      "list_step ?h1 r (set (a # ys)) h2 r2 (a # ys) ((dview ?h1)(a \<mapsto> dn_data n))"
      using add_law [of ?h1 r ys a "dn_data n"] a by auto
    note st = list_stepD [OF add(2)]
    have out: "\<And>x. x \<notin> set (a # ys) \<Longrightarrow> h2 x = h x" using st(4) by (simp add: frame_out_def)
    have view: "dview h2 = (dview h)(a \<mapsto> dn_data n)" using st(3) by simp
    have same: "\<And>x. x \<in> set zs \<Longrightarrow> the (dview h2 x) = the (dview h x)" using view a by auto
    have c2: "schain h2 (dn_next n) zs"
      using n(4) schain_frame [of zs h2 h] out Cons(4) a by fastforce
    have kept2: "kept' = filter (\<lambda>x. \<not> skip (x, the (dview h2 x))) zs"
      using same by (auto simp: kept'_def intro: filter_cong)
    have dom2: "dom h2 = insert a (dom h)" by (rule dview_dom_eq [OF view])
    have z: "h2 z = h z" using out a Cons(4) by auto
    obtain h' r' where IH: "dl_dup_loop skip add k h2 al' (dn_next n) r2 = Inr (h', drop (length kept') al', r')"
      "dlist_inv h' r' (rev new' @ a # ys)" "dl_thread_safe r' = dl_thread_safe r2"
      "dview h' = (dview h2)(new' [\<mapsto>] map (\<lambda>x. the (dview h2 x)) kept')"
      "frame_out (set new' \<union> set (a # ys)) h2 h'"
      using Cons.IH [OF c2 st(1) _ _ kept2 new'_def, of k] Cons(4,5,8-11) k new al kept a dom2 by auto
    have m: "map (\<lambda>x. the (dview h2 x)) kept' = map (\<lambda>x. the (dview h x)) kept'"
      using same by (auto simp: kept'_def)
    have "dview h' = (dview h)(new [\<mapsto>] map (\<lambda>x. the (dview h x)) kept)"
      unfolding IH(4) m new kept by (simp add: view v)
    moreover have "dl_dup_loop skip add fuel h al p r = Inr (h', drop (length kept) al, r')"
      using n v(1) False k al a add(1) z IH(1) kept
      by (simp add: dl_dup_loop.simps [of _ _ "Suc k"] calloc_node_def Let_def)
    moreover have "frame_out (set new \<union> set ys) h h'"
      using IH(5) out new by (auto simp: frame_out_def)
    ultimately show ?thesis using IH(2,3) st(2) new by auto
  qed
qed

end

lemma DLinkedListAddUnsafe_eq:
  assumes "dlist_inv h l xs"
  shows "DLinkedListAdd h l node d = DLinkedListAddUnsafe h l node d"
proof -
  have "dl_link_head h1 (l\<lparr>dl_held := dl_thread_safe l\<rparr>) node = and_then (dl_link_head h1 l node)
      (\<lambda>(h2, l2). Inr (h2, l2\<lparr>dl_held := dl_thread_safe l2\<rparr>)) \<and>
    (\<forall>h2 l2. dl_link_head h1 l node = Inr (h2, l2) \<longrightarrow> \<not> dl_held l2)" for h1
    using dlist_invD(3) [OF assms]
    by (auto simp: dl_link_head_def Let_def and_then_eq_Inr and_then_assoc intro!: and_then_cong split: if_splits)
  then show ?thesis
    using dlist_inv_locked(1) [OF assms]
    by (auto simp: DLinkedListAdd_def DLinkedListAddUnsafe_def and_then_assoc dl_unlock_def
        dl_inc_def mutex_unlock_def intro!: and_then_cong intro: dlist.equality)
qed

interpretation dl_add: dl_inserter DLinkedListAdd
proof
  fix h r ys new d
  assume "dlist_inv h r ys" "new \<in> dom h" "new \<noteq> NULL" "new \<notin> set ys"
  then show "\<exists>h' r'. DLinkedListAdd h r new d = Inr (h', r') \<and>
      list_step h r (set (new # ys)) h' r' (new # ys) ((dview h)(new \<mapsto> d))"
    using DLinkedListAdd_spec by blast
qed

interpretation dl_add_unsafe: dl_inserter DLinkedListAddUnsafe
  using dl_add.add_law by unfold_locales (metis DLinkedListAddUnsafe_eq)

text \<open>The operations on a source list at rest.\<close>

lemma DLinkedListDupFilterUnsafe_spec:
  assumes src: "dlist_inv h l xs" and ret: "dlist_inv h r ys" and disj: "set xs \<inter> set ys = {}"
    and fuel: "length xs \<le> fuel"
    and kept: "kept = filter (\<lambda>a. \<not> dl_filtered f (a, the (dview h a))) xs"
    and new: "new = take (length kept) al" "length kept \<le> length al" "distinct new" "NULL \<notin> set new"
      "set new \<inter> dom h = {}"
  obtains h' r' where
    "DLinkedListDupFilterUnsafe f fuel h al l r = Inr (h', drop (length kept) al, r')"
    "dlist_inv h' l xs" "dlist_inv h' r' (rev new @ ys)" "dl_thread_safe r' = dl_thread_safe r"
    "dview h' = (dview h)(new [\<mapsto>] map (\<lambda>a. the (dview h a)) kept)"
proof -
  obtain h' r' where run: "dl_dup_loop (dl_filtered f) DLinkedListAddUnsafe fuel h al (dl_head l) r
      = Inr (h', drop (length kept) al, r')"
    "dlist_inv h' r' (rev new @ ys)" "dl_thread_safe r' = dl_thread_safe r"
    "dview h' = (dview h)(new [\<mapsto>] map (\<lambda>a. the (dview h a)) kept)"
    "frame_out (set new \<union> set ys) h h'"
    using dl_add_unsafe.dup_loop_spec [OF dlist_inv_schain [OF src] ret disj fuel kept new(1-5)] by blast
  have "set xs \<inter> (set new \<union> set ys) = {}"
    using disj new(5) dlist_inv_dom [OF src] by fastforce
  then have "dlist_inv h' l xs" using dlist_inv_frame_out [OF run(5)] src by simp
  then show ?thesis using that run(1-4) by (simp add: DLinkedListDupFilterUnsafe_def)
qed

lemma dl_dup_add_spec:
  assumes src: "dlist_inv h l xs" and ret: "dlist_inv h r ys" and disj: "set xs \<inter> set ys = {}"
    and fuel: "length xs \<le> fuel"
    and kept: "kept = filter (\<lambda>a. \<not> skip (a, the (dview h a))) xs"
    and new: "new = take (length kept) al" "length kept \<le> length al" "distinct new" "NULL \<notin> set new"
      "set new \<inter> dom h = {}"
  obtains h' r' where
    "dl_dup_loop skip DLinkedListAdd fuel h al (dl_head l) r = Inr (h', drop (length kept) al, r')"
    "dlist_inv h' l xs" "dlist_inv h' r' (rev new @ ys)" "dl_thread_safe r' = dl_thread_safe r"
    "dview h' = (dview h)(new [\<mapsto>] map (\<lambda>a. the (dview h a)) kept)"
proof -
  obtain h' r' where run: "dl_dup_loop skip DLinkedListAdd fuel h al (dl_head l) r
      = Inr (h', drop (length kept) al, r')"
    "dlist_inv h' r' (rev new @ ys)" "dl_thread_safe r' = dl_thread_safe r"
    "dview h' = (dview h)(new [\<mapsto>] map (\<lambda>a. the (dview h a)) kept)"
    "frame_out (set new \<union> set ys) h h'"
    using dl_add.dup_loop_spec [OF dlist_inv_schain [OF src] ret disj fuel kept new(1-5)] by blast
  have "set xs \<inter> (set new \<union> set ys) = {}"
    using disj new(5) dlist_inv_dom [OF src] by fastforce
  then have "dlist_inv h' l xs" using dlist_inv_frame_out [OF run(5)] src by simp
  then show ?thesis using that run(1-4) by simp
qed

lemma dl_lock_roundtrip:
  "dlist_inv h l xs \<Longrightarrow> dl_unlock (l\<lparr>dl_held := dl_thread_safe l\<rparr>) = l"
  by (auto simp: dlist_inv_def dl_unlock_def mutex_unlock_def intro: dlist.equality)

lemma DLinkedListDup_spec:
  assumes src: "dlist_inv h l xs" and ret: "dlist_inv h r ys" and disj: "set xs \<inter> set ys = {}"
    and fuel: "length xs \<le> fuel"
    and new: "new = take (length xs) al" "length xs \<le> length al" "distinct new" "NULL \<notin> set new"
      "set new \<inter> dom h = {}"
  obtains h' r' where "DLinkedListDup fuel h al l r = Inr (h', drop (length xs) al, l, r')"
    "DLinkedListDupUnsafe fuel h al l r = Inr (h', drop (length xs) al, r')"
    "dlist_inv h' l xs" "dlist_inv h' r' (rev new @ ys)" "dl_thread_safe r' = dl_thread_safe r"
    "dview h' = (dview h)(new [\<mapsto>] map (\<lambda>a. the (dview h a)) xs)"
proof -
  have kept: "xs = filter (\<lambda>a. \<not> (\<lambda>_. False) (a, the (dview h a))) xs" by simp
  obtain h' r' where run: "dl_dup_loop (\<lambda>_. False) DLinkedListAdd fuel h al (dl_head l) r
      = Inr (h', drop (length xs) al, r')" "dlist_inv h' l xs"
    "dlist_inv h' r' (rev new @ ys)" "dl_thread_safe r' = dl_thread_safe r"
    "dview h' = (dview h)(new [\<mapsto>] map (\<lambda>a. the (dview h a)) xs)"
    by (rule dl_dup_add_spec [OF src ret disj fuel kept new])
  then show ?thesis
    using that dlist_inv_locked(1) [OF src] dl_lock_roundtrip [OF src]
    by (simp add: DLinkedListDup_def DLinkedListDupUnsafe_def)
qed

lemma DLinkedListDupFilter_spec:
  assumes src: "dlist_inv h l xs" and ret: "dlist_inv h r ys" and disj: "set xs \<inter> set ys = {}"
    and fuel: "length xs \<le> fuel"
    and kept: "kept = filter (\<lambda>a. \<not> dl_filtered f (a, the (dview h a))) xs"
    and new: "new = take (length kept) al" "length kept \<le> length al" "distinct new" "NULL \<notin> set new"
      "set new \<inter> dom h = {}"
  obtains h' r' where "DLinkedListDupFilter f fuel h al l r = Inr (h', drop (length kept) al, l, r')"
    "dlist_inv h' l xs" "dlist_inv h' r' (rev new @ ys)" "dl_thread_safe r' = dl_thread_safe r"
    "dview h' = (dview h)(new [\<mapsto>] map (\<lambda>a. the (dview h a)) kept)"
proof -
  obtain h' r' where run: "dl_dup_loop (dl_filtered f) DLinkedListAdd fuel h al (dl_head l) r
      = Inr (h', drop (length kept) al, r')" "dlist_inv h' l xs"
    "dlist_inv h' r' (rev new @ ys)" "dl_thread_safe r' = dl_thread_safe r"
    "dview h' = (dview h)(new [\<mapsto>] map (\<lambda>a. the (dview h a)) kept)"
    by (rule dl_dup_add_spec [OF src ret disj fuel kept new])
  then show ?thesis
    using that dlist_inv_locked(1) [OF src] dl_lock_roundtrip [OF src]
    by (simp add: DLinkedListDupFilter_def)
qed

section \<open>Emptying a list\<close>

lemma dl_clean_loop_spec:
  assumes "dlist_inv h l xs" "\<not> dl_thread_safe l" "length xs \<le> fuel"
  shows "\<exists>l'. dl_clean_loop wd fuel h l (dl_head l) freed
      = Inr (\<lambda>a. if a \<in> set xs then None else h a, l',
          freed @ (if wd then map (\<lambda>a. the (dview h a)) xs else [])) \<and>
    dlist_inv (\<lambda>a. if a \<in> set xs then None else h a) l' [] \<and> \<not> dl_thread_safe l'"
  using assms
proof (induction xs arbitrary: h l fuel freed)
  case Nil
  then have "dl_head l = NULL" by (auto simp: dlist_inv_def is_dlist_def)
  then show ?case using Nil by (simp add: dl_clean_loop.simps)
next
  case (Cons x xs)
  obtain k where k: "fuel = Suc k" using Cons(4) by (cases fuel) auto
  have "dlist_inv h l ([] @ x # xs)" using Cons(2) by simp
  then obtain h1 l1 where del: "DLinkedListDelete h l x = Inr (h1, l1)"
    "list_step h l (set (x # xs)) h1 l1 xs (dview h)"
    "h1 x = Some \<lparr>dn_data = dn_data (the (h x)), dn_prev = NULL, dn_next = NULL\<rparr>"
    using DLinkedListDelete_spec [of h l "[]" x xs] by auto
  note st = list_stepD [OF del(2)]
  have x: "dl_head l = x" "x \<noteq> NULL" "x \<notin> set xs"
    using is_dlistD(3) [OF dlist_invD(1) [OF Cons(2)]] dlist_inv_distinct [OF Cons(2)]
      dlist_inv_NULL [OF Cons(2)] by auto
  obtain n where n: "h x = Some n" "dn_next n = first_or xs NULL"
    using is_dlistD(2) [OF dlist_invD(1) [OF Cons(2)]] by auto
  have hd: "dl_head l1 = first_or xs NULL" using is_dlistD(3) [OF dlist_invD(1) [OF st(1)]] .
  let ?h2 = "free_node h1 x"
  have inv2: "dlist_inv ?h2 l1 xs"
    using st(1) x(3) by (simp add: free_node_def)
  have heap: "(\<lambda>a. if a \<in> set xs then None else ?h2 a) = (\<lambda>a. if a \<in> set (x # xs) then None else h a)"
    using st(4) by (auto simp: free_node_def frame_out_def)
  have view: "map (\<lambda>a. the (dview ?h2 a)) xs = map (\<lambda>a. the (dview h a)) xs"
    using st(3) x by (auto simp: free_node_def dview_def fun_eq_iff dest: fun_cong)
  have "the (dview h x) = dn_data n" using n by (simp add: dview_def)
  then show ?case
    using Cons.IH [OF inv2 _ _, of k "if wd then freed @ [dn_data n] else freed"] k x n hd del(1,3)
      st(2) Cons(3,4) unfolding heap view
    by (simp add: dl_clean_loop.simps [of _ "Suc k"] split del: if_split) auto
qed

lemma DLinkedListClean_spec:
  assumes inv: "dlist_inv h l xs" and unlocked: "\<not> dl_thread_safe l" and fuel: "length xs \<le> fuel"
  obtains l' where "DLinkedListClean fuel h l = Inr (\<lambda>a. if a \<in> set xs then None else h a, l')"
    "DLinkedListDestroyData fuel h l = Inr (\<lambda>a. if a \<in> set xs then None else h a, l',
       map (\<lambda>a. the (dview h a)) xs)"
    "dlist_inv (\<lambda>a. if a \<in> set xs then None else h a) l' []"
proof -
  have lk: "dl_lock l = Inr l" using dlist_inv_locked(1) [OF inv] unlocked dlist_invD(3) [OF inv] by simp
  have un: "dl_unlock l' = l'" if "\<not> dl_thread_safe l'" for l'
    using that by (simp add: dl_unlock_def mutex_unlock_def)
  obtain l1 where l1: "dl_clean_loop False fuel h l (dl_head l) []
      = Inr (\<lambda>a. if a \<in> set xs then None else h a, l1, [])"
    "dlist_inv (\<lambda>a. if a \<in> set xs then None else h a) l1 []" "\<not> dl_thread_safe l1"
    using dl_clean_loop_spec [OF assms, of False "[]"] by auto
  obtain l2 where l2: "dl_clean_loop True fuel h l (dl_head l) []
      = Inr (\<lambda>a. if a \<in> set xs then None else h a, l2, map (\<lambda>a. the (dview h a)) xs)"
    "dlist_inv (\<lambda>a. if a \<in> set xs then None else h a) l2 []" "\<not> dl_thread_safe l2"
    using dl_clean_loop_spec [OF assms, of True "[]"] by auto
  have "l1 = l2"
    using l1(2,3) l2(2,3) by (auto simp: dlist_inv_def is_dlist_def intro: dlist.equality)
  then show ?thesis
    using that lk un l1 l2 by (simp add: DLinkedListClean_def DLinkedListDestroyData_def)
qed

text \<open>
  On a thread-safe list that is not empty, both lock the mutex and then call
  \<open>DLinkedListDelete\<close>, which locks it again.
\<close>

lemma dl_clean_deadlock:
  assumes inv: "dlist_inv h l (x # xs)" and ts: "dl_thread_safe l"
  shows "DLinkedListClean (Suc k) h l = Inl SelfDeadlock"
    "DLinkedListDestroyData (Suc k) h l = Inl SelfDeadlock"
proof -
  have x: "dl_head l = x" "x \<noteq> NULL"
    using is_dlistD(3) [OF dlist_invD(1) [OF inv]] dlist_inv_NULL [OF inv] by auto
  obtain n where n: "h x = Some n" using dlist_inv_dom [OF inv] by fastforce
  have del: "DLinkedListDelete h (l\<lparr>dl_held := True\<rparr>) x = Inl SelfDeadlock"
    using ts by (simp add: DLinkedListDelete_def dl_lock_held)
  show "DLinkedListClean (Suc k) h l = Inl SelfDeadlock"
    "DLinkedListDestroyData (Suc k) h l = Inl SelfDeadlock"
    using dlist_inv_locked(1) [OF inv] ts x n del
    by (simp_all add: DLinkedListClean_def DLinkedListDestroyData_def dl_clean_loop.simps)
qed

end
