(* ===== verification/DLinkedListSort.thy ===== *)
theory DLinkedListSort
  imports DLinkedListMore
begin

text \<open>
  The merge sort of dlinked_list.c and the operations built on it. The pointer algorithm (split by
  a slow and a fast pointer, cut, sort both halves, merge by relinking) is shown to compute, on
  the sequence of nodes, a merge sort on lists, and that in turn to be the library's stable
  \<open>sort_key\<close> for the comparison functions the interface asks for.
\<close>

section \<open>The code\<close>

text \<open>\<open>DLinkedListCompareFunc\<close> and the test that takes the left node (\<open>cmp_flag\<close> 1 is ascending).\<close>

type_synonym dcmp = "dnode_view \<Rightarrow> dnode_view \<Rightarrow> int"

definition dl_take_left :: "dcmp \<Rightarrow> bool \<Rightarrow> dnode_view \<Rightarrow> dnode_view \<Rightarrow> bool" where
  "dl_take_left cmp ascend a b = (if ascend then cmp a b = 0 else cmp a b \<noteq> 0)"

fun dl_split :: "nat \<Rightarrow> dheap \<Rightarrow> addr \<Rightarrow> addr \<Rightarrow> addr \<Rightarrow> (addr \<times> addr) result" where
  "dl_split fuel h right temp prev =
     (if temp = NULL then Inr (right, prev)
      else and_then (get_next h temp) (\<lambda>tn.
        if tn = NULL then Inr (right, prev)
        else case fuel of 0 \<Rightarrow> Inl FuelOut
        | Suc k \<Rightarrow> and_then (get_next h right) (\<lambda>rn.
            and_then (get_next h tn) (\<lambda>tnn.
            dl_split k h rn tnn right))))"

declare dl_split.simps [simp del]

fun dl_merge :: "dcmp \<Rightarrow> bool \<Rightarrow> nat \<Rightarrow> dheap \<Rightarrow> addr \<Rightarrow> addr \<Rightarrow> addr \<Rightarrow> addr \<Rightarrow> (dheap \<times> addr) result" where
  "dl_merge cmp ascend fuel h head right result tail =
     (if head = NULL \<and> right = NULL then Inr (h, result)
      else case fuel of 0 \<Rightarrow> Inl FuelOut
      | Suc k \<Rightarrow> and_then
          (if right = NULL then Inr True
           else if head = NULL then Inr False
           else and_then (node_view h head) (\<lambda>va. and_then (node_view h right) (\<lambda>vb.
             Inr (dl_take_left cmp ascend va vb)))) (\<lambda>left.
        let nxt = (if left then head else right) in
        and_then (get_next h nxt) (\<lambda>after.
        let head = (if left then after else head);
            right = (if left then right else after) in
        and_then (if result = NULL then Inr h else set_next h tail nxt) (\<lambda>h.
        let result = (if result = NULL then nxt else result) in
        and_then (set_prev h nxt tail) (\<lambda>h.
        dl_merge cmp ascend k h head right result nxt)))))"

declare dl_merge.simps [simp del]

fun DLinkedListMergeSortFunc :: "dcmp \<Rightarrow> bool \<Rightarrow> nat \<Rightarrow> dheap \<Rightarrow> addr \<Rightarrow> (dheap \<times> addr) result" where
  "DLinkedListMergeSortFunc cmp ascend fuel h head =
     (if head = NULL then Inr (h, head)
      else and_then (get_next h head) (\<lambda>hn.
        if hn = NULL then Inr (h, head)
        else case fuel of 0 \<Rightarrow> Inl FuelOut
        | Suc k \<Rightarrow> and_then (dl_split (Suc k) h head head head) (\<lambda>(right, last).
            and_then (set_next h last NULL) (\<lambda>h.
            and_then (DLinkedListMergeSortFunc cmp ascend k h head) (\<lambda>(h, head).
            and_then (DLinkedListMergeSortFunc cmp ascend k h right) (\<lambda>(h, right).
            dl_merge cmp ascend (Suc k) h head right NULL NULL))))))"

declare DLinkedListMergeSortFunc.simps [simp del]

text \<open>The walk \<open>while (node->next) node = node->next\<close> that finds the new tail.\<close>

fun dl_walk_tail :: "nat \<Rightarrow> dheap \<Rightarrow> addr \<Rightarrow> addr result" where
  "dl_walk_tail fuel h node = and_then (get_next h node) (\<lambda>nx.
     if nx = NULL then Inr node
     else case fuel of 0 \<Rightarrow> Inl FuelOut | Suc k \<Rightarrow> dl_walk_tail k h nx)"

declare dl_walk_tail.simps [simp del]

definition DLinkedListSortMergeUnsafe ::
  "dcmp \<Rightarrow> bool \<Rightarrow> nat \<Rightarrow> dheap \<Rightarrow> dlist \<Rightarrow> (dheap \<times> dlist) result" where
  "DLinkedListSortMergeUnsafe cmp ascend fuel h l =
     (if dl_head l = NULL then Inr (h, l)
      else if dl_size l > 1 then
        and_then (DLinkedListMergeSortFunc cmp ascend fuel h (dl_head l)) (\<lambda>(h, hd).
        let l = l\<lparr>dl_head := hd\<rparr> in
        and_then (dl_walk_tail fuel h (dl_head l)) (\<lambda>node.
        Inr (h, l\<lparr>dl_tail := node\<rparr>)))
      else Inr (h, l))"

definition DLinkedListSortMerge ::
  "dcmp \<Rightarrow> bool \<Rightarrow> nat \<Rightarrow> dheap \<Rightarrow> dlist \<Rightarrow> (dheap \<times> dlist) result" where
  "DLinkedListSortMerge cmp ascend fuel h l =
     and_then (dl_lock l) (\<lambda>l.
     if dl_head l = NULL then Inr (h, dl_unlock l)
     else and_then (if dl_size l > 1 then
           and_then (DLinkedListMergeSortFunc cmp ascend fuel h (dl_head l)) (\<lambda>(h, hd).
           let l = l\<lparr>dl_head := hd\<rparr> in
           and_then (dl_walk_tail fuel h (dl_head l)) (\<lambda>node.
           Inr (h, l\<lparr>dl_tail := node\<rparr>)))
         else Inr (h, l)) (\<lambda>(h, l).
       Inr (h, dl_unlock l)))"

definition DLinkedListSortSimple ::
  "dcmp \<Rightarrow> bool \<Rightarrow> nat \<Rightarrow> dheap \<Rightarrow> dlist \<Rightarrow> (dheap \<times> dlist) result" where
  "DLinkedListSortSimple cmp ascend fuel h l = DLinkedListSortMerge cmp ascend fuel h l"

definition DLinkedListSortBubble ::
  "dcmp \<Rightarrow> bool \<Rightarrow> nat \<Rightarrow> dheap \<Rightarrow> dlist \<Rightarrow> (dheap \<times> dlist) result" where
  "DLinkedListSortBubble cmp ascend fuel h l = DLinkedListSortMerge cmp ascend fuel h l"

text \<open>The sorts into a second list. Each returns the heap, the rest of the allocations, and both headers.\<close>

definition DLinkedListSort :: "dcmp \<Rightarrow> bool \<Rightarrow> nat \<Rightarrow> dheap \<Rightarrow> addr list \<Rightarrow> dlist \<Rightarrow> dlist \<Rightarrow>
  (dheap \<times> addr list \<times> dlist \<times> dlist) result" where
  "DLinkedListSort cmp ascend fuel h al l ret =
     and_then (dl_lock l) (\<lambda>l.
     if dl_head l = NULL then Inr (h, al, dl_unlock l, ret)
     else and_then (DLinkedListDupUnsafe fuel h al l ret) (\<lambda>(h, al, ret).
       and_then (DLinkedListSortMergeUnsafe cmp ascend fuel h ret) (\<lambda>(h, ret).
       Inr (h, al, dl_unlock l, ret))))"

definition DLinkedListSortFilter :: "dcmp \<Rightarrow> bool \<Rightarrow> (dnode_view \<Rightarrow> int) option \<Rightarrow> nat \<Rightarrow> dheap \<Rightarrow> addr list \<Rightarrow>
  dlist \<Rightarrow> dlist \<Rightarrow> (dheap \<times> addr list \<times> dlist \<times> dlist) result" where
  "DLinkedListSortFilter cmp ascend f fuel h al l ret =
     and_then (dl_lock l) (\<lambda>l.
     if dl_head l = NULL then
       let ret = (if dl_head ret = NULL then DLinkedListInit (dl_thread_safe l) else ret)
       in Inr (h, al, dl_unlock l, ret)
     else and_then (DLinkedListDupFilterUnsafe f fuel h al l ret) (\<lambda>(h, al, ret).
       and_then (DLinkedListSortMergeUnsafe cmp ascend fuel h ret) (\<lambda>(h, ret).
       Inr (h, al, dl_unlock l, ret))))"

definition DLinkedListBubbleSort :: "dcmp \<Rightarrow> bool \<Rightarrow> nat \<Rightarrow> dheap \<Rightarrow> addr list \<Rightarrow> dlist \<Rightarrow> dlist \<Rightarrow>
  (dheap \<times> addr list \<times> dlist \<times> dlist) result" where
  "DLinkedListBubbleSort cmp ascend fuel h al l ret =
     and_then (dl_lock l) (\<lambda>l.
     if dl_head l = NULL then Inr (h, al, dl_unlock l, DLinkedListInit (dl_thread_safe l))
     else and_then (DLinkedListDup fuel h al l ret) (\<lambda>(h, al, l, ret).
       and_then (DLinkedListSortBubble cmp ascend fuel h ret) (\<lambda>(h, ret).
       Inr (h, al, dl_unlock l, ret))))"

definition DLinkedListMergeSort :: "dcmp \<Rightarrow> bool \<Rightarrow> nat \<Rightarrow> dheap \<Rightarrow> addr list \<Rightarrow> dlist \<Rightarrow> dlist \<Rightarrow>
  (dheap \<times> addr list \<times> dlist \<times> dlist) result" where
  "DLinkedListMergeSort cmp ascend fuel h al l ret =
     and_then (dl_lock l) (\<lambda>l.
     if dl_head l = NULL then Inr (h, al, dl_unlock l, DLinkedListInit (dl_thread_safe l))
     else and_then (DLinkedListDup fuel h al l ret) (\<lambda>(h, al, l, ret).
       and_then (DLinkedListSortMerge cmp ascend fuel h ret) (\<lambda>(h, ret).
       Inr (h, al, dl_unlock l, ret))))"

section \<open>Merge sort on lists\<close>

fun merge_by :: "('a \<Rightarrow> 'a \<Rightarrow> bool) \<Rightarrow> 'a list \<Rightarrow> 'a list \<Rightarrow> 'a list" where
  "merge_by p [] bs = bs"
| "merge_by p as [] = as"
| "merge_by p (a # as) (b # bs) =
     (if p a b then a # merge_by p as (b # bs) else b # merge_by p (a # as) bs)"

lemma merge_by_Nil2 [simp]: "merge_by p as [] = as"
  by (cases as) simp_all

function msort_by :: "('a \<Rightarrow> 'a \<Rightarrow> bool) \<Rightarrow> 'a list \<Rightarrow> 'a list" where
  "msort_by p xs = (if length xs < 2 then xs else
     merge_by p (msort_by p (take (length xs div 2) xs)) (msort_by p (drop (length xs div 2) xs)))"
  by pat_completeness auto
termination by (relation "measure (length \<circ> snd)") auto

declare msort_by.simps [simp del]

lemma merge_by_mset [simp]: "mset (merge_by p as bs) = mset as + mset bs"
  by (induction p as bs rule: merge_by.induct) auto

lemma merge_by_set [simp]: "set (merge_by p as bs) = set as \<union> set bs"
  by (metis merge_by_mset set_mset_mset set_mset_union)

lemma merge_by_length [simp]: "length (merge_by p as bs) = length as + length bs"
  by (metis merge_by_mset size_mset size_union)

lemma msort_by_mset [simp]: "mset (msort_by p xs) = mset xs"
proof (induction p xs rule: msort_by.induct)
  case (1 p xs)
  have "mset (take (length xs div 2) xs) + mset (drop (length xs div 2) xs) = mset xs"
    by (metis append_take_drop_id mset_append)
  with 1 show ?case by (simp add: msort_by.simps [of p xs])
qed

lemma msort_by_set [simp]: "set (msort_by p xs) = set xs"
  by (metis msort_by_mset set_mset_mset)

lemma msort_by_length [simp]: "length (msort_by p xs) = length xs"
  by (metis msort_by_mset size_mset)

lemma msort_by_distinct [simp]: "distinct (msort_by p xs) = distinct xs"
  by (metis msort_by_mset distinct_count_atmost_1 mset_eq_setD)

lemma merge_by_cong:
  "(\<And>a b. a \<in> set as \<Longrightarrow> b \<in> set bs \<Longrightarrow> p a b = q a b) \<Longrightarrow> merge_by p as bs = merge_by q as bs"
  by (induction p as bs rule: merge_by.induct) auto

lemma msort_by_cong:
  "(\<And>a b. a \<in> set xs \<Longrightarrow> b \<in> set xs \<Longrightarrow> p a b = q a b) \<Longrightarrow> msort_by p xs = msort_by q xs"
proof (induction p xs rule: msort_by.induct)
  case (1 p xs)
  let ?l = "take (length xs div 2) xs" and ?r = "drop (length xs div 2) xs"
  have "\<not> length xs < 2 \<Longrightarrow> msort_by p ?l = msort_by q ?l \<and> msort_by p ?r = msort_by q ?r"
    using 1 by (auto dest: in_set_takeD in_set_dropD)
  moreover have "merge_by p (msort_by q ?l) (msort_by q ?r) = merge_by q (msort_by q ?l) (msort_by q ?r)"
    using 1(3) by (intro merge_by_cong) (auto dest: in_set_takeD in_set_dropD)
  ultimately show ?case by (simp add: msort_by.simps [of p xs] msort_by.simps [of q xs])
qed

lemma filter_none: "(\<And>x. x \<in> set xs \<Longrightarrow> \<not> P x) \<Longrightarrow> filter P xs = []"
  by simp

lemma merge_by_le:
  assumes "sorted (map f as)" "sorted (map f bs)"
  shows "sorted (map f (merge_by (\<lambda>a b. f a \<le> f b) as bs))"
    and "filter (\<lambda>x. k = f x) (merge_by (\<lambda>a b. f a \<le> f b) as bs)
      = filter (\<lambda>x. k = f x) as @ filter (\<lambda>x. k = f x) bs"
  using assms
proof (induction "\<lambda>a b. f a \<le> f b" as bs rule: merge_by.induct)
  case (3 a as b bs)
  {
    case 1
    then show ?case using 3 by (fastforce simp: not_le)
  next
    case 2
    have "\<And>x. x \<in> set (a # as) \<Longrightarrow> f a \<le> f x" using 2(1) by auto
    then have "\<not> f a \<le> f b \<Longrightarrow> k = f b \<Longrightarrow> filter (\<lambda>x. k = f x) (a # as) = []"
      by (intro filter_none) metis
    then show ?case using 2 3 by (cases "f a \<le> f b"; cases "k = f b"; cases "k = f a") simp_all
  }
qed simp_all

lemma merge_by_less:
  assumes "sorted (map f as)" "sorted (map f bs)"
  shows "sorted (map f (merge_by (\<lambda>a b. f a < f b) as bs))"
    and "filter (\<lambda>x. k = f x) (merge_by (\<lambda>a b. f a < f b) as bs)
      = filter (\<lambda>x. k = f x) bs @ filter (\<lambda>x. k = f x) as"
  using assms
proof (induction "\<lambda>a b. f a < f b" as bs rule: merge_by.induct)
  case (3 a as b bs)
  {
    case 1
    then show ?case using 3 by (fastforce simp: not_less)
  next
    case 2
    have "\<And>x. x \<in> set (b # bs) \<Longrightarrow> f b \<le> f x" using 2(2) by auto
    then have "f a < f b \<Longrightarrow> k = f a \<Longrightarrow> filter (\<lambda>x. k = f x) (b # bs) = []"
      by (intro filter_none) (metis not_le)
    then show ?case using 2 3 by (cases "f a < f b"; cases "k = f a"; cases "k = f b") simp_all
  }
qed simp_all

lemma msort_by_le: "msort_by (\<lambda>a b. f a \<le> f b) xs = sort_key f xs"
proof -
  have "sorted (map f (msort_by (\<lambda>a b. f a \<le> f b) xs)) \<and>
    (\<forall>k. filter (\<lambda>x. k = f x) (msort_by (\<lambda>a b. f a \<le> f b) xs) = filter (\<lambda>x. k = f x) xs)"
  proof (induction "\<lambda>a b. f a \<le> f b" xs rule: msort_by.induct)
    case (1 xs)
    then show ?case
      by (cases "length xs < 2") (auto simp: msort_by.simps [of _ xs] merge_by_le sorted01
          simp flip: filter_append)
  qed
  then show ?thesis by (intro sym [OF properties_for_sort_key]) auto
qed

lemma msort_by_less: "msort_by (\<lambda>a b. f a < f b) xs = sort_key f (rev xs)"
proof -
  have "sorted (map f (msort_by (\<lambda>a b. f a < f b) xs)) \<and>
    (\<forall>k. filter (\<lambda>x. k = f x) (msort_by (\<lambda>a b. f a < f b) xs) = filter (\<lambda>x. k = f x) (rev xs))"
  proof (induction "\<lambda>a b. f a < f b" xs rule: msort_by.induct)
    case (1 xs)
    show ?case
    proof (cases "length xs < 2")
      case True
      then have "rev xs = xs" by (cases xs) auto
      then show ?thesis using True by (simp add: msort_by.simps [of _ xs] sorted01)
    next
      case False
      have "rev xs = rev (drop (length xs div 2) xs) @ rev (take (length xs div 2) xs)"
        by (simp flip: rev_append)
      then have "filter (\<lambda>x. k = f x) (rev xs) = filter (\<lambda>x. k = f x) (rev (drop (length xs div 2) xs)) @
          filter (\<lambda>x. k = f x) (rev (take (length xs div 2) xs))" for k
        by (metis filter_append)
      then show ?thesis using 1 False by (simp add: msort_by.simps [of _ xs] merge_by_less)
    qed
  qed
  then show ?thesis by (intro sym [OF properties_for_sort_key]) auto
qed

section \<open>The pointer algorithm\<close>

lemma schain_next: "schain h p (x # xs) \<Longrightarrow> get_next h x = Inr (first_or xs NULL)"
  using schain_first by fastforce

lemma dl_split_spec:
  assumes "schain h (first_or ys NULL) ys" "schain h (first_or zs NULL) zs" "length zs \<le> length ys"
    and "length zs div 2 \<le> fuel"
  shows "dl_split fuel h (first_or ys NULL) (first_or zs NULL) pv
    = Inr (first_or (drop (length zs div 2) ys) NULL, last_or pv (take (length zs div 2) ys))"
  using assms
proof (induction zs arbitrary: ys fuel pv rule: induct_list012)
  case 1
  then show ?case by (simp add: dl_split.simps)
next
  case (2 z)
  then show ?case by (auto simp: dl_split.simps)
next
  case (3 z z2 zs)
  obtain y ys' where ys: "ys = y # ys'" using 3(5) by (cases ys) auto
  obtain k where k: "fuel = Suc k" using 3(6) by (cases fuel) auto
  have c: "schain h (first_or ys' NULL) ys'" "schain h (first_or zs NULL) zs"
    "schain h (first_or (z2 # zs) NULL) (z2 # zs)"
    using 3(3,4) ys schain_first by fastforce+
  have "get_next h z = Inr z2" "z \<noteq> NULL" "z2 \<noteq> NULL" "get_next h z2 = Inr (first_or zs NULL)"
    "get_next h y = Inr (first_or ys' NULL)"
    using schain_next [of h z z "z2 # zs"] schain_next [of h z2 z2 zs] schain_next [of h y y ys'] 3(3,4) c ys
    by auto
  then show ?case
    using 3(1) [OF c(1,2), of k y] 3(5,6) ys k
    by (simp add: dl_split.simps [of "Suc k"] last_or_Cons)
qed

lemma schain_cut:
  "schain h p (as @ bs) \<Longrightarrow> as \<noteq> [] \<Longrightarrow> distinct (as @ bs) \<Longrightarrow>
   schain (relink_next h as NULL) p as \<and> schain (relink_next h as NULL) (first_or bs NULL) bs"
proof (induction as arbitrary: p)
  case (Cons a as)
  show ?case
  proof (cases "as = []")
    case True
    obtain n where n: "h a = Some n" "a \<noteq> NULL" "p = a" "schain h (dn_next n) bs" using Cons(2) True by auto
    then have eq: "relink_next h [a] NULL = h(a \<mapsto> n\<lparr>dn_next := NULL\<rparr>)" by (simp add: relink_next_def)
    have "schain (h(a \<mapsto> n\<lparr>dn_next := NULL\<rparr>)) (first_or bs NULL) bs"
      by (subst schain_upd_out) (use Cons(4) n(4) schain_first [OF n(4)] in simp_all)
    moreover have "schain (h(a \<mapsto> n\<lparr>dn_next := NULL\<rparr>)) p [a]" using n by simp
    ultimately show ?thesis unfolding True eq by blast
  next
    case False
    then have eq: "relink_next h (a # as) NULL = relink_next h as NULL" by (simp add: relink_next_def)
    obtain n where n: "h a = Some n" "a \<noteq> NULL" "p = a" "schain h (dn_next n) (as @ bs)" using Cons(2) by auto
    then show ?thesis using Cons.IH [OF n(4) False] Cons(4) unfolding eq by simp
  qed
qed simp

text \<open>
  One step of the merge: the node taken is appended to the merged chain, which stays well formed,
  and leaves the front of the list it was taken from.
\<close>

lemma dl_merge_take:
  assumes "dchain h NULL rs q" "schain h x (x # as)" "schain h b bs" "distinct (rs @ x # as @ bs)"
  obtains h1 h2 where
    "(if first_or rs NULL = NULL then Inr h else set_next h (last_or NULL rs) x) = Inr h1"
    "set_prev h1 x (last_or NULL rs) = Inr h2" "dchain h2 NULL (rs @ [x]) (first_or as NULL)"
    "schain h2 (first_or as NULL) as" "schain h2 b bs" "dview h2 = dview h"
    "frame_out (set (rs @ x # as @ bs)) h h2"
proof -
  obtain n where n: "h x = Some n" "x \<noteq> NULL" "dn_next n = first_or as NULL" "schain h (dn_next n) as"
    using assms(2) schain_first by fastforce
  let ?h1 = "relink_next h rs x" and ?h2 = "(relink_next h rs x)(x \<mapsto> n\<lparr>dn_prev := last_or NULL rs\<rparr>)"
  have d: "distinct rs" "x \<notin> set rs" "x \<notin> set as" "x \<notin> set bs" "set as \<inter> set rs = {}" "set bs \<inter> set rs = {}"
    using assms(4) by auto
  have "first_or rs NULL = NULL \<longleftrightarrow> last_or NULL rs = NULL"
    using first_or_eq_NULL_iff last_or_eq_NULL_iff dchain_NULL [OF assms(1)] by metis
  then have "(if first_or rs NULL = NULL then Inr h else set_next h (last_or NULL rs) x) = Inr ?h1"
    using set_next_relink [OF assms(1) refl, of x] by (cases "last_or NULL rs = NULL") auto
  moreover have "?h1 x = Some n" using d n by simp
  then have "set_prev ?h1 x (last_or NULL rs) = Inr ?h2" using n by simp
  moreover have "dchain ?h2 NULL (rs @ [x]) (first_or as NULL)"
    using dchain_relink_next [OF assms(1) d(1), of x] d n by (simp add: dchain_append)
  moreover have "schain ?h2 (first_or as NULL) as" "schain ?h2 b bs"
    using n(3,4) assms(3) d schain_frame [of as "relink_next h rs x" h] schain_frame [of bs "relink_next h rs x" h]
    by (auto simp: disjoint_iff)
  moreover have "dview ?h2 = dview h" using n by simp
  moreover have "frame_out (set (rs @ x # as @ bs)) h ?h2" by (simp add: subset_insertI2)
  ultimately show ?thesis by (rule that)
qed

text \<open>The order on nodes a comparison function defines.\<close>

definition node_left :: "dcmp \<Rightarrow> bool \<Rightarrow> (addr \<rightharpoonup> addr) \<Rightarrow> addr \<Rightarrow> addr \<Rightarrow> bool" where
  "node_left cmp ascend v a b = dl_take_left cmp ascend (a, the (v a)) (b, the (v b))"

lemma node_view_dview: "h a = Some n \<Longrightarrow> a \<noteq> NULL \<Longrightarrow> node_view h a = Inr (a, the (dview h a))"
  by (simp add: node_view_def dview_def)

lemma dl_merge_spec:
  assumes "schain h (first_or as NULL) as" "schain h (first_or bs NULL) bs"
    and "dchain h NULL rs q" "q = first_or as NULL \<or> q = first_or bs NULL"
    and "distinct (rs @ as @ bs)" "length as + length bs \<le> fuel"
  shows "\<exists>h'. dl_merge cmp ascend fuel h (first_or as NULL) (first_or bs NULL) (first_or rs NULL) (last_or NULL rs)
      = Inr (h', first_or (rs @ merge_by (node_left cmp ascend (dview h)) as bs) NULL) \<and>
    dchain h' NULL (rs @ merge_by (node_left cmp ascend (dview h)) as bs) NULL \<and>
    dview h' = dview h \<and> frame_out (set (rs @ as @ bs)) h h'"
  using assms
proof (induction fuel arbitrary: h as bs rs q)
  case 0
  then show ?case by (auto simp: dl_merge.simps)
next
  case (Suc k)
  let ?p = "node_left cmp ascend (dview h)"
  note NULL = schain_NULL [OF Suc(2)] schain_NULL [OF Suc(3)]
  have nil: "first_or as NULL = NULL \<longleftrightarrow> as = []" "first_or bs NULL = NULL \<longleftrightarrow> bs = []"
    using first_or_eq_NULL_iff NULL by metis+
  consider (fin) "as = []" "bs = []"
    | (left) a as' where "as = a # as'" "bs = [] \<or> ?p a (hd bs)"
    | (right) b bs' where "bs = b # bs'" "as = [] \<or> \<not> ?p (hd as) b"
    by (cases as; cases bs) auto
  then show ?case
  proof cases
    case fin
    then show ?thesis using Suc(4,5) by (auto simp: dl_merge.simps)
  next
    case left
    have m: "merge_by ?p as bs = a # merge_by ?p as' bs" using left by (cases bs) auto
    obtain h1 h2 where st:
      "(if first_or rs NULL = NULL then Inr h else set_next h (last_or NULL rs) a) = Inr h1"
      "set_prev h1 a (last_or NULL rs) = Inr h2" "dchain h2 NULL (rs @ [a]) (first_or as' NULL)"
      "schain h2 (first_or as' NULL) as'" "schain h2 (first_or bs NULL) bs" "dview h2 = dview h"
      "frame_out (set (rs @ a # as' @ bs)) h h2"
      using dl_merge_take [OF Suc(4), of a as' "first_or bs NULL" bs] Suc(2,3,6) left(1) by auto
    have dec: "(if first_or bs NULL = NULL then Inr True else if a = NULL then Inr False
       else and_then (node_view h a) (\<lambda>va. and_then (node_view h (first_or bs NULL)) (\<lambda>vb.
         Inr (dl_take_left cmp ascend va vb)))) = Inr True"
      using left Suc(2,3) nil(2) by (cases bs) (auto simp: node_view_dview node_left_def)
    have a: "a \<noteq> NULL" "get_next h a = Inr (first_or as' NULL)"
      using Suc(2) left(1) schain_next [of h a a as'] by auto
    have res: "(if first_or rs NULL = NULL then a else first_or rs NULL) = first_or (rs @ [a]) NULL"
      using dchain_NULL [OF Suc(4)] by (cases rs) auto
    have run: "dl_merge cmp ascend (Suc k) h (first_or as NULL) (first_or bs NULL) (first_or rs NULL) (last_or NULL rs)
       = dl_merge cmp ascend k h2 (first_or as' NULL) (first_or bs NULL) (first_or (rs @ [a]) NULL) (last_or NULL (rs @ [a]))"
      using a st(1,2) left(1) dec
      by (simp add: dl_merge.simps [of _ _ "Suc k"] Let_def res cong: if_cong split del: if_split)
    have "dl_merge cmp ascend (Suc k) h (first_or as NULL) (first_or bs NULL) (first_or rs NULL) (last_or NULL rs)
       = dl_merge cmp ascend k h2 (first_or as' NULL) (first_or bs NULL) (first_or (rs @ [a]) NULL) (last_or NULL (rs @ [a]))"
      by (rule run)
    moreover have "distinct ((rs @ [a]) @ as' @ bs)" "length as' + length bs \<le> k"
      using Suc(6,7) left(1) by auto
    ultimately show ?thesis
      using Suc.IH [OF st(4,5,3)] frame_out_trans [OF st(7)] st(6) left(1) m by auto
  next
    case right
    have m: "merge_by ?p as bs = b # merge_by ?p as bs'" using right by (cases as) auto
    have "distinct (rs @ b # bs' @ as)" using Suc(6) right(1) by auto
    then obtain h1 h2 where st:
      "(if first_or rs NULL = NULL then Inr h else set_next h (last_or NULL rs) b) = Inr h1"
      "set_prev h1 b (last_or NULL rs) = Inr h2" "dchain h2 NULL (rs @ [b]) (first_or bs' NULL)"
      "schain h2 (first_or bs' NULL) bs'" "schain h2 (first_or as NULL) as" "dview h2 = dview h"
      "frame_out (set (rs @ b # bs' @ as)) h h2"
      using dl_merge_take [OF Suc(4), of b bs' "first_or as NULL" as] Suc(2,3) right(1) by auto
    have b: "b \<noteq> NULL" "get_next h b = Inr (first_or bs' NULL)"
      using Suc(3) right(1) schain_next [of h b b bs'] by auto
    have dec: "(if b = NULL then Inr True else if first_or as NULL = NULL then Inr False
       else and_then (node_view h (first_or as NULL)) (\<lambda>va. and_then (node_view h b) (\<lambda>vb.
         Inr (dl_take_left cmp ascend va vb)))) = Inr False"
      using right Suc(2,3) b nil(1) by (cases as) (auto simp: node_view_dview node_left_def)
    have res: "(if first_or rs NULL = NULL then b else first_or rs NULL) = first_or (rs @ [b]) NULL"
      using dchain_NULL [OF Suc(4)] by (cases rs) auto
    have "dl_merge cmp ascend (Suc k) h (first_or as NULL) (first_or bs NULL) (first_or rs NULL) (last_or NULL rs)
       = dl_merge cmp ascend k h2 (first_or as NULL) (first_or bs' NULL) (first_or (rs @ [b]) NULL) (last_or NULL (rs @ [b]))"
      using b st(1,2) right(1) dec
      by (simp add: dl_merge.simps [of _ _ "Suc k"] Let_def res cong: if_cong split del: if_split)
    moreover have "distinct ((rs @ [b]) @ as @ bs')" "length as + length bs' \<le> k"
      using Suc(6,7) right(1) by auto
    moreover have "frame_out (set ((rs @ [b]) @ as @ bs')) h h2" using st(7) by (rule frame_out_mono) auto
    ultimately show ?thesis
      using Suc.IH [OF st(5,4,3)] frame_out_trans [of _ h h2] st(6) right(1) m by auto
  qed
qed

text \<open>
  The recursive sort: on any singly linked chain of at most \<open>fuel\<close> nodes it returns the head of
  the sorted chain, with the \<open>prev\<close> pointers repaired when there was something to merge.
\<close>

lemma node_left_dview: "dview h' = dview h \<Longrightarrow> node_left cmp ascend (dview h') = node_left cmp ascend (dview h)"
  by simp

lemma DLinkedListMergeSortFunc_spec:
  assumes "schain h (first_or xs NULL) xs" "distinct xs" "length xs \<le> fuel"
  shows "\<exists>h'. DLinkedListMergeSortFunc cmp ascend fuel h (first_or xs NULL)
      = Inr (h', first_or (msort_by (node_left cmp ascend (dview h)) xs) NULL) \<and>
    schain h' (first_or (msort_by (node_left cmp ascend (dview h)) xs) NULL)
      (msort_by (node_left cmp ascend (dview h)) xs) \<and>
    (2 \<le> length xs \<longrightarrow> dchain h' NULL (msort_by (node_left cmp ascend (dview h)) xs) NULL) \<and>
    dview h' = dview h \<and> frame_out (set xs) h h'"
  using assms
proof (induction fuel arbitrary: h xs)
  case 0
  then show ?case by (simp add: DLinkedListMergeSortFunc.simps msort_by.simps)
next
  case (Suc k)
  let ?p = "node_left cmp ascend (dview h)"
  show ?case
  proof (cases "length xs < 2")
    case True
    then consider "xs = []" | x where "xs = [x]" by (cases xs; cases "tl xs") auto
    then show ?thesis
      using Suc(2) True by cases (auto simp: DLinkedListMergeSortFunc.simps msort_by.simps)
  next
    case False
    define as where "as = take (length xs div 2) xs"
    define bs where "bs = drop (length xs div 2) xs"
    have xs: "xs = as @ bs" by (simp add: as_def bs_def)
    have ne: "as \<noteq> []" "bs \<noteq> []" and len: "length as \<le> k" "length bs \<le> k"
      using False Suc(4) by (auto simp: as_def bs_def)
    have m: "msort_by ?p xs = merge_by ?p (msort_by ?p as) (msort_by ?p bs)"
      using False by (simp add: msort_by.simps [of ?p xs] as_def bs_def)
    have hd: "first_or xs NULL = first_or as NULL" using xs ne(1) by (cases as) simp_all
    obtain x y zs where xyz: "xs = x # y # zs" using False by (cases xs; cases "tl xs") auto
    have nxt: "first_or xs NULL \<noteq> NULL" "get_next h (first_or xs NULL) = Inr y" "y \<noteq> NULL"
      using Suc(2) xyz schain_next [of h x x "y # zs"] by auto
    have split: "dl_split (Suc k) h (first_or xs NULL) (first_or xs NULL) (first_or xs NULL)
       = Inr (first_or bs NULL, last as)"
      using dl_split_spec [OF Suc(2) Suc(2) order_refl, of "Suc k" "first_or xs NULL"] Suc(4) ne
      by (simp add: as_def bs_def last_or_def)
    let ?h1 = "relink_next h as NULL"
    have cut: "schain ?h1 (first_or as NULL) as" "schain ?h1 (first_or bs NULL) bs"
      using schain_cut [of h _ as bs] Suc(2,3) xs ne hd by auto
    have "last as \<in> set xs" using ne(1) xs by simp
    then obtain nl where nl: "h (last as) = Some nl" "last as \<noteq> NULL"
      using schain_dom [OF Suc(2)] schain_NULL [OF Suc(2)] by metis
    have store: "set_next h (last as) NULL = Inr ?h1" using nl ne by (simp add: relink_next_def)
    have d: "distinct as" "distinct bs" "set as \<inter> set bs = {}" using Suc(3) xs by auto
    obtain h2 where h2: "DLinkedListMergeSortFunc cmp ascend k ?h1 (first_or as NULL)
        = Inr (h2, first_or (msort_by ?p as) NULL)"
      "schain h2 (first_or (msort_by ?p as) NULL) (msort_by ?p as)" "dview h2 = dview h"
      "frame_out (set as) ?h1 h2"
      using Suc.IH [OF cut(1) d(1) len(1)] by auto
    have c2: "schain h2 (first_or bs NULL) bs"
      using cut(2) schain_frame_out [OF h2(4)] d(3) by (simp add: Int_commute)
    obtain h3 where h3: "DLinkedListMergeSortFunc cmp ascend k h2 (first_or bs NULL)
        = Inr (h3, first_or (msort_by ?p bs) NULL)"
      "schain h3 (first_or (msort_by ?p bs) NULL) (msort_by ?p bs)" "dview h3 = dview h"
      "frame_out (set bs) h2 h3"
      using Suc.IH [OF c2 d(2) len(2)] h2(3) by auto
    have c3: "schain h3 (first_or (msort_by ?p as) NULL) (msort_by ?p as)"
      using h2(2) schain_frame_out [OF h3(4)] d(3) by simp
    have "distinct ([] @ msort_by ?p as @ msort_by ?p bs)" "dchain h3 NULL [] NULL"
      "length (msort_by ?p as) + length (msort_by ?p bs) \<le> Suc k"
      using d Suc(4) xs by simp_all
    then obtain h4 where h4: "dl_merge cmp ascend (Suc k) h3 (first_or (msort_by ?p as) NULL)
        (first_or (msort_by ?p bs) NULL) NULL NULL = Inr (h4, first_or (msort_by ?p xs) NULL)"
      "dchain h4 NULL (msort_by ?p xs) NULL" "dview h4 = dview h" "frame_out (set (as @ bs)) h3 h4"
      using dl_merge_spec [OF c3 h3(2), of "[]" "first_or (msort_by ?p as) NULL" "Suc k" cmp ascend] h3(3) m by auto
    have "frame_out (set xs) h ?h1" "frame_out (set xs) ?h1 h2" "frame_out (set xs) h2 h3" "frame_out (set xs) h3 h4"
      using frame_out_mono h2(4) h3(4) h4(4) xs by auto
    then have "frame_out (set xs) h h4" by (meson frame_out_trans)
    moreover have "DLinkedListMergeSortFunc cmp ascend (Suc k) h (first_or xs NULL) = Inr (h4, first_or (msort_by ?p xs) NULL)"
      using nxt split store h2(1) h3(1) h4(1) by (simp add: DLinkedListMergeSortFunc.simps [of _ _ "Suc k"] hd)
    ultimately show ?thesis using h4(2,3) dchain_schain by blast
  qed
qed

lemma dl_walk_tail_spec:
  "schain h (first_or xs NULL) xs \<Longrightarrow> xs \<noteq> [] \<Longrightarrow> length xs \<le> Suc fuel \<Longrightarrow>
   dl_walk_tail fuel h (first_or xs NULL) = Inr (last xs)"
proof (induction xs arbitrary: fuel)
  case (Cons x xs)
  show ?case
  proof (cases xs)
    case Nil
    then show ?thesis using Cons(2) by (auto simp: dl_walk_tail.simps)
  next
    case (Cons y ys)
    obtain k where k: "fuel = Suc k" using Cons.prems(3) Cons by (cases fuel) auto
    have c: "schain h (first_or xs NULL) xs" using Cons.prems(1) schain_first by fastforce
    have "get_next h x = Inr y" "y \<noteq> NULL"
      using schain_next [of h x x xs] Cons.prems(1) c Cons by auto
    then show ?thesis using Cons.IH [OF c, of k] Cons.prems(3) Cons k
      by (simp add: dl_walk_tail.simps [of "Suc k"])
  qed
qed simp

section \<open>Sorting a list in place\<close>

lemma dlist_size_gt1:
  assumes "dlist_inv h l xs" "length xs < 2 ^ 64"
  shows "1 < dl_size l \<longleftrightarrow> 1 < length xs"
  using dlist_invD(2) [OF assms(1)] assms(2)
  by (simp add: word_less_nat_alt unsigned_of_nat take_bit_nat_eq_self)

lemma DLinkedListSortMerge_spec:
  assumes inv: "dlist_inv h l xs" and fuel: "length xs \<le> fuel" and len: "length xs < 2 ^ 64"
  obtains h' l' where "DLinkedListSortMerge cmp ascend fuel h l = Inr (h', l')"
    "DLinkedListSortMergeUnsafe cmp ascend fuel h l = Inr (h', l')"
    "list_step h l (set xs) h' l' (msort_by (node_left cmp ascend (dview h)) xs) (dview h)"
proof (cases "1 < length xs")
  case False
  then have small: "msort_by p xs = xs" for p by (simp add: msort_by.simps)
  have "\<not> 1 < dl_size l" using dlist_size_gt1 [OF inv len] False by simp
  then have "DLinkedListSortMerge cmp ascend fuel h l = Inr (h, l)"
    "DLinkedListSortMergeUnsafe cmp ascend fuel h l = Inr (h, l)"
    using dlist_inv_locked(1) [OF inv] dl_lock_roundtrip [OF inv]
    by (simp_all add: DLinkedListSortMerge_def DLinkedListSortMergeUnsafe_def)
  moreover have "list_step h l (set xs) h l xs (dview h)" using inv by (simp add: list_step_def)
  ultimately show ?thesis using that small by simp
next
  case True
  let ?ys = "msort_by (node_left cmp ascend (dview h)) xs" and ?l = "l\<lparr>dl_held := dl_thread_safe l\<rparr>"
  note ds = is_dlistD [OF dlist_invD(1) [OF inv]]
  have gt: "1 < dl_size l" using dlist_size_gt1 [OF inv len] True by simp
  have hd: "dl_head l \<noteq> NULL" using is_dlist_head_iff [OF dlist_invD(1) [OF inv]] True by auto
  obtain h' where h': "DLinkedListMergeSortFunc cmp ascend fuel h (dl_head l) = Inr (h', first_or ?ys NULL)"
    "schain h' (first_or ?ys NULL) ?ys" "dchain h' NULL ?ys NULL" "dview h' = dview h" "frame_out (set xs) h h'"
    using DLinkedListMergeSortFunc_spec [of h xs fuel cmp ascend] dlist_inv_schain [OF inv] ds(1,3) fuel True
    by auto
  have ne: "?ys \<noteq> []" using True by (metis length_0_conv msort_by_length not_less_zero)
  have tl: "dl_walk_tail fuel h' (first_or ?ys NULL) = Inr (last ?ys)"
    by (rule dl_walk_tail_spec [OF h'(2) ne]) (use fuel in simp)
  let ?l' = "l\<lparr>dl_head := first_or ?ys NULL, dl_tail := last ?ys\<rparr>"
  have un: "dl_unlock (?l\<lparr>dl_head := first_or ?ys NULL, dl_tail := last ?ys\<rparr>) = ?l'"
    using dlist_invD(3) [OF inv] by (simp add: dl_unlock_def mutex_unlock_def)
  have "DLinkedListSortMerge cmp ascend fuel h l = Inr (h', ?l')"
    using dlist_inv_locked(1) [OF inv] gt hd h'(1) tl un by (simp add: DLinkedListSortMerge_def Let_def)
  moreover have "DLinkedListSortMergeUnsafe cmp ascend fuel h l = Inr (h', ?l')"
    using gt hd h'(1) tl by (simp add: DLinkedListSortMergeUnsafe_def Let_def)
  moreover have "list_step h l (set xs) h' ?l' ?ys (dview h)"
    using h'(3,4,5) ds(1) inv ne
    by (simp add: list_step_def dlist_inv_def is_dlist_def last_or_def)
  ultimately show ?thesis by (rule that)
qed

text \<open>
  What an ascending, and what a descending, sort compute when the comparison function orders
  payloads by a key: an ascending sort is stable, and a descending one reverses nodes of equal keys.
\<close>

lemma msort_node_ascend:
  assumes "\<And>a b. a \<in> set xs \<Longrightarrow> b \<in> set xs \<Longrightarrow> cmp (a, the (v a)) (b, the (v b)) = 0 \<longleftrightarrow> f a \<le> f b"
  shows "msort_by (node_left cmp True v) xs = sort_key f xs"
  using msort_by_cong [of xs "node_left cmp True v" "\<lambda>a b. f a \<le> f b"] assms
  by (simp add: msort_by_le node_left_def dl_take_left_def)

lemma msort_node_descend:
  assumes "\<And>a b. a \<in> set xs \<Longrightarrow> b \<in> set xs \<Longrightarrow> cmp (a, the (v a)) (b, the (v b)) \<noteq> 0 \<longleftrightarrow> f b < (f a :: int)"
  shows "msort_by (node_left cmp False v) xs = sort_key (\<lambda>a. - f a) (rev xs)"
  using msort_by_cong [of xs "node_left cmp False v" "\<lambda>a b. - f a < - f b"] assms
    msort_by_less [of "\<lambda>a. - f a" xs]
  by (simp add: node_left_def dl_take_left_def)

lemma map_insort_key: "map f (insort_key (\<lambda>a. g (f a)) x xs) = insort_key g (f x) (map f xs)"
  by (induction xs) auto

lemma map_sort_key: "map f (sort_key (\<lambda>a. g (f a)) xs) = sort_key g (map f xs)"
  by (induction xs) (simp_all add: map_insort_key)

section \<open>Sorting into another list\<close>

lemma map_upds_payload:
  "length new = length ds \<Longrightarrow> distinct new \<Longrightarrow> map (\<lambda>a. the ((m(new [\<mapsto>] ds)) a)) new = ds"
proof (induction new ds arbitrary: m rule: list_induct2)
  case (Cons a as d ds)
  have "(m(a \<mapsto> d, as [\<mapsto>] ds)) a = Some d" using Cons(3) by simp
  moreover have "map (\<lambda>x. the ((m(a \<mapsto> d, as [\<mapsto>] ds)) x)) as = ds" using Cons by (intro Cons(2)) simp
  ultimately show ?case by (simp only: list.map map_upds_Cons option.sel)
qed simp

lemma map_upds_payload_out:
  "set new \<inter> set ys = {} \<Longrightarrow> map (\<lambda>a. the ((m(new [\<mapsto>] ds)) a)) ys = map (\<lambda>a. the (m a)) ys"
  by (metis (mono_tags, lifting) disjoint_iff map_eq_conv map_upds_apply_nontin)

lemma DLinkedListSort_spec:
  assumes src: "dlist_inv h l xs" and ret: "dlist_inv h r ys" and disj: "set xs \<inter> set ys = {}"
    and ne: "xs \<noteq> []" and fuel: "length xs + length ys \<le> fuel" and len: "length xs + length ys < 2 ^ 64"
    and new: "new = take (length xs) al" "length xs \<le> length al" "distinct new" "NULL \<notin> set new"
      "set new \<inter> dom h = {}"
  obtains h' r' where "DLinkedListSort cmp ascend fuel h al l r = Inr (h', drop (length xs) al, l, r')"
    "dlist_inv h' l xs" "dlist_inv h' r' (msort_by (node_left cmp ascend (dview h')) (rev new @ ys))"
    "dview h' = (dview h)(new [\<mapsto>] map (\<lambda>a. the (dview h a)) xs)"
proof -
  have "length xs \<le> fuel" using fuel by simp
  then obtain h1 r1 where dup: "DLinkedListDupUnsafe fuel h al l r = Inr (h1, drop (length xs) al, r1)"
    "dlist_inv h1 l xs" "dlist_inv h1 r1 (rev new @ ys)"
    "dview h1 = (dview h)(new [\<mapsto>] map (\<lambda>a. the (dview h a)) xs)"
    using DLinkedListDup_spec [OF src ret disj _ new] by metis
  have n: "length (rev new @ ys) \<le> fuel" "length (rev new @ ys) < 2 ^ 64"
    using fuel len new(1,2) by simp_all
  obtain h2 r2 where so: "DLinkedListSortMergeUnsafe cmp ascend fuel h1 r1 = Inr (h2, r2)"
    "list_step h1 r1 (set (rev new @ ys)) h2 r2 (msort_by (node_left cmp ascend (dview h1)) (rev new @ ys)) (dview h1)"
    using DLinkedListSortMerge_spec [OF dup(3) n] by metis
  note st = list_stepD [OF so(2)]
  have "dl_head l \<noteq> NULL" using is_dlist_head_iff [OF dlist_invD(1) [OF src]] ne by auto
  then have "DLinkedListSort cmp ascend fuel h al l r = Inr (h2, drop (length xs) al, l, r2)"
    using dup(1) so(1) dlist_inv_locked(1) [OF src] dl_lock_roundtrip [OF src]
    by (simp add: DLinkedListSort_def DLinkedListDupUnsafe_def)
  moreover have "dlist_inv h2 l xs"
  proof -
    have "set xs \<inter> set (rev new @ ys) = {}" using disj new(5) dlist_inv_dom [OF src] by fastforce
    then show ?thesis using dlist_inv_frame_out [OF st(4)] dup(2) by simp
  qed
  ultimately show ?thesis using that [of h2 r2] st(1,3) dup(4) by simp
qed

text \<open>
  \<open>DLinkedListMergeSort\<close> and \<open>DLinkedListBubbleSort\<close> lock the source list and then call
  \<open>DLinkedListDup\<close>, which locks it again; without locks they agree with \<open>DLinkedListSort\<close>.
\<close>

lemma DLinkedListMergeSort_deadlock:
  assumes inv: "dlist_inv h l (x # xs)" and ts: "dl_thread_safe l"
  shows "DLinkedListMergeSort cmp ascend fuel h al l r = Inl SelfDeadlock"
    "DLinkedListBubbleSort cmp ascend fuel h al l r = Inl SelfDeadlock"
proof -
  have x: "dl_head l \<noteq> NULL" using is_dlist_head_iff [OF dlist_invD(1) [OF inv]] by auto
  then show "DLinkedListMergeSort cmp ascend fuel h al l r = Inl SelfDeadlock"
    "DLinkedListBubbleSort cmp ascend fuel h al l r = Inl SelfDeadlock"
    using dlist_inv_locked(1) [OF inv] ts
    by (simp_all add: DLinkedListMergeSort_def DLinkedListBubbleSort_def DLinkedListDup_def dl_lock_held)
qed

end
