(* ===== verification/DLinkedListRefine.thy ===== *)
theory DLinkedListRefine
  imports DLinkedListSort
begin

text \<open>
  The doubly linked list as a data type: its abstract state is the sequence of nodes together with
  the payload of every node, its abstract operations are operations on sequences, and every run of
  the C operations that respects the abstract preconditions refines the abstract run. The section
  on claims states the properties of the single operations.
\<close>

section \<open>Abstract list\<close>

type_synonym alist_state = "addr list \<times> (addr \<rightharpoonup> addr)"

datatype dl_op = OpAdd addr addr | OpAddTail addr addr | OpDelete addr | OpPopHead | OpPopTail
  | OpMoveToHead addr | OpMoveToTail addr | OpSort bool

text \<open>
  A step returns the payload a pop hands out (\<open>NULL\<close> otherwise). \<open>None\<close> is a violated precondition:
  a node that is inserted has to be allocated and in no list, a node that is removed or moved has to
  be in the list.
\<close>

fun al_step :: "dcmp \<Rightarrow> dl_op \<Rightarrow> alist_state \<Rightarrow> (alist_state \<times> addr) option" where
  "al_step cmp (OpAdd n d) (xs, v) =
     (if v n \<noteq> None \<and> n \<noteq> NULL \<and> n \<notin> set xs then Some ((n # xs, v(n \<mapsto> d)), NULL) else None)"
| "al_step cmp (OpAddTail n d) (xs, v) =
     (if v n \<noteq> None \<and> n \<noteq> NULL \<and> n \<notin> set xs then Some ((xs @ [n], v(n \<mapsto> d)), NULL) else None)"
| "al_step cmp (OpDelete n) (xs, v) = (if n \<in> set xs then Some ((remove1 n xs, v), NULL) else None)"
| "al_step cmp OpPopHead (xs, v) = (case xs of [] \<Rightarrow> Some (([], v), NULL) | x # ys \<Rightarrow> Some ((ys, v), the (v x)))"
| "al_step cmp OpPopTail (xs, v) =
     (if xs = [] then Some (([], v), NULL) else Some ((butlast xs, v), the (v (last xs))))"
| "al_step cmp (OpMoveToHead n) (xs, v) = (if n \<in> set xs then Some ((n # remove1 n xs, v), NULL) else None)"
| "al_step cmp (OpMoveToTail n) (xs, v) = (if n \<in> set xs then Some ((remove1 n xs @ [n], v), NULL) else None)"
| "al_step cmp (OpSort asc) (xs, v) = Some ((msort_by (node_left cmp asc v) xs, v), NULL)"

primrec al_run :: "dcmp \<Rightarrow> dl_op list \<Rightarrow> alist_state \<Rightarrow> (alist_state \<times> addr list) option" where
  "al_run cmp [] s = Some (s, [])"
| "al_run cmp (c # cs) s = (case al_step cmp c s of None \<Rightarrow> None
     | Some (s', r) \<Rightarrow> (case al_run cmp cs s' of None \<Rightarrow> None | Some (s'', rs) \<Rightarrow> Some (s'', r # rs)))"

section \<open>Concrete runs\<close>

definition no_result :: "(dheap \<times> dlist) result \<Rightarrow> (dheap \<times> dlist \<times> addr) result" where
  "no_result m = and_then m (\<lambda>(h, l). Inr (h, l, NULL))"

fun dl_step :: "dcmp \<Rightarrow> nat \<Rightarrow> dl_op \<Rightarrow> dheap \<Rightarrow> dlist \<Rightarrow> (dheap \<times> dlist \<times> addr) result" where
  "dl_step cmp fuel (OpAdd n d) h l = no_result (DLinkedListAdd h l n d)"
| "dl_step cmp fuel (OpAddTail n d) h l = no_result (DLinkedListAddTail h l n d)"
| "dl_step cmp fuel (OpDelete n) h l = no_result (DLinkedListDelete h l n)"
| "dl_step cmp fuel OpPopHead h l = DLinkedListPopHead h l"
| "dl_step cmp fuel OpPopTail h l = DLinkedListPopTail h l"
| "dl_step cmp fuel (OpMoveToHead n) h l = no_result (DLinkedListMoveToHead h l n)"
| "dl_step cmp fuel (OpMoveToTail n) h l = no_result (DLinkedListMoveToTail h l n)"
| "dl_step cmp fuel (OpSort asc) h l = no_result (DLinkedListSortMerge cmp asc fuel h l)"

primrec dl_run :: "dcmp \<Rightarrow> nat \<Rightarrow> dl_op list \<Rightarrow> dheap \<Rightarrow> dlist \<Rightarrow> (dheap \<times> dlist \<times> addr list) result" where
  "dl_run cmp fuel [] h l = Inr (h, l, [])"
| "dl_run cmp fuel (c # cs) h l = and_then (dl_step cmp fuel c h l) (\<lambda>(h, l, r).
     and_then (dl_run cmp fuel cs h l) (\<lambda>(h, l, rs). Inr (h, l, r # rs)))"

section \<open>Simulation\<close>

definition dl_refines :: "alist_state \<Rightarrow> dheap \<Rightarrow> dlist \<Rightarrow> bool" where
  "dl_refines s h l \<longleftrightarrow> dlist_inv h l (fst s) \<and> dview h = snd s"

lemma remove1_split: "n \<notin> set as \<Longrightarrow> remove1 n (as @ n # bs) = as @ bs"
  by (simp add: remove1_append)

lemma dlist_split_at:
  assumes "dlist_inv h l xs" "n \<in> set xs"
  obtains as bs where "xs = as @ n # bs" "remove1 n xs = as @ bs"
  using split_at_elem [OF assms(2) dlist_inv_distinct [OF assms(1)]] remove1_split by metis

lemma node_allocated: "dview h n \<noteq> None \<Longrightarrow> n \<in> dom h"
  by (metis dom_dview domIff)

text \<open>The nodes an operation is given.\<close>

fun op_nodes :: "dl_op \<Rightarrow> addr set" where
  "op_nodes (OpAdd n d) = {n}"
| "op_nodes (OpAddTail n d) = {n}"
| "op_nodes _ = {}"

lemma list_step_mono:
  "list_step h l A h' l' xs v \<Longrightarrow> A \<subseteq> B \<Longrightarrow> list_step h l B h' l' xs v"
  using frame_out_mono by (auto simp: list_step_def)

lemma dl_step_spec:
  assumes ref: "dl_refines (xs, v) h l" and step: "al_step cmp c (xs, v) = Some (s', r)"
    and fuel: "length xs \<le> fuel" "length xs < 2 ^ 64"
  shows "\<exists>h' l'. dl_step cmp fuel c h l = Inr (h', l', r) \<and>
    list_step h l (set xs \<union> op_nodes c) h' l' (fst s') (snd s')"
proof -
  have inv: "dlist_inv h l xs" and v: "v = dview h" using ref by (simp_all add: dl_refines_def)
  let ?B = "set xs \<union> op_nodes c"
  show ?thesis
  proof (cases c)
    case (OpAdd n d)
    then have s: "s' = (n # xs, (dview h)(n \<mapsto> d))" "r = NULL" and n: "n \<in> dom h" "n \<noteq> NULL" "n \<notin> set xs"
      using step v node_allocated by (auto split: if_splits)
    obtain h' l' where "DLinkedListAdd h l n d = Inr (h', l')"
      "list_step h l (set (n # xs)) h' l' (n # xs) ((dview h)(n \<mapsto> d))"
      using DLinkedListAdd_spec [OF inv n] by metis
    then show ?thesis using OpAdd s list_step_mono [of _ _ _ h' l' _ _ ?B] by (auto simp: no_result_def)
  next
    case (OpAddTail n d)
    then have s: "s' = (xs @ [n], (dview h)(n \<mapsto> d))" "r = NULL" and n: "n \<in> dom h" "n \<noteq> NULL" "n \<notin> set xs"
      using step v node_allocated by (auto split: if_splits)
    obtain h' l' where "DLinkedListAddTail h l n d = Inr (h', l')"
      "list_step h l (set (n # xs)) h' l' (xs @ [n]) ((dview h)(n \<mapsto> d))"
      using DLinkedListAddTail_spec [OF inv n] by metis
    then show ?thesis using OpAddTail s list_step_mono [of _ _ _ h' l' _ _ ?B] by (auto simp: no_result_def)
  next
    case (OpDelete n)
    then have "n \<in> set xs" using step by (auto split: if_splits)
    then obtain as bs where xs: "xs = as @ n # bs" "remove1 n xs = as @ bs"
      using dlist_split_at [OF inv] by metis
    have s: "s' = (as @ bs, dview h)" "r = NULL" using step OpDelete xs(2) v by (auto split: if_splits)
    obtain h' l' where "DLinkedListDelete h l n = Inr (h', l')" "list_step h l (set (as @ n # bs)) h' l' (as @ bs) (dview h)"
      using DLinkedListDelete_spec [OF inv [unfolded xs(1)]] by metis
    then show ?thesis using OpDelete s list_step_mono [of _ _ _ h' l' _ _ ?B] xs(1) by (auto simp: no_result_def)
  next
    case OpPopHead
    show ?thesis
    proof (cases xs)
      case Nil
      then show ?thesis using OpPopHead inv step v DLinkedListPopHead_empty(1) by (auto simp: list_step_def)
    next
      case (Cons x ys)
      have "the (v x) = dn_data (the (h x))" using v dlist_inv_dom [OF inv, of x] Cons by (auto simp: dview_def)
      moreover obtain h' l' where "DLinkedListPopHead h l = Inr (h', l', dn_data (the (h x)))"
        "list_step h l (set xs) h' l' ys (dview h)"
        using Cons DLinkedListPopHead_spec [OF inv [unfolded Cons]] by metis
      moreover have "s' = (ys, v)" "r = the (v x)" using step OpPopHead Cons by auto
      ultimately show ?thesis using OpPopHead v by simp
    qed
  next
    case OpPopTail
    show ?thesis
    proof (cases xs rule: rev_cases)
      case Nil
      then show ?thesis using OpPopTail inv step v DLinkedListPopHead_empty(2) by (auto simp: list_step_def)
    next
      case (snoc ys x)
      have "the (v x) = dn_data (the (h x))" using v dlist_inv_dom [OF inv, of x] snoc by (auto simp: dview_def)
      moreover obtain h' l' where "DLinkedListPopTail h l = Inr (h', l', dn_data (the (h x)))"
        "list_step h l (set xs) h' l' ys (dview h)"
        using snoc DLinkedListPopTail_spec [OF inv [unfolded snoc]] by metis
      moreover have "s' = (ys, v)" "r = the (v x)" using step OpPopTail snoc by auto
      ultimately show ?thesis using OpPopTail v by simp
    qed
  next
    case (OpMoveToHead n)
    then have "n \<in> set xs" using step by (auto split: if_splits)
    then obtain as bs where xs: "xs = as @ n # bs" "remove1 n xs = as @ bs"
      using dlist_split_at [OF inv] by metis
    have s: "s' = (n # as @ bs, dview h)" "r = NULL" using step OpMoveToHead xs(2) v by (auto split: if_splits)
    obtain h' l' where "DLinkedListMoveToHead h l n = Inr (h', l')" "list_step h l (set (n # as @ bs)) h' l' (n # as @ bs) (dview h)"
      using DLinkedListMoveToHead_spec [OF inv [unfolded xs(1)]] by metis
    then show ?thesis using OpMoveToHead s list_step_mono [of _ _ _ h' l' _ _ ?B] xs(1) by (auto simp: no_result_def)
  next
    case (OpMoveToTail n)
    then have "n \<in> set xs" using step by (auto split: if_splits)
    then obtain as bs where xs: "xs = as @ n # bs" "remove1 n xs = as @ bs"
      using dlist_split_at [OF inv] by metis
    have s: "s' = (as @ bs @ [n], dview h)" "r = NULL" using step OpMoveToTail xs(2) v by (auto split: if_splits)
    obtain h' l' where "DLinkedListMoveToTail h l n = Inr (h', l')" "list_step h l (set (n # as @ bs)) h' l' (as @ bs @ [n]) (dview h)"
      using DLinkedListMoveToTail_spec [OF inv [unfolded xs(1)]] by metis
    then show ?thesis using OpMoveToTail s list_step_mono [of _ _ _ h' l' _ _ ?B] xs(1) by (auto simp: no_result_def)
  next
    case (OpSort asc)
    obtain h' l' where "DLinkedListSortMerge cmp asc fuel h l = Inr (h', l')"
      "list_step h l (set xs) h' l' (msort_by (node_left cmp asc (dview h)) xs) (dview h)"
      using DLinkedListSortMerge_spec [OF inv fuel, of cmp asc] by metis
    moreover have "s' = (msort_by (node_left cmp asc v) xs, v)" "r = NULL" using step OpSort by auto
    ultimately show ?thesis using OpSort v by (simp add: no_result_def)
  qed
qed

lemma dl_step_refines:
  assumes "dl_refines (xs, v) h l" "al_step cmp c (xs, v) = Some (s', r)"
    and "length xs \<le> fuel" "length xs < 2 ^ 64"
  shows "\<exists>h' l'. dl_step cmp fuel c h l = Inr (h', l', r) \<and> dl_refines s' h' l'"
  using dl_step_spec [OF assms] by (auto simp: list_step_def dl_refines_def)

text \<open>A run only grows the list by its insertions.\<close>

lemma al_step_length: "al_step cmp c (xs, v) = Some ((ys, w), r) \<Longrightarrow> length ys \<le> Suc (length xs)"
  by (cases c) (auto simp: length_remove1 split: if_splits list.splits)

lemma dl_run_refines:
  assumes "dl_refines s h l" "al_run cmp cs s = Some (s', rs)"
    and "length (fst s) + length cs \<le> fuel" "length (fst s) + length cs < 2 ^ 64"
  shows "\<exists>h' l'. dl_run cmp fuel cs h l = Inr (h', l', rs) \<and> dl_refines s' h' l'"
  using assms
proof (induction cs arbitrary: s h l rs)
  case (Cons c cs)
  obtain xs v where s: "s = (xs, v)" by fastforce
  obtain ys w r rs' where st: "al_step cmp c (xs, v) = Some ((ys, w), r)"
    "al_run cmp cs (ys, w) = Some (s', rs')" "rs = r # rs'"
    using Cons.prems(2) s by (auto split: option.splits)
  obtain h1 l1 where h1: "dl_step cmp fuel c h l = Inr (h1, l1, r)" "dl_refines (ys, w) h1 l1"
    using dl_step_refines [OF _ st(1), of h l fuel] Cons.prems s by auto
  obtain h2 l2 where "dl_run cmp fuel cs h1 l1 = Inr (h2, l2, rs')" "dl_refines s' h2 l2"
    using Cons.IH [OF h1(2) st(2)] al_step_length [OF st(1)] Cons.prems(3,4) s by auto
  then show ?case using h1(1) st(3) by auto
qed simp

section \<open>Claims\<close>

text \<open>
  A concrete memory for the witnesses: a thread-safe list of the nodes 1, 2, 3 with the payloads
  30, 10, 20, and two loose nodes.
\<close>

definition ex_heap :: dheap where
  "ex_heap = [1 \<mapsto> \<lparr>dn_data = 30, dn_prev = 0, dn_next = 2\<rparr>, 2 \<mapsto> \<lparr>dn_data = 10, dn_prev = 1, dn_next = 3\<rparr>,
     3 \<mapsto> \<lparr>dn_data = 20, dn_prev = 2, dn_next = 0\<rparr>, 4 \<mapsto> \<lparr>dn_data = 0, dn_prev = 0, dn_next = 0\<rparr>,
     5 \<mapsto> \<lparr>dn_data = 40, dn_prev = 0, dn_next = 0\<rparr>]"

definition ex_list :: dlist where
  "ex_list = \<lparr>dl_head = 1, dl_tail = 3, dl_held = False, dl_size = 3, dl_thread_safe = True\<rparr>"

definition ex_single :: dlist where
  "ex_single = \<lparr>dl_head = 5, dl_tail = 5, dl_held = False, dl_size = 1, dl_thread_safe = True\<rparr>"

definition ex_cmp :: dcmp where
  "ex_cmp a b = c_bool (snd b < snd a)"

lemma ex_inv: "dlist_inv ex_heap ex_list [1, 2, 3]" "dlist_inv ex_heap ex_single [5]"
  by (simp_all add: dlist_inv_def is_dlist_def ex_heap_def ex_list_def ex_single_def NULL_def last_or_def)

lemma ex_view: "dview ex_heap = [1 \<mapsto> 30, 2 \<mapsto> 10, 3 \<mapsto> 20, 4 \<mapsto> 0, 5 \<mapsto> 40]"
  by (auto simp: dview_def ex_heap_def)

text \<open>
  C1: refinement. Every sequence of insertions at either end, removals, pops, moves and sorts runs
  without a fault, hands out the payloads the abstract list hands out, and ends in a well-formed list
  (links in both directions, head, tail, element count, mutex released) whose node sequence and
  payloads are those of the abstract list.
\<close>

theorem dll_run_refines:
  assumes "dlist_inv h l xs" "al_run cmp cs (xs, dview h) = Some ((ys, v), rs)"
    and "length xs + length cs \<le> fuel" "length xs + length cs < 2 ^ 64"
  shows "\<exists>h' l'. dl_run cmp fuel cs h l = Inr (h', l', rs) \<and> dlist_inv h' l' ys \<and> dview h' = v"
  using dl_run_refines [of "(xs, dview h)" h l cmp cs "(ys, v)" rs fuel] assms
  by (simp add: dl_refines_def)

lemma dll_run_refines_witness:
  "\<exists>h' l'. dl_run ex_cmp 9 [OpAdd 4 15, OpSort True, OpPopHead, OpDelete 4] ex_heap ex_list
      = Inr (h', l', [NULL, NULL, 10, NULL]) \<and> dlist_inv h' l' [3, 1] \<and>
      dview h' = [1 \<mapsto> 30, 2 \<mapsto> 10, 3 \<mapsto> 20, 4 \<mapsto> 15, 5 \<mapsto> 40]"
proof (rule dll_run_refines [OF ex_inv(1)])
  show "al_run ex_cmp [OpAdd 4 15, OpSort True, OpPopHead, OpDelete 4] ([1, 2, 3], dview ex_heap)
      = Some (([3, 1], [1 \<mapsto> 30, 2 \<mapsto> 10, 3 \<mapsto> 20, 4 \<mapsto> 15, 5 \<mapsto> 40]), [NULL, NULL, 10, NULL])"
    by (simp add: ex_view NULL_def msort_by.simps node_left_def dl_take_left_def ex_cmp_def) auto
qed simp_all

text \<open>
  C2: isolation. An operation on one list leaves every other list that shares the memory intact: a
  list whose nodes are disjoint from the list's nodes and from the node handed to the operation keeps
  its nodes, order and links.
\<close>

theorem dll_isolation:
  assumes "dlist_inv h l xs" "dlist_inv h m zs" "set zs \<inter> (set xs \<union> op_nodes c) = {}"
    and "al_step cmp c (xs, dview h) = Some (s', r)" "length xs \<le> fuel" "length xs < 2 ^ 64"
  shows "\<exists>h' l'. dl_step cmp fuel c h l = Inr (h', l', r) \<and> dlist_inv h' m zs"
proof -
  have "dl_refines (xs, dview h) h l" using assms(1) by (simp add: dl_refines_def)
  then show ?thesis
    using dl_step_spec [OF _ assms(4-6)] dlist_inv_frame_out [of "set xs \<union> op_nodes c" h _ zs m] assms(2,3)
    by (metis list_stepD(4))
qed

lemma dll_isolation_witness:
  "\<exists>h' l'. dl_step ex_cmp 3 (OpAddTail 4 7) ex_heap ex_list = Inr (h', l', NULL) \<and> dlist_inv h' ex_single [5]"
proof (rule dll_isolation [OF ex_inv])
  show "al_step ex_cmp (OpAddTail 4 7) ([1, 2, 3], dview ex_heap)
      = Some (([1, 2, 3, 4], (dview ex_heap)(4 \<mapsto> 7)), NULL)"
    by (simp add: ex_view NULL_def)
qed simp_all

text \<open>
  C3: the in-place merge sort, ascending. If the comparison function returns 0 exactly when the first
  payload's key is not greater, \<open>DLinkedListSortMerge\<close> leaves a well-formed list (previous pointers
  and tail repaired) with the same nodes, in the order of the library's stable sort by that key.
\<close>

theorem dll_sort_ascending:
  fixes key :: "addr \<Rightarrow> int"
  assumes "dlist_inv h l xs" "length xs \<le> fuel" "length xs < 2 ^ 64"
    and "\<And>a b x y. cmp (a, x) (b, y) = 0 \<longleftrightarrow> key x \<le> key y"
  shows "\<exists>h' l'. DLinkedListSortMerge cmp True fuel h l = Inr (h', l') \<and>
    dlist_inv h' l' (sort_key (\<lambda>a. key (the (dview h a))) xs) \<and> dview h' = dview h"
proof -
  have "msort_by (node_left cmp True (dview h)) xs = sort_key (\<lambda>a. key (the (dview h a))) xs"
    by (rule msort_node_ascend) (simp add: assms(4))
  then show ?thesis
    using DLinkedListSortMerge_spec [OF assms(1-3), of cmp True] list_stepD(1,3) by metis
qed

lemma dll_sort_ascending_witness:
  "\<exists>h' l'. DLinkedListSortMerge ex_cmp True 3 ex_heap ex_list = Inr (h', l') \<and>
    dlist_inv h' l' [2, 3, 1] \<and> dview h' = dview ex_heap"
  using dll_sort_ascending [OF ex_inv(1), of 3 ex_cmp int] by (simp add: ex_cmp_def not_less ex_view)

text \<open>
  The in-place merge sort, descending. If the comparison function is nonzero exactly when the first
  payload's key is greater, the list is sorted by descending key, but nodes of equal keys come out in
  the reverse of their order before: the descending sort is not stable.
\<close>

theorem dll_sort_descending:
  fixes key :: "addr \<Rightarrow> int"
  assumes "dlist_inv h l xs" "length xs \<le> fuel" "length xs < 2 ^ 64"
    and "\<And>a b x y. cmp (a, x) (b, y) \<noteq> 0 \<longleftrightarrow> key y < key x"
  shows "\<exists>h' l'. DLinkedListSortMerge cmp False fuel h l = Inr (h', l') \<and>
    dlist_inv h' l' (sort_key (\<lambda>a. - key (the (dview h a))) (rev xs)) \<and> dview h' = dview h"
proof -
  have "msort_by (node_left cmp False (dview h)) xs = sort_key (\<lambda>a. - key (the (dview h a))) (rev xs)"
    by (rule msort_node_descend) (simp add: assms(4))
  then show ?thesis
    using DLinkedListSortMerge_spec [OF assms(1-3), of cmp False] list_stepD(1,3) by metis
qed

lemma dll_sort_descending_witness:
  "\<exists>h' l'. DLinkedListSortMerge ex_cmp False 3 ex_heap ex_list = Inr (h', l') \<and>
    dlist_inv h' l' [1, 3, 2] \<and> dview h' = dview ex_heap"
  using dll_sort_descending [OF ex_inv(1), of 3 ex_cmp int] by (simp add: ex_cmp_def ex_view)

text \<open>
  C4: \<open>DLinkedListSort\<close> into a second list. The source list is untouched; the nodes of the second list
  are its old ones and one freshly allocated node per source node, and their payloads are the stable
  sort of the source payloads in reverse order (duplication adds at the head) before its own.
\<close>

theorem dll_sort_into:
  fixes key :: "addr \<Rightarrow> int"
  assumes "dlist_inv h l xs" "dlist_inv h r ys" "set xs \<inter> set ys = {}" "xs \<noteq> []"
    and "length xs + length ys \<le> fuel" "length xs + length ys < 2 ^ 64"
    and new: "new = take (length xs) al" "length xs \<le> length al" "distinct new" "NULL \<notin> set new"
      "set new \<inter> dom h = {}"
    and "\<And>a b x y. cmp (a, x) (b, y) = 0 \<longleftrightarrow> key x \<le> key y"
  shows "\<exists>h' r' zs. DLinkedListSort cmp True fuel h al l r = Inr (h', drop (length xs) al, l, r') \<and>
    dlist_inv h' l xs \<and> dlist_inv h' r' zs \<and> set zs = set new \<union> set ys \<and>
    map (\<lambda>a. the (dview h' a)) zs
      = sort_key key (rev (map (\<lambda>a. the (dview h a)) xs) @ map (\<lambda>a. the (dview h a)) ys)"
proof -
  obtain h' r' where run: "DLinkedListSort cmp True fuel h al l r = Inr (h', drop (length xs) al, l, r')"
    "dlist_inv h' l xs" "dlist_inv h' r' (msort_by (node_left cmp True (dview h')) (rev new @ ys))"
    "dview h' = (dview h)(new [\<mapsto>] map (\<lambda>a. the (dview h a)) xs)"
    by (rule DLinkedListSort_spec [OF assms(1-11)])
  have m: "msort_by (node_left cmp True (dview h')) (rev new @ ys)
      = sort_key (\<lambda>a. key (the (dview h' a))) (rev new @ ys)"
    by (rule msort_node_ascend) (simp add: assms(12))
  have "map (\<lambda>a. the (dview h' a)) new = map (\<lambda>a. the (dview h a)) xs"
    unfolding run(4) using new(1-3) by (intro map_upds_payload) simp_all
  moreover have "set new \<inter> set ys = {}" using new(5) dlist_inv_dom [OF assms(2)] by fastforce
  then have "map (\<lambda>a. the (dview h' a)) ys = map (\<lambda>a. the (dview h a)) ys"
    unfolding run(4) by (rule map_upds_payload_out)
  moreover have "map (\<lambda>a. the (dview h' a)) (rev new @ ys)
      = rev (map (\<lambda>a. the (dview h' a)) new) @ map (\<lambda>a. the (dview h' a)) ys" by (simp add: rev_map)
  ultimately have eq: "map (\<lambda>a. the (dview h' a)) (rev new @ ys)
      = rev (map (\<lambda>a. the (dview h a)) xs) @ map (\<lambda>a. the (dview h a)) ys" by (simp only:)
  have "map (\<lambda>a. the (dview h' a)) (sort_key (\<lambda>a. key (the (dview h' a))) (rev new @ ys))
      = sort_key key (rev (map (\<lambda>a. the (dview h a)) xs) @ map (\<lambda>a. the (dview h a)) ys)"
    using map_sort_key [of "\<lambda>a. the (dview h' a)" key "rev new @ ys"] unfolding eq .
  moreover have "set (sort_key (\<lambda>a. key (the (dview h' a))) (rev new @ ys)) = set new \<union> set ys" by simp
  ultimately show ?thesis using run(1,2) run(3) [unfolded m] by blast
qed

lemma dll_sort_into_witness:
  "\<exists>h' r' zs. DLinkedListSort ex_cmp True 4 ex_heap [6, 7, 8, 9] ex_list ex_single = Inr (h', [9], ex_list, r') \<and>
    dlist_inv h' ex_list [1, 2, 3] \<and> dlist_inv h' r' zs \<and> set zs = {5, 6, 7, 8} \<and>
    map (\<lambda>a. the (dview h' a)) zs = [10, 20, 30, 40]"
proof -
  have d: "[6, 7, 8] = take (length [1 :: nat, 2, 3]) [6 :: nat, 7, 8, 9]" "NULL \<notin> set [6, 7, 8 :: nat]"
    "set [6, 7, 8] \<inter> dom ex_heap = {}"
    by (auto simp: ex_heap_def NULL_def)
  show ?thesis
    using dll_sort_into [OF ex_inv _ _ _ _ d(1) _ _ d(2,3), of 4 ex_cmp int]
    by (simp add: ex_cmp_def not_less ex_view insert_commute)
qed

text \<open>
  Insertion at a position. Position 0 and positions from the element count on are an insertion at
  the head and the tail. At a position strictly inside, the node is linked in there, but its payload is
  not stored and the element count does not change.
\<close>

theorem dll_addpos:
  assumes "dlist_inv h l xs" "length xs \<le> 2 ^ 32" "node \<in> dom h" "node \<noteq> NULL" "node \<notin> set xs"
    and "unat pos \<le> fuel"
  shows "(pos = 0 \<longrightarrow> DLinkedListAddPos fuel h l pos node d = DLinkedListAddHead h l node d) \<and>
    (pos \<noteq> 0 \<longrightarrow> length xs \<le> unat pos \<longrightarrow>
      DLinkedListAddPos fuel h l pos node d = DLinkedListAddTail h l node d) \<and>
    (0 < unat pos \<longrightarrow> unat pos < length xs \<longrightarrow>
      (\<exists>h'. DLinkedListAddPos fuel h l pos node d = Inr (h', l) \<and>
        is_dlist h' l (take (unat pos) xs @ node # drop (unat pos) xs) \<and> dview h' = dview h))"
proof (intro conjI impI)
  have "unat (dl_size l) = length xs"
    using dlist_invD(2) [OF assms(1)] assms(2) by (simp add: unsigned_of_nat take_bit_nat_eq_self)
  then have "length xs \<le> unat pos \<Longrightarrow> dl_size l \<le> pos" by (simp add: word_le_nat_alt)
  then show "pos = 0 \<Longrightarrow> DLinkedListAddPos fuel h l pos node d = DLinkedListAddHead h l node d"
    "pos \<noteq> 0 \<Longrightarrow> length xs \<le> unat pos \<Longrightarrow>
      DLinkedListAddPos fuel h l pos node d = DLinkedListAddTail h l node d"
    using DLinkedListAddPos_ends [OF assms(1)] by (simp_all add: DLinkedListAddHead_def)
  show "0 < unat pos \<Longrightarrow> unat pos < length xs \<Longrightarrow>
      \<exists>h'. DLinkedListAddPos fuel h l pos node d = Inr (h', l) \<and>
        is_dlist h' l (take (unat pos) xs @ node # drop (unat pos) xs) \<and> dview h' = dview h"
    using DLinkedListAddPos_mid [OF assms(1,2) _ _ assms(6,3-5)] by metis
qed

lemma dll_addpos_witness:
  "DLinkedListAddPos 7 ex_heap ex_list 0 4 99 = DLinkedListAddHead ex_heap ex_list 4 99 \<and>
   DLinkedListAddPos 7 ex_heap ex_list 7 4 99 = DLinkedListAddTail ex_heap ex_list 4 99 \<and>
   (\<exists>h'. DLinkedListAddPos 7 ex_heap ex_list 2 4 99 = Inr (h', ex_list) \<and>
      is_dlist h' ex_list [1, 2, 4, 3] \<and> dview h' = dview ex_heap)"
proof -
  have n: "4 \<in> dom ex_heap" "(4 :: nat) \<noteq> NULL" "(4 :: nat) \<notin> set [1, 2, 3]"
    by (simp_all add: ex_heap_def NULL_def)
  show ?thesis
    using dll_addpos [OF ex_inv(1) _ n, of 0 7 99] dll_addpos [OF ex_inv(1) _ n, of 7 7 99]
      dll_addpos [OF ex_inv(1) _ n, of 2 7 99] by simp
qed

text \<open>
  Insertion before or after a node links the new node in at the right place and stores its payload,
  but leaves the element count as it was; removing the nodes one by one then ends with a count below
  zero, that is, wrapped around.
\<close>

theorem dll_insert_next_to_uncounted:
  assumes "dlist_inv h l (as @ p # bs)" "node \<in> dom h" "node \<noteq> NULL" "node \<notin> set (as @ p # bs)" "d \<noteq> NULL"
  shows "(\<exists>h' l'. DLinkedListAddBefore h l p node d = Inr (h', l') \<and> is_dlist h' l' (as @ node # p # bs) \<and>
      dview h' = (dview h)(node \<mapsto> d) \<and> dl_size l' = of_nat (length (as @ p # bs)) \<and> \<not> dl_held l') \<and>
    (\<exists>h' l'. DLinkedListAddAfter h l p node d = Inr (h', l') \<and> is_dlist h' l' (as @ p # node # bs) \<and>
      dview h' = (dview h)(node \<mapsto> d) \<and> dl_size l' = of_nat (length (as @ p # bs)) \<and> \<not> dl_held l')"
  using DLinkedListAddBefore_spec [OF assms] DLinkedListAddAfter_spec [OF assms] dlist_invD(2) [OF assms(1)]
  by (intro conjI) metis+

lemma dll_insert_next_to_uncounted_witness:
  "(\<exists>h' l'. DLinkedListAddBefore ex_heap ex_list 1 4 9 = Inr (h', l') \<and> is_dlist h' l' [4, 1, 2, 3] \<and>
      dview h' = (dview ex_heap)(4 \<mapsto> 9) \<and> dl_size l' = 3 \<and> \<not> dl_held l') \<and>
   (\<exists>h' l'. DLinkedListAddAfter ex_heap ex_list 1 4 9 = Inr (h', l') \<and> is_dlist h' l' [1, 4, 2, 3] \<and>
      dview h' = (dview ex_heap)(4 \<mapsto> 9) \<and> dl_size l' = 3 \<and> \<not> dl_held l')"
proof -
  have "dlist_inv ex_heap ex_list ([] @ 1 # [2, 3])" "4 \<in> dom ex_heap" "(4 :: nat) \<noteq> NULL"
    "(4 :: nat) \<notin> set ([] @ 1 # [2, 3])" "(9 :: nat) \<noteq> NULL"
    using ex_inv(1) by (simp_all add: ex_heap_def NULL_def)
  from dll_insert_next_to_uncounted [OF this] show ?thesis by simp
qed

text \<open>
  C5: duplication with a filter (a null filter skips everything, no filter at all is
  \<open>DLinkedListDup\<close>). The source keeps its nodes and its released mutex; every node the filter does not
  reject is copied into a fresh node, and since the copies are added at the head, the duplicate is in
  reverse order.
\<close>

theorem dll_dup_filter:
  assumes "dlist_inv h l xs" "dlist_inv h r ys" "set xs \<inter> set ys = {}" "length xs \<le> fuel"
    and "kept = filter (\<lambda>a. \<not> dl_filtered f (a, the (dview h a))) xs"
    and new: "new = take (length kept) al" "length kept \<le> length al" "distinct new" "NULL \<notin> set new"
      "set new \<inter> dom h = {}"
  shows "\<exists>h' r'. DLinkedListDupFilter f fuel h al l r = Inr (h', drop (length kept) al, l, r') \<and>
    dlist_inv h' l xs \<and> dlist_inv h' r' (rev new @ ys) \<and>
    map (\<lambda>a. the (dview h' a)) new = map (\<lambda>a. the (dview h a)) kept"
proof -
  obtain h' r' where run: "DLinkedListDupFilter f fuel h al l r = Inr (h', drop (length kept) al, l, r')"
    "dlist_inv h' l xs" "dlist_inv h' r' (rev new @ ys)" "dl_thread_safe r' = dl_thread_safe r"
    "dview h' = (dview h)(new [\<mapsto>] map (\<lambda>a. the (dview h a)) kept)"
    by (rule DLinkedListDupFilter_spec [OF assms])
  moreover have "map (\<lambda>a. the (dview h' a)) new = map (\<lambda>a. the (dview h a)) kept"
    unfolding run(5) using new(1-3) by (intro map_upds_payload) simp_all
  ultimately show ?thesis by blast
qed

lemma dll_dup_filter_witness:
  "\<exists>h' r'. DLinkedListDupFilter (Some (\<lambda>v. c_bool (snd v < 15))) 3 ex_heap [6, 7, 8] ex_list ex_single
      = Inr (h', [8], ex_list, r') \<and> dlist_inv h' ex_list [1, 2, 3] \<and> dlist_inv h' r' [7, 6, 5] \<and>
    map (\<lambda>a. the (dview h' a)) [6, 7] = [30, 20]"
proof -
  have k: "[1, 3] = filter (\<lambda>a. \<not> dl_filtered (Some (\<lambda>v. c_bool (snd v < 15))) (a, the (dview ex_heap a))) [1, 2, 3]"
    by (simp add: dl_filtered_def ex_view)
  have d: "[6, 7] = take (length [1 :: nat, 3]) [6 :: nat, 7, 8]" "length [1 :: nat, 3] \<le> length [6 :: nat, 7, 8]"
    "distinct [6, 7 :: nat]" "NULL \<notin> set [6, 7 :: nat]" "set [6, 7] \<inter> dom ex_heap = {}"
    by (auto simp: ex_heap_def NULL_def)
  show ?thesis
    using dll_dup_filter [OF ex_inv _ _ k d, of 3] by (simp add: ex_view)
qed

text \<open>
  Emptying a list that is not thread safe removes and frees exactly its nodes and leaves an empty
  list at rest; \<open>DLinkedListDestroyData\<close> also frees each payload once, in list order.
\<close>

theorem dll_clean_frees:
  assumes "dlist_inv h l xs" "\<not> dl_thread_safe l" "length xs \<le> fuel"
  shows "\<exists>l'. DLinkedListClean fuel h l = Inr (\<lambda>a. if a \<in> set xs then None else h a, l') \<and>
    DLinkedListDestroyData fuel h l
      = Inr (\<lambda>a. if a \<in> set xs then None else h a, l', map (\<lambda>a. the (dview h a)) xs) \<and>
    dlist_inv (\<lambda>a. if a \<in> set xs then None else h a) l' []"
  by (rule DLinkedListClean_spec [OF assms]) blast

lemma dll_clean_frees_witness:
  "\<exists>l'. DLinkedListClean 3 ex_heap (ex_list\<lparr>dl_thread_safe := False\<rparr>)
      = Inr (\<lambda>a. if a \<in> {1, 2, 3} then None else ex_heap a, l') \<and>
    DLinkedListDestroyData 3 ex_heap (ex_list\<lparr>dl_thread_safe := False\<rparr>)
      = Inr (\<lambda>a. if a \<in> {1, 2, 3} then None else ex_heap a, l', [30, 10, 20]) \<and>
    dlist_inv (\<lambda>a. if a \<in> {1, 2, 3} then None else ex_heap a) l' []"
proof -
  have "dlist_inv ex_heap (ex_list\<lparr>dl_thread_safe := False\<rparr>) [1, 2, 3]"
    using ex_inv(1) by (simp add: dlist_inv_def is_dlist_def)
  from dll_clean_frees [OF this, of 3] show ?thesis by (simp add: ex_view)
qed

text \<open>
  C6: four operations lock the mutex of a thread-safe list and then call an operation that locks the
  same, non-recursive mutex again, so on every thread-safe list that is not empty they deadlock.
\<close>

theorem dll_self_deadlock:
  assumes "dlist_inv h l xs" "dl_thread_safe l" "xs \<noteq> []" "0 < fuel"
  shows "DLinkedListClean fuel h l = Inl SelfDeadlock \<and> DLinkedListDestroyData fuel h l = Inl SelfDeadlock \<and>
    DLinkedListMergeSort cmp ascend fuel h al l r = Inl SelfDeadlock \<and>
    DLinkedListBubbleSort cmp ascend fuel h al l r = Inl SelfDeadlock"
proof -
  obtain x ys k where "xs = x # ys" "fuel = Suc k" using assms(3,4) by (cases xs; cases fuel) auto
  moreover from this have inv: "dlist_inv h l (x # ys)" using assms(1) by simp
  ultimately show ?thesis
    using dl_clean_deadlock [OF inv assms(2)] DLinkedListMergeSort_deadlock [OF inv assms(2)] by simp_all
qed

lemma dll_self_deadlock_witness:
  "DLinkedListClean 3 ex_heap ex_list = Inl SelfDeadlock \<and>
   DLinkedListDestroyData 3 ex_heap ex_list = Inl SelfDeadlock \<and>
   DLinkedListMergeSort ex_cmp True 3 ex_heap [6, 7, 8] ex_list ex_single = Inl SelfDeadlock \<and>
   DLinkedListBubbleSort ex_cmp True 3 ex_heap [6, 7, 8] ex_list ex_single = Inl SelfDeadlock"
proof -
  have t: "dl_thread_safe ex_list" "[1 :: nat, 2, 3] \<noteq> []" "(0 :: nat) < 3" by (simp_all add: ex_list_def)
  show ?thesis using dll_self_deadlock [OF ex_inv(1) t] by blast
qed

text \<open>
  The debug variants are the plain operations with their precondition checked: inserting a node
  that is already in the list, or removing one that is not, fails an assertion, and otherwise they
  behave exactly as the plain operation.
\<close>

theorem dll_debug_checks:
  assumes "dlist_inv h l xs" "length xs \<le> fuel"
  shows "DLinkedListAddDebug fuel h l node d
      = (if node \<in> set xs then Inl AssertFail else DLinkedListAdd h l node d) \<and>
    DLinkedListAddTailDebug fuel h l node d
      = (if node \<in> set xs then Inl AssertFail else DLinkedListAddTail h l node d) \<and>
    DLinkedListDeleteDebug fuel h l node
      = (if node \<in> set xs then DLinkedListDelete h l node else Inl AssertFail)"
  using DLinkedListAddDebug_eq [OF assms] DLinkedListDeleteDebug_eq [OF assms] by blast

lemma dll_debug_checks_witness:
  "DLinkedListAddDebug 3 ex_heap ex_list 4 7 = DLinkedListAdd ex_heap ex_list 4 7 \<and>
   DLinkedListAddTailDebug 3 ex_heap ex_list 2 7 = Inl AssertFail \<and>
   DLinkedListDeleteDebug 3 ex_heap ex_list 4 = Inl AssertFail"
  using dll_debug_checks [OF ex_inv(1), of 3 4 7] dll_debug_checks [OF ex_inv(1), of 3 2 7] by simp

end
