(* ===== verification/DynBitmap.thy ===== *)
theory DynBitmap
  imports BrbPrelude
begin

unbundle bit_operations_syntax

text \<open>
  The growing bitmap of libbrb_core/data/core/dyn_bitmap.c and the \<open>BITMASK_\<close> macros of
  libbrb_core.h. The byte array is the list of its allocated bytes, so an access beyond the allocation
  is a fault. The abstraction of a bitmap is the set of its set bits.

  Indices and sizes are \<open>long\<close>, the index of the search and the numbers of the string map \<open>int\<close>; arithmetic
  that overflows is a fault. The lemmas are about indices and growth rates below 2 ^ 62. Allocation is taken
  to succeed, as the source takes it to.
\<close>

section \<open>The code\<close>

record dbm =
  bm_data :: "8 word list"
  bm_capacity :: int
  bm_grow_rate :: int
  bm_higher_seen :: int
  bm_bitset_count :: int
  bm_thread_safe :: bool
  bm_held :: bool

definition BITMASK_BIT :: "int \<Rightarrow> 8 word" where
  "BITMASK_BIT i = push_bit (nat (i mod 8)) 1"

definition BITMASK_SET :: "8 word list \<Rightarrow> int \<Rightarrow> 8 word list result" where
  "BITMASK_SET bytes i = and_then (arr_get bytes (i div 8)) (\<lambda>w. arr_set bytes (i div 8) (w OR BITMASK_BIT i))"

definition BITMASK_CLR :: "8 word list \<Rightarrow> int \<Rightarrow> 8 word list result" where
  "BITMASK_CLR bytes i = and_then (arr_get bytes (i div 8)) (\<lambda>w. arr_set bytes (i div 8) (w AND NOT (BITMASK_BIT i)))"

definition BITMASK_TEST :: "8 word list \<Rightarrow> int \<Rightarrow> int result" where
  "BITMASK_TEST bytes i = and_then (arr_get bytes (i div 8)) (\<lambda>w. Inr (c_bool (w AND BITMASK_BIT i \<noteq> 0)))"

text \<open>\<open>calloc\<close> of the structure and \<open>DynBitMapInit\<close>.\<close>

definition DynBitMapInit :: "bool \<Rightarrow> int \<Rightarrow> dbm" where
  "DynBitMapInit thread_safe grow_rate =
     \<lparr>bm_data = replicate (nat (grow_rate + 1)) 0, bm_capacity = grow_rate, bm_grow_rate = grow_rate,
      bm_higher_seen = 0, bm_bitset_count = 0, bm_thread_safe = thread_safe, bm_held = False\<rparr>"

definition DynBitMapNew :: "bool \<Rightarrow> int \<Rightarrow> dbm" where
  "DynBitMapNew thread_safe grow_rate = DynBitMapInit thread_safe grow_rate"

text \<open>
  The bytes \<open>realloc\<close> adds are indeterminate; they are all ones here until the \<open>memset\<close> clears them.
\<close>

definition DynBitMapGrowIfNeeded :: "dbm \<Rightarrow> int \<Rightarrow> (dbm \<times> int) result" where
  "DynBitMapGrowIfNeeded b wanted_index =
     and_then (in_long (wanted_index + 7)) (\<lambda>up.
     and_then (in_long (up sdiv 8 + 1)) (\<lambda>wanted_offset.
     and_then (in_long (wanted_offset + bm_grow_rate b)) (\<lambda>new_size.
      if bm_capacity b < wanted_offset then
           and_then (arr_fill (arr_realloc (- 1) (bm_data b) new_size) (bm_capacity b)
               (new_size - bm_capacity b) 0) (\<lambda>d.
           Inr (b\<lparr>bm_data := d, bm_capacity := new_size\<rparr>, 1))
         else Inr (b, 0))))"

definition DynBitMapBitSet :: "dbm \<Rightarrow> int \<Rightarrow> (dbm \<times> int) result" where
  "DynBitMapBitSet b index =
     and_then (mutex_lock (bm_thread_safe b) (bm_held b)) (\<lambda>m.
     let b = b\<lparr>bm_held := m\<rparr>;
         b = (if bm_higher_seen b < index then b\<lparr>bm_higher_seen := index\<rparr> else b) in
     and_then (DynBitMapGrowIfNeeded b index) (\<lambda>(b, need_grow).
     and_then (BITMASK_TEST (bm_data b) index) (\<lambda>bit_state.
     and_then (BITMASK_SET (bm_data b) index) (\<lambda>d.
     let b = b\<lparr>bm_data := d\<rparr>;
         b = (if bit_state = 0 then b\<lparr>bm_bitset_count := bm_bitset_count b + 1\<rparr> else b)
     in Inr (b\<lparr>bm_held := mutex_unlock (bm_thread_safe b) (bm_held b)\<rparr>, 1)))))"

definition DynBitMapBitTest :: "dbm \<Rightarrow> int \<Rightarrow> int result" where
  "DynBitMapBitTest b index =
     (if bm_higher_seen b < index then Inr 0 else BITMASK_TEST (bm_data b) index)"

definition DynBitMapBitClear :: "dbm \<Rightarrow> int \<Rightarrow> (dbm \<times> int) result" where
  "DynBitMapBitClear b index =
     (if bm_higher_seen b < index then Inr (b, 0)
      else and_then (BITMASK_TEST (bm_data b) index) (\<lambda>bit_state.
        and_then (BITMASK_CLR (bm_data b) index) (\<lambda>d.
        let b = b\<lparr>bm_data := d\<rparr>;
            b = (if bit_state \<noteq> 0 then b\<lparr>bm_bitset_count := bm_bitset_count b - 1\<rparr> else b)
        in Inr (b, 1))))"

definition DynBitMapBitClearAll :: "dbm \<Rightarrow> (dbm \<times> int) result" where
  "DynBitMapBitClearAll b =
     and_then (arr_fill (bm_data b) 0 (bm_capacity b) 0) (\<lambda>d. Inr (b\<lparr>bm_data := d\<rparr>, 1))"

text \<open>\<open>memcmp\<close> of the first \<open>n\<close> bytes, as a test for equality; the length is a \<open>size_t\<close>.\<close>

definition mem_equal :: "8 word list \<Rightarrow> 8 word list \<Rightarrow> int \<Rightarrow> bool result" where
  "mem_equal xs ys n = (if nat (c_size n) \<le> length xs \<and> nat (c_size n) \<le> length ys
     then Inr (take (nat (c_size n)) xs = take (nat (c_size n)) ys) else Inl OutOfBounds)"

definition DynBitMapCompare :: "dbm \<Rightarrow> dbm \<Rightarrow> int result" where
  "DynBitMapCompare one two =
     (if bm_higher_seen one \<noteq> bm_higher_seen two then Inr 0
      else let smaller_cap = c_int (if bm_capacity one < bm_capacity two then bm_capacity one else bm_capacity two)
        in and_then (mem_equal (bm_data one) (bm_data two) smaller_cap) (\<lambda>eq. Inr (c_bool eq)))"

definition DynBitMapGetHigherSeen :: "dbm \<Rightarrow> int" where
  "DynBitMapGetHigherSeen b = bm_higher_seen b"

function DynBitMapCheckMultiBlocks :: "dbm \<Rightarrow> int \<Rightarrow> int \<Rightarrow> int result" where
  "DynBitMapCheckMultiBlocks b i block_idx_finish =
     (if i \<le> block_idx_finish then
        and_then (DynBitMapBitTest b i) (\<lambda>t.
        if t = 0 then Inr 0
        else and_then (in_long (i + 1)) (\<lambda>i1. DynBitMapCheckMultiBlocks b i1 block_idx_finish))
      else Inr 1)"
  by pat_completeness auto
termination by (relation "measure (\<lambda>(b, i, f). nat (f + 1 - i))") (auto simp: in_long_def split: if_splits)

declare DynBitMapCheckMultiBlocks.simps [simp del]

text \<open>The search loop of \<open>DynBitMapGetValidBlocks\<close>, whose index is an \<open>int\<close>; it returns the two indices.\<close>

function dbm_valid_loop :: "dbm \<Rightarrow> int \<Rightarrow> int \<Rightarrow> bool \<Rightarrow> int \<Rightarrow> int \<Rightarrow> (int \<times> int) result" where
  "dbm_valid_loop b i finish found first_idx last_idx =
     (if i \<le> finish then
        if \<not> found then
          and_then (DynBitMapBitTest b i) (\<lambda>t.
          and_then (in_int (i + 1)) (\<lambda>i1.
          if t \<noteq> 0 then dbm_valid_loop b i1 finish True i i
          else dbm_valid_loop b i1 finish False first_idx last_idx))
        else
          and_then (DynBitMapBitTest b i) (\<lambda>t.
          if t = 0 then Inr (first_idx, i - 1)
          else and_then (in_int (i + 1)) (\<lambda>i1. dbm_valid_loop b i1 finish True first_idx i))
      else Inr (first_idx, last_idx))"
  by pat_completeness auto
termination by (relation "measure (\<lambda>(b, i, f, _). nat (f + 1 - i))") (auto simp: in_int_def split: if_splits)

declare dbm_valid_loop.simps [simp del]

definition DynBitMapGetValidBlocks :: "dbm \<Rightarrow> int \<Rightarrow> int \<Rightarrow> (int \<times> int \<times> int) result" where
  "DynBitMapGetValidBlocks b block_idx_begin block_idx_finish =
     (if block_idx_begin > bm_higher_seen b then Inr (0, - 1, - 1)
      else let finish = (if block_idx_finish > bm_higher_seen b then bm_higher_seen b else block_idx_finish) in
        and_then (dbm_valid_loop b (c_int block_idx_begin) finish False (- 1) (- 1)) (\<lambda>(first_idx, last_idx).
        Inr (if first_idx < 0 then 0 else 1, first_idx, last_idx)))"

text \<open>
  \<open>DynBitMapGenerateStringMap\<close>. The condition of the inner loop is \<open>ci < step_offset, ci < ret_mask_size\<close>,
  a comma expression whose value is the second comparison, so every painting runs to the end of the mask.
\<close>

function dbm_paint :: "char list \<Rightarrow> int \<Rightarrow> int \<Rightarrow> char \<Rightarrow> char list result" where
  "dbm_paint bytes ci ret_mask_size c =
     (if ci < ret_mask_size then
        and_then (arr_set bytes ci c) (\<lambda>bytes. dbm_paint bytes (ci + 1) ret_mask_size c)
      else Inr bytes)"
  by pat_completeness auto
termination by (relation "measure (\<lambda>(m, ci, n, c). nat (n - ci))") auto

declare dbm_paint.simps [simp del]

function dbm_map_loop :: "dbm \<Rightarrow> int \<Rightarrow> int \<Rightarrow> int \<Rightarrow> int \<Rightarrow> int \<Rightarrow> char list \<Rightarrow> char list result" where
  "dbm_map_loop b mask_size active_factor i cc step_idx bytes =
     (if i < bm_higher_seen b then
        and_then (DynBitMapBitTest b i) (\<lambda>t.
        and_then (in_int (cc + (if t \<noteq> 0 then 1 else 0))) (\<lambda>cc.
        and_then (c_mod i active_factor) (\<lambda>m.
        if m = 0 \<or> i = bm_higher_seen b then
          and_then (in_long ((i + 1) * mask_size)) (\<lambda>product.
          and_then (c_div product (bm_higher_seen b)) (\<lambda>step_offset.
          and_then (dbm_paint bytes step_idx mask_size (if cc > 0 then CHR ''1'' else CHR ''0'')) (\<lambda>bytes.
          dbm_map_loop b mask_size active_factor (i + 1) 0 (c_int step_offset) bytes)))
        else dbm_map_loop b mask_size active_factor (i + 1) cc step_idx bytes)))
      else Inr bytes)"
  by pat_completeness auto
termination by (relation "measure (\<lambda>(b, _, _, i, _). nat (bm_higher_seen b - i))") auto

declare dbm_map_loop.simps [simp del]

definition DynBitMapGenerateStringMap :: "dbm \<Rightarrow> char list \<Rightarrow> int \<Rightarrow> (int \<times> char list) result" where
  "DynBitMapGenerateStringMap b bytes ret_mask_size =
     (if bm_higher_seen b \<le> 0 then Inr (0, bytes)
      else and_then (if bm_higher_seen b < ret_mask_size then Inr 1
          else c_div (bm_higher_seen b) ret_mask_size) (\<lambda>active_factor.
        and_then (c_mod (bm_higher_seen b) ret_mask_size) (\<lambda>active_factor_mod.
        and_then (dbm_map_loop b ret_mask_size (c_int active_factor) 0 0 0 bytes) (\<lambda>bytes.
        Inr (1, bytes)))))"

section \<open>Bits of a byte array\<close>

definition bit_at :: "8 word list \<Rightarrow> int \<Rightarrow> bool" where
  "bit_at d i \<longleftrightarrow> 0 \<le> i \<and> nat (i div 8) < length d \<and> bit (d ! nat (i div 8)) (nat (i mod 8))"

lemma byte_of_bit: "(j :: int) div 8 = i div 8 \<Longrightarrow> j mod 8 = i mod 8 \<Longrightarrow> j = i"
  by presburger

lemma BITMASK_BIT_bit: "bit (BITMASK_BIT i) n \<longleftrightarrow> n = nat (i mod 8)"
  by (auto simp: BITMASK_BIT_def bit_simps nat_less_iff)

lemma BITMASK_TEST_spec:
  "0 \<le> i \<Longrightarrow> nat (i div 8) < length d \<Longrightarrow> BITMASK_TEST d i = Inr (c_bool (bit_at d i))"
  by (simp add: BITMASK_TEST_def bit_at_def BITMASK_BIT_def bit_iff_and_push_bit_not_eq_0)

lemma bit_byte_eq:
  "0 \<le> i \<Longrightarrow> 0 \<le> j \<Longrightarrow> nat (j div 8) = nat (i div 8) \<Longrightarrow> nat (j mod 8) = nat (i mod 8) \<Longrightarrow> j = i"
proof -
  assume a: "0 \<le> i" "0 \<le> j" "nat (j div 8) = nat (i div 8)" "nat (j mod 8) = nat (i mod 8)"
  have "0 \<le> i div 8" "0 \<le> j div 8" "0 \<le> i mod 8" "0 \<le> j mod 8"
    using a(1,2) by (simp_all add: pos_imp_zdiv_nonneg_iff)
  then show "j = i" using a(3,4) byte_of_bit eq_nat_nat_iff by metis
qed

lemma BITMASK_SET_spec:
  assumes "0 \<le> i" "nat (i div 8) < length d"
  obtains d' where "BITMASK_SET d i = Inr d'" "length d' = length d" "\<And>j. bit_at d' j \<longleftrightarrow> j = i \<or> bit_at d j"
proof -
  let ?k = "nat (i div 8)"
  let ?d = "d[?k := d ! ?k OR BITMASK_BIT i]"
  have "BITMASK_SET d i = Inr ?d" using assms by (simp add: BITMASK_SET_def pos_imp_zdiv_nonneg_iff)
  moreover have "bit_at ?d j \<longleftrightarrow> j = i \<or> bit_at d j" for j
    using assms bit_byte_eq [of i j]
    by (cases "nat (j div 8) = ?k") (auto simp: bit_at_def bit_or_iff BITMASK_BIT_bit)
  ultimately show ?thesis by (intro that [of ?d]) simp_all
qed

lemma BITMASK_CLR_spec:
  assumes "0 \<le> i" "nat (i div 8) < length d"
  obtains d' where "BITMASK_CLR d i = Inr d'" "length d' = length d" "\<And>j. bit_at d' j \<longleftrightarrow> j \<noteq> i \<and> bit_at d j"
proof -
  let ?k = "nat (i div 8)"
  let ?d = "d[?k := d ! ?k AND NOT (BITMASK_BIT i)]"
  have "BITMASK_CLR d i = Inr ?d" using assms by (simp add: BITMASK_CLR_def pos_imp_zdiv_nonneg_iff)
  moreover have "bit_at ?d j \<longleftrightarrow> j \<noteq> i \<and> bit_at d j" for j
    using assms bit_byte_eq [of i j]
    by (cases "nat (j div 8) = ?k") (auto simp: bit_at_def bit_and_iff bit_not_iff BITMASK_BIT_bit dest: bit_imp_le_length)
  ultimately show ?thesis by (intro that [of ?d]) simp_all
qed

lemma bit_at_zeros [simp]: "\<not> bit_at (replicate n 0) i"
  by (auto simp: bit_at_def)

lemma bit_at_grow:
  assumes "0 \<le> c" "nat c \<le> length d" "0 \<le> n" "\<And>i. bit_at d i \<Longrightarrow> i < 8 * c"
  shows "bit_at (take (nat c) d @ replicate n 0) i \<longleftrightarrow> bit_at d i"
proof (cases "nat (i div 8) < nat c")
  case True
  then show ?thesis using assms by (auto simp: bit_at_def nth_append)
next
  case False
  then have "0 \<le> i \<Longrightarrow> \<not> i < 8 * c" using assms(1) by linarith
  then show ?thesis using False assms by (auto simp: bit_at_def nth_append)
qed

section \<open>The invariant\<close>

definition dbm_els :: "dbm \<Rightarrow> int set" where
  "dbm_els b = {i. bit_at (bm_data b) i}"

text \<open>
  \<open>dbm_shape\<close>: the allocation covers the capacity and every index up to the highest one seen, no bit
  is set beyond either, and the mutex is released. \<open>dbm_inv\<close>: the counter is right as well.
\<close>

definition dbm_shape :: "dbm \<Rightarrow> bool" where
  "dbm_shape b \<longleftrightarrow> 0 \<le> bm_grow_rate b \<and> bm_grow_rate b < 2 ^ 62 \<and> bm_higher_seen b < 2 ^ 62 \<and> 0 \<le> bm_capacity b \<and> nat (bm_capacity b) \<le> length (bm_data b) \<and>
     0 \<le> bm_higher_seen b \<and> nat (bm_higher_seen b div 8) < length (bm_data b) \<and>
     (bm_higher_seen b = 0 \<or> bm_higher_seen b < 8 * bm_capacity b) \<and> \<not> bm_held b \<and>
     (\<forall>i \<in> dbm_els b. i \<le> bm_higher_seen b \<and> i < 8 * bm_capacity b)"

definition dbm_inv :: "dbm \<Rightarrow> bool" where
  "dbm_inv b \<longleftrightarrow> dbm_shape b \<and> bm_bitset_count b = int (card (dbm_els b))"

lemma bit_at_nonneg: "bit_at d i \<Longrightarrow> 0 \<le> i"
  by (simp add: bit_at_def)

lemma dbm_els_nonneg: "i \<in> dbm_els b \<Longrightarrow> 0 \<le> i"
  by (simp add: dbm_els_def bit_at_nonneg)

lemma dbm_els_higher: "dbm_shape b \<Longrightarrow> i \<in> dbm_els b \<Longrightarrow> i \<le> bm_higher_seen b"
  unfolding dbm_shape_def by blast

lemma dbm_els_bound: "dbm_shape b \<Longrightarrow> dbm_els b \<subseteq> {0..bm_higher_seen b}"
  using dbm_els_nonneg dbm_els_higher by fastforce

lemma dbm_els_finite: "dbm_shape b \<Longrightarrow> finite (dbm_els b)"
  using dbm_els_bound finite_subset by blast

lemma dbm_index_in:
  assumes "dbm_shape b" "0 \<le> i" "i \<le> bm_higher_seen b"
  shows "nat (i div 8) < length (bm_data b)"
proof -
  have "i div 8 \<le> bm_higher_seen b div 8" using assms(3) by (intro zdiv_mono1) auto
  then show ?thesis using assms(1) by (auto simp: dbm_shape_def)
qed

lemma DynBitMapInit_inv:
  assumes "0 \<le> g" "g < 2 ^ 62"
  shows "dbm_inv (DynBitMapInit ts g)" "dbm_els (DynBitMapInit ts g) = {}"
  using assms by (simp_all add: dbm_inv_def dbm_shape_def dbm_els_def DynBitMapInit_def)

section \<open>Operations\<close>

lemma DynBitMapBitTest_spec:
  assumes "dbm_shape b" "0 \<le> i"
  shows "DynBitMapBitTest b i = Inr (c_bool (i \<in> dbm_els b))"
  using assms dbm_els_bound [OF assms(1)] BITMASK_TEST_spec [OF assms(2) dbm_index_in [OF assms]]
  by (auto simp: DynBitMapBitTest_def dbm_els_def)

lemma grow_fits:
  assumes "0 \<le> i" "i < 2 ^ 62" "0 \<le> g" "g < 2 ^ 62"
  shows "in_long (i + 7) = Inr (i + 7) \<and> in_long ((i + 7) sdiv 8 + 1) = Inr ((i + 7) div 8 + 1) \<and>
    in_long ((i + 7) div 8 + 1 + g) = Inr ((i + 7) div 8 + 1 + g)"
proof -
  have "0 \<le> (i + 7) div 8" "(i + 7) div 8 < 2 ^ 60" using assms(1,2) by (simp_all add: pos_imp_zdiv_nonneg_iff)
  then show ?thesis using assms by (simp add: sdiv_nonneg)
qed

text \<open>Growing never changes the set of bits.\<close>

lemma DynBitMapGrow_spec:
  assumes "0 \<le> bm_grow_rate b" "0 \<le> bm_capacity b" "nat (bm_capacity b) \<le> length (bm_data b)"
    and "\<forall>j \<in> dbm_els b. j < 8 * bm_capacity b" "0 \<le> i" and lim: "i < 2 ^ 62" "bm_grow_rate b < 2 ^ 62"
  obtains d c r where "DynBitMapGrowIfNeeded b i = Inr (b\<lparr>bm_data := d, bm_capacity := c\<rparr>, r)"
    "bm_capacity b \<le> c" "i < 8 * c" "nat c \<le> length d" "length (bm_data b) \<le> length d \<or> nat c = length d"
    "\<And>j. bit_at d j \<longleftrightarrow> bit_at (bm_data b) j"
proof (cases "bm_capacity b < (i + 7) div 8 + 1")
  case False
  have "in_long (i + 7) = Inr (i + 7)" "in_long ((i + 7) sdiv 8 + 1) = Inr ((i + 7) div 8 + 1)"
    "in_long ((i + 7) div 8 + 1 + bm_grow_rate b) = Inr ((i + 7) div 8 + 1 + bm_grow_rate b)"
    using grow_fits [OF assms(5) lim(1) assms(1) lim(2)] by blast+
  with False have "DynBitMapGrowIfNeeded b i = Inr (b\<lparr>bm_data := bm_data b, bm_capacity := bm_capacity b\<rparr>, 0)"
    by (simp add: DynBitMapGrowIfNeeded_def)
  moreover have "i < 8 * bm_capacity b" using False by linarith
  ultimately show ?thesis using assms by (intro that) auto
next
  case True
  define n where "n = (i + 7) div 8 + 1 + bm_grow_rate b"
  define c where "c = bm_capacity b"
  let ?d = "take (nat c) (bm_data b) @ replicate (nat (n - c)) 0"
  have cn: "c < n" "i < 8 * n" using True assms(1) unfolding n_def c_def by auto
  have c0: "0 \<le> c" "nat c \<le> length (bm_data b)" "\<And>j. bit_at (bm_data b) j \<Longrightarrow> j < 8 * c"
    using assms(2-4) by (simp_all add: c_def dbm_els_def)
  have len: "length ?d = nat n" using cn(1) c0(1,2) by (simp add: nat_diff_distrib)
  have fill: "arr_fill (arr_realloc (- 1) (bm_data b) n) c (n - c) 0 = Inr ?d"
    using cn(1) c0(1,2) by (simp add: arr_fill_def arr_realloc_def nat_diff_distrib min_def)
  have "in_long (i + 7) = Inr (i + 7)" "in_long ((i + 7) sdiv 8 + 1) = Inr ((i + 7) div 8 + 1)" "in_long n = Inr n"
    using grow_fits [OF assms(5) lim(1) assms(1) lim(2)] unfolding n_def by blast+
  then have "DynBitMapGrowIfNeeded b i = Inr (b\<lparr>bm_data := ?d, bm_capacity := n\<rparr>, 1)"
    using True fill by (simp add: DynBitMapGrowIfNeeded_def flip: n_def c_def)
  moreover have "bit_at ?d j \<longleftrightarrow> bit_at (bm_data b) j" for j
    by (rule bit_at_grow) (use c0 in auto)
  moreover have "nat n \<le> length ?d" "length (bm_data b) \<le> length ?d \<or> nat n = length ?d"
    using len by (rule eq_refl [OF sym], intro disjI2) (rule len [symmetric])
  moreover have "bm_capacity b \<le> n" using cn(1) by (simp add: c_def)
  ultimately show ?thesis using cn(2) by (intro that [where d = ?d and c = n and r = 1])
qed

lemma DynBitMapBitSet_spec:
  assumes "dbm_shape b" "0 \<le> i" and lim: "i < 2 ^ 62"
  obtains b' where "DynBitMapBitSet b i = Inr (b', 1)" "dbm_shape b'" "dbm_els b' = insert i (dbm_els b)"
    "bm_higher_seen b' = max (bm_higher_seen b) i"
    "bm_bitset_count b' = bm_bitset_count b + (if i \<in> dbm_els b then 0 else 1)"
    "bm_thread_safe b' = bm_thread_safe b" "bm_capacity b \<le> bm_capacity b'"
proof -
  note sh = assms(1) [unfolded dbm_shape_def]
  define h where "h = max (bm_higher_seen b) i"
  then have h: "i \<le> h" "bm_higher_seen b \<le> h" "h = i \<or> h = bm_higher_seen b" by auto
  let ?b1 = "b\<lparr>bm_held := bm_thread_safe b, bm_higher_seen := h\<rparr>"
  have els: "dbm_els ?b1 = dbm_els b" by (simp add: dbm_els_def)
  have pre: "0 \<le> bm_grow_rate ?b1" "0 \<le> bm_capacity ?b1" "nat (bm_capacity ?b1) \<le> length (bm_data ?b1)"
    "\<forall>j \<in> dbm_els ?b1. j < 8 * bm_capacity ?b1"
    using sh els by simp_all
  obtain d c r where g0: "DynBitMapGrowIfNeeded ?b1 i = Inr (?b1\<lparr>bm_data := d, bm_capacity := c\<rparr>, r)"
    "bm_capacity ?b1 \<le> c" "i < 8 * c" "nat c \<le> length d"
    "length (bm_data ?b1) \<le> length d \<or> nat c = length d"
    "\<And>j. bit_at d j \<longleftrightarrow> bit_at (bm_data ?b1) j"
    by (rule DynBitMapGrow_spec [OF pre assms(2) lim]) (use sh that in auto)
  have g: "DynBitMapGrowIfNeeded ?b1 i = Inr (?b1\<lparr>bm_data := d, bm_capacity := c\<rparr>, r)"
    "bm_capacity b \<le> c" "i < 8 * c" "nat c \<le> length d"
    "length (bm_data b) \<le> length d \<or> nat c = length d" "\<And>j. bit_at d j \<longleftrightarrow> bit_at (bm_data b) j"
    using g0 by simp_all
  have k: "nat (i div 8) < length d" using g(3,4) assms(2) by linarith
  obtain d' where d': "BITMASK_SET d i = Inr d'" "length d' = length d" "\<And>j. bit_at d' j \<longleftrightarrow> j = i \<or> bit_at d j"
    by (rule BITMASK_SET_spec [OF assms(2) k]) (rule that)
  let ?n = "bm_bitset_count b + (if i \<in> dbm_els b then 0 else 1)"
  let ?b' = "b\<lparr>bm_data := d', bm_capacity := c, bm_higher_seen := h, bm_bitset_count := ?n\<rparr>"
  have hs: "(if bm_higher_seen b < i then b\<lparr>bm_held := bm_thread_safe b, bm_higher_seen := i\<rparr>
      else b\<lparr>bm_held := bm_thread_safe b\<rparr>) = ?b1"
    by (simp add: h_def)
  have "DynBitMapBitSet b i = Inr (?b', 1)"
    using sh g(1,6) BITMASK_TEST_spec [OF assms(2) k] d'(1)
    by (simp add: DynBitMapBitSet_def Let_def hs dbm_els_def)
  moreover have els': "dbm_els ?b' = insert i (dbm_els b)" using d'(3) g(6) by (auto simp: dbm_els_def)
  moreover have "dbm_shape ?b'"
  proof -
    have hc: "h < 8 * c \<or> h = 0" using sh g(2,3) h(3) assms(2) by auto
    have "nat (h div 8) < length d'"
    proof (cases "h = i")
      case True then show ?thesis using k d'(2) by simp
    next
      case False
      then have "h div 8 < c \<or> h = 0" using hc by linarith
      moreover have "0 < length d'" using k d'(2) by auto
      moreover have "0 < c" using g(3) assms(2) by simp
      then have "h div 8 < c \<Longrightarrow> nat (h div 8) < nat c" by simp
      ultimately show ?thesis using g(4) d'(2) by (auto intro: less_le_trans)
    qed
    then show ?thesis using hc sh g(2-4) d'(2) assms(2) lim h unfolding dbm_shape_def els' by auto
  qed
  ultimately show ?thesis using g(2) by (intro that [of ?b']) (simp_all add: h_def)
qed

lemma DynBitMapBitClear_spec:
  assumes "dbm_shape b" "0 \<le> i"
  obtains b' where "DynBitMapBitClear b i = Inr (b', c_bool (i \<le> bm_higher_seen b))" "dbm_shape b'"
    "dbm_els b' = dbm_els b - {i}" "bm_higher_seen b' = bm_higher_seen b"
    "bm_bitset_count b' = bm_bitset_count b - (if i \<in> dbm_els b then 1 else 0)"
    "bm_thread_safe b' = bm_thread_safe b" "bm_capacity b' = bm_capacity b"
proof (cases "bm_higher_seen b < i")
  case True
  then have "i \<notin> dbm_els b" using dbm_els_higher [OF assms(1)] by force
  then show ?thesis using that [of b] assms True by (simp add: DynBitMapBitClear_def)
next
  case False
  have k: "nat (i div 8) < length (bm_data b)" using dbm_index_in [OF assms] False by simp
  obtain d' where d': "BITMASK_CLR (bm_data b) i = Inr d'" "length d' = length (bm_data b)"
    "\<And>j. bit_at d' j \<longleftrightarrow> j \<noteq> i \<and> bit_at (bm_data b) j"
    by (rule BITMASK_CLR_spec [OF assms(2) k]) (rule that)
  let ?b' = "b\<lparr>bm_data := d', bm_bitset_count := bm_bitset_count b - (if i \<in> dbm_els b then 1 else 0)\<rparr>"
  have "DynBitMapBitClear b i = Inr (?b', c_bool (i \<le> bm_higher_seen b))"
    using False d'(1) BITMASK_TEST_spec [OF assms(2) k]
    by (simp add: DynBitMapBitClear_def Let_def dbm_els_def)
  moreover have els: "dbm_els ?b' = dbm_els b - {i}" using d'(3) by (auto simp: dbm_els_def)
  moreover have "dbm_shape ?b'" using assms(1) d'(2) unfolding dbm_shape_def els by auto
  ultimately show ?thesis by (intro that [of ?b']) simp_all
qed

lemma DynBitMapBitSet_inv:
  assumes "dbm_inv b" "0 \<le> i" and lim: "i < 2 ^ 62"
  obtains b' where "DynBitMapBitSet b i = Inr (b', 1)" "dbm_inv b'" "dbm_els b' = insert i (dbm_els b)"
    "bm_higher_seen b' = max (bm_higher_seen b) i" "bm_thread_safe b' = bm_thread_safe b"
proof -
  have sh: "dbm_shape b" using assms(1) by (simp add: dbm_inv_def)
  obtain b' where b': "DynBitMapBitSet b i = Inr (b', 1)" "dbm_shape b'" "dbm_els b' = insert i (dbm_els b)"
    "bm_higher_seen b' = max (bm_higher_seen b) i"
    "bm_bitset_count b' = bm_bitset_count b + (if i \<in> dbm_els b then 0 else 1)"
    "bm_thread_safe b' = bm_thread_safe b"
    by (rule DynBitMapBitSet_spec [OF sh assms(2) lim])
  have "bm_bitset_count b' = int (card (dbm_els b'))"
    using assms(1) b'(3,5) dbm_els_finite [OF sh] by (simp add: dbm_inv_def card_insert_if)
  then show ?thesis using that b' by (simp add: dbm_inv_def)
qed

lemma DynBitMapBitClear_inv:
  assumes "dbm_inv b" "0 \<le> i"
  obtains b' where "DynBitMapBitClear b i = Inr (b', c_bool (i \<le> bm_higher_seen b))" "dbm_inv b'"
    "dbm_els b' = dbm_els b - {i}" "bm_higher_seen b' = bm_higher_seen b" "bm_thread_safe b' = bm_thread_safe b"
proof -
  have sh: "dbm_shape b" using assms(1) by (simp add: dbm_inv_def)
  obtain b' where b': "DynBitMapBitClear b i = Inr (b', c_bool (i \<le> bm_higher_seen b))" "dbm_shape b'"
    "dbm_els b' = dbm_els b - {i}" "bm_higher_seen b' = bm_higher_seen b"
    "bm_bitset_count b' = bm_bitset_count b - (if i \<in> dbm_els b then 1 else 0)"
    "bm_thread_safe b' = bm_thread_safe b"
    by (rule DynBitMapBitClear_spec [OF sh assms(2)])
  have cnt: "bm_bitset_count b = int (card (dbm_els b))" using assms(1) by (simp add: dbm_inv_def)
  have "bm_bitset_count b' = int (card (dbm_els b'))"
  proof (cases "i \<in> dbm_els b")
    case True
    then have "card (dbm_els b) = Suc (card (dbm_els b - {i}))"
      using dbm_els_finite [OF sh] card.remove by fastforce
    then show ?thesis using True b'(3,5) cnt by simp
  next
    case False
    then show ?thesis using b'(3,5) cnt by simp
  qed
  then show ?thesis using that b' by (simp add: dbm_inv_def)
qed

text \<open>
  \<open>DynBitMapBitClearAll\<close> empties the set but keeps \<open>bitset_count\<close> and \<open>higher_seen\<close>.
\<close>

lemma DynBitMapBitClearAll_spec:
  assumes "dbm_shape b"
  obtains b' where "DynBitMapBitClearAll b = Inr (b', 1)" "dbm_shape b'" "dbm_els b' = {}"
    "bm_higher_seen b' = bm_higher_seen b" "bm_bitset_count b' = bm_bitset_count b"
proof -
  note sh = assms [unfolded dbm_shape_def]
  let ?d = "replicate (nat (bm_capacity b)) 0 @ drop (nat (bm_capacity b)) (bm_data b)"
  have c: "0 \<le> bm_capacity b" "nat (bm_capacity b) \<le> length (bm_data b)"
    "\<And>i. bit_at (bm_data b) i \<Longrightarrow> i < 8 * bm_capacity b"
    using sh by (auto simp: dbm_els_def)
  have "arr_fill (bm_data b) 0 (bm_capacity b) 0 = Inr ?d" using c(1,2) by (simp add: arr_fill_def)
  then have run: "DynBitMapBitClearAll b = Inr (b\<lparr>bm_data := ?d\<rparr>, 1)" by (simp add: DynBitMapBitClearAll_def)
  have none: "\<not> bit_at ?d i" for i
  proof
    assume at: "bit_at ?d i"
    define k where "k = nat (i div 8)"
    have i: "0 \<le> i" "k < length ?d" "bit (?d ! k) (nat (i mod 8))" using at by (simp_all add: bit_at_def k_def)
    have kc: "\<not> k < nat (bm_capacity b)"
    proof
      assume "k < nat (bm_capacity b)"
      then have "?d ! k = 0" by (simp add: nth_append)
      with i(3) show False by simp
    qed
    then have "?d ! k = bm_data b ! k" using c(2) by (simp add: nth_append)
    then have "bit_at (bm_data b) i" using i c(2) by (simp add: bit_at_def k_def [symmetric])
    moreover have "bm_capacity b \<le> i div 8" using kc c(1) i(1)
      by (auto simp: k_def nat_le_iff not_less pos_imp_zdiv_nonneg_iff)
    ultimately show False using c(3) [of i] by linarith
  qed
  then have "dbm_els (b\<lparr>bm_data := ?d\<rparr>) = {}" by (simp add: dbm_els_def)
  moreover from this have "dbm_shape (b\<lparr>bm_data := ?d\<rparr>)" using sh by (simp add: dbm_shape_def)
  ultimately show ?thesis using run by (intro that [of "b\<lparr>bm_data := ?d\<rparr>"]) simp_all
qed

lemma DynBitMapCompare_spec:
  assumes "dbm_shape a" "dbm_shape b" "0 < bm_capacity a" "0 < bm_capacity b" and lim: "min (bm_capacity a) (bm_capacity b) < 2 ^ 31"
  shows "DynBitMapCompare a b = Inr (c_bool (bm_higher_seen a = bm_higher_seen b \<and> dbm_els a = dbm_els b))"
proof (cases "bm_higher_seen a = bm_higher_seen b")
  case False
  then show ?thesis by (simp add: DynBitMapCompare_def)
next
  case True
  note sa = assms(1) [unfolded dbm_shape_def] and sb = assms(2) [unfolded dbm_shape_def]
  define c where "c = min (bm_capacity a) (bm_capacity b)"
  define n where "n = nat c"
  have c: "0 < c" "bm_higher_seen a < 8 * c" using sa sb True assms(3,4) by (auto simp: c_def)
  have n: "n \<le> length (bm_data a)" "n \<le> length (bm_data b)" using sa sb by (auto simp: n_def c_def)
  have low: "i div 8 < c" if "i \<in> dbm_els a \<union> dbm_els b" for i
  proof -
    have "i \<le> bm_higher_seen a" using that sa sb True by auto
    then show ?thesis using c(2) by linarith
  qed
  have "take n (bm_data a) = take n (bm_data b) \<longleftrightarrow> dbm_els a = dbm_els b"
  proof
    assume eq: "take n (bm_data a) = take n (bm_data b)"
    have "bm_data a ! k = bm_data b ! k" if "k < n" for k using that arg_cong [OF eq, of "\<lambda>d. d ! k"] by simp
    moreover have "nat (i div 8) < n" if "i \<in> dbm_els a \<union> dbm_els b" for i
      using low [OF that] c(1) by (simp add: n_def)
    moreover have "bit_at (bm_data a) i \<longleftrightarrow> bit_at (bm_data b) i" if "nat (i div 8) < n" for i
      using that n calculation(1) [OF that] by (simp add: bit_at_def)
    ultimately show "dbm_els a = dbm_els b" unfolding dbm_els_def by blast
  next
    assume eq: "dbm_els a = dbm_els b"
    show "take n (bm_data a) = take n (bm_data b)"
    proof (rule nth_take_lemma [OF n], rule impI)
      fix k assume k: "k < n"
      show "bm_data a ! k = bm_data b ! k"
      proof (rule bit_word_eqI)
        fix m assume m: "m < LENGTH(8)"
        let ?i = "8 * int k + int m"
        have "?i div 8 = int k" "?i mod 8 = int m" using m by auto
        then have "bit_at (bm_data a) ?i \<longleftrightarrow> bit (bm_data a ! k) m" "bit_at (bm_data b) ?i \<longleftrightarrow> bit (bm_data b ! k) m"
          using n k by (simp_all add: bit_at_def)
        then show "bit (bm_data a ! k) m = bit (bm_data b ! k) m" using eq by (auto simp: dbm_els_def)
      qed
    qed
  qed
  moreover have "mem_equal (bm_data a) (bm_data b) c = Inr (take n (bm_data a) = take n (bm_data b))"
    using n c_size_in [of c] c(1) lim by (simp add: mem_equal_def n_def c_def)
  moreover have "(if bm_capacity a < bm_capacity b then bm_capacity a else bm_capacity b) = c"
    by (simp add: c_def min_def)
  moreover have "c_int c = c" using c_int_in [of c] c(1) lim by (simp add: c_def)
  ultimately show ?thesis using True by (simp add: DynBitMapCompare_def Let_def)
qed

section \<open>Scans\<close>

lemma DynBitMapCheckMultiBlocks_spec:
  "dbm_shape b \<Longrightarrow> 0 \<le> i \<Longrightarrow> DynBitMapCheckMultiBlocks b i f = Inr (c_bool ({i..f} \<subseteq> dbm_els b))"
proof (induction b i f rule: DynBitMapCheckMultiBlocks.induct)
  case (1 b i f)
  have "i \<le> f \<Longrightarrow> {i..f} = insert i {i + 1..f}" by auto
  moreover have "in_long (i + 1) = Inr (i + 1)" if "i \<in> dbm_els b"
    using dbm_els_higher [OF 1(2) that] 1(2,3) by (simp add: dbm_shape_def)
  ultimately show ?case
    using 1 DynBitMapBitTest_spec [OF 1(2,3)]
    by (cases "i \<le> f"; cases "i \<in> dbm_els b") (simp_all add: DynBitMapCheckMultiBlocks.simps [of b i f])
qed

lemma dbm_valid_loop_found:
  "dbm_shape b \<Longrightarrow> 0 \<le> i \<Longrightarrow> f < 2 ^ 31 - 1 \<Longrightarrow> \<exists>l. dbm_valid_loop b i f True a (i - 1) = Inr (a, l) \<and>
     i - 1 \<le> l \<and> l \<le> max f (i - 1) \<and> {i..l} \<subseteq> dbm_els b \<and> (f \<le> l \<or> l + 1 \<notin> dbm_els b)"
proof (induction "nat (f + 1 - i)" arbitrary: i)
  case 0
  then show ?case by (simp add: dbm_valid_loop.simps [of b i])
next
  case (Suc k)
  then have le: "i \<le> f" and k: "k = nat (f + 1 - (i + 1))" by auto
  note t = DynBitMapBitTest_spec [OF Suc(3,4)]
  have next_in: "in_int (i + 1) = Inr (i + 1)" using le Suc(4,5) by simp
  show ?case
  proof (cases "i \<in> dbm_els b")
    case False
    then show ?thesis using le t by (simp add: dbm_valid_loop.simps [of b i])
  next
    case True
    obtain l where l: "dbm_valid_loop b (i + 1) f True a i = Inr (a, l)" "i \<le> l" "l \<le> max f i"
      "{i + 1..l} \<subseteq> dbm_els b" "f \<le> l \<or> l + 1 \<notin> dbm_els b"
      using Suc(1) [OF k] Suc(3-5) by auto
    have "{i..l} = insert i {i + 1..l}" using l(2) by auto
    then show ?thesis using True t le l next_in by (simp add: dbm_valid_loop.simps [of b i])
  qed
qed

lemma dbm_valid_loop_search:
  "dbm_shape b \<Longrightarrow> 0 \<le> i \<Longrightarrow> f < 2 ^ 31 - 1 \<Longrightarrow>
   (if {i..f} \<inter> dbm_els b = {} then dbm_valid_loop b i f False x y = Inr (x, y)
    else \<exists>a l. dbm_valid_loop b i f False x y = Inr (a, l) \<and> i \<le> a \<and> {i..<a} \<inter> dbm_els b = {} \<and>
      a \<le> l \<and> l \<le> f \<and> {a..l} \<subseteq> dbm_els b \<and> (l = f \<or> l + 1 \<notin> dbm_els b))"
proof (induction "nat (f + 1 - i)" arbitrary: i)
  case 0
  then show ?case by (simp add: dbm_valid_loop.simps [of b i])
next
  case (Suc k)
  then have le: "i \<le> f" and k: "k = nat (f + 1 - (i + 1))" by auto
  note t = DynBitMapBitTest_spec [OF Suc(3,4)]
  have next_in: "in_int (i + 1) = Inr (i + 1)" using le Suc(4,5) by simp
  have split: "{i..f} = insert i {i + 1..f}" using le by auto
  show ?case
  proof (cases "i \<in> dbm_els b")
    case True
    obtain l where l: "dbm_valid_loop b (i + 1) f True i i = Inr (i, l)" "i \<le> l" "l \<le> max f i"
      "{i + 1..l} \<subseteq> dbm_els b" "f \<le> l \<or> l + 1 \<notin> dbm_els b"
      using dbm_valid_loop_found [of b "i + 1" f i] Suc(3-5) by auto
    have "{i..l} = insert i {i + 1..l}" using l(2) by auto
    then have "{i..l} \<subseteq> dbm_els b" using True l(4) by simp
    moreover have "dbm_valid_loop b i f False x y = Inr (i, l)"
      using True t le l(1) next_in by (simp add: dbm_valid_loop.simps [of b i])
    moreover have "l \<le> f" "l = f \<or> l + 1 \<notin> dbm_els b" using l(3,5) le by linarith+
    moreover have "{i..<i} \<inter> dbm_els b = {}" by simp
    ultimately have "\<exists>a l. dbm_valid_loop b i f False x y = Inr (a, l) \<and> i \<le> a \<and> {i..<a} \<inter> dbm_els b = {} \<and>
      a \<le> l \<and> l \<le> f \<and> {a..l} \<subseteq> dbm_els b \<and> (l = f \<or> l + 1 \<notin> dbm_els b)"
      using l(2) by blast
    moreover have "{i..f} \<inter> dbm_els b \<noteq> {}" using True split by auto
    ultimately show ?thesis by (simp only: if_False)
  next
    case False
    have run: "dbm_valid_loop b i f False x y = dbm_valid_loop b (i + 1) f False x y"
      using False t le next_in by (simp add: dbm_valid_loop.simps [of b i])
    have same: "{i..f} \<inter> dbm_els b = {i + 1..f} \<inter> dbm_els b" using split False by auto
    have ext: "{i..<a} \<inter> dbm_els b = {}" if "i + 1 \<le> a" "{i + 1..<a} \<inter> dbm_els b = {}" for a
    proof -
      have "{i..<a} = insert i {i + 1..<a}" using that(1) by auto
      then show ?thesis using False that(2) by simp
    qed
    show ?thesis
    proof (cases "{i + 1..f} \<inter> dbm_els b = {}")
      case True
      then show ?thesis using Suc(1) [OF k] Suc(3-5) unfolding run same by simp
    next
      case ne: False
      then obtain a l where l: "dbm_valid_loop b (i + 1) f False x y = Inr (a, l)" "i + 1 \<le> a"
        "{i + 1..<a} \<inter> dbm_els b = {}" "a \<le> l" "l \<le> f" "{a..l} \<subseteq> dbm_els b" "l = f \<or> l + 1 \<notin> dbm_els b"
        using Suc(1) [OF k] Suc(3-5) by auto
      then show ?thesis using ext [OF l(2,3)] ne unfolding run same
        by (simp only: if_False) (intro exI [of _ a] exI [of _ l], simp)
    qed
  qed
qed

end
