(* ===== verification/DynBitmapClaims.thy ===== *)
theory DynBitmapClaims
  imports DynBitmap
begin

text \<open>
  The bitmap as a set: the interface its clients rely on, its interpretation on the C operations, the
  picture \<open>DynBitMapGenerateStringMap\<close> paints, and the claims about the bitmap.
\<close>

section \<open>The set interface\<close>

text \<open>
  A finite set of indices with insertion, below a limit, removal and test. The clients' lemmas (what a test returns
  after an insertion or removal, and what inserting a list of indices gives) are proved from the laws.
\<close>

locale index_set =
  fixes inv :: "'b \<Rightarrow> bool" and els :: "'b \<Rightarrow> int set"
    and ins :: "'b \<Rightarrow> int \<Rightarrow> ('b \<times> int) result" and del :: "'b \<Rightarrow> int \<Rightarrow> ('b \<times> int) result"
    and tst :: "'b \<Rightarrow> int \<Rightarrow> int result" and lim :: int
  assumes ins_law: "inv b \<Longrightarrow> 0 \<le> i \<Longrightarrow> i < lim \<Longrightarrow> \<exists>b' r. ins b i = Inr (b', r) \<and> inv b' \<and> els b' = insert i (els b)"
    and del_law: "inv b \<Longrightarrow> 0 \<le> i \<Longrightarrow> \<exists>b' r. del b i = Inr (b', r) \<and> inv b' \<and> els b' = els b - {i}"
    and tst_law: "inv b \<Longrightarrow> 0 \<le> i \<Longrightarrow> tst b i = Inr (c_bool (i \<in> els b))"
begin

primrec ins_all :: "int list \<Rightarrow> 'b \<Rightarrow> 'b result" where
  "ins_all [] b = Inr b"
| "ins_all (i # is) b = and_then (ins b i) (\<lambda>(b, r). ins_all is b)"

lemma ins_all_spec:
  "inv b \<Longrightarrow> \<forall>i \<in> set is. 0 \<le> i \<and> i < lim \<Longrightarrow> \<exists>b'. ins_all is b = Inr b' \<and> inv b' \<and> els b' = els b \<union> set is"
proof (induction "is" arbitrary: b)
  case (Cons i "is")
  obtain b1 r where b1: "ins b i = Inr (b1, r)" "inv b1" "els b1 = insert i (els b)"
    using ins_law [OF Cons.prems(1), of i] Cons.prems(2) by auto
  then show ?case using Cons.IH [OF b1(2)] Cons.prems(2) by auto
qed simp

lemma tst_after_ins:
  "inv b \<Longrightarrow> 0 \<le> i \<Longrightarrow> i < lim \<Longrightarrow> 0 \<le> j \<Longrightarrow> and_then (ins b i) (\<lambda>(b, r). tst b j) = Inr (c_bool (j = i \<or> j \<in> els b))"
  using ins_law [of b i] tst_law [of _ j] by fastforce

lemma tst_after_del:
  "inv b \<Longrightarrow> 0 \<le> i \<Longrightarrow> 0 \<le> j \<Longrightarrow> and_then (del b i) (\<lambda>(b, r). tst b j) = Inr (c_bool (j \<noteq> i \<and> j \<in> els b))"
  using del_law [of b i] tst_law [of _ j] by fastforce

end

interpretation bm: index_set dbm_inv dbm_els DynBitMapBitSet DynBitMapBitClear DynBitMapBitTest "2 ^ 62"
proof
  fix b and i :: int
  assume b: "dbm_inv b" "0 \<le> i"
  show "\<exists>b' r. DynBitMapBitSet b i = Inr (b', r) \<and> dbm_inv b' \<and> dbm_els b' = insert i (dbm_els b)" if "i < 2 ^ 62"
    by (rule DynBitMapBitSet_inv [OF b that]) blast
  show "\<exists>b' r. DynBitMapBitClear b i = Inr (b', r) \<and> dbm_inv b' \<and> dbm_els b' = dbm_els b - {i}"
    by (rule DynBitMapBitClear_inv [OF b]) blast
  show "DynBitMapBitTest b i = Inr (c_bool (i \<in> dbm_els b))"
    using b DynBitMapBitTest_spec by (simp add: dbm_inv_def)
qed

section \<open>The string map\<close>

lemma dbm_paint_spec:
  "0 \<le> ci \<Longrightarrow> ci \<le> int (length s) \<Longrightarrow>
   dbm_paint s ci (int (length s)) c = Inr (take (nat ci) s @ replicate (length s - nat ci) c)"
proof (induction "length s - nat ci" arbitrary: s ci)
  case 0
  then have "ci = int (length s)" by linarith
  then show ?case by (simp add: dbm_paint.simps)
next
  case (Suc k)
  then have lt: "ci < int (length s)" "nat ci < length s" by linarith+
  have n: "nat (ci + 1) = Suc (nat ci)" using Suc(3) by simp
  have "dbm_paint (s[nat ci := c]) (ci + 1) (int (length (s[nat ci := c]))) c
      = Inr (take (nat (ci + 1)) (s[nat ci := c]) @ replicate (length (s[nat ci := c]) - nat (ci + 1)) c)"
    by (rule Suc(1)) (use Suc lt n in auto)
  moreover have "take (Suc (nat ci)) (s[nat ci := c]) = take (nat ci) s @ [c]"
    using lt(2) by (simp add: take_Suc_conv_app_nth)
  moreover have "replicate (length s - nat ci) c = c # replicate (length s - Suc (nat ci)) c"
    using lt(2) by (simp flip: replicate_Suc add: Suc_diff_Suc)
  ultimately show ?case using lt Suc(3) n by (simp add: dbm_paint.simps [of s ci])
qed

text \<open>
  The block shown at position \<open>p\<close> of a mask that is longer than the bitmap, and the position from
  which block \<open>i\<close> is painted.
\<close>

definition map_block :: "int \<Rightarrow> int \<Rightarrow> int \<Rightarrow> int" where
  "map_block hs n p = ((p + 1) * hs - 1) div n"

lemma div_le_upper:
  assumes "0 < h" "a div h \<le> p" shows "a < (p + 1) * (h :: int)"
proof -
  have "h * (a div h) \<le> h * p" using assms by simp
  then have "a < h * p + h" using assms(1) pos_mod_bound [of h a] mult_div_mod_eq [of h a] by linarith
  then show ?thesis by (simp add: algebra_simps)
qed

lemma less_div_lower:
  assumes "0 < h" "p < a div h" shows "(p + 1) * h \<le> (a :: int)"
proof -
  have "h * (p + 1) \<le> h * (a div h)" using assms by simp
  then have "h * (p + 1) \<le> a" using assms(1) pos_mod_sign [of h a] mult_div_mod_eq [of h a] by linarith
  then show ?thesis by (simp add: algebra_simps)
qed

lemma map_block_eq:
  assumes "0 < hs" "0 < n" "i * n div hs \<le> p" "p < (i + 1) * n div hs"
  shows "map_block hs n p = i"
proof -
  have "i * n < (p + 1) * hs" "(p + 1) * hs \<le> (i + 1) * n"
    using div_le_upper [OF assms(1,3)] less_div_lower [OF assms(1,4)] by simp_all
  then show ?thesis
    unfolding map_block_def by (intro int_div_pos_eq [where r = "(p + 1) * hs - 1 - i * n"]) (auto simp: algebra_simps)
qed

lemma dbm_map_loop_spec:
  assumes b: "dbm_shape b" and hs: "0 < bm_higher_seen b" "bm_higher_seen b \<le> n"
    and i: "0 \<le> i" "i \<le> bm_higher_seen b" and s: "int (length s) = n" and lim: "n < 2 ^ 31"
    and fin0: "\<And>p. p < length s \<Longrightarrow> int p < i * n div bm_higher_seen b \<Longrightarrow>
      s ! p = (if map_block (bm_higher_seen b) n (int p) \<in> dbm_els b then CHR ''1'' else CHR ''0'')"
  shows "dbm_map_loop b n 1 i 0 (i * n div bm_higher_seen b) s
    = Inr (map (\<lambda>p. if map_block (bm_higher_seen b) n (int p) \<in> dbm_els b then CHR ''1'' else CHR ''0'') [0..<length s])"
  using i s fin0
proof (induction "nat (bm_higher_seen b - i)" arbitrary: i s)
  case 0
  then have "i = bm_higher_seen b" by simp
  then have "s ! p = (if map_block (bm_higher_seen b) n (int p) \<in> dbm_els b then CHR ''1'' else CHR ''0'')"
    if "p < length s" for p using 0 hs(1) that by simp
  then have "s = map (\<lambda>p. if map_block (bm_higher_seen b) n (int p) \<in> dbm_els b then CHR ''1'' else CHR ''0'') [0..<length s]"
    by (intro nth_equalityI) simp_all
  moreover have "dbm_map_loop b n 1 i 0 (i * n div bm_higher_seen b) s = Inr s"
    using \<open>i = bm_higher_seen b\<close> by (subst dbm_map_loop.simps) simp
  ultimately show ?case by simp
next
  case (Suc k)
  let ?h = "bm_higher_seen b" and ?off = "i * n div bm_higher_seen b"
  let ?c = "if i \<in> dbm_els b then CHR ''1'' else CHR ''0''"
  let ?s = "take (nat ?off) s @ replicate (length s - nat ?off) ?c"
  have lt: "i < ?h" using Suc(2) by simp
  have n: "0 < n" using hs by simp
  have "i * n \<le> ?h * n" using lt n by simp
  then have "?off \<le> ?h * n div ?h" using hs(1) by (rule zdiv_mono1)
  then have off: "0 \<le> ?off" "?off \<le> n"
    using Suc(3) n hs by (simp_all add: pos_imp_zdiv_nonneg_iff)
  have len: "length ?s = length s" using off Suc(5) by simp
  have fin: "?s ! p = (if map_block ?h n (int p) \<in> dbm_els b then CHR ''1'' else CHR ''0'')"
    if "p < length ?s" "int p < (i + 1) * n div ?h" for p
  proof (cases "int p < ?off")
    case True
    then show ?thesis using Suc(6) [of p] that(1) len by (simp add: nth_append zless_nat_eq_int_zless)
  next
    case False
    then have "map_block ?h n (int p) = i" using map_block_eq [OF hs(1) n _ that(2)] by simp
    then show ?thesis using False that(1) off by (simp add: nth_append zless_nat_eq_int_zless)
  qed
  have "dbm_map_loop b n 1 (i + 1) 0 ((i + 1) * n div ?h) ?s
      = Inr (map (\<lambda>p. if map_block ?h n (int p) \<in> dbm_els b then CHR ''1'' else CHR ''0'') [0..<length ?s])"
    by (rule Suc(1)) (use Suc lt len fin in auto)
  moreover have "dbm_paint s ?off n ?c = Inr ?s" using dbm_paint_spec [of ?off s ?c] off Suc(5) by simp
  moreover have "c_div ((i + 1) * n) ?h = Inr ((i + 1) * n div ?h)" "c_mod i 1 = Inr 0"
    using hs n Suc(3) by simp_all
  moreover have "in_long ((i + 1) * n) = Inr ((i + 1) * n)"
  proof -
    have "(i + 1) * n \<le> n * n" using lt hs(2) n by (intro mult_right_mono) simp_all
    also have "\<dots> \<le> 2 ^ 31 * 2 ^ 31" using lim n by (intro mult_mono) simp_all
    finally have "(i + 1) * n < 2 ^ 63" by simp
    moreover have "0 \<le> (i + 1) * n" using Suc(3) n by simp
    ultimately show ?thesis by (simp add: in_long_def)
  qed
  moreover have "c_int ((i + 1) * n div ?h) = (i + 1) * n div ?h"
  proof -
    have "(i + 1) * n \<le> ?h * n" using lt n by (intro mult_right_mono) simp_all
    then have "(i + 1) * n div ?h \<le> ?h * n div ?h" using hs(1) by (rule zdiv_mono1)
    then have "(i + 1) * n div ?h \<le> n" using hs(1) by simp
    moreover have "0 \<le> (i + 1) * n div ?h" using Suc(3) n hs(1) by (simp add: pos_imp_zdiv_nonneg_iff)
    ultimately show ?thesis using lim by (intro c_int_in) linarith+
  qed
  ultimately show ?case
    using lt DynBitMapBitTest_spec [OF b Suc(3)] len
    by (cases "i \<in> dbm_els b") (simp_all add: dbm_map_loop.simps [of b n 1 i] Let_def)
qed

section \<open>Claims\<close>

text \<open>A bitmap with the bits 3, 4 and 9, built by the code itself.\<close>

definition ex_bm :: dbm where
  "ex_bm = \<lparr>bm_data = [24, 2, 0, 0], bm_capacity = 4, bm_grow_rate = 4, bm_higher_seen = 9,
     bm_bitset_count = 3, bm_thread_safe = True, bm_held = False\<rparr>"

lemma ex_bm_els: "dbm_els ex_bm = {3, 4, 9}"
proof -
  have "bit_at (bm_data ex_bm) i \<longleftrightarrow> i \<in> {3, 4, 9}" for i
  proof (cases "0 \<le> i \<and> i < 32")
    case True
    then have "i \<in> {0..31}" by simp
    moreover have "{0..31} = set [0..31 :: int]" by simp
    moreover have "\<forall>i \<in> set [0..31 :: int]. bit_at (bm_data ex_bm) i \<longleftrightarrow> i \<in> {3, 4, 9}" by code_simp
    ultimately show ?thesis by blast
  next
    case False
    have "bit_at (bm_data ex_bm) i \<Longrightarrow> 0 \<le> i \<and> i < 32" by (simp add: bit_at_def ex_bm_def nat_less_iff) linarith
    then show ?thesis using False by auto
  qed
  then show ?thesis by (auto simp: dbm_els_def)
qed

lemma ex_bm_inv: "dbm_inv ex_bm"
  by (simp add: dbm_inv_def dbm_shape_def ex_bm_els) (simp add: ex_bm_def)

text \<open>
  C7: the bitmap is a set of indices. Initialisation gives the empty set; setting, clearing and
  testing a bit are insertion, removal and membership, for indices and growth rates below 2 ^ 62, where no
  \<open>long\<close> overflows, without an access outside the byte array, and they keep the invariant: bytes cover the capacity, no bit beyond the
  highest index seen, and \<open>bitset_count\<close> the number of set bits.
\<close>

theorem dbm_is_set:
  assumes "dbm_inv b" "0 \<le> i" "i < 2 ^ 62" "0 \<le> g" "g < 2 ^ 62"
  shows "(dbm_inv (DynBitMapInit ts g) \<and> dbm_els (DynBitMapInit ts g) = {}) \<and>
    (\<exists>b'. DynBitMapBitSet b i = Inr (b', 1) \<and> dbm_inv b' \<and> dbm_els b' = insert i (dbm_els b) \<and>
      DynBitMapGetHigherSeen b' = max (DynBitMapGetHigherSeen b) i) \<and>
    (\<exists>b' r. DynBitMapBitClear b i = Inr (b', r) \<and> dbm_inv b' \<and> dbm_els b' = dbm_els b - {i}) \<and>
    DynBitMapBitTest b i = Inr (c_bool (i \<in> dbm_els b))"
  using DynBitMapInit_inv [OF assms(4,5)] bm.del_law [OF assms(1,2)] bm.tst_law [OF assms(1,2)]
    DynBitMapBitSet_inv [OF assms(1-3)] unfolding DynBitMapGetHigherSeen_def by metis

lemma dbm_is_set_witness:
  "(\<exists>b'. DynBitMapBitSet ex_bm 100 = Inr (b', 1) \<and> dbm_inv b' \<and> dbm_els b' = {100, 3, 4, 9} \<and>
      DynBitMapGetHigherSeen b' = 100) \<and>
   (\<exists>b' r. DynBitMapBitClear ex_bm 100 = Inr (b', r) \<and> dbm_inv b' \<and> dbm_els b' = {3, 4, 9}) \<and>
   DynBitMapBitTest ex_bm 100 = Inr 0"
  using dbm_is_set [OF ex_bm_inv, of 100 0 True]
  by (simp add: ex_bm_els DynBitMapGetHigherSeen_def) (simp add: ex_bm_def)

text \<open>
  \<open>DynBitMapCompare\<close> decides equality of the highest index seen and of the sets, although it
  compares only the bytes of the smaller capacity, when that fits the \<open>int\<close> it is kept in.
\<close>

theorem dbm_compare_decides:
  assumes "dbm_inv a" "dbm_inv b" "0 < bm_capacity a" "0 < bm_capacity b" "min (bm_capacity a) (bm_capacity b) < 2 ^ 31"
  shows "DynBitMapCompare a b = Inr (c_bool (bm_higher_seen a = bm_higher_seen b \<and> dbm_els a = dbm_els b))"
  using assms by (intro DynBitMapCompare_spec) (simp_all add: dbm_inv_def)

lemma dbm_compare_decides_witness:
  "DynBitMapCompare ex_bm (ex_bm\<lparr>bm_data := [24, 2, 0, 0, 0, 0], bm_capacity := 5\<rparr>) = Inr 1"
proof -
  let ?b = "ex_bm\<lparr>bm_data := [24, 2, 0, 0, 0, 0], bm_capacity := 5\<rparr>"
  have at: "bit_at [24, 2, 0, 0, 0, 0] i = bit_at (bm_data ex_bm) i" for i
  proof (cases "nat (i div 8) < 4")
    case True
    then have "nat (i div 8) \<in> {0, 1, 2, 3}" by auto
    then show ?thesis by (auto simp: bit_at_def ex_bm_def)
  next
    case False
    then have "nat (i div 8) = 4 \<or> nat (i div 8) = 5 \<or> 6 \<le> nat (i div 8)" by linarith
    then show ?thesis by (auto simp: bit_at_def ex_bm_def)
  qed
  have els: "dbm_els ?b = {3, 4, 9}" using ex_bm_els by (simp add: dbm_els_def at)
  then have "dbm_inv ?b" by (simp add: dbm_inv_def dbm_shape_def) (simp add: ex_bm_def)
  moreover have "0 < bm_capacity ex_bm" "min (bm_capacity ex_bm) (bm_capacity ?b) < 2 ^ 31" "bm_higher_seen ?b = bm_higher_seen ex_bm" by (simp_all add: ex_bm_def)
  ultimately show ?thesis using dbm_compare_decides [OF ex_bm_inv, of ?b] els ex_bm_els by simp
qed

text \<open>
  C8: the scans. \<open>DynBitMapCheckMultiBlocks\<close> decides whether all bits of a range are set, and
  \<open>DynBitMapGetValidBlocks\<close> finds the first set bit of a range and the end of the run of set bits that
  starts there, cut off at the end of the range or the highest index seen. The search keeps its index in an
  \<open>int\<close>, so the highest index seen is below \<open>INT_MAX\<close>.
\<close>

theorem dbm_scans:
  assumes "dbm_inv b" "0 \<le> s" "bm_higher_seen b < 2 ^ 31 - 1"
  shows "DynBitMapCheckMultiBlocks b s f = Inr (c_bool ({s..f} \<subseteq> dbm_els b)) \<and>
    (if {s..f} \<inter> dbm_els b = {} then DynBitMapGetValidBlocks b s f = Inr (0, - 1, - 1)
     else \<exists>a l. DynBitMapGetValidBlocks b s f = Inr (1, a, l) \<and> s \<le> a \<and> {s..<a} \<inter> dbm_els b = {} \<and>
       a \<le> l \<and> l \<le> f \<and> {a..l} \<subseteq> dbm_els b \<and> (l = min f (bm_higher_seen b) \<or> l + 1 \<notin> dbm_els b))"
proof (intro conjI)
  have sh: "dbm_shape b" using assms(1) by (simp add: dbm_inv_def)
  show "DynBitMapCheckMultiBlocks b s f = Inr (c_bool ({s..f} \<subseteq> dbm_els b))"
    by (rule DynBitMapCheckMultiBlocks_spec [OF sh assms(2)])
  let ?f = "min f (bm_higher_seen b)"
  have same: "{s..f} \<inter> dbm_els b = {s..?f} \<inter> dbm_els b" using dbm_els_bound [OF sh] by auto
  note search = dbm_valid_loop_search [OF sh assms(2), of ?f "- 1" "- 1"]
  have lim: "?f < 2 ^ 31 - 1" using assms(3) by simp
  have start: "c_int s = s" if "s \<le> bm_higher_seen b" using that assms(2,3) by (intro c_int_in) simp_all
  have fin: "(if bm_higher_seen b < f then bm_higher_seen b else f) = ?f" by (simp add: min_def)
  show "if {s..f} \<inter> dbm_els b = {} then DynBitMapGetValidBlocks b s f = Inr (0, - 1, - 1)
     else \<exists>a l. DynBitMapGetValidBlocks b s f = Inr (1, a, l) \<and> s \<le> a \<and> {s..<a} \<inter> dbm_els b = {} \<and>
       a \<le> l \<and> l \<le> f \<and> {a..l} \<subseteq> dbm_els b \<and> (l = ?f \<or> l + 1 \<notin> dbm_els b)"
  proof (cases "{s..?f} \<inter> dbm_els b = {}")
    case True
    then show ?thesis using search [OF lim] same fin start
      by (simp add: DynBitMapGetValidBlocks_def Let_def split del: if_split) simp
  next
    case False
    then obtain a l where l: "dbm_valid_loop b s ?f False (- 1) (- 1) = Inr (a, l)" "s \<le> a"
      "{s..<a} \<inter> dbm_els b = {}" "a \<le> l" "l \<le> ?f" "{a..l} \<subseteq> dbm_els b" "l = ?f \<or> l + 1 \<notin> dbm_els b"
      using search [OF lim] by auto
    have "\<not> bm_higher_seen b < s" using l(2,4,5) by linarith
    then have "DynBitMapGetValidBlocks b s f = Inr (1, a, l)"
      using l(1,2) assms(2) fin start by (simp add: DynBitMapGetValidBlocks_def Let_def split del: if_split)
    moreover have "l \<le> f" using l(5) by simp
    ultimately show ?thesis using False l(2-4,6,7) unfolding same by (simp only: if_False) blast
  qed
qed

lemma dbm_scans_witness:
  "DynBitMapCheckMultiBlocks ex_bm 3 4 = Inr 1 \<and> DynBitMapCheckMultiBlocks ex_bm 3 5 = Inr 0 \<and>
   DynBitMapGetValidBlocks ex_bm 5 8 = Inr (0, - 1, - 1)"
proof -
  have "{3..4} = {3, 4 :: int}" "{3..5} = {3, 4, 5 :: int}" "{5..8} = {5, 6, 7, 8 :: int}" by auto
  then show ?thesis using dbm_scans [OF ex_bm_inv, of 3 4] dbm_scans [OF ex_bm_inv, of 3 5]
      dbm_scans [OF ex_bm_inv, of 5 8] by (simp add: ex_bm_els) (simp add: ex_bm_def)
qed

text \<open>
  The string map of a bitmap with fewer indices than the mask has characters shows, at every
  position, the state of the block that position stands for, although each painting overwrites the
  mask up to its end.
\<close>

theorem dbm_string_map:
  assumes "dbm_inv b" "0 < bm_higher_seen b" "bm_higher_seen b < int (length s)" "length s < 2 ^ 31"
  shows "DynBitMapGenerateStringMap b s (int (length s)) = Inr (1,
    map (\<lambda>p. if map_block (bm_higher_seen b) (int (length s)) (int p) \<in> dbm_els b then CHR ''1'' else CHR ''0'')
      [0..<length s])"
proof -
  have "dbm_map_loop b (int (length s)) 1 0 0 (0 * int (length s) div bm_higher_seen b) s = Inr
    (map (\<lambda>p. if map_block (bm_higher_seen b) (int (length s)) (int p) \<in> dbm_els b then CHR ''1'' else CHR ''0'')
      [0..<length s])"
    by (rule dbm_map_loop_spec) (use assms in \<open>simp_all add: dbm_inv_def\<close>)
  moreover have "c_mod (bm_higher_seen b) (int (length s)) = Inr (bm_higher_seen b mod int (length s))"
    by (rule c_mod_pos) (use assms(2,3) in linarith)+
  moreover have "c_int 1 = 1" by (intro c_int_in) simp_all
  ultimately show ?thesis using assms(2,3) by (simp add: DynBitMapGenerateStringMap_def)
qed

lemma dbm_string_map_witness:
  "DynBitMapGenerateStringMap ex_bm (replicate 18 CHR ''x'') 18 = Inr (1, ''000000111100000000'')"
proof -
  have "0 < bm_higher_seen ex_bm" "bm_higher_seen ex_bm < int (length (replicate 18 CHR ''x''))"
    "length (replicate 18 CHR ''x'') < 2 ^ 31"
    by (simp_all add: ex_bm_def)
  note dbm_string_map [OF ex_bm_inv this]
  moreover have "bm_higher_seen ex_bm = 9" by (simp add: ex_bm_def)
  ultimately show ?thesis by (simp add: ex_bm_els map_block_def upt_rec)
qed

end
