(* ===== verification/Rc4.thy ===== *)
theory Rc4
  imports BrbPrelude
begin

unbundle bit_operations_syntax

text \<open>
  The stream cipher of libbrb_core/crypto/rc4.c. The indices are \<open>unsigned char\<close>, so they wrap around
  modulo 256 by their type; the permutation is the array of 256 bytes.
\<close>

section \<open>The code\<close>

record rc4_state =
  rc_perm :: "8 word list"
  rc_index1 :: "8 word"
  rc_index2 :: "8 word"

text \<open>\<open>BRB_RC4_SwapBytes (&perm[a], &perm[b])\<close>.\<close>

definition BRB_RC4_SwapBytes :: "8 word list \<Rightarrow> int \<Rightarrow> int \<Rightarrow> 8 word list result" where
  "BRB_RC4_SwapBytes perm a b =
     and_then (arr_get perm a) (\<lambda>temp.
     and_then (arr_get perm b) (\<lambda>y.
     and_then (arr_set perm a y) (\<lambda>perm.
     arr_set perm b temp)))"

definition rc4_key_step :: "8 word list \<Rightarrow> int \<Rightarrow> int \<Rightarrow> 8 word list \<times> 8 word \<Rightarrow> (8 word list \<times> 8 word) result" where
  "rc4_key_step key keylen i = (\<lambda>(perm, j).
     and_then (arr_get perm i) (\<lambda>p.
     and_then (c_mod i keylen) (\<lambda>m.
     and_then (arr_get key m) (\<lambda>k.
     let j = j + p + k in
     and_then (BRB_RC4_SwapBytes perm i (uint j)) (\<lambda>perm. Inr (perm, j))))))"

definition BRB_RC4_Init :: "8 word list \<Rightarrow> int \<Rightarrow> rc4_state result" where
  "BRB_RC4_Init key keylen =
     (let perm = map of_int [0..255] in
      and_then (for_each (rc4_key_step key keylen) [0..255] (perm, 0)) (\<lambda>(perm, j).
      Inr \<lparr>rc_perm = perm, rc_index1 = 0, rc_index2 = 0\<rparr>))"

text \<open>One byte: the state after it, and the byte of the key stream.\<close>

definition rc4_next :: "rc4_state \<Rightarrow> (rc4_state \<times> 8 word) result" where
  "rc4_next s =
     (let i1 = rc_index1 s + 1 in
      and_then (arr_get (rc_perm s) (uint i1)) (\<lambda>p.
      let i2 = rc_index2 s + p in
      and_then (BRB_RC4_SwapBytes (rc_perm s) (uint i1) (uint i2)) (\<lambda>perm.
      and_then (arr_get perm (uint i1)) (\<lambda>a.
      and_then (arr_get perm (uint i2)) (\<lambda>b.
      let j = a + b in
      and_then (arr_get perm (uint j)) (\<lambda>k.
      Inr (\<lparr>rc_perm = perm, rc_index1 = i1, rc_index2 = i2\<rparr>, k)))))))"

text \<open>
  The bytes of \<open>inbuf\<close> in order; \<open>buflen\<close> is the length of the list. The result is what is written to
  \<open>outbuf\<close>, which may be the same memory: each byte is read before it is written.
\<close>

primrec BRB_RC4_Crypt :: "rc4_state \<Rightarrow> 8 word list \<Rightarrow> (rc4_state \<times> 8 word list) result" where
  "BRB_RC4_Crypt s [] = Inr (s, [])"
| "BRB_RC4_Crypt s (x # xs) =
     and_then (rc4_next s) (\<lambda>(s, k).
     and_then (BRB_RC4_Crypt s xs) (\<lambda>(s, ys).
     Inr (s, (x XOR k) # ys)))"

section \<open>The permutation\<close>

definition rc4_ok :: "rc4_state \<Rightarrow> bool" where
  "rc4_ok s \<longleftrightarrow> length (rc_perm s) = 256 \<and> mset (rc_perm s) = mset (map of_int [0..255])"

lemma byte_index: "0 \<le> uint (w :: 8 word)" "nat (uint w) < 256"
proof -
  have "uint w < 256" using uint_lt2p [of w] by simp
  then show "nat (uint w) < 256" by linarith
qed simp

lemma BRB_RC4_SwapBytes_spec:
  assumes "length perm = 256" "0 \<le> a" "nat a < 256" "0 \<le> b" "nat b < 256"
  shows "\<exists>perm'. BRB_RC4_SwapBytes perm a b = Inr perm' \<and> length perm' = 256 \<and> mset perm' = mset perm"
proof -
  have "BRB_RC4_SwapBytes perm a b = Inr (perm[nat a := perm ! nat b, nat b := perm ! nat a])"
    using assms by (simp add: BRB_RC4_SwapBytes_def)
  moreover have "mset (perm[nat a := perm ! nat b, nat b := perm ! nat a]) = mset perm"
    using assms by (intro mset_swap) simp_all
  ultimately show ?thesis using assms by simp
qed

lemma rc4_next_ok:
  assumes "rc4_ok s"
  shows "\<exists>s' k. rc4_next s = Inr (s', k) \<and> rc4_ok s'"
proof -
  define i1 where "i1 = rc_index1 s + 1"
  define i2 where "i2 = rc_index2 s + rc_perm s ! unat i1"
  have len: "length (rc_perm s) = 256" using assms by (simp add: rc4_ok_def)
  obtain perm where p: "BRB_RC4_SwapBytes (rc_perm s) (uint i1) (uint i2) = Inr perm" "length perm = 256"
    "mset perm = mset (rc_perm s)"
    using BRB_RC4_SwapBytes_spec [OF len byte_index byte_index, of i1 i2] by blast
  have get: "arr_get xs (uint w) = Inr (xs ! nat (uint w))" if "length xs = 256" for xs :: "8 word list" and w :: "8 word"
    using that byte_index [of w] by simp
  have "rc4_next s = Inr (\<lparr>rc_perm = perm, rc_index1 = i1, rc_index2 = i2\<rparr>,
      perm ! unat (perm ! unat i1 + perm ! unat i2))"
    unfolding rc4_next_def Let_def by (simp add: get len p(1,2) flip: i1_def i2_def)
  then show ?thesis using p assms by (simp add: rc4_ok_def)
qed

lemma rc4_key_step_ok:
  assumes "0 < keylen" "keylen \<le> int (length key)" "0 \<le> i" "i \<le> 255" "length perm = 256"
  shows "\<exists>perm' j'. rc4_key_step key keylen i (perm, j) = Inr (perm', j') \<and> length perm' = 256 \<and> mset perm' = mset perm"
proof -
  have "0 \<le> i mod keylen" "i mod keylen < keylen" using assms(1) by simp_all
  then have k: "arr_get key (i mod keylen) = Inr (key ! nat (i mod keylen))"
    using assms(2) by (intro arr_get_in) linarith+
  have i: "arr_get perm i = Inr (perm ! nat i)" "nat i < 256" using assms(3-5) by simp_all
  let ?j = "j + perm ! nat i + key ! nat (i mod keylen)"
  obtain perm' where "BRB_RC4_SwapBytes perm i (uint ?j) = Inr perm'" "length perm' = 256" "mset perm' = mset perm"
    using BRB_RC4_SwapBytes_spec [OF assms(5,3) i(2) byte_index, of ?j] by blast
  then show ?thesis using k i(1) assms(1,3) by (simp add: rc4_key_step_def Let_def)
qed

lemma BRB_RC4_Init_ok:
  assumes "0 < keylen" "keylen \<le> int (length key)"
  shows "\<exists>s. BRB_RC4_Init key keylen = Inr s \<and> rc4_ok s"
proof -
  let ?p0 = "map of_int [0..255] :: 8 word list"
  have "\<exists>s. for_each (rc4_key_step key keylen) [0..255] (?p0, 0) = Inr s \<and>
      (length (fst s) = 256 \<and> mset (fst s) = mset ?p0)"
  proof (rule for_each_inv)
    fix i and s :: "8 word list \<times> 8 word"
    assume "i \<in> set [0..255]" "length (fst s) = 256 \<and> mset (fst s) = mset ?p0"
    then show "\<exists>s'. rc4_key_step key keylen i s = Inr s' \<and> length (fst s') = 256 \<and> mset (fst s') = mset ?p0"
      using rc4_key_step_ok [OF assms, of i "fst s" "snd s"] by auto
  qed simp
  then show ?thesis by (auto simp: BRB_RC4_Init_def Let_def rc4_ok_def)
qed

section \<open>Encryption\<close>

lemma BRB_RC4_Crypt_total:
  "rc4_ok s \<Longrightarrow> \<exists>s' ys. BRB_RC4_Crypt s xs = Inr (s', ys) \<and> rc4_ok s' \<and> length ys = length xs"
proof (induction xs arbitrary: s)
  case (Cons x xs)
  obtain s1 k where "rc4_next s = Inr (s1, k)" "rc4_ok s1" using rc4_next_ok [OF Cons.prems] by blast
  then show ?case using Cons.IH [of s1] by auto
qed simp

lemma BRB_RC4_Crypt_involutive:
  "BRB_RC4_Crypt s xs = Inr (s', ys) \<Longrightarrow> BRB_RC4_Crypt s ys = Inr (s', xs)"
proof (induction xs arbitrary: s ys)
  case (Cons x xs)
  then obtain s1 k zs where "rc4_next s = Inr (s1, k)" "BRB_RC4_Crypt s1 xs = Inr (s', zs)" "ys = (x XOR k) # zs"
    by (auto simp: and_then_eq_Inr split: prod.splits)
  then show ?case using Cons.IH by (simp add: xor.assoc)
qed simp

section \<open>Claims\<close>

text \<open>
  C10: for every key of positive length the key schedule completes without an access outside the key
  or the permutation, and leaves a permutation of all bytes. Encryption in the state it builds is total,
  keeps the permutation property, and encrypting the result in the same initial state restores the text.
\<close>

theorem rc4_roundtrip:
  assumes "0 < keylen" "keylen \<le> int (length key)"
  shows "\<exists>s. BRB_RC4_Init key keylen = Inr s \<and> rc4_ok s \<and>
    (\<forall>xs. \<exists>s' ys. BRB_RC4_Crypt s xs = Inr (s', ys) \<and> rc4_ok s' \<and> BRB_RC4_Crypt s ys = Inr (s', xs))"
  using BRB_RC4_Init_ok [OF assms] BRB_RC4_Crypt_total BRB_RC4_Crypt_involutive by metis

lemma rc4_roundtrip_witness:
  "\<exists>s. BRB_RC4_Init [1, 2, 3] 3 = Inr s \<and> rc4_ok s \<and>
    (\<forall>xs. \<exists>s' ys. BRB_RC4_Crypt s xs = Inr (s', ys) \<and> rc4_ok s' \<and> BRB_RC4_Crypt s ys = Inr (s', xs))"
  using rc4_roundtrip [of 3 "[1, 2, 3]"] by simp

end
