(* ===== verification/Base64.thy ===== *)
theory Base64
  imports BrbPrelude
begin

unbundle bit_operations_syntax

text \<open>
  The Base64 codec of libbrb_core/crypto/base64.c. Input buffers are lists whose reads are checked, C
  strings end at their first zero byte, and every store into an output buffer is checked. The static
  result buffers are an argument: the codec overwrites what they held. The variants that write to a
  \<open>MemBuffer\<close> are not modelled here.
\<close>

section \<open>Tables\<close>

definition BRB_BASE64_RESULT_SZ :: int where
  "BRB_BASE64_RESULT_SZ = 65535 * 2"

definition brb_base64_code :: "8 word list" where
  "brb_base64_code = map of_char ''ABCDEFGHIJKLMNOPQRSTUVWXYZabcdefghijklmnopqrstuvwxyz0123456789+/''"

definition b64_pad :: "8 word" where "b64_pad = 0x3D"

text \<open>\<open>brb_base64_init\<close> fills \<open>brb_base64_value\<close>.\<close>

definition brb_base64_init :: "int list result" where
  "brb_base64_init =
     and_then (for_each (\<lambda>i tab. arr_set tab i (- 1)) [0..255] (replicate 256 0)) (\<lambda>tab.
     and_then (for_each (\<lambda>i tab. and_then (arr_get brb_base64_code i) (\<lambda>c. arr_set tab (uint c) i)) [0..63] tab) (\<lambda>tab.
     arr_set tab (uint b64_pad) 0))"

section \<open>Decoding\<close>

definition b64_put :: "8 word list \<Rightarrow> int \<Rightarrow> 8 word \<Rightarrow> (8 word list \<times> int) result" where
  "b64_put buf j v = and_then (arr_set buf j v) (\<lambda>buf. Inr (buf, j + 1))"

text \<open>One quantum of four characters, 24 bits, as three bytes.\<close>

definition b64_put_quantum :: "8 word list \<Rightarrow> int \<Rightarrow> int \<Rightarrow> (8 word list \<times> int) result" where
  "b64_put_quantum buf j val =
     and_then (b64_put buf j (of_int (drop_bit 16 val))) (\<lambda>(buf, j).
     and_then (b64_put buf j (of_int (drop_bit 8 val AND 0xff))) (\<lambda>(buf, j).
     b64_put buf j (of_int (val AND 0xff))))"

primrec b64_decode_loop ::
  "int list \<Rightarrow> int \<Rightarrow> 8 word list \<Rightarrow> 8 word list \<Rightarrow> int \<Rightarrow> int \<Rightarrow> int \<Rightarrow> (8 word list \<times> int) result" where
  "b64_decode_loop tab out_sz [] buf j c val = Inl OutOfBounds"
| "b64_decode_loop tab out_sz (p # ps) buf j c val =
     (if p \<noteq> 0 \<and> j + 4 < out_sz then
        and_then (arr_get tab (uint p mod 256)) (\<lambda>v.
        if v < 0 then b64_decode_loop tab out_sz ps buf j c val
        else let val = push_bit 6 val + v; c = c + 1 in
          if c < 4 then b64_decode_loop tab out_sz ps buf j c val
          else and_then (b64_put_quantum buf j val) (\<lambda>(buf, j). b64_decode_loop tab out_sz ps buf j 0 0))
      else Inr (buf, j))"


definition brb_base64_decode :: "8 word list \<Rightarrow> 8 word list \<Rightarrow> 8 word list result" where
  "brb_base64_decode p res =
     and_then brb_base64_init (\<lambda>tab.
     and_then (b64_decode_loop tab BRB_BASE64_RESULT_SZ p res 0 0 0) (\<lambda>(res, j). arr_set res j 0))"

section \<open>Encoding\<close>

definition b64_put_code :: "8 word list \<Rightarrow> int \<Rightarrow> int \<Rightarrow> (8 word list \<times> int) result" where
  "b64_put_code buf j k = and_then (arr_get brb_base64_code k) (\<lambda>c. b64_put buf j c)"

text \<open>The loop body of the encoders: one more input byte.\<close>

definition b64_encode_byte ::
  "8 word \<Rightarrow> 8 word list \<times> int \<times> int \<times> int \<Rightarrow> (8 word list \<times> int \<times> int \<times> int) result" where
  "b64_encode_byte c = (\<lambda>(buf, out_cnt, bits, char_count).
     let bits = bits + uint c; char_count = char_count + 1 in
     if char_count = 3 then
       and_then (b64_put_code buf out_cnt (drop_bit 18 bits)) (\<lambda>(buf, out_cnt).
       and_then (b64_put_code buf out_cnt (drop_bit 12 bits AND 0x3f)) (\<lambda>(buf, out_cnt).
       and_then (b64_put_code buf out_cnt (drop_bit 6 bits AND 0x3f)) (\<lambda>(buf, out_cnt).
       and_then (b64_put_code buf out_cnt (bits AND 0x3f)) (\<lambda>(buf, out_cnt).
       Inr (buf, out_cnt, 0, 0)))))
     else Inr (buf, out_cnt, push_bit 8 bits, char_count))"

text \<open>What follows the loop: the padded last quantum, and the terminator.\<close>

definition b64_encode_tail :: "8 word list \<times> int \<times> int \<times> int \<Rightarrow> (8 word list \<times> int) result" where
  "b64_encode_tail = (\<lambda>(buf, out_cnt, bits, char_count).
     and_then (if char_count \<noteq> 0 then
         let bits = push_bit (nat (16 - 8 * char_count)) bits in
         and_then (b64_put_code buf out_cnt (drop_bit 18 bits)) (\<lambda>(buf, out_cnt).
         and_then (b64_put_code buf out_cnt (drop_bit 12 bits AND 0x3f)) (\<lambda>(buf, out_cnt).
         if char_count = 1 then
           and_then (b64_put buf out_cnt b64_pad) (\<lambda>(buf, out_cnt). b64_put buf out_cnt b64_pad)
         else
           and_then (b64_put_code buf out_cnt (drop_bit 6 bits AND 0x3f)) (\<lambda>(buf, out_cnt).
           b64_put buf out_cnt b64_pad)))
       else Inr (buf, out_cnt)) (\<lambda>(buf, out_cnt).
     and_then (arr_set buf out_cnt 0) (\<lambda>buf. Inr (buf, out_cnt))))"

text \<open>\<open>while ((c = *decoded_str++) && out_cnt < sizeof(result) - 5)\<close>\<close>

primrec b64_encode_str_loop ::
  "8 word list \<Rightarrow> 8 word list \<times> int \<times> int \<times> int \<Rightarrow> (8 word list \<times> int \<times> int \<times> int) result" where
  "b64_encode_str_loop [] s = Inl OutOfBounds"
| "b64_encode_str_loop (c # cs) s =
     (if c \<noteq> 0 \<and> fst (snd s) < BRB_BASE64_RESULT_SZ - 5
      then and_then (b64_encode_byte c s) (b64_encode_str_loop cs) else Inr s)"

definition brb_base64_encode :: "8 word list \<Rightarrow> 8 word list \<Rightarrow> (8 word list \<times> int) result" where
  "brb_base64_encode decoded_str res =
     and_then brb_base64_init (\<lambda>tab.
     and_then (b64_encode_str_loop decoded_str (res, 0, 0, 0)) b64_encode_tail)"

text \<open>\<open>while (len-- && out_cnt < sizeof(result) - 5)\<close>\<close>

fun b64_encode_bin_loop ::
  "8 word list \<Rightarrow> int \<Rightarrow> 8 word list \<times> int \<times> int \<times> int \<Rightarrow> (8 word list \<times> int \<times> int \<times> int) result" where
  "b64_encode_bin_loop data len s =
     (if len \<noteq> 0 \<and> fst (snd s) < BRB_BASE64_RESULT_SZ - 5 then
        (case data of [] \<Rightarrow> Inl OutOfBounds
         | c # cs \<Rightarrow> and_then (b64_encode_byte c s) (b64_encode_bin_loop cs (len - 1)))
      else Inr s)"

declare b64_encode_bin_loop.simps [simp del]

definition brb_base64_encode_bin :: "8 word list \<Rightarrow> int \<Rightarrow> 8 word list \<Rightarrow> (8 word list \<times> int) result" where
  "brb_base64_encode_bin data len res =
     and_then brb_base64_init (\<lambda>tab.
     and_then (b64_encode_bin_loop data len (res, 0, 0, 0)) b64_encode_tail)"

text \<open>
  \<open>while ((len-- && out_cnt) < (result_sz - 5))\<close>: what is compared is the truth value of
  \<open>len-- && out_cnt\<close>.
\<close>

fun b64_encode_into_loop ::
  "int \<Rightarrow> 8 word list \<Rightarrow> int \<Rightarrow> 8 word list \<times> int \<times> int \<times> int \<Rightarrow> (8 word list \<times> int \<times> int \<times> int) result" where
  "b64_encode_into_loop result_sz data len s =
     (if c_bool (len \<noteq> 0 \<and> fst (snd s) \<noteq> 0) < result_sz - 5 then
        (case data of [] \<Rightarrow> Inl OutOfBounds
         | c # cs \<Rightarrow> and_then (b64_encode_byte c s) (b64_encode_into_loop result_sz cs (len - 1)))
      else Inr s)"

declare b64_encode_into_loop.simps [simp del]

definition brb_base64_encode_bin_into ::
  "8 word list \<Rightarrow> int \<Rightarrow> 8 word list \<Rightarrow> int \<Rightarrow> (8 word list \<times> int) result" where
  "brb_base64_encode_bin_into data len res result_sz =
     and_then brb_base64_init (\<lambda>tab.
     and_then (b64_encode_into_loop result_sz data len (res, 0, 0, 0)) b64_encode_tail)"

section \<open>The tables\<close>

definition b64_tab :: "int list" where
  "b64_tab = projr brb_base64_init"

lemma b64_tab_facts: "brb_base64_init = Inr b64_tab" "length b64_tab = 256" "b64_tab ! 61 = 0"
  "list_all (\<lambda>k. b64_tab ! unat (brb_base64_code ! k) = int k) [0..<64]" "length brb_base64_code = 64"
  "list_all (\<lambda>c. c \<noteq> 0) brb_base64_code"
proof -
  have F: "(case brb_base64_init of Inl _ \<Rightarrow> False | Inr t \<Rightarrow> length t = 256 \<and> t ! 61 = 0 \<and>
     list_all (\<lambda>k. t ! unat (brb_base64_code ! k) = int k) [0..<64])" by code_simp
  then obtain t where T: "brb_base64_init = Inr t" by (simp only: split: sum.splits)
  have "b64_tab = t" unfolding b64_tab_def T by (rule sum.sel(2))
  with F [unfolded T] T show "brb_base64_init = Inr b64_tab" "length b64_tab = 256" "b64_tab ! 61 = 0"
    "list_all (\<lambda>k. b64_tab ! unat (brb_base64_code ! k) = int k) [0..<64]" by simp_all
  show "length brb_base64_code = 64" "list_all (\<lambda>c. c \<noteq> 0) brb_base64_code" by code_simp+
qed



section \<open>The encoding of RFC 4648\<close>

text \<open>Three bytes as four sextets, by their fields; the last group is padded.\<close>

definition b64_char :: "int \<Rightarrow> 8 word" where
  "b64_char k = brb_base64_code ! nat k"

definition sextets :: "int \<Rightarrow> int \<Rightarrow> int \<Rightarrow> int \<times> int \<times> int \<times> int" where
  "sextets a b c = (a div 4, (a mod 4) * 16 + b div 16, (b mod 16) * 4 + c div 64, c mod 64)"

definition b64_group :: "8 word \<Rightarrow> 8 word \<Rightarrow> 8 word \<Rightarrow> 8 word list" where
  "b64_group a b c = (case sextets (uint a) (uint b) (uint c) of (p, q, r, s) \<Rightarrow>
     [b64_char p, b64_char q, b64_char r, b64_char s])"

fun rfc4648 :: "8 word list \<Rightarrow> 8 word list" where
  "rfc4648 [] = []"
| "rfc4648 [a] = take 2 (b64_group a 0 0) @ [b64_pad, b64_pad]"
| "rfc4648 [a, b] = take 3 (b64_group a b 0) @ [b64_pad]"
| "rfc4648 (a # b # c # r) = b64_group a b c @ rfc4648 r"

lemma length_rfc4648: "length (rfc4648 d) = 4 * ((length d + 2) div 3)"
proof (induction d rule: rfc4648.induct)
  case (4 a b c r)
  have "(length (a # b # c # r) + 2) div 3 = Suc ((length r + 2) div 3)" by simp
  with 4 show ?case by (simp add: b64_group_def sextets_def)
qed (simp_all add: b64_group_def sextets_def)

section \<open>Quanta\<close>

lemma and_3f: "(x::int) AND 63 = x mod 64"
  using take_bit_eq_mask [of 6 x] by (simp add: take_bit_eq_mod mask_eq_exp_minus_1)


lemma uint8: "0 \<le> uint (a::8 word) \<and> uint a < 256"
  using uint_lt2p [of a] by simp

text \<open>The 24 bits of a quantum, and its fields.\<close>

lemma sextet_mod: "0 \<le> x \<Longrightarrow> x < 64 \<Longrightarrow> (64 * h + x) mod 64 = (x::int)"
  by simp

lemma field_merge: "64 * (a div 4) + (a mod 4 * 16 + x) = a * 16 + x"
  "64 * (a * 16 + b div 16) + (b mod 16 * 4 + y) = a * 1024 + b * 4 + (y::int)"
proof -
  have *: "64 * h + (l * 16 + x) = (h * 4 + l) * 16 + x" "64 * (a * 16 + h) + (l * 4 + y) = a * 1024 + (h * 16 + l) * 4 + y"
    for h l x y a :: int by (simp_all add: algebra_simps)
  show "64 * (a div 4) + (a mod 4 * 16 + x) = a * 16 + x"
    "64 * (a * 16 + b div 16) + (b mod 16 * 4 + y) = a * 1024 + b * 4 + (y::int)"
    by (simp_all only: * div_mult_mod_eq)
qed

lemma quantum_fields:
  fixes a b c :: int
  assumes "0 \<le> a \<and> a < 256" "0 \<le> b \<and> b < 256" "0 \<le> c \<and> c < 256"
  defines "n \<equiv> a * 65536 + b * 256 + c"
  shows "sextets a b c = (n div 262144, n div 4096 mod 64, n div 64 mod 64, n mod 64)"
    "0 \<le> n div 262144" "n div 262144 < 64"
proof -
  have 1: "n div 262144 = a div 4" using assms unfolding n_def by linarith
  have 2: "n div 4096 = a * 16 + b div 16" using assms unfolding n_def by linarith
  have 3: "n div 64 = a * 1024 + b * 4 + c div 64" using assms unfolding n_def by linarith
  have "(a * 16 + b div 16) mod 64 = a mod 4 * 16 + b div 16"
    by (rule sextet_mod [of "a mod 4 * 16 + b div 16" "a div 4", unfolded field_merge]) (use assms in linarith)+
  moreover have "(a * 1024 + b * 4 + c div 64) mod 64 = b mod 16 * 4 + c div 64"
    by (rule sextet_mod [of "b mod 16 * 4 + c div 64" "a * 16 + b div 16", unfolded field_merge]) (use assms in linarith)+
  moreover have "n mod 64 = c mod 64"
    using mod_mult_self4 [of 64 "a * 1024 + b * 4" c] by (simp add: n_def algebra_simps)
  ultimately show "sextets a b c = (n div 262144, n div 4096 mod 64, n div 64 mod 64, n mod 64)"
    by (simp only: 1 2 3 sextets_def)
  show "0 \<le> n div 262144" "n div 262144 < 64" unfolding 1 using assms(1) by linarith+
qed


text \<open>A buffer that is being filled: what was written, and the space left.\<close>

lemma arr_set_here [simp]:
  "arr_set (pre @ x # post) (int (length pre)) v = Inr (pre @ v # post)"
  by (simp add: arr_set_def)

lemma arr_set_at_4: "arr_set (pre @ p # q # r # s # x # post) (4 + int (length pre)) v =
  Inr (pre @ p # q # r # s # v # post)"
  using arr_set_here [of "pre @ [p, q, r, s]" x post v] by (simp add: add.commute del: arr_set_in arr_set_here)

lemma b64_put_here:
  "b64_put (pre @ x # post) (int (length pre)) v = Inr ((pre @ [v]) @ post, int (length (pre @ [v])))"
  by (simp add: b64_put_def)

lemma b64_put_code_here: "0 \<le> k \<Longrightarrow> k < 64 \<Longrightarrow>
  b64_put_code (pre @ x # post) (int (length pre)) k =
    Inr ((pre @ [b64_char k]) @ post, int (length (pre @ [b64_char k])))"
  using b64_tab_facts(5) by (simp add: b64_put_code_def arr_get_def b64_char_def b64_put_here)

lemmas b64_fill =
  b64_put_code_here [simplified] b64_put_code_here [of _ "pre @ [p]" for pre p, simplified]
  b64_put_code_here [of _ "pre @ [p, q]" for pre p q, simplified]
  b64_put_code_here [of _ "pre @ [p, q, r]" for pre p q r, simplified]
  b64_put_here [of "pre @ [p, q]" for pre p q, simplified]
  b64_put_here [of "pre @ [p, q, r]" for pre p q r, simplified]
  arr_set_at_4

text \<open>A whole group goes through the encoder's loop body in three steps.\<close>

lemma b64_encode_byte_1: "b64_encode_byte a (buf, j, 0, 0) = Inr (buf, j, uint a * 256, 1)"
  "b64_encode_byte b (buf, j, uint a * 256, 1) = Inr (buf, j, (uint a * 256 + uint b) * 256, 2)"
  by (simp_all add: b64_encode_byte_def push_bit_eq_mult)

lemma b64_encode_byte_3:
  "b64_encode_byte c (pre @ w # x # y # z # post, int (length pre), (uint a * 256 + uint b) * 256, 2) =
     Inr ((pre @ b64_group a b c) @ post, int (length (pre @ b64_group a b c)), 0, 0)"
proof -
  define n where "n = 65536 * uint a + uint b * 256 + uint c"
  have n: "(uint a * 256 + uint b) * 256 + uint c = n" by (simp add: n_def)
  have n': "uint a * 65536 + uint b * 256 + uint c = n" by (simp add: n_def)
  note q = quantum_fields [OF uint8 [of a] uint8 [of b] uint8 [of c], unfolded n']
  have f: "b64_group a b c = [b64_char (n div 262144), b64_char (n div 4096 mod 64),
      b64_char (n div 64 mod 64), b64_char (n mod 64)]"
    by (simp add: b64_group_def q(1))
  show ?thesis
    using q(2,3) by (simp add: b64_fill b64_encode_byte_def Let_def n f drop_bit_eq_div and_3f flip: n_def)
qed

lemma b64_encode_tail_0:
  "b64_encode_tail (pre @ x # post, int (length pre), 0, 0) = Inr (pre @ 0 # post, int (length pre))"
  by (simp add: b64_encode_tail_def)

lemma b64_encode_tail_1:
  "b64_encode_tail (pre @ w # x # y # z # t # post, int (length pre), uint a * 256, 1) =
     Inr ((pre @ rfc4648 [a]) @ 0 # post, int (length (pre @ rfc4648 [a])))"
proof -
  define n where "n = uint a * 65536"
  have n': "uint a * 65536 + uint (0::8 word) * 256 + uint (0::8 word) = n" by (simp add: n_def)
  note q = quantum_fields [OF uint8 [of a] uint8 [of 0] uint8 [of 0], unfolded n']
  have f: "rfc4648 [a] = [b64_char (n div 262144), b64_char (n div 4096 mod 64), b64_pad, b64_pad]"
    using q(1) by (simp add: b64_group_def)
  have b: "push_bit 8 (uint a * 256) = n" by (simp add: n_def push_bit_eq_mult)
  show ?thesis
    unfolding f using q(2,3)
    by (simp add: b64_encode_tail_def Let_def b drop_bit_eq_div and_3f b64_fill)
qed

lemma b64_encode_tail_2:
  "b64_encode_tail (pre @ w # x # y # z # t # post, int (length pre), (uint a * 256 + uint b) * 256, 2) =
     Inr ((pre @ rfc4648 [a, b]) @ 0 # post, int (length (pre @ rfc4648 [a, b])))"
proof -
  define n where "n = 65536 * uint a + 256 * uint b"
  have n': "uint a * 65536 + uint b * 256 + uint (0::8 word) = n" "(uint a * 256 + uint b) * 256 = n"
    by (simp_all add: n_def)
  note q = quantum_fields [OF uint8 [of a] uint8 [of b] uint8 [of 0], unfolded n']
  have f: "rfc4648 [a, b] = [b64_char (n div 262144), b64_char (n div 4096 mod 64), b64_char (n div 64 mod 64), b64_pad]"
    using q(1) by (simp add: b64_group_def)
  show ?thesis
    unfolding f n'(2) using q(2,3)
    by (simp add: b64_encode_tail_def Let_def drop_bit_eq_div and_3f b64_fill)
qed

section \<open>The encoders implement RFC 4648\<close>

lemma split_5: "5 \<le> length xs \<Longrightarrow> \<exists>u w x y z t. xs = u # w # x # y # z # t"
  by (cases xs; cases "tl xs"; cases "tl (tl xs)"; cases "tl (tl (tl xs))"; cases "tl (tl (tl (tl xs)))") auto

text \<open>
  Any of the encoders' loops is a run of \<open>b64_encode_byte\<close> over the data it does not cut off; the
  tail then completes the encoding in place.
\<close>

primrec b64_run :: "8 word list \<Rightarrow> 8 word list \<times> int \<times> int \<times> int \<Rightarrow> (8 word list \<times> int \<times> int \<times> int) result" where
  "b64_run [] s = Inr s"
| "b64_run (c # cs) s = and_then (b64_encode_byte c s) (b64_run cs)"

lemma b64_run_rfc:
  "4 * ((length d + 2) div 3) < length post \<Longrightarrow>
   and_then (b64_run d (pre @ post, int (length pre), 0, 0)) b64_encode_tail =
     Inr (pre @ rfc4648 d @ 0 # drop (Suc (length (rfc4648 d))) post, int (length (pre @ rfc4648 d)))"
proof (induction d arbitrary: pre post rule: rfc4648.induct)
  case 1
  then show ?case using b64_encode_tail_0 [of pre] by (cases post) simp_all
next
  case (2 a)
  then obtain u w x y z t where "post = u # w # x # y # z # t" using split_5 [of post] by fastforce
  then show ?case using b64_encode_tail_1 [of pre u w x y z t a] by (simp add: b64_encode_byte_1 b64_group_def sextets_def)
next
  case (3 a b)
  then obtain u w x y z t where "post = u # w # x # y # z # t" using split_5 [of post] by fastforce
  then show ?case using b64_encode_tail_2 [of pre u w x y z t a b] by (simp add: b64_encode_byte_1 b64_group_def sextets_def)
next
  case (4 a b c r)
  have l: "(length (a # b # c # r) + 2) div 3 = Suc ((length r + 2) div 3)" by simp
  then obtain u w x y z t where p: "post = u # w # x # y # z # t" using split_5 [of post] 4(2) by fastforce
  have g: "length (b64_group a b c) = 4" by (simp add: b64_group_def sextets_def)
  have "4 * ((length r + 2) div 3) < length (z # t)" using 4(2) l p by simp
  from 4(1) [OF this, of "pre @ b64_group a b c"] show ?case
    unfolding p by (simp add: b64_encode_byte_1 b64_encode_byte_3 [simplified] g and_then_assoc numeral_eq_Suc add.commute [of _ "int (length pre)"])
qed

lemma b64_encode_byte_cnt:
  "b64_encode_byte c (buf, j, bits, n) = Inr (buf', j', bits', n') \<Longrightarrow> 0 \<le> n \<Longrightarrow> n \<le> 2 \<Longrightarrow>
     0 \<le> n' \<and> n' \<le> 2 \<and> 3 * j' + 4 * n' = 3 * j + 4 * n + 4 \<and> (j' = j \<or> j' = j + 4)"
  by (auto simp: b64_encode_byte_def Let_def b64_put_code_def b64_put_def and_then_eq_Inr split: if_splits)

text \<open>
  What the two loops share. \<open>feed d\<close> is the loop at a point where \<open>d\<close> is left to read; it goes on
  while the output is below \<open>sizeof(result) - 5\<close>, and \<open>ended\<close> tells that nothing follows \<open>d\<close>. The result
  array holds the encoding of 98301 bytes, and the loops encode no more.
\<close>

definition b64_max :: nat where "b64_max = 98301"

locale b64_loop =
  fixes feed :: "8 word list \<Rightarrow> 8 word list \<times> int \<times> int \<times> int \<Rightarrow> (8 word list \<times> int \<times> int \<times> int) result"
    and allowed :: "8 word \<Rightarrow> bool" and ended :: bool
  assumes feed_Cons: "allowed c \<Longrightarrow> j < BRB_BASE64_RESULT_SZ - 5 \<Longrightarrow>
      feed (c # d) (buf, j, bits, n) = and_then (b64_encode_byte c (buf, j, bits, n)) (feed d)"
    and feed_Nil: "ended \<or> \<not> j < BRB_BASE64_RESULT_SZ - 5 \<Longrightarrow> feed [] (buf, j, bits, n) = Inr (buf, j, bits, n)"
begin

lemma feed_run:
  assumes "0 \<le> n" "n \<le> 2" "j mod 4 = 0" "3 * j + 4 * n + 4 * int (length d) \<le> 4 * int b64_max"
    "ended \<or> 3 * j + 4 * n + 4 * int (length d) = 4 * int b64_max" "list_all allowed d"
  shows "feed d (buf, j, bits, n) = b64_run d (buf, j, bits, n)"
  using assms
proof (induction d arbitrary: buf j bits n)
  case Nil
  then obtain g where "j = 4 * g" by (metis mod_0_imp_dvd dvdE)
  with Nil show ?case by (subst feed_Nil) (auto simp: b64_max_def BRB_BASE64_RESULT_SZ_def)
next
  case (Cons c d)
  obtain g where g: "j = 4 * g" using Cons.prems(3) by (metis mod_0_imp_dvd dvdE)
  have "g \<le> 32766" using Cons.prems(1,4) g by (simp add: b64_max_def)
  then have "j < BRB_BASE64_RESULT_SZ - 5" using g by (simp add: BRB_BASE64_RESULT_SZ_def)
  then have "feed (c # d) (buf, j, bits, n) = and_then (b64_encode_byte c (buf, j, bits, n)) (feed d)"
    using Cons.prems(6) by (simp add: feed_Cons)
  also have "\<dots> = and_then (b64_encode_byte c (buf, j, bits, n)) (b64_run d)"
  proof (rule and_then_cong [OF refl])
    fix s' assume s': "b64_encode_byte c (buf, j, bits, n) = Inr s'"
    obtain buf' j' bits' n' where e: "s' = (buf', j', bits', n')" using prod_cases4 .
    note k = b64_encode_byte_cnt [OF s' [unfolded e] Cons.prems(1,2)]
    have "j' mod 4 = 0" using k Cons.prems(3) by auto
    with k Cons.prems show "feed d s' = b64_run d s'"
      unfolding e by (intro Cons.IH) auto
  qed
  finally show ?case by simp
qed

text \<open>From the empty result array: the encoding of the first 98301 bytes.\<close>

lemma feed_rfc:
  assumes "length d \<le> b64_max" "ended \<or> length d = b64_max" "list_all allowed d"
    "length res = nat BRB_BASE64_RESULT_SZ"
  shows "and_then (feed d (res, 0, 0, 0)) b64_encode_tail =
     Inr (rfc4648 d @ 0 # drop (Suc (length (rfc4648 d))) res, int (length (rfc4648 d)))"
proof -
  have "4 * ((length d + 2) div 3) \<le> 4 * ((98301 + 2) div 3)"
    using assms(1) by (intro mult_le_mono2 div_le_mono) (simp add: b64_max_def)
  then have "4 * ((length d + 2) div 3) < length res"
    using assms(4) by (simp add: BRB_BASE64_RESULT_SZ_def)
  then show ?thesis
    using b64_run_rfc [of d res "[]"] feed_run [of 0 0 d res 0] assms(1-3) by auto
qed

end

interpretation b64_bin: b64_loop "\<lambda>d. b64_encode_bin_loop (d @ rest) (int (length d + k))" "\<lambda>_. True" "k = 0"
  for rest k
proof unfold_locales
  fix c d buf j bits n
  assume "j < BRB_BASE64_RESULT_SZ - 5"
  then show "b64_encode_bin_loop ((c # d) @ rest) (int (length (c # d) + k)) (buf, j, bits, n) =
      and_then (b64_encode_byte c (buf, j, bits, n)) (b64_encode_bin_loop (d @ rest) (int (length d + k)))"
    by (subst b64_encode_bin_loop.simps) simp
next
  fix buf j bits n
  assume "k = 0 \<or> \<not> j < BRB_BASE64_RESULT_SZ - 5"
  then show "b64_encode_bin_loop ([] @ rest) (int (length [] + k)) (buf, j, bits, n) = Inr (buf, j, bits, n)"
    by (subst b64_encode_bin_loop.simps) auto
qed

interpretation b64_str: b64_loop "\<lambda>d. b64_encode_str_loop (d @ c # rest)" "\<lambda>x. x \<noteq> 0" "c = 0"
  for c rest
  by unfold_locales auto

section \<open>Decoding what was encoded\<close>



declare b64_decode_loop.simps(2) [simp del]








lemma length_group: "length (b64_group a b c) = 4"
  by (simp add: b64_group_def sextets_def)





section \<open>The codec\<close>

text \<open>
  C11: \<open>brb_base64_encode_bin\<close> is total on every buffer of the given length: it never leaves the static
  result array, whatever the length, and the array then holds the RFC 4648 encoding of the data, cut
  after the 98301 bytes that fit, and a terminator.
\<close>

theorem base64_encode_bin_rfc:
  assumes "length res = nat BRB_BASE64_RESULT_SZ"
  shows "brb_base64_encode_bin data (int (length data)) res =
    (let enc = rfc4648 (take b64_max data)
     in Inr (enc @ 0 # drop (Suc (length enc)) res, int (length enc)))"
proof -
  define d r where "d = take b64_max data" and "r = drop b64_max data"
  have d: "data = d @ r" "length d \<le> b64_max" "length r = 0 \<or> length d = b64_max"
    by (auto simp: d_def r_def)
  have "and_then (b64_encode_bin_loop (d @ r) (int (length d + length r)) (res, 0, 0, 0)) b64_encode_tail =
      Inr (rfc4648 d @ 0 # drop (Suc (length (rfc4648 d))) res, int (length (rfc4648 d)))"
    by (rule b64_bin.feed_rfc [OF d(2,3) _ assms]) (simp add: list.pred_set)
  then show ?thesis
    unfolding brb_base64_encode_bin_def b64_tab_facts(1) d_def [symmetric] Let_def by (simp add: d(1))
qed

theorem base64_encode_bin_rfc_witness:
  "brb_base64_encode_bin [0x4D, 0x61] (int (length [0x4D, 0x61 :: 8 word])) (replicate (nat BRB_BASE64_RESULT_SZ) 7) =
    (let enc = rfc4648 (take b64_max [0x4D, 0x61])
     in Inr (enc @ 0 # drop (Suc (length enc)) (replicate (nat BRB_BASE64_RESULT_SZ) 7), int (length enc)))
   \<and> rfc4648 (take b64_max [0x4D, 0x61]) = map of_char ''TWE=''"
proof
  show "brb_base64_encode_bin [0x4D, 0x61] (int (length [0x4D, 0x61 :: 8 word])) (replicate (nat BRB_BASE64_RESULT_SZ) 7) =
    (let enc = rfc4648 (take b64_max [0x4D, 0x61])
     in Inr (enc @ 0 # drop (Suc (length enc)) (replicate (nat BRB_BASE64_RESULT_SZ) 7), int (length enc)))"
    by (rule base64_encode_bin_rfc) simp
  have "rfc4648 [0x4D, 0x61] = map of_char ''TWE=''" by code_simp
  then show "rfc4648 (take b64_max [0x4D, 0x61]) = map of_char ''TWE=''" by (simp add: b64_max_def)
qed

text \<open>
  The two encoders agree: on a C string \<open>brb_base64_encode\<close> returns what
  \<open>brb_base64_encode_bin\<close> returns for its bytes before the terminator.
\<close>

theorem base64_encoders_agree:
  assumes "length res = nat BRB_BASE64_RESULT_SZ" "0 \<notin> set d"
  shows "brb_base64_encode (d @ 0 # rest) res = brb_base64_encode_bin d (int (length d)) res"
proof (cases "length d \<le> b64_max")
  case True
  then have "list_all (\<lambda>x. x \<noteq> 0) d" using assms(2) by (induction d) auto
  with True show ?thesis
    using b64_str.feed_rfc [of d 0 res rest] b64_bin.feed_rfc [of d 0 res "[]"] assms
    unfolding brb_base64_encode_def brb_base64_encode_bin_def b64_tab_facts(1) by (simp add: list.pred_set)
next
  case False
  define e where "e = take b64_max d"
  obtain c r where cr: "drop b64_max d = c # r" using False by (cases "drop b64_max d") auto
  have e: "d = e @ c # r" "length e = b64_max" "length d = length e + (length d - b64_max)"
    using False append_take_drop_id [of b64_max d] by (auto simp: e_def cr)
  have "list_all (\<lambda>x. x \<noteq> 0) e" using assms(2) e(1) by (auto simp: list.pred_set)
  then have "and_then (b64_encode_str_loop (e @ c # r @ 0 # rest) (res, 0, 0, 0)) b64_encode_tail =
    and_then (b64_encode_bin_loop (e @ c # r) (int (length e + (length d - b64_max))) (res, 0, 0, 0)) b64_encode_tail"
    using b64_str.feed_rfc [of e c res "r @ 0 # rest"] b64_bin.feed_rfc [of e "length d - b64_max" res "c # r"] assms(1) e(2)
    by (simp add: list.pred_set)
  then show ?thesis
    unfolding brb_base64_encode_def brb_base64_encode_bin_def b64_tab_facts(1) e(3) [symmetric]
    by (simp add: e(1))
qed

theorem base64_encoders_agree_witness:
  "brb_base64_encode ([0x4D, 0x61] @ 0 # [9]) (replicate (nat BRB_BASE64_RESULT_SZ) 7) =
   brb_base64_encode_bin [0x4D, 0x61] (int (length [0x4D, 0x61 :: 8 word])) (replicate (nat BRB_BASE64_RESULT_SZ) 7)"
  by (rule base64_encoders_agree) simp_all



lemma b64_encode_byte_fault: "b64_encode_byte c s = Inl e \<Longrightarrow> 0 \<le> fst (snd (snd s)) \<Longrightarrow> e = OutOfBounds"
  by (cases s) (auto simp: b64_encode_byte_def Let_def b64_put_code_def b64_put_def arr_get_def arr_set_def and_then_def
      split: if_splits sum.splits)

text \<open>
  With a result buffer of more than six bytes \<open>brb_base64_encode_bin_into\<close> reads past its input:
  its loop compares the truth value of \<open>len-- && out_cnt\<close> with \<open>result_sz - 5\<close>, which never stops it.
\<close>

theorem base64_encode_bin_into_overruns:
  assumes "6 < result_sz"
  shows "brb_base64_encode_bin_into data len res result_sz = Inl OutOfBounds"
proof -
  have "b64_encode_into_loop result_sz data len s = Inl OutOfBounds" if "0 \<le> fst (snd (snd s))" for len s
    using that
  proof (induction data arbitrary: len s)
    case Nil
    then show ?case using assms by (subst b64_encode_into_loop.simps) (simp add: c_bool_def)
  next
    case (Cons c cs)
    have b: "c_bool b < result_sz - 5" for b using assms by (simp add: c_bool_def)
    show ?case
    proof (cases "b64_encode_byte c s")
      case (Inl e)
      then show ?thesis using b b64_encode_byte_fault [OF Inl Cons.prems] by (subst b64_encode_into_loop.simps) simp
    next
      case (Inr s')
      have "0 \<le> fst (snd (snd s'))"
        using Inr Cons.prems uint8 [of c] by (cases s) (auto simp: b64_encode_byte_def Let_def and_then_eq_Inr push_bit_eq_mult split: if_splits)
      then show ?thesis using b Inr Cons.IH by (subst b64_encode_into_loop.simps) simp
    qed
  qed
  then show ?thesis unfolding brb_base64_encode_bin_into_def b64_tab_facts(1) by simp
qed

theorem base64_encode_bin_into_overruns_witness:
  "brb_base64_encode_bin_into [0x4D] 1 (replicate 64 0) 64 = Inl OutOfBounds"
  by (rule base64_encode_bin_into_overruns) simp

end
