(* ===== verification/HashAbsorb.thy ===== *)
theory HashAbsorb
  imports BrbPrelude
begin

unbundle bit_operations_syntax

text \<open>
  What the three hash functions of libbrb_core/crypto share: copying into the block buffer, words as
  bytes of either order, and the Merkle-Damgard construction as a reference. The reference reads a
  message byte by byte, hands every 64 bytes to a compression function, and pads with a one bit, zero
  bits and the 64-bit length. The locale states what an implementation with a block buffer and
  arbitrary chunk boundaries has to keep to compute it.
\<close>

section \<open>Words and bytes\<close>

text \<open>\<open>le_word\<close> is how a little-endian machine reads an unsigned integer of these bytes.\<close>

definition le_word :: "8 word list \<Rightarrow> 32 word" where
  "le_word bs = foldr (\<lambda>b w. push_bit 8 w OR ucast b) bs 0"

definition le_bytes :: "32 word \<Rightarrow> 8 word list" where
  "le_bytes w = map (\<lambda>i. ucast (drop_bit (8 * i) w)) [0..<4]"

definition rol32 :: "32 word \<Rightarrow> nat \<Rightarrow> 32 word" where
  "rol32 w n = push_bit n w OR drop_bit (32 - n) w"

text \<open>For evaluation: \<open>strict\<close> makes the simplifier reduce a word to a literal before it goes on.\<close>

definition strict :: "32 word \<Rightarrow> 32 word" where
  "strict w = w"

lemma strict_code [code]: "strict w = word_of_int (uint w)"
  by (simp add: strict_def)

lemma rol32_code [code]: "rol32 w n = strict (push_bit n w OR drop_bit (32 - n) w)"
  by (simp add: strict_def rol32_def)

definition be_bytes :: "32 word \<Rightarrow> 8 word list" where
  "be_bytes w = rev (le_bytes w)"

lemma length_le_bytes [simp]: "length (le_bytes w) = 4" "length (be_bytes w) = 4"
  by (simp_all add: le_bytes_def be_bytes_def)

text \<open>A 64-bit integer as bytes of either order.\<close>

definition le64 :: "64 word \<Rightarrow> 8 word list" where
  "le64 w = le_bytes (ucast w) @ le_bytes (ucast (drop_bit 32 w))"

definition be64 :: "64 word \<Rightarrow> 8 word list" where
  "be64 w = be_bytes (ucast (drop_bit 32 w)) @ be_bytes (ucast w)"

definition words_of :: "8 word list \<Rightarrow> 32 word list" where
  "words_of bs = map (\<lambda>i. le_word (take 4 (drop (4 * i) bs))) [0..<16]"

definition bytes_of :: "32 word list \<Rightarrow> 8 word list" where
  "bytes_of ws = concat (map le_bytes ws)"

lemma length_bytes_of [simp]: "length (bytes_of ws) = 4 * length ws"
  by (induction ws) (simp_all add: bytes_of_def)

lemma length_words_of [simp]: "length (words_of bs) = 16"
  by (simp add: words_of_def)

section \<open>The reference\<close>

text \<open>State and pending bytes, fewer than 64.\<close>

fun absorb_byte :: "('s \<Rightarrow> 8 word list \<Rightarrow> 's) \<Rightarrow> 8 word \<Rightarrow> 's \<times> 8 word list \<Rightarrow> 's \<times> 8 word list" where
  "absorb_byte f b (s, p) = (if length p = 63 then (f s (p @ [b]), []) else (s, p @ [b]))"

definition absorb :: "('s \<Rightarrow> 8 word list \<Rightarrow> 's) \<Rightarrow> 8 word list \<Rightarrow> 's \<times> 8 word list \<Rightarrow> 's \<times> 8 word list" where
  "absorb f = fold (absorb_byte f)"

lemma absorb_Nil [simp]: "absorb f [] sp = sp"
  by (simp add: absorb_def)

lemma absorb_Cons [simp]: "absorb f (b # bs) sp = absorb f bs (absorb_byte f b sp)"
  by (simp add: absorb_def)

lemma absorb_append: "absorb f (xs @ ys) sp = absorb f ys (absorb f xs sp)"
  by (simp add: absorb_def)

lemma absorb_short: "length p + length d < 64 \<Longrightarrow> absorb f d (s, p) = (s, p @ d)"
  by (induction d arbitrary: p) auto

lemma absorb_fill: "length p + length d = 64 \<Longrightarrow> d \<noteq> [] \<Longrightarrow> absorb f d (s, p) = (f s (p @ d), [])"
  by (cases d rule: rev_cases) (simp_all add: absorb_append absorb_short)

lemma absorb_block: "length d = 64 \<Longrightarrow> absorb f d (s, []) = (f s d, [])"
  by (rule absorb_fill [of "[]", simplified]) auto

lemma absorb_pending:
  "length (snd sp) < 64 \<Longrightarrow> length (snd (absorb f d sp)) = (length (snd sp) + length d) mod 64"
proof (induction d arbitrary: sp)
  case (Cons b d)
  obtain s p where sp: "sp = (s, p)" by (cases sp)
  show ?case
  proof (cases "length p = 63")
    case True
    then show ?thesis using Cons.IH [of "(f s (p @ [b]), [])"] sp by simp
  next
    case False
    then show ?thesis using Cons.IH [of "(s, p @ [b])"] Cons.prems sp by simp
  qed
qed simp

text \<open>Padding: 0x80, zeros up to 56 modulo 64, and eight bytes that encode the bit length.\<close>

definition pad_zeros :: "nat \<Rightarrow> nat" where
  "pad_zeros n = (119 - n mod 64) mod 64"

definition md_pad :: "(64 word \<Rightarrow> 8 word list) \<Rightarrow> nat \<Rightarrow> 8 word list" where
  "md_pad enc n = 0x80 # replicate (pad_zeros n) 0 @ enc (word_of_nat (8 * n))"

definition md_hash :: "('s \<Rightarrow> 8 word list \<Rightarrow> 's) \<Rightarrow> (64 word \<Rightarrow> 8 word list) \<Rightarrow> 's \<Rightarrow> 8 word list \<Rightarrow> 's" where
  "md_hash f enc iv msg = fst (absorb f (msg @ md_pad enc (length msg)) (iv, []))"

lemma mod_64_once: "m < 128 \<Longrightarrow> m mod 64 = (if m < 64 then m else m - 64)" for m :: nat
  by (simp add: mod_if)

lemma pad_zeros_eq: "pad_zeros n = (if n mod 64 < 56 then 55 - n mod 64 else 119 - n mod 64)"
proof -
  define r where "r = n mod 64"
  have "r < 64" by (simp add: r_def)
  then show ?thesis unfolding pad_zeros_def r_def [symmetric] by (subst mod_64_once) auto
qed

text \<open>The number of zeros is the first one that reaches 56 modulo 64.\<close>

lemma pad_zeros_iff: "k < 64 \<Longrightarrow> (n + 1 + k) mod 64 = 56 \<longleftrightarrow> k = pad_zeros n"
proof -
  assume k: "k < 64"
  define r where "r = n mod 64"
  have r: "r < 64" by (simp add: r_def)
  have "(n + 1 + k) mod 64 = (r + 1 + k) mod 64" unfolding r_def add.assoc by (rule mod_add_left_eq [symmetric])
  also have "\<dots> = (if r + 1 + k < 64 then r + 1 + k else r + 1 + k - 64)"
    using k r by (intro mod_64_once) simp
  finally show ?thesis using k r unfolding pad_zeros_eq r_def [symmetric] by auto
qed

lemma pad_zeros_less: "pad_zeros n < 64"
  by (simp add: pad_zeros_def)

section \<open>A block buffer and its counter\<close>

text \<open>The buffer's first bytes, as many as the message is long modulo 64, are the pending ones.\<close>

definition pending :: "8 word list \<Rightarrow> nat \<Rightarrow> 8 word list" where
  "pending buf n = take (n mod 64) buf"

lemma length_pending: "length buf = 64 \<Longrightarrow> length (pending buf n) = n mod 64"
  by (simp add: pending_def less_imp_le)

text \<open>A chunk that does not fill the buffer is copied behind the pending bytes.\<close>

lemma pending_short:
  assumes "length buf = 64" "n mod 64 + length d < 64"
  shows "arr_copy buf (int (n mod 64)) d = Inr (take (n mod 64) buf @ d @ drop (n mod 64 + length d) buf)"
    "pending (take (n mod 64) buf @ d @ drop (n mod 64 + length d) buf) (n + length d) = pending buf n @ d"
    "absorb f d (s, pending buf n) = (s, pending buf n @ d)"
proof -
  have "(n + length d) mod 64 = n mod 64 + length d"
    using assms(2) mod_add_left_eq [of n 64 "length d"] by simp
  then show "pending (take (n mod 64) buf @ d @ drop (n mod 64 + length d) buf) (n + length d) = pending buf n @ d"
    using assms by (simp add: pending_def)
  show "absorb f d (s, pending buf n) = (s, pending buf n @ d)"
    using assms by (simp add: absorb_short length_pending)
qed (use assms in \<open>simp add: arr_copy_nat\<close>)

text \<open>A chunk that fills it completes one block; the rest starts on an empty buffer.\<close>

lemma pending_fill:
  assumes "length buf = 64" "64 \<le> n mod 64 + length d"
  shows "arr_copy buf (int (n mod 64)) (take (64 - n mod 64) d) = Inr (pending buf n @ take (64 - n mod 64) d)"
    "absorb f d (s, pending buf n) =
       absorb f (drop (64 - n mod 64) d) (f s (pending buf n @ take (64 - n mod 64) d), [])"
    "length (pending buf n @ take (64 - n mod 64) d) = 64"
proof -
  define k where "k = 64 - n mod 64"
  have "n mod 64 < 64" by simp
  then have k: "0 < k" "k \<le> length d" "n mod 64 + k = 64" using assms(2) by (auto simp: k_def)
  have "absorb f (take k d) (s, pending buf n) = (f s (pending buf n @ take k d), [])"
    using k assms(1) by (intro absorb_fill) (auto simp: length_pending)
  then show "absorb f d (s, pending buf n) =
       absorb f (drop (64 - n mod 64) d) (f s (pending buf n @ take (64 - n mod 64) d), [])"
    unfolding k_def [symmetric] using absorb_append [of f "take k d" "drop k d"] by simp
  show "arr_copy buf (int (n mod 64)) (take (64 - n mod 64) d) = Inr (pending buf n @ take (64 - n mod 64) d)"
    unfolding k_def [symmetric] using k assms(1) arr_copy_nat [of "n mod 64" "take k d" buf]
    by (simp add: pending_def)
  show "length (pending buf n @ take (64 - n mod 64) d) = 64"
    unfolding k_def [symmetric] using k assms(1) by (simp add: length_pending)
qed

text \<open>After whole blocks, the rest of fewer than 64 bytes is pending.\<close>

lemma pending_rest:
  assumes "length buf = 64" "length r < 64" "m mod 64 = length r"
  shows "arr_copy buf 0 r = Inr (r @ drop (length r) buf)" "pending (r @ drop (length r) buf) m = r"
    "length (r @ drop (length r) buf) = 64"
  using assms by (simp_all add: arr_copy_def pending_def)

text \<open>A 64-bit counter in two words, with the carry found by comparison.\<close>

lemma carry_add:
  fixes lo hi :: "32 word"
  assumes "len < 2 ^ 32"
  defines "lo' \<equiv> word_of_nat (unat lo + len) :: 32 word"
  defines "hi' \<equiv> (if unat lo' < unat lo then hi + 1 else hi)"
  shows "(unat lo' + 2 ^ 32 * unat hi') mod 2 ^ 64 = (unat lo + 2 ^ 32 * unat hi + len) mod 2 ^ 64"
proof -
  have lo: "unat lo < 2 ^ 32" using unsigned_less [of lo] by simp
  have u: "unat lo' = (unat lo + len) mod 2 ^ 32" by (simp only: lo'_def unat_of_nat) simp
  show ?thesis
  proof (cases "unat lo + len < 2 ^ 32")
    case True
    then have "unat lo' = unat lo + len" using u by simp
    then show ?thesis by (simp add: hi'_def ac_simps)
  next
    case False
    then have e: "unat lo + len = unat lo' + 2 ^ 32"
      using u lo assms(1) by (simp add: le_mod_geq)
    then have h: "hi' = hi + 1" using assms(1) by (simp add: hi'_def)
    have "unat (hi + 1) = (unat hi + 1) mod 2 ^ 32" by (simp add: unat_word_ariths)
    then have "2 ^ 32 * unat hi' mod 2 ^ 64 = 2 ^ 32 * (unat hi + 1) mod (2 ^ 64 :: nat)"
      unfolding h by (simp add: mult_mod_right)
    then have "(unat lo' + 2 ^ 32 * unat hi') mod 2 ^ 64 = (unat lo' + 2 ^ 32 * (unat hi + 1)) mod 2 ^ 64"
      by (metis mod_add_right_eq)
    also have "unat lo' + 2 ^ 32 * (unat hi + 1) = unat lo + 2 ^ 32 * unat hi + len" using e by simp
    finally show ?thesis .
  qed
qed

text \<open>Reading such a counter.\<close>

lemma counter_words:
  fixes lo hi :: "32 word"
  assumes "(unat lo + 2 ^ 32 * unat hi) mod 2 ^ 64 = n mod 2 ^ 64"
  shows "lo = ucast (word_of_nat n :: 64 word)" "hi = ucast (drop_bit 32 (word_of_nat n :: 64 word))"
    "unat lo mod 64 = n mod 64"
proof -
  have b: "unat lo < 2 ^ 32" "unat hi < 2 ^ 32" using unsigned_less [of lo] unsigned_less [of hi] by simp_all
  have "unat lo + 2 ^ 32 * unat hi < 2 ^ 64" using b by simp
  then have N: "unat (word_of_nat n :: 64 word) = unat lo + 2 ^ 32 * unat hi"
    using assms by (simp add: unat_of_nat)
  show "lo = ucast (word_of_nat n :: 64 word)"
    using N b by (simp add: word_unat_eq_iff unsigned_ucast_eq take_bit_eq_mod)
  show "hi = ucast (drop_bit 32 (word_of_nat n :: 64 word))"
    using N b by (simp add: word_unat_eq_iff unat_div unsigned_ucast_eq take_bit_eq_mod drop_bit_eq_div)
  show "unat lo mod 64 = n mod 64"
  proof -
    have "(unat lo + 2 ^ 32 * unat hi) mod 2 ^ 64 mod 64 = n mod 2 ^ 64 mod 64" using assms by (rule arg_cong)
    moreover have "x mod 2 ^ 64 mod 64 = x mod 64" for x :: nat by (rule mod_mod_cancel) simp
    moreover have "(unat lo + 64 * (67108864 * unat hi)) mod 64 = unat lo mod 64" by (rule mod_mult_self2)
    ultimately show ?thesis by simp
  qed
qed

text \<open>The padding completes one block or two.\<close>

lemma absorb_pad_one:
  assumes "length p = n mod 64" "n mod 64 < 56" "\<And>w. length (enc w) = 8"
  shows "absorb f (md_pad enc n) (s, p) =
    (f s (p @ 0x80 # replicate (55 - n mod 64) 0 @ enc (word_of_nat (8 * n))), [])"
  using absorb_fill [of p "md_pad enc n" f s] assms by (simp add: md_pad_def pad_zeros_eq)

lemma absorb_pad_two:
  assumes "length p = n mod 64" "\<not> n mod 64 < 56" "\<And>w. length (enc w) = 8"
  shows "absorb f (md_pad enc n) (s, p) =
    (f (f s (p @ 0x80 # replicate (63 - n mod 64) 0)) (replicate 56 0 @ enc (word_of_nat (8 * n))), [])"
proof -
  have l: "n mod 64 < 64" by simp
  have "pad_zeros n = (63 - n mod 64) + 56" using assms(2) l by (simp add: pad_zeros_eq)
  then have "md_pad enc n = (0x80 # replicate (63 - n mod 64) 0) @ (replicate 56 0 @ enc (word_of_nat (8 * n)))"
    unfolding md_pad_def by (simp only: replicate_add append_assoc append_Cons)
  moreover have "absorb f (0x80 # replicate (63 - n mod 64) 0) (s, p) = (f s (p @ 0x80 # replicate (63 - n mod 64) 0), [])"
    using assms(1) l by (intro absorb_fill) auto
  moreover have "absorb f (replicate 56 0 @ enc (word_of_nat (8 * n))) (s', []) =
      (f s' (replicate 56 0 @ enc (word_of_nat (8 * n))), [])" for s'
    using assms(3) by (intro absorb_block) simp
  ultimately show ?thesis by (simp only: absorb_append)
qed

lemma md_hash_absorb: "absorb f msg (iv, []) = (s, p) \<Longrightarrow>
  md_hash f enc iv msg = fst (absorb f (md_pad enc (length msg)) (s, p))"
  by (simp add: md_hash_def absorb_append)

text \<open>The buffer while it is padded.\<close>

lemma pad_buffer:
  assumes "length buf = 64"
  shows "arr_set buf (int (n mod 64)) v = Inr (pending buf n @ v # drop (n mod 64 + 1) buf)"
    "n mod 64 < 56 \<Longrightarrow> arr_fill (pending buf n @ v # drop (n mod 64 + 1) buf) (int (n mod 64) + 1) (55 - int (n mod 64)) x =
       Inr (pending buf n @ v # replicate (55 - n mod 64) x @ drop 56 buf)"
    "\<not> n mod 64 < 56 \<Longrightarrow> arr_fill (pending buf n @ v # drop (n mod 64 + 1) buf) (int (n mod 64) + 1) (63 - int (n mod 64)) x =
       Inr (pending buf n @ v # replicate (63 - n mod 64) x)"
proof -
  define c where "c = n mod 64"
  have c: "c < 64" "length (pending buf n) = c" using assms by (simp_all add: c_def length_pending)
  show "arr_set buf (int (n mod 64)) v = Inr (pending buf n @ v # drop (n mod 64 + 1) buf)"
    unfolding c_def [symmetric] using c(1) assms by (simp add: pending_def c_def upd_conv_take_nth_drop)
  have k: "nat (int c + 1) = c + 1" by simp
  show "arr_fill (pending buf n @ v # drop (n mod 64 + 1) buf) (int (n mod 64) + 1) (55 - int (n mod 64)) x =
       Inr (pending buf n @ v # replicate (55 - n mod 64) x @ drop 56 buf)" if "n mod 64 < 56"
  proof -
    have "c < 56" using that by (simp add: c_def)
    moreover from this have "nat (55 - int c) = 55 - c" "c + 1 + (55 - c) = 56" by auto
    moreover from \<open>c < 56\<close> have "drop (56 - c) (v # drop (Suc c) buf) = drop 56 buf" by (simp add: drop_Cons')
    ultimately show ?thesis unfolding c_def [symmetric] arr_fill_def k using c assms by simp
  qed
  show "arr_fill (pending buf n @ v # drop (n mod 64 + 1) buf) (int (n mod 64) + 1) (63 - int (n mod 64)) x =
       Inr (pending buf n @ v # replicate (63 - n mod 64) x)"
  proof -
    have "nat (63 - int c) = 63 - c" "c + 1 + (63 - c) = 64" "0 \<le> 63 - int c" using c(1) by auto
    then show ?thesis unfolding c_def [symmetric] arr_fill_def k using c assms by simp
  qed
qed

lemma uint_and_63: "uint (w AND 0x3f :: 32 word) = int (unat w mod 64)"
proof -
  have "w AND 0x3f = take_bit 6 w"
    using take_bit_eq_mask [of 6 w] by (simp add: mask_eq_exp_minus_1)
  then have "uint (w AND 0x3f) = uint w mod 64" by (simp only: unsigned_take_bit_eq) (simp add: take_bit_eq_mod)
  then show ?thesis by (simp add: zmod_int)
qed

section \<open>What a buffered implementation keeps\<close>

text \<open>
  \<open>inv c msg\<close>: the context \<open>c\<close> has taken in \<open>msg\<close>. The laws make any sequence of updates, whatever the
  boundaries of its chunks, end in a context for the concatenation, and its digest a function of it.
\<close>

locale streaming =
  fixes update :: "'c \<Rightarrow> 8 word list \<Rightarrow> 'c result" and final :: "'c \<Rightarrow> 'd result"
    and inv :: "'c \<Rightarrow> 8 word list \<Rightarrow> bool" and chunk :: "8 word list \<Rightarrow> bool" and digest :: "8 word list \<Rightarrow> 'd"
  assumes inv_update: "inv c msg \<Longrightarrow> chunk d \<Longrightarrow> \<exists>c'. update c d = Inr c' \<and> inv c' (msg @ d)"
    and final_inv: "inv c msg \<Longrightarrow> final c = Inr (digest msg)"
begin

lemma updates_inv:
  "inv c msg \<Longrightarrow> list_all chunk ds \<Longrightarrow>
     \<exists>c'. for_each (\<lambda>d c. update c d) ds c = Inr c' \<and> inv c' (msg @ concat ds)"
proof (induction ds arbitrary: c msg)
  case (Cons d ds)
  then obtain c1 where "update c d = Inr c1" "inv c1 (msg @ d)" using inv_update by fastforce
  then show ?case using Cons.IH [of c1 "msg @ d"] Cons.prems by simp
qed simp

lemma hash_chunks:
  assumes "inv c []" "list_all chunk ds"
  shows "and_then (for_each (\<lambda>d c. update c d) ds c) final = Inr (digest (concat ds))"
  using updates_inv [OF assms] final_inv by auto

end

end
