(* ===== verification/Md5.thy ===== *)
theory Md5
  imports HashAbsorb
begin

unbundle bit_operations_syntax

text \<open>
  MD5, libbrb_core/crypto/md5.c with the context and macros of libbrb_data.h. \<open>in\<close> is kept as its 64
  bytes, the way the \<open>memcpy\<close> calls see it; the transformation reads it as sixteen little-endian
  words, as the code does on the machines it is built for. A buffer and its length are one list. The
  64 steps of the transformation are written as a table and a step that renames the four registers
  from one \<open>MD5STEP\<close> to the next.
\<close>

section \<open>State\<close>

type_synonym md5_state = "32 word \<times> 32 word \<times> 32 word \<times> 32 word"

record md5_ctx =
  md5_buf :: md5_state
  md5_bytes0 :: "32 word"
  md5_bytes1 :: "32 word"
  md5_in :: "8 word list"
  md5_digest :: "8 word list"
  md5_string :: "8 word list"

definition BRB_MD5Init :: "md5_ctx \<Rightarrow> md5_ctx" where
  "BRB_MD5Init ctx = ctx\<lparr>md5_buf := (0x67452301, 0xefcdab89, 0x98badcfe, 0x10325476),
     md5_bytes0 := 0, md5_bytes1 := 0\<rparr>"

section \<open>The transformation\<close>

definition md5_F1 :: "32 word \<Rightarrow> 32 word \<Rightarrow> 32 word \<Rightarrow> 32 word" where
  "md5_F1 x y z = z XOR (x AND (y XOR z))"

definition md5_F2 :: "32 word \<Rightarrow> 32 word \<Rightarrow> 32 word \<Rightarrow> 32 word" where
  "md5_F2 x y z = md5_F1 z x y"

definition md5_F3 :: "32 word \<Rightarrow> 32 word \<Rightarrow> 32 word \<Rightarrow> 32 word" where
  "md5_F3 x y z = x XOR y XOR z"

definition md5_F4 :: "32 word \<Rightarrow> 32 word \<Rightarrow> 32 word \<Rightarrow> 32 word" where
  "md5_F4 x y z = y XOR (x OR NOT z)"

text \<open>\<open>MD5STEP(f, w, x, y, z, in[i] + k, s)\<close>; the next step names its registers \<open>(z, w, x, y)\<close>.\<close>

fun MD5STEP :: "(32 word \<Rightarrow> 32 word \<Rightarrow> 32 word \<Rightarrow> 32 word) \<Rightarrow> 32 word list \<Rightarrow> nat \<times> 32 word \<times> nat \<Rightarrow> md5_state \<Rightarrow> md5_state" where
  "MD5STEP f block (i, k, s) (w, x, y, z) =
     (let w = w + (f x y z + (block ! i + k)) in (z, rol32 w s + x, x, y))"

definition md5_table1 :: "(nat \<times> 32 word \<times> nat) list" where
  "md5_table1 = [
      (0, 0xd76aa478, 7), (1, 0xe8c7b756, 12), (2, 0x242070db, 17), (3, 0xc1bdceee, 22),
      (4, 0xf57c0faf, 7), (5, 0x4787c62a, 12), (6, 0xa8304613, 17), (7, 0xfd469501, 22),
      (8, 0x698098d8, 7), (9, 0x8b44f7af, 12), (10, 0xffff5bb1, 17), (11, 0x895cd7be, 22),
      (12, 0x6b901122, 7), (13, 0xfd987193, 12), (14, 0xa679438e, 17), (15, 0x49b40821, 22)]"

definition md5_table2 :: "(nat \<times> 32 word \<times> nat) list" where
  "md5_table2 = [
      (1, 0xf61e2562, 5), (6, 0xc040b340, 9), (11, 0x265e5a51, 14), (0, 0xe9b6c7aa, 20),
      (5, 0xd62f105d, 5), (10, 0x02441453, 9), (15, 0xd8a1e681, 14), (4, 0xe7d3fbc8, 20),
      (9, 0x21e1cde6, 5), (14, 0xc33707d6, 9), (3, 0xf4d50d87, 14), (8, 0x455a14ed, 20),
      (13, 0xa9e3e905, 5), (2, 0xfcefa3f8, 9), (7, 0x676f02d9, 14), (12, 0x8d2a4c8a, 20)]"

definition md5_table3 :: "(nat \<times> 32 word \<times> nat) list" where
  "md5_table3 = [
      (5, 0xfffa3942, 4), (8, 0x8771f681, 11), (11, 0x6d9d6122, 16), (14, 0xfde5380c, 23),
      (1, 0xa4beea44, 4), (4, 0x4bdecfa9, 11), (7, 0xf6bb4b60, 16), (10, 0xbebfbc70, 23),
      (13, 0x289b7ec6, 4), (0, 0xeaa127fa, 11), (3, 0xd4ef3085, 16), (6, 0x04881d05, 23),
      (9, 0xd9d4d039, 4), (12, 0xe6db99e5, 11), (15, 0x1fa27cf8, 16), (2, 0xc4ac5665, 23)]"

definition md5_table4 :: "(nat \<times> 32 word \<times> nat) list" where
  "md5_table4 = [
      (0, 0xf4292244, 6), (7, 0x432aff97, 10), (14, 0xab9423a7, 15), (5, 0xfc93a039, 21),
      (12, 0x655b59c3, 6), (3, 0x8f0ccc92, 10), (10, 0xffeff47d, 15), (1, 0x85845dd1, 21),
      (8, 0x6fa87e4f, 6), (15, 0xfe2ce6e0, 10), (6, 0xa3014314, 15), (13, 0x4e0811a1, 21),
      (4, 0xf7537e82, 6), (11, 0xbd3af235, 10), (2, 0x2ad7d2bb, 15), (9, 0xeb86d391, 21)]"

definition md5_rounds :: "32 word list \<Rightarrow> md5_state \<Rightarrow> md5_state" where
  "md5_rounds block s =
     fold (MD5STEP md5_F4 block) md5_table4 (fold (MD5STEP md5_F3 block) md5_table3
       (fold (MD5STEP md5_F2 block) md5_table2 (fold (MD5STEP md5_F1 block) md5_table1 s)))"

fun md5_add :: "md5_state \<Rightarrow> md5_state \<Rightarrow> md5_state" where
  "md5_add (b0, b1, b2, b3) (a, b, c, d) = (b0 + a, b1 + b, b2 + c, b3 + d)"

definition md5_compress :: "md5_state \<Rightarrow> 8 word list \<Rightarrow> md5_state" where
  "md5_compress buf inp = md5_add buf (md5_rounds (words_of inp) buf)"

definition BRB_MD5Transform :: "md5_ctx \<Rightarrow> md5_ctx" where
  "BRB_MD5Transform ctx = ctx\<lparr>md5_buf := md5_compress (md5_buf ctx) (md5_in ctx)\<rparr>"

section \<open>Updating\<close>

text \<open>\<open>while (len >= 64)\<close>: the rest of the data, and the context.\<close>

fun md5_blocks :: "8 word list \<Rightarrow> md5_ctx \<Rightarrow> (8 word list \<times> md5_ctx) result" where
  "md5_blocks data ctx =
     (if 64 \<le> length data then
        and_then (arr_copy (md5_in ctx) 0 (take 64 data)) (\<lambda>inp.
        md5_blocks (drop 64 data) (BRB_MD5Transform (ctx\<lparr>md5_in := inp\<rparr>)))
      else Inr (data, ctx))"

declare md5_blocks.simps [simp del]

definition BRB_MD5Update :: "md5_ctx \<Rightarrow> 8 word list \<Rightarrow> md5_ctx result" where
  "BRB_MD5Update ctx data =
     (let len = length data; t = unat (md5_bytes0 ctx);
          ctx = ctx\<lparr>md5_bytes0 := word_of_nat (t + len)\<rparr>;
          ctx = (if unat (md5_bytes0 ctx) < t then ctx\<lparr>md5_bytes1 := md5_bytes1 ctx + 1\<rparr> else ctx);
          t = 64 - (t AND 0x3f)
      in if t > len then
           and_then (arr_copy (md5_in ctx) (64 - int t) data) (\<lambda>inp. Inr (ctx\<lparr>md5_in := inp\<rparr>))
         else
           and_then (arr_copy (md5_in ctx) (64 - int t) (take t data)) (\<lambda>inp.
           and_then (md5_blocks (drop t data) (BRB_MD5Transform (ctx\<lparr>md5_in := inp\<rparr>))) (\<lambda>(rest, ctx).
           and_then (arr_copy (md5_in ctx) 0 rest) (\<lambda>inp. Inr (ctx\<lparr>md5_in := inp\<rparr>)))))"

fun BRB_MD5UpdateBig :: "md5_ctx \<Rightarrow> 8 word list \<Rightarrow> md5_ctx result" where
  "BRB_MD5UpdateBig ctx data =
     (if 65535 \<le> length data then
        and_then (BRB_MD5Update ctx (take 65535 data)) (\<lambda>ctx. BRB_MD5UpdateBig ctx (drop 65535 data))
      else if length data > 0 then BRB_MD5Update ctx data else Inr ctx)"

declare BRB_MD5UpdateBig.simps [simp del]

text \<open>\<open>char\<close> is signed, so the comparison with the letters is a signed one.\<close>

definition md5_lower :: "8 word \<Rightarrow> 8 word" where
  "md5_lower c = (if 65 \<le> sint c \<and> sint c \<le> 90 then c + 32 else c)"

definition BRB_MD5UpdateLowerText :: "md5_ctx \<Rightarrow> 8 word list \<Rightarrow> md5_ctx result" where
  "BRB_MD5UpdateLowerText ctx key =
     (if key = [] then Inr ctx else
      and_then (for_each (\<lambda>i tmp. and_then (arr_get key i) (\<lambda>c. arr_set tmp i (md5_lower c)))
        [0..int (length key) - 1] (replicate 128 0)) (\<lambda>tmp.
      BRB_MD5Update ctx (take (length key) tmp)))"

section \<open>The digest\<close>

definition hex_digit :: "nat \<Rightarrow> 8 word" where
  "hex_digit n = (if n < 10 then word_of_nat (48 + n) else word_of_nat (87 + n))"

definition hex_string :: "8 word list \<Rightarrow> 8 word list" where
  "hex_string bs = concat (map (\<lambda>b. [hex_digit (unat b div 16), hex_digit (unat b mod 16)]) bs)"

text \<open>\<open>sprintf\<close> of sixteen \<open>%02x\<close> and the terminator, into \<open>ret_buf_str\<close>.\<close>

definition BRB_MD5ToStr :: "8 word list \<Rightarrow> 8 word list \<Rightarrow> 8 word list result" where
  "BRB_MD5ToStr bin_digest ret_buf_str =
     (if 16 \<le> length bin_digest then arr_copy ret_buf_str 0 (hex_string (take 16 bin_digest) @ [0])
      else Inl OutOfBounds)"

definition BRB_MD5LateInitDigestString :: "md5_ctx \<Rightarrow> md5_ctx result" where
  "BRB_MD5LateInitDigestString ret =
     (if 16 \<le> length (md5_digest ret) then
        and_then (arr_copy (md5_string ret) 0 (hex_string (take 16 (md5_digest ret)) @ [0])) (\<lambda>str.
        Inr (ret\<lparr>md5_string := str\<rparr>))
      else Inl OutOfBounds)"

definition md5_out :: "md5_state \<Rightarrow> 8 word list" where
  "md5_out buf = (case buf of (a, b, c, d) \<Rightarrow> bytes_of [a, b, c, d])"

text \<open>\<open>BRB_MD5Final\<close>: padding to 56 bytes of a block, then the length, the last block, the digest.\<close>

definition md5_pad :: "md5_ctx \<Rightarrow> md5_ctx result" where
  "md5_pad ctx =
     (let count = uint (md5_bytes0 ctx AND 0x3f); p = count + 1 in
      and_then (arr_set (md5_in ctx) count 0x80) (\<lambda>inp.
      if 56 - 1 - count < 0 then
        and_then (arr_fill inp p (56 - 1 - count + 8) 0) (\<lambda>inp.
        let ctx = BRB_MD5Transform (ctx\<lparr>md5_in := inp\<rparr>) in
        and_then (arr_fill (md5_in ctx) 0 56 0) (\<lambda>inp. Inr (ctx\<lparr>md5_in := inp\<rparr>)))
      else and_then (arr_fill inp p (56 - 1 - count) 0) (\<lambda>inp. Inr (ctx\<lparr>md5_in := inp\<rparr>))))"

definition md5_finish :: "md5_ctx \<Rightarrow> md5_ctx result" where
  "md5_finish ctx =
     and_then (arr_copy (md5_in ctx) 56 (le_bytes (push_bit 3 (md5_bytes0 ctx)))) (\<lambda>inp.
     and_then (arr_copy inp 60 (le_bytes (push_bit 3 (md5_bytes1 ctx) OR drop_bit 29 (md5_bytes0 ctx)))) (\<lambda>inp.
     let ctx = BRB_MD5Transform (ctx\<lparr>md5_in := inp\<rparr>) in
     BRB_MD5LateInitDigestString (ctx\<lparr>md5_digest := md5_out (md5_buf ctx)\<rparr>)))"

definition BRB_MD5Final :: "md5_ctx \<Rightarrow> md5_ctx result" where
  "BRB_MD5Final ctx = and_then (md5_pad ctx) md5_finish"

section \<open>The context as a buffered message\<close>

definition md5_iv :: md5_state where
  "md5_iv = (0x67452301, 0xefcdab89, 0x98badcfe, 0x10325476)"

definition md5_ok :: "md5_ctx \<Rightarrow> 8 word list \<Rightarrow> bool" where
  "md5_ok ctx msg \<longleftrightarrow> length (md5_in ctx) = 64 \<and> length (md5_digest ctx) = 16 \<and> length (md5_string ctx) = 64 \<and>
     absorb md5_compress msg (md5_iv, []) = (md5_buf ctx, pending (md5_in ctx) (length msg)) \<and>
     (unat (md5_bytes0 ctx) + 2 ^ 32 * unat (md5_bytes1 ctx)) mod 2 ^ 64 = length msg mod 2 ^ 64"

definition md5_padded_length :: "64 word \<Rightarrow> 8 word list" where
  "md5_padded_length = le64"

lemma and_63_nat: "(n::nat) AND 63 = n mod 64"
  using take_bit_eq_mask [of 6 n] by (simp add: take_bit_eq_mod mask_eq_exp_minus_1)

text \<open>What a block of the message leaves alone.\<close>

definition md5_frame :: "md5_ctx \<Rightarrow> 32 word \<times> 32 word \<times> 8 word list \<times> 8 word list" where
  "md5_frame ctx = (md5_bytes0 ctx, md5_bytes1 ctx, md5_digest ctx, md5_string ctx)"

lemma md5_blocks_spec:
  assumes "length (md5_in ctx) = 64"
  shows "\<exists>ctx' rest. md5_blocks data ctx = Inr (rest, ctx') \<and> length rest < 64 \<and> length (md5_in ctx') = 64 \<and>
     length rest mod 64 = length data mod 64 \<and>
     absorb md5_compress data (md5_buf ctx, []) = (md5_buf ctx', rest) \<and>
     md5_frame ctx' = md5_frame ctx"
  using assms
proof (induction data ctx rule: md5_blocks.induct)
  case (1 data ctx)
  show ?case
  proof (cases "64 \<le> length data")
    case True
    then have c: "arr_copy (md5_in ctx) 0 (take 64 data) = Inr (take 64 data)"
      using "1.prems" by (simp add: arr_copy_def)
    define ctx1 where "ctx1 = BRB_MD5Transform (ctx\<lparr>md5_in := take 64 data\<rparr>)"
    have b: "md5_buf ctx1 = md5_compress (md5_buf ctx) (take 64 data)" "length (md5_in ctx1) = 64"
      "md5_frame ctx1 = md5_frame ctx"
      using True by (simp_all add: ctx1_def BRB_MD5Transform_def md5_frame_def)
    have "absorb md5_compress data (md5_buf ctx, []) = absorb md5_compress (drop 64 data) (md5_buf ctx1, [])"
      using absorb_append [of md5_compress "take 64 data" "drop 64 data"] True by (simp add: absorb_block b(1))
    moreover have "length (drop 64 data) mod 64 = length data mod 64"
      using True by (simp add: le_mod_geq)
    moreover note "1.IH" [OF True c, folded ctx1_def, OF b(2)]
    ultimately show ?thesis
      using True c b(3) by (subst md5_blocks.simps) (auto simp flip: ctx1_def)
  next
    case False
    then show ?thesis using "1.prems" by (subst md5_blocks.simps) (simp add: absorb_short)
  qed
qed

lemma md5_update_ok:
  assumes ok: "md5_ok ctx msg" and len: "length d < 2 ^ 32"
  shows "\<exists>ctx'. BRB_MD5Update ctx d = Inr ctx' \<and> md5_ok ctx' (msg @ d)"
proof -
  define t where "t = unat (md5_bytes0 ctx)"
  define c1 where "c1 = ctx\<lparr>md5_bytes0 := word_of_nat (t + length d)\<rparr>"
  define c2 where "c2 = (if unat (md5_bytes0 c1) < t then c1\<lparr>md5_bytes1 := md5_bytes1 c1 + 1\<rparr> else c1)"
  have c2: "md5_buf c2 = md5_buf ctx" "md5_in c2 = md5_in ctx" "md5_digest c2 = md5_digest ctx"
    "md5_string c2 = md5_string ctx" by (simp_all add: c2_def c1_def)
  have b01: "md5_bytes0 c2 = word_of_nat (unat (md5_bytes0 ctx) + length d)"
    "md5_bytes1 c2 = (if unat (word_of_nat (unat (md5_bytes0 ctx) + length d) :: 32 word) < unat (md5_bytes0 ctx)
       then md5_bytes1 ctx + 1 else md5_bytes1 ctx)"
    by (simp_all add: c2_def c1_def t_def)
  note o = ok [unfolded md5_ok_def]
  have "(unat (md5_bytes0 c2) + 2 ^ 32 * unat (md5_bytes1 c2)) mod 2 ^ 64 =
      (unat (md5_bytes0 ctx) + 2 ^ 32 * unat (md5_bytes1 ctx) + length d) mod 2 ^ 64"
    unfolding b01 by (rule carry_add [OF len])
  also have "\<dots> = (length msg + length d) mod 2 ^ 64"
    using o by (metis mod_add_left_eq)
  finally have cnt: "(unat (md5_bytes0 c2) + 2 ^ 32 * unat (md5_bytes1 c2)) mod 2 ^ 64 = length (msg @ d) mod 2 ^ 64"
    by simp
  define n where "n = length msg"
  have n64: "n mod 64 < 64" by simp
  have "unat (md5_bytes0 ctx) mod 64 = n mod 64"
    unfolding n_def by (rule counter_words(3)) (use o in blast)
  then have t64: "64 - (t AND 63) = 64 - n mod 64" by (simp add: t_def and_63_nat)
  have off: "64 - int (64 - n mod 64) = int (n mod 64)" using n64 by linarith
  have unfold: "BRB_MD5Update ctx d =
    (if length d < 64 - n mod 64 then
       and_then (arr_copy (md5_in c2) (int (n mod 64)) d) (\<lambda>inp. Inr (c2\<lparr>md5_in := inp\<rparr>))
     else
       and_then (arr_copy (md5_in c2) (int (n mod 64)) (take (64 - n mod 64) d)) (\<lambda>inp.
       and_then (md5_blocks (drop (64 - n mod 64) d) (BRB_MD5Transform (c2\<lparr>md5_in := inp\<rparr>))) (\<lambda>(rest, ctx).
       and_then (arr_copy (md5_in ctx) 0 rest) (\<lambda>inp. Inr (ctx\<lparr>md5_in := inp\<rparr>)))))"
    by (simp only: BRB_MD5Update_def Let_def t64 off c1_def c2_def t_def [symmetric])
  have start: "absorb md5_compress (msg @ d) (md5_iv, []) = absorb md5_compress d (md5_buf ctx, pending (md5_in ctx) n)"
    using o by (simp add: absorb_append n_def)
  have lb: "length (md5_in ctx) = 64" using o by blast
  show ?thesis
  proof (cases "n mod 64 + length d < 64")
    case True
    note p = pending_short [OF lb True]
    define c3 where "c3 = c2\<lparr>md5_in := take (n mod 64) (md5_in ctx) @ d @ drop (n mod 64 + length d) (md5_in ctx)\<rparr>"
    have "BRB_MD5Update ctx d = Inr c3" unfolding unfold c3_def using True o p(1) c2 by (simp add: less_diff_conv add.commute)
    moreover have "md5_ok c3 (msg @ d)"
      using p True o cnt c2 start unfolding md5_ok_def c3_def n_def by auto
    ultimately show ?thesis by blast
  next
    case False
    then have F: "64 \<le> n mod 64 + length d" by simp
    note p = pending_fill [OF lb F]
    define blk where "blk = pending (md5_in ctx) n @ take (64 - n mod 64) d"
    define r where "r = drop (64 - n mod 64) d"
    define c3 where "c3 = BRB_MD5Transform (c2\<lparr>md5_in := blk\<rparr>)"
    have c3: "md5_buf c3 = md5_compress (md5_buf ctx) blk" "length (md5_in c3) = 64" "md5_frame c3 = md5_frame c2"
      using p(3) o c2 by (simp_all add: c3_def BRB_MD5Transform_def md5_frame_def blk_def)
    obtain c4 rest where b: "md5_blocks r c3 = Inr (rest, c4)" "length rest < 64" "length (md5_in c4) = 64"
      "length rest mod 64 = length r mod 64" "absorb md5_compress r (md5_buf c3, []) = (md5_buf c4, rest)"
      "md5_frame c4 = md5_frame c3"
      using md5_blocks_spec [OF c3(2), of r] by blast
    have "length (msg @ d) mod 64 = length r mod 64"
    proof -
      have "n + length d = 64 * Suc (n div 64) + length r"
        using F n64 mult_div_mod_eq [of 64 n] by (simp add: r_def)
      then have "(n + length d) mod 64 = length r mod 64" by (simp only: mod_mult_self4)
      then show ?thesis by (simp add: n_def)
    qed
    then have m: "length (msg @ d) mod 64 = length rest" using b(2,4) by simp
    note q = pending_rest [OF b(3,2) m]
    define c5 where "c5 = c4\<lparr>md5_in := rest @ drop (length rest) (md5_in c4)\<rparr>"
    have "BRB_MD5Update ctx d = Inr c5"
      unfolding unfold c5_def using F n64 p(1) o c2 b(1) q(1) by (auto simp flip: blk_def r_def c3_def)
    moreover have "absorb md5_compress (msg @ d) (md5_iv, []) = (md5_buf c4, rest)"
      using start p(2) [of md5_compress "md5_buf ctx"] b(5) c3(1) by (simp flip: blk_def r_def)
    then have "md5_ok c5 (msg @ d)"
      using q b(6) c3(3) o c2 cnt unfolding md5_ok_def c5_def by (auto simp: md5_frame_def)
    ultimately show ?thesis by blast
  qed
qed

lemma md5_length_bytes:
  fixes lo hi :: "32 word"
  assumes "(unat lo + 2 ^ 32 * unat hi) mod 2 ^ 64 = n mod 2 ^ 64"
  shows "le_bytes (push_bit 3 lo) @ le_bytes (push_bit 3 hi OR drop_bit 29 lo) = le64 (word_of_nat (8 * n))"
proof -
  define N :: "64 word" where "N = word_of_nat n"
  note c = counter_words(1,2) [OF assms, folded N_def]
  have "word_of_nat (8 * n) = push_bit 3 N" by (simp add: N_def push_bit_eq_mult)
  moreover have "ucast (push_bit 3 N) = (push_bit 3 (ucast N) :: 32 word)"
    by (rule bit_word_eqI) (auto simp: bit_simps)
  moreover have "ucast (drop_bit 32 (push_bit 3 N)) =
      (push_bit 3 (ucast (drop_bit 32 N)) OR drop_bit 29 (ucast N) :: 32 word)"
    by (rule bit_word_eqI) (auto simp: bit_simps le_diff_conv add.commute not_le)
  ultimately show ?thesis unfolding le64_def c by simp
qed

definition md5_digest_of :: "8 word list \<Rightarrow> 8 word list" where
  "md5_digest_of msg = md5_out (md_hash md5_compress le64 md5_iv msg)"

lemma length_hex_string: "length (hex_string bs) = 2 * length bs"
  by (induction bs) (simp_all add: hex_string_def)

lemma length_md5_out: "length (md5_out s) = 16"
  by (cases s) (simp add: md5_out_def)

lemma md5_late_ok:
  assumes "length (md5_string ctx) = 64"
  shows "BRB_MD5LateInitDigestString (ctx\<lparr>md5_digest := md5_out s\<rparr>) =
    Inr (ctx\<lparr>md5_digest := md5_out s,
      md5_string := hex_string (md5_out s) @ 0 # drop 33 (md5_string ctx)\<rparr>)"
  using assms by (simp add: BRB_MD5LateInitDigestString_def arr_copy_def length_hex_string length_md5_out)

lemma md5_finish_ok:
  assumes "length (md5_in c) = 64" "length (md5_string c) = 64"
    "(unat (md5_bytes0 c) + 2 ^ 32 * unat (md5_bytes1 c)) mod 2 ^ 64 = length msg mod 2 ^ 64"
    "md5_compress (md5_buf c) (take 56 (md5_in c) @ le64 (word_of_nat (8 * length msg))) = md_hash md5_compress le64 md5_iv msg"
  shows "\<exists>c'. md5_finish c = Inr c' \<and> md5_digest c' = md5_digest_of msg \<and>
    take 33 (md5_string c') = hex_string (md5_digest_of msg) @ [0]"
proof -
  have "take 56 (md5_in c) @ le_bytes (push_bit 3 (md5_bytes0 c)) @
      le_bytes (push_bit 3 (md5_bytes1 c) OR drop_bit 29 (md5_bytes0 c)) =
      take 56 (md5_in c) @ le64 (word_of_nat (8 * length msg))"
    by (simp only: md5_length_bytes [OF assms(3)])
  then show ?thesis
    using assms(1,2,4) unfolding md5_digest_of_def md5_finish_def
    by (simp add: arr_copy_def BRB_MD5Transform_def Let_def md5_late_ok length_hex_string length_md5_out)
qed

text \<open>After the padding the last block lacks the length only.\<close>

lemma md5_pad_ok:
  assumes ok: "md5_ok ctx msg"
  shows "\<exists>c. md5_pad ctx = Inr c \<and> length (md5_in c) = 64 \<and> md5_frame c = md5_frame ctx \<and>
    md5_compress (md5_buf c) (take 56 (md5_in c) @ le64 (word_of_nat (8 * length msg))) = md_hash md5_compress le64 md5_iv msg"
proof -
  define n where "n = length msg"
  note o = ok [unfolded md5_ok_def, folded n_def]
  have n64: "n mod 64 < 64" by simp
  have "unat (md5_bytes0 ctx) mod 64 = n mod 64"
    by (rule counter_words(3)) (use o in blast)
  then have count: "uint (md5_bytes0 ctx AND 0x3f) = int (n mod 64)"
    by (simp only: uint_and_63)
  have lb: "length (md5_in ctx) = 64" using o by blast
  have lp: "length (pending (md5_in ctx) n) = n mod 64" using lb by (rule length_pending)
  note pb = pad_buffer [OF lb]
  have e8: "length (le64 w) = 8" for w by (simp add: le64_def)
  have h: "md_hash md5_compress le64 md5_iv msg = fst (absorb md5_compress (md_pad le64 n) (md5_buf ctx, pending (md5_in ctx) n))"
    unfolding n_def by (rule md_hash_absorb) (use o in \<open>simp add: n_def\<close>)
  show ?thesis
  proof (cases "n mod 64 < 56")
    case True
    define inp where "inp = pending (md5_in ctx) n @ 0x80 # replicate (55 - n mod 64) 0 @ drop 56 (md5_in ctx)"
    have "md5_pad ctx = Inr (ctx\<lparr>md5_in := inp\<rparr>)"
      unfolding md5_pad_def count Let_def pb(1) inp_def using True pb(2) [OF True] by simp
    moreover have "take 56 inp = pending (md5_in ctx) n @ 0x80 # replicate (55 - n mod 64) 0" "length inp = 64"
      using lp lb True by (simp_all add: inp_def take_Cons')
    ultimately show ?thesis
      unfolding n_def [symmetric] h absorb_pad_one [OF lp True e8] by (simp add: md5_frame_def)
  next
    case False
    define inp where "inp = pending (md5_in ctx) n @ 0x80 # replicate (63 - n mod 64) (0 :: 8 word)"
    define c1 where "c1 = BRB_MD5Transform (ctx\<lparr>md5_in := inp\<rparr>)"
    have c1: "md5_in c1 = inp" "md5_buf c1 = md5_compress (md5_buf ctx) inp" "md5_frame c1 = md5_frame ctx"
      by (simp_all add: c1_def BRB_MD5Transform_def md5_frame_def)
    have l: "length inp = 64" using lp n64 by (simp add: inp_def)
    then have "arr_fill inp 0 56 0 = Inr (replicate 56 0 @ drop 56 inp)" by (simp add: arr_fill_def)
    then have "md5_pad ctx = Inr (c1\<lparr>md5_in := replicate 56 0 @ drop 56 inp\<rparr>)"
      unfolding md5_pad_def count Let_def pb(1) using False pb(3) [OF False, of "0x80" 0, folded inp_def]
      by (simp add: c1(1) flip: c1_def)
    then show ?thesis
      unfolding n_def [symmetric] h absorb_pad_two [OF lp False e8] using l c1 by (simp add: md5_frame_def inp_def)
  qed
qed

lemma md5_final_ok:
  assumes ok: "md5_ok ctx msg"
  shows "\<exists>ctx'. BRB_MD5Final ctx = Inr ctx' \<and> md5_digest ctx' = md5_digest_of msg \<and>
    take 33 (md5_string ctx') = hex_string (md5_digest_of msg) @ [0]"
proof -
  obtain c where c: "md5_pad ctx = Inr c" "length (md5_in c) = 64" "md5_frame c = md5_frame ctx"
    "md5_compress (md5_buf c) (take 56 (md5_in c) @ le64 (word_of_nat (8 * length msg))) = md_hash md5_compress le64 md5_iv msg"
    using md5_pad_ok [OF ok] by blast
  have "\<exists>c'. md5_finish c = Inr c' \<and> md5_digest c' = md5_digest_of msg \<and>
    take 33 (md5_string c') = hex_string (md5_digest_of msg) @ [0]"
    using c ok by (intro md5_finish_ok) (auto simp: md5_ok_def md5_frame_def)
  then show ?thesis by (simp add: BRB_MD5Final_def c(1))
qed

section \<open>MD5 of a message in chunks\<close>

definition md5_result :: "md5_ctx \<Rightarrow> (8 word list \<times> 8 word list) result" where
  "md5_result ctx = and_then (BRB_MD5Final ctx) (\<lambda>ctx. Inr (md5_digest ctx, take 33 (md5_string ctx)))"

interpretation md5: streaming BRB_MD5Update md5_result md5_ok "\<lambda>d. length d < 2 ^ 32"
    "\<lambda>msg. (md5_digest_of msg, hex_string (md5_digest_of msg) @ [0])"
proof unfold_locales
  fix c msg assume "md5_ok c msg"
  from md5_final_ok [OF this]
  show "md5_result c = Inr (md5_digest_of msg, hex_string (md5_digest_of msg) @ [0])"
    by (auto simp: md5_result_def)
qed (rule md5_update_ok)

lemma md5_init_ok:
  "length (md5_in c) = 64 \<Longrightarrow> length (md5_digest c) = 16 \<Longrightarrow> length (md5_string c) = 64 \<Longrightarrow> md5_ok (BRB_MD5Init c) []"
  by (simp add: md5_ok_def BRB_MD5Init_def md5_iv_def pending_def)

lemma md5_update_big_ok:
  "md5_ok c msg \<Longrightarrow> \<exists>c'. BRB_MD5UpdateBig c d = Inr c' \<and> md5_ok c' (msg @ d)"
proof (induction c d arbitrary: msg rule: BRB_MD5UpdateBig.induct)
  case (1 c d)
  show ?case
  proof (cases "65535 \<le> length d")
    case True
    obtain c1 where c1: "BRB_MD5Update c (take 65535 d) = Inr c1" "md5_ok c1 (msg @ take 65535 d)"
      using md5_update_ok [OF "1.prems", of "take 65535 d"] by (auto simp: min_less_iff_disj)
    from "1.IH" [OF True c1] show ?thesis
      using True c1(1) by (subst BRB_MD5UpdateBig.simps) simp
  next
    case False
    then show ?thesis
      using md5_update_ok [OF "1.prems", of d] "1.prems" by (subst BRB_MD5UpdateBig.simps) auto
  qed
qed

text \<open>The loop that lowers the text fills the first bytes of the temporary buffer in order.\<close>

lemma md5_lower_loop:
  "n \<le> length key \<Longrightarrow> n \<le> 128 \<Longrightarrow>
   for_each (\<lambda>i tmp. and_then (arr_get key i) (\<lambda>c. arr_set tmp i (md5_lower c))) [0..int n - 1] (replicate 128 0) =
     Inr (map md5_lower (take n key) @ replicate (128 - n) 0)"
proof (induction n)
  case (Suc n)
  have "[0..int (Suc n) - 1] = [0..int n - 1] @ [int n]"
    using upto_rec2 [of 0 "int n"] by simp
  moreover have "replicate (128 - n) (0 :: 8 word) = 0 # replicate (128 - Suc n) 0"
    using Suc.prems by (metis Suc_diff_Suc Suc_le_lessD replicate_Suc)
  ultimately show ?case
    using Suc by (simp add: for_each_append arr_get_def arr_set_def list_update_append take_Suc_conv_app_nth)
qed simp

lemma md5_lower_ok:
  assumes "md5_ok c msg" "length key \<le> 128"
  shows "\<exists>c'. BRB_MD5UpdateLowerText c key = Inr c' \<and> md5_ok c' (msg @ map md5_lower key)"
proof (cases "key = []")
  case False
  then show ?thesis
    using md5_lower_loop [of "length key" key] md5_update_ok [OF assms(1), of "map md5_lower key"] assms(2)
    by (simp add: BRB_MD5UpdateLowerText_def)
qed (use assms in \<open>simp add: BRB_MD5UpdateLowerText_def\<close>)

lemma md5_lower_overflow:
  assumes "128 < length key"
  shows "BRB_MD5UpdateLowerText c key = Inl OutOfBounds"
proof -
  have "[0..int (length key) - 1] = [0..int 128 - 1] @ int 128 # [129..int (length key) - 1]"
    using assms upto_split3 [of 0 128 "int (length key) - 1"] by simp
  then show ?thesis
    using md5_lower_loop [of 128 key] assms
    by (auto simp: BRB_MD5UpdateLowerText_def for_each_append arr_get_def arr_set_def)
qed

text \<open>
  C13: MD5. Whatever the chunks a message is fed in, each shorter than 4 GiB, the updates and the
  finalisation never leave the context's arrays, and leave the digest of the Merkle-Damgard
  construction over the code's compression function on the whole message, and its 32 lower-case hex
  digits with a terminator.
\<close>

theorem md5_chunks:
  assumes "length (md5_in c) = 64" "length (md5_digest c) = 16" "length (md5_string c) = 64"
    "list_all (\<lambda>d. length d < 2 ^ 32) ds"
  shows "and_then (for_each (\<lambda>d c. BRB_MD5Update c d) ds (BRB_MD5Init c)) md5_result =
    Inr (md5_digest_of (concat ds), hex_string (md5_digest_of (concat ds)) @ [0])"
  by (rule md5.hash_chunks [OF md5_init_ok]) (use assms in simp_all)

definition md5_blank :: md5_ctx where
  "md5_blank = \<lparr>md5_buf = (0, 0, 0, 0), md5_bytes0 = 0, md5_bytes1 = 0, md5_in = replicate 64 7,
     md5_digest = replicate 16 0, md5_string = replicate 64 1\<rparr>"

theorem md5_chunks_witness:
  "and_then (for_each (\<lambda>d c. BRB_MD5Update c d) [[0x61], [0x62, 0x63]] (BRB_MD5Init md5_blank)) md5_result =
    Inr (md5_digest_of (concat [[0x61], [0x62, 0x63]]), hex_string (md5_digest_of (concat [[0x61], [0x62, 0x63]])) @ [0])
   \<and> hex_string (md5_digest_of (concat [[0x61], [0x62, 0x63]])) = map of_char ''900150983cd24fb0d6963f7d28e17f72''"
proof
  show "and_then (for_each (\<lambda>d c. BRB_MD5Update c d) [[0x61], [0x62, 0x63]] (BRB_MD5Init md5_blank)) md5_result =
    Inr (md5_digest_of (concat [[0x61], [0x62, 0x63]]), hex_string (md5_digest_of (concat [[0x61], [0x62, 0x63]])) @ [0])"
    by (rule md5_chunks) (simp_all add: md5_blank_def)
  show "hex_string (md5_digest_of (concat [[0x61], [0x62, 0x63]])) = map of_char ''900150983cd24fb0d6963f7d28e17f72''"
    by code_simp
qed

text \<open>
  The other updates. \<open>BRB_MD5UpdateBig\<close> takes in data of any length like one update;
  \<open>BRB_MD5UpdateLowerText\<close> takes in the text with its ASCII capitals lowered as long as it has at most
  128 bytes, and overruns its stack buffer beyond that.
\<close>

theorem md5_update_variants:
  assumes "md5_ok c msg"
  shows "(\<exists>c'. BRB_MD5UpdateBig c d = Inr c' \<and> md5_ok c' (msg @ d)) \<and>
    (if length key \<le> 128 then \<exists>c'. BRB_MD5UpdateLowerText c key = Inr c' \<and> md5_ok c' (msg @ map md5_lower key)
     else BRB_MD5UpdateLowerText c key = Inl OutOfBounds)"
  using md5_update_big_ok [OF assms] md5_lower_ok [OF assms] md5_lower_overflow by simp

theorem md5_update_variants_witness:
  "(\<exists>c'. BRB_MD5UpdateBig (BRB_MD5Init md5_blank) [1, 2] = Inr c' \<and> md5_ok c' ([] @ [1, 2])) \<and>
    (if length [0x41, 0x62 :: 8 word] \<le> 128
     then \<exists>c'. BRB_MD5UpdateLowerText (BRB_MD5Init md5_blank) [0x41, 0x62] = Inr c' \<and> md5_ok c' ([] @ map md5_lower [0x41, 0x62])
     else BRB_MD5UpdateLowerText (BRB_MD5Init md5_blank) [0x41, 0x62] = Inl OutOfBounds)
   \<and> map md5_lower [0x41, 0x62] = [0x61, 0x62]"
  using md5_update_variants [OF md5_init_ok, of md5_blank "[1, 2]" "[0x41, 0x62]"]
  by (simp add: md5_blank_def md5_lower_def)

end
