(* ===== verification/Sha1.thy ===== *)
theory Sha1
  imports HashAbsorb
begin

unbundle bit_operations_syntax

text \<open>
  SHA-1, libbrb_core/crypto/sha1.c, as it is built: on a little-endian machine and without
  \<open>SHA1HANDSOFF\<close>, which no file of the repository defines. The transformation then works in place: it
  expands the message schedule in the very buffer it is handed, so it returns that buffer too, and
  \<open>BrbSha1_Update\<close> returns the caller's data next to the context. A buffer and its length are one list.
  The 80 unrolled calls of the round macros are folds over the step index, with the renaming of the
  five registers from one call to the next.
\<close>

section \<open>State\<close>

type_synonym sha1_state = "32 word \<times> 32 word \<times> 32 word \<times> 32 word \<times> 32 word"

record sha1_ctx =
  sha1_st :: sha1_state
  sha1_count0 :: "32 word"
  sha1_count1 :: "32 word"
  sha1_buffer :: "8 word list"

definition sha1_iv :: sha1_state where
  "sha1_iv = (0x67452301, 0xEFCDAB89, 0x98BADCFE, 0x10325476, 0xC3D2E1F0)"

definition BrbSha1_Init :: "sha1_ctx \<Rightarrow> sha1_ctx" where
  "BrbSha1_Init context = context\<lparr>sha1_st := sha1_iv, sha1_count0 := 0, sha1_count1 := 0\<rparr>"

section \<open>The transformation\<close>

definition sha1_blk0 :: "nat \<Rightarrow> 32 word list \<Rightarrow> 32 word list" where
  "sha1_blk0 i l = l[i := (rol32 (l ! i) 24 AND 0xFF00FF00) OR (rol32 (l ! i) 8 AND 0x00FF00FF)]"

definition sha1_blk :: "nat \<Rightarrow> 32 word list \<Rightarrow> 32 word list" where
  "sha1_blk i l = l[i mod 16 := rol32 (l ! ((i + 13) mod 16) XOR l ! ((i + 8) mod 16)
     XOR l ! ((i + 2) mod 16) XOR l ! (i mod 16)) 1]"

definition sha1_f0 :: "32 word \<Rightarrow> 32 word \<Rightarrow> 32 word \<Rightarrow> 32 word" where
  "sha1_f0 w x y = (w AND (x XOR y)) XOR y"

definition sha1_f2 :: "32 word \<Rightarrow> 32 word \<Rightarrow> 32 word \<Rightarrow> 32 word" where
  "sha1_f2 w x y = w XOR x XOR y"

definition sha1_f3 :: "32 word \<Rightarrow> 32 word \<Rightarrow> 32 word \<Rightarrow> 32 word" where
  "sha1_f3 w x y = ((w OR x) AND y) OR (w AND x)"

text \<open>
  \<open>R(v, w, x, y, z, i)\<close> for a round function and constant; the next call names its registers
  \<open>(z, v, w, x, y)\<close>.
\<close>

fun sha1_rotate :: "(32 word \<Rightarrow> 32 word \<Rightarrow> 32 word \<Rightarrow> 32 word) \<Rightarrow> 32 word \<Rightarrow> 32 word \<Rightarrow> sha1_state \<Rightarrow> sha1_state" where
  "sha1_rotate f k b (v, w, x, y, z) = (z + (f w x y + b + k + rol32 v 5), v, rol32 w 30, x, y)"

fun sha1_with :: "(32 word \<Rightarrow> 32 word \<Rightarrow> 32 word \<Rightarrow> 32 word) \<Rightarrow> 32 word \<Rightarrow> nat \<Rightarrow> sha1_state \<Rightarrow> 32 word list \<Rightarrow>
    32 word list \<times> sha1_state" where
  "sha1_with f k i s l = (l, sha1_rotate f k (l ! (i mod 16)) s)"

fun sha1_R0 :: "nat \<Rightarrow> 32 word list \<times> sha1_state \<Rightarrow> 32 word list \<times> sha1_state" where
  "sha1_R0 i (l, s) = sha1_with sha1_f0 0x5A827999 i s (sha1_blk0 i l)"

fun sha1_R1 :: "nat \<Rightarrow> 32 word list \<times> sha1_state \<Rightarrow> 32 word list \<times> sha1_state" where
  "sha1_R1 i (l, s) = sha1_with sha1_f0 0x5A827999 i s (sha1_blk i l)"

fun sha1_R2 :: "nat \<Rightarrow> 32 word list \<times> sha1_state \<Rightarrow> 32 word list \<times> sha1_state" where
  "sha1_R2 i (l, s) = sha1_with sha1_f2 0x6ED9EBA1 i s (sha1_blk i l)"

fun sha1_R3 :: "nat \<Rightarrow> 32 word list \<times> sha1_state \<Rightarrow> 32 word list \<times> sha1_state" where
  "sha1_R3 i (l, s) = sha1_with sha1_f3 0x8F1BBCDC i s (sha1_blk i l)"

fun sha1_R4 :: "nat \<Rightarrow> 32 word list \<times> sha1_state \<Rightarrow> 32 word list \<times> sha1_state" where
  "sha1_R4 i (l, s) = sha1_with sha1_f2 0xCA62C1D6 i s (sha1_blk i l)"

definition sha1_rounds :: "32 word list \<times> sha1_state \<Rightarrow> 32 word list \<times> sha1_state" where
  "sha1_rounds ls = fold sha1_R4 [60..<80] (fold sha1_R3 [40..<60] (fold sha1_R2 [20..<40]
     (fold sha1_R1 [16..<20] (fold sha1_R0 [0..<16] ls))))"

fun sha1_add :: "sha1_state \<Rightarrow> 32 word list \<times> sha1_state \<Rightarrow> sha1_state \<times> 8 word list" where
  "sha1_add (s0, s1, s2, s3, s4) (l, (a, b, c, d, e)) = ((s0 + a, s1 + b, s2 + c, s3 + d, s4 + e), bytes_of l)"

definition BrbSha1_Transform :: "sha1_state \<Rightarrow> 8 word list \<Rightarrow> sha1_state \<times> 8 word list" where
  "BrbSha1_Transform state buffer = sha1_add state (sha1_rounds (words_of buffer, state))"

lemma sha1_strict [code]:
  "sha1_rotate f k b (v, w, x, y, z) = (strict (z + (f w x y + b + k + rol32 v 5)), v, rol32 w 30, x, y)"
  "sha1_blk0 i l = l[i := strict ((rol32 (l ! i) 24 AND 0xFF00FF00) OR (rol32 (l ! i) 8 AND 0x00FF00FF))]"
  by (simp_all add: strict_def sha1_blk0_def)

section \<open>Updating\<close>

text \<open>\<open>for ( ; i + 63 < len; i += 64)\<close> on the data from \<open>i\<close> on: overwritten blocks, rest, state.\<close>

fun sha1_blocks :: "8 word list \<Rightarrow> sha1_state \<Rightarrow> 8 word list \<times> 8 word list \<times> sha1_state" where
  "sha1_blocks data state =
     (if 63 < length data then
        (case BrbSha1_Transform state (take 64 data) of (state, block) \<Rightarrow>
         case sha1_blocks (drop 64 data) state of (blocks, rest, state) \<Rightarrow> (block @ blocks, rest, state))
      else ([], data, state))"

declare sha1_blocks.simps [simp del]

definition BrbSha1_Update :: "sha1_ctx \<Rightarrow> 8 word list \<Rightarrow> (sha1_ctx \<times> 8 word list) result" where
  "BrbSha1_Update context data =
     (let len = length data; j = unat (drop_bit 3 (sha1_count0 context)) AND 63;
          context = context\<lparr>sha1_count0 := word_of_nat (unat (sha1_count0 context) + 8 * len)\<rparr>;
          context = (if unat (sha1_count0 context) < 8 * len
                     then context\<lparr>sha1_count1 := sha1_count1 context + 1\<rparr> else context);
          context = context\<lparr>sha1_count1 := sha1_count1 context + word_of_nat (drop_bit 29 len)\<rparr>
      in if j + len > 63 then
           and_then (arr_copy (sha1_buffer context) (int j) (take (64 - j) data)) (\<lambda>buffer.
           case BrbSha1_Transform (sha1_st context) buffer of (state, buffer) \<Rightarrow>
           case sha1_blocks (drop (64 - j) data) state of (blocks, rest, state) \<Rightarrow>
           and_then (arr_copy buffer 0 rest) (\<lambda>buffer.
           Inr (context\<lparr>sha1_st := state, sha1_buffer := buffer\<rparr>, take (64 - j) data @ blocks @ rest)))
         else
           and_then (arr_copy (sha1_buffer context) (int j) data) (\<lambda>buffer.
           Inr (context\<lparr>sha1_buffer := buffer\<rparr>, data)))"

section \<open>The digest\<close>

text \<open>\<open>while ((context->count[0] & 504) != 448)\<close>, with fuel.\<close>

primrec sha1_pad_loop :: "nat \<Rightarrow> sha1_ctx \<Rightarrow> sha1_ctx result" where
  "sha1_pad_loop 0 context = Inl FuelOut"
| "sha1_pad_loop (Suc fuel) context =
     (if sha1_count0 context AND 504 \<noteq> 448
      then and_then (BrbSha1_Update context [0]) (\<lambda>(context, _). sha1_pad_loop fuel context)
      else Inr context)"

definition sha1_finalcount :: "sha1_ctx \<Rightarrow> 8 word list" where
  "sha1_finalcount context = map (\<lambda>i. ucast (drop_bit ((3 - i mod 4) * 8)
     (if 4 \<le> i then sha1_count0 context else sha1_count1 context))) [0..<8]"

definition sha1_digest :: "sha1_state \<Rightarrow> 8 word list" where
  "sha1_digest state = (case state of (a, b, c, d, e) \<Rightarrow>
     map (\<lambda>i. ucast (drop_bit ((3 - i mod 4) * 8) ([a, b, c, d, e] ! (i div 4)))) [0..<20])"

definition BrbSha1_Final :: "sha1_ctx \<Rightarrow> (sha1_ctx \<times> 8 word list) result" where
  "BrbSha1_Final context =
     (let finalcount = sha1_finalcount context in
      and_then (BrbSha1_Update context [0x80]) (\<lambda>(context, _).
      and_then (sha1_pad_loop 64 context) (\<lambda>context.
      and_then (BrbSha1_Update context finalcount) (\<lambda>(context, _).
      Inr (context\<lparr>sha1_buffer := replicate 64 0, sha1_st := (0, 0, 0, 0, 0), sha1_count0 := 0, sha1_count1 := 0\<rparr>,
        sha1_digest (sha1_st context))))))"

text \<open>\<open>sha1_ctx\<close> of \<open>BrbSha1_Do\<close> is an uninitialised local, here the argument \<open>junk\<close>.\<close>

definition BrbSha1_Do :: "sha1_ctx \<Rightarrow> 8 word list \<Rightarrow> (8 word list \<times> 8 word list) result" where
  "BrbSha1_Do junk in_ptr =
     and_then (BrbSha1_Update (BrbSha1_Init junk) in_ptr) (\<lambda>(context, in_ptr).
     and_then (BrbSha1_Final context) (\<lambda>(_, digest). Inr (digest, in_ptr)))"

section \<open>The context as a buffered message\<close>

definition sha1_compress :: "sha1_state \<Rightarrow> 8 word list \<Rightarrow> sha1_state" where
  "sha1_compress s block = fst (BrbSha1_Transform s block)"

definition sha1_ok :: "sha1_ctx \<Rightarrow> 8 word list \<Rightarrow> bool" where
  "sha1_ok c msg \<longleftrightarrow> length (sha1_buffer c) = 64 \<and>
     absorb sha1_compress msg (sha1_iv, []) = (sha1_st c, pending (sha1_buffer c) (length msg)) \<and>
     (unat (sha1_count0 c) + 2 ^ 32 * unat (sha1_count1 c)) mod 2 ^ 64 = 8 * length msg mod 2 ^ 64"

lemma sha1_blk_length: "length (sha1_blk0 i l) = length l" "length (sha1_blk i l) = length l"
  by (simp_all add: sha1_blk0_def sha1_blk_def)

lemma fold_fst_length:
  "(\<And>i ls. length (fst (f i ls)) = length (fst ls)) \<Longrightarrow> length (fst (fold f xs ls)) = length (fst ls)"
  by (induction xs arbitrary: ls) simp_all

lemma sha1_R_length: "length (fst (sha1_R0 i ls)) = length (fst ls)" "length (fst (sha1_R1 i ls)) = length (fst ls)"
  "length (fst (sha1_R2 i ls)) = length (fst ls)" "length (fst (sha1_R3 i ls)) = length (fst ls)"
  "length (fst (sha1_R4 i ls)) = length (fst ls)"
  by (cases ls; simp add: sha1_blk_length)+

lemma sha1_add_length: "length (snd (sha1_add s la)) = 4 * length (fst la)"
  by (cases s; cases la; cases "snd la") auto

lemma sha1_transform_length: "length (snd (BrbSha1_Transform s b)) = 64"
  by (simp add: BrbSha1_Transform_def sha1_add_length sha1_rounds_def fold_fst_length sha1_R_length)

lemma sha1_blocks_spec:
  "\<exists>bs rest s'. sha1_blocks data s = (bs, rest, s') \<and> length rest < 64 \<and> length rest mod 64 = length data mod 64 \<and>
     absorb sha1_compress data (s, []) = (s', rest) \<and> length (bs @ rest) = length data"
proof (induction data s rule: sha1_blocks.induct)
  case (1 data s)
  show ?case
  proof (cases "63 < length data")
    case True
    obtain s1 b1 where t: "BrbSha1_Transform s (take 64 data) = (s1, b1)" using prod.exhaust by blast
    have b1: "length b1 = 64" using sha1_transform_length [of s "take 64 data"] t by simp
    have "absorb sha1_compress data (s, []) = absorb sha1_compress (drop 64 data) (s1, [])"
      using absorb_append [of sha1_compress "take 64 data" "drop 64 data"] True t
      by (simp add: absorb_block sha1_compress_def)
    moreover have "length (drop 64 data) mod 64 = length data mod 64"
      using True by (simp add: le_mod_geq)
    ultimately show ?thesis
      using "1.IH" [OF True t [symmetric]] True t b1 by (subst sha1_blocks.simps) auto
  next
    case False
    then show ?thesis by (subst sha1_blocks.simps) (simp add: absorb_short)
  qed
qed

text \<open>The counter counts bits; its carry is found by comparing with the summand.\<close>

lemma carry_add_summand:
  fixes lo hi :: "32 word"
  assumes "len < 2 ^ 32"
  defines "lo' \<equiv> word_of_nat (unat lo + len) :: 32 word"
  defines "hi' \<equiv> (if unat lo' < len then hi + 1 else hi)"
  shows "(unat lo' + 2 ^ 32 * unat hi') mod 2 ^ 64 = (unat lo + 2 ^ 32 * unat hi + len) mod 2 ^ 64"
proof -
  have lo: "unat lo < 2 ^ 32" using unsigned_less [of lo] by simp
  have u: "unat lo' = (unat lo + len) mod 2 ^ 32" by (simp only: lo'_def unat_of_nat) simp
  have "unat lo' < len \<longleftrightarrow> unat lo' < unat lo"
  proof (cases "unat lo + len < 2 ^ 32")
    case False
    then have "unat lo' + 2 ^ 32 = unat lo + len" using u lo assms(1) by (simp add: le_mod_geq)
    then show ?thesis using assms(1) lo by linarith
  qed (simp add: u)
  then show ?thesis using carry_add [OF assms(1), of lo hi] unfolding hi'_def lo'_def by simp
qed

lemma and_push_bit: "w AND push_bit k m = push_bit k (drop_bit k w AND m)" for w m :: "32 word"
  by (rule bit_word_eqI) (auto simp: bit_simps)

lemma counter_bytes:
  fixes lo hi :: "32 word"
  assumes "(unat lo + 2 ^ 32 * unat hi) mod 2 ^ 64 = 8 * n mod 2 ^ 64"
  shows "unat (drop_bit 3 lo) AND 63 = n mod 64" "lo AND 504 = 448 \<longleftrightarrow> n mod 64 = 56"
proof -
  have "(unat lo + 2 ^ 32 * unat hi) mod 2 ^ 64 mod 512 = 8 * n mod 2 ^ 64 mod 512" using assms by (rule arg_cong)
  moreover have "x mod 2 ^ 64 mod 512 = x mod 512" for x :: nat by (rule mod_mod_cancel) simp
  moreover have "(unat lo + 512 * (8388608 * unat hi)) mod 512 = unat lo mod 512" by (rule mod_mult_self2)
  ultimately have "unat lo mod (8 * 64) = 8 * n mod (8 * 64)" by simp
  moreover have "unat lo mod (8 * 64) = 8 * (unat lo div 8 mod 64) + unat lo mod 8" by (rule mod_mult2_eq)
  moreover have "8 * n mod (8 * 64) = 8 * (n mod 64)" by (rule mult_mod_right [symmetric])
  moreover have "unat lo mod 8 < 8" by simp
  moreover have "8 * a + r = 8 * b \<Longrightarrow> r < 8 \<Longrightarrow> a = b" for a b r :: nat by arith
  ultimately have d: "unat lo div 8 mod 64 = n mod 64" by metis
  then have u: "unat (drop_bit 3 lo) mod 64 = n mod 64" by (simp add: unat_div drop_bit_eq_div)
  then show "unat (drop_bit 3 lo) AND 63 = n mod 64"
    using take_bit_eq_mask [of 6 "unat (drop_bit 3 lo)"] by (simp add: take_bit_eq_mod mask_eq_exp_minus_1)
  define x where "x = drop_bit 3 lo AND 63"
  have x: "uint x = int (n mod 64)" using u by (simp only: x_def uint_and_63)
  have "lo AND push_bit 3 63 = push_bit 3 x"
    unfolding x_def by (rule and_push_bit)
  then have "lo AND 504 = 8 * x" by (simp add: push_bit_eq_mult mult.commute)
  moreover have "uint (8 * x) = 8 * int (n mod 64)" by (simp add: uint_word_ariths x) 
  ultimately show "lo AND 504 = 448 \<longleftrightarrow> n mod 64 = 56"
    by (simp add: word_uint_eq_iff)
qed

lemma sha1_update_ok:
  assumes ok: "sha1_ok ctx msg" and len: "length d < 2 ^ 29"
  shows "\<exists>ctx' d'. BrbSha1_Update ctx d = Inr (ctx', d') \<and> sha1_ok ctx' (msg @ d) \<and> length d' = length d"
proof -
  define c0 where "c0 = sha1_count0 ctx"
  define c1 where "c1 = ctx\<lparr>sha1_count0 := word_of_nat (unat c0 + 8 * length d)\<rparr>"
  define c2 where "c2 = (if unat (sha1_count0 c1) < 8 * length d then c1\<lparr>sha1_count1 := sha1_count1 c1 + 1\<rparr> else c1)"
  have c2: "sha1_st c2 = sha1_st ctx" "sha1_buffer c2 = sha1_buffer ctx"
    "sha1_count0 c2 = word_of_nat (unat c0 + 8 * length d)"
    "sha1_count1 c2 = (if unat (word_of_nat (unat c0 + 8 * length d) :: 32 word) < 8 * length d
       then sha1_count1 ctx + 1 else sha1_count1 ctx)"
    by (simp_all add: c2_def c1_def)
  have d29: "drop_bit 29 (length d) = 0" using len by (simp add: drop_bit_eq_div)
  define n where "n = length msg"
  note o = ok [unfolded sha1_ok_def, folded n_def c0_def]
  have lb: "length (sha1_buffer ctx) = 64" using o by blast
  have "(unat (sha1_count0 c2) + 2 ^ 32 * unat (sha1_count1 c2)) mod 2 ^ 64 =
      (unat c0 + 2 ^ 32 * unat (sha1_count1 ctx) + 8 * length d) mod 2 ^ 64"
    unfolding c2(3,4) by (rule carry_add_summand) (use len in simp)
  also have "\<dots> = (8 * n + 8 * length d) mod 2 ^ 64"
    using o by (metis mod_add_left_eq)
  finally have cnt: "(unat (sha1_count0 c2) + 2 ^ 32 * unat (sha1_count1 c2)) mod 2 ^ 64 = 8 * length (msg @ d) mod 2 ^ 64"
    by (simp add: n_def)
  have j: "unat (drop_bit 3 c0) AND 63 = n mod 64"
    by (rule counter_bytes(1)) (use o in blast)
  have n64: "n mod 64 < 64" by simp
  have unfold: "BrbSha1_Update ctx d =
    (if n mod 64 + length d > 63 then
       and_then (arr_copy (sha1_buffer c2) (int (n mod 64)) (take (64 - n mod 64) d)) (\<lambda>buffer.
       case BrbSha1_Transform (sha1_st c2) buffer of (state, buffer) \<Rightarrow>
       case sha1_blocks (drop (64 - n mod 64) d) state of (blocks, rest, state) \<Rightarrow>
       and_then (arr_copy buffer 0 rest) (\<lambda>buffer.
       Inr (c2\<lparr>sha1_st := state, sha1_buffer := buffer\<rparr>, take (64 - n mod 64) d @ blocks @ rest)))
     else
       and_then (arr_copy (sha1_buffer c2) (int (n mod 64)) d) (\<lambda>buffer. Inr (c2\<lparr>sha1_buffer := buffer\<rparr>, d)))"
    unfolding BrbSha1_Update_def Let_def c0_def [symmetric] j d29 c1_def [symmetric] c2_def [symmetric] by simp
  have start: "absorb sha1_compress (msg @ d) (sha1_iv, []) = absorb sha1_compress d (sha1_st ctx, pending (sha1_buffer ctx) n)"
    using o by (simp add: absorb_append)
  show ?thesis
  proof (cases "n mod 64 + length d < 64")
    case True
    note p = pending_short [OF lb True]
    define c3 where "c3 = c2\<lparr>sha1_buffer := take (n mod 64) (sha1_buffer ctx) @ d @ drop (n mod 64 + length d) (sha1_buffer ctx)\<rparr>"
    have "BrbSha1_Update ctx d = Inr (c3, d)" unfolding unfold c3_def using True p(1) c2 by simp
    moreover have "sha1_ok c3 (msg @ d)"
      using p True o cnt c2 start unfolding sha1_ok_def c3_def n_def by auto
    ultimately show ?thesis by blast
  next
    case False
    then have F: "64 \<le> n mod 64 + length d" by simp
    note p = pending_fill [OF lb F]
    define blk where "blk = pending (sha1_buffer ctx) n @ take (64 - n mod 64) d"
    define r where "r = drop (64 - n mod 64) d"
    obtain s1 b1 where t: "BrbSha1_Transform (sha1_st ctx) blk = (s1, b1)" using prod.exhaust by blast
    have b1: "length b1 = 64" using sha1_transform_length [of "sha1_st ctx" blk] t by simp
    obtain bs rest s2 where b: "sha1_blocks r s1 = (bs, rest, s2)" "length rest < 64"
      "length rest mod 64 = length r mod 64" "absorb sha1_compress r (s1, []) = (s2, rest)" "length (bs @ rest) = length r"
      using sha1_blocks_spec by blast
    have "n + length d = 64 * Suc (n div 64) + length r"
      using F n64 mult_div_mod_eq [of 64 n] by (simp add: r_def)
    then have "(n + length d) mod 64 = length r mod 64" by (simp only: mod_mult_self4)
    then have m: "length (msg @ d) mod 64 = length rest" using b(2,3) by (simp add: n_def)
    note q = pending_rest [OF b1 b(2) m]
    define c3 where "c3 = c2\<lparr>sha1_st := s2, sha1_buffer := rest @ drop (length rest) b1\<rparr>"
    have "BrbSha1_Update ctx d = Inr (c3, take (64 - n mod 64) d @ bs @ rest)"
      unfolding unfold c3_def using F p(1) c2 b(1) q(1) t by (simp flip: blk_def r_def)
    moreover have "absorb sha1_compress (msg @ d) (sha1_iv, []) = (s2, rest)"
      using start p(2) [of sha1_compress "sha1_st ctx"] b(4) t by (simp add: sha1_compress_def flip: blk_def r_def)
    then have "sha1_ok c3 (msg @ d)"
      using q cnt unfolding sha1_ok_def c3_def by simp
    moreover have "length (take (64 - n mod 64) d @ bs @ rest) = length d"
      using b(5) F by (simp add: r_def)
    ultimately show ?thesis by blast
  qed
qed

section \<open>The padding loop\<close>

lemma sha1_pad_loop_ok:
  "sha1_ok c m \<Longrightarrow> length m = n + 1 + (pad_zeros n - k) \<Longrightarrow> k \<le> pad_zeros n \<Longrightarrow> k < fuel \<Longrightarrow>
   \<exists>c'. sha1_pad_loop fuel c = Inr c' \<and> sha1_ok c' (m @ replicate k 0)"
proof (induction k arbitrary: fuel c m)
  case 0
  obtain f where "fuel = Suc f" using 0 by (cases fuel) auto
  moreover have "sha1_count0 c AND 504 = 448 \<longleftrightarrow> length m mod 64 = 56"
    using 0(1) by (intro counter_bytes(2)) (auto simp: sha1_ok_def)
  moreover have "length m mod 64 = 56"
    using pad_zeros_iff [OF pad_zeros_less, of n n] 0 by simp
  ultimately show ?case using 0 by simp
next
  case (Suc k)
  obtain f where f: "fuel = Suc f" using Suc.prems by (cases fuel) auto
  have "sha1_count0 c AND 504 = 448 \<longleftrightarrow> length m mod 64 = 56"
    using Suc.prems(1) by (intro counter_bytes(2)) (auto simp: sha1_ok_def)
  moreover have "length m mod 64 \<noteq> 56"
    using pad_zeros_iff [of "pad_zeros n - Suc k" n] pad_zeros_less [of n] Suc.prems by auto
  moreover obtain c1 d1 where c1: "BrbSha1_Update c [0] = Inr (c1, d1)" "sha1_ok c1 (m @ [0])"
    using sha1_update_ok [OF Suc.prems(1), of "[0]"] by auto
  moreover have "\<exists>c'. sha1_pad_loop f c1 = Inr c' \<and> sha1_ok c' ((m @ [0]) @ replicate k 0)"
    using Suc.prems f by (intro Suc.IH [OF c1(2)]) auto
  ultimately show ?case using f by simp
qed

lemma sha1_finalcount_be64:
  assumes "sha1_ok c msg"
  shows "sha1_finalcount c = be64 (word_of_nat (8 * length msg))"
proof -
  have "(unat (sha1_count0 c) + 2 ^ 32 * unat (sha1_count1 c)) mod 2 ^ 64 = 8 * length msg mod 2 ^ 64"
    using assms by (simp only: sha1_ok_def)
  note w = counter_words(1,2) [OF this]
  have "sha1_finalcount c = be_bytes (sha1_count1 c) @ be_bytes (sha1_count0 c)"
    by (simp add: sha1_finalcount_def be_bytes_def le_bytes_def upt_rec)
  then show ?thesis unfolding be64_def by (simp only: w)
qed

lemma length_be64: "length (be64 w) = 8"
  by (simp add: be64_def)

definition sha1_digest_of :: "8 word list \<Rightarrow> 8 word list" where
  "sha1_digest_of msg = sha1_digest (md_hash sha1_compress be64 sha1_iv msg)"

lemma sha1_final_ok:
  assumes ok: "sha1_ok c msg"
  shows "\<exists>c'. BrbSha1_Final c = Inr (c', sha1_digest_of msg)"
proof -
  define n where "n = length msg"
  define fc where "fc = sha1_finalcount c"
  have fc: "fc = be64 (word_of_nat (8 * n))"
    unfolding fc_def n_def by (rule sha1_finalcount_be64 [OF ok])
  obtain c1 d1 where c1: "BrbSha1_Update c [0x80] = Inr (c1, d1)" "sha1_ok c1 (msg @ [0x80])"
    using sha1_update_ok [OF ok, of "[0x80]"] by auto
  obtain c2 where c2: "sha1_pad_loop 64 c1 = Inr c2" "sha1_ok c2 ((msg @ [0x80]) @ replicate (pad_zeros n) 0)"
    using sha1_pad_loop_ok [OF c1(2), of n "pad_zeros n" 64] pad_zeros_less [of n] by (auto simp: n_def)
  obtain c3 d3 where c3: "BrbSha1_Update c2 fc = Inr (c3, d3)"
    "sha1_ok c3 (((msg @ [0x80]) @ replicate (pad_zeros n) 0) @ fc)"
    using sha1_update_ok [OF c2(2), of fc] length_be64 by (auto simp: fc)
  have "((msg @ [0x80]) @ replicate (pad_zeros n) 0) @ fc = msg @ md_pad be64 (length msg)"
    by (simp add: md_pad_def fc n_def)
  then have "sha1_st c3 = md_hash sha1_compress be64 sha1_iv msg"
    using c3(2) by (simp add: sha1_ok_def md_hash_def)
  then show ?thesis
    using c1(1) c2(1) c3(1) by (simp add: BrbSha1_Final_def sha1_digest_of_def flip: fc_def)
qed

section \<open>SHA-1 of a message in chunks\<close>

definition sha1_feed :: "sha1_ctx \<Rightarrow> 8 word list \<Rightarrow> sha1_ctx result" where
  "sha1_feed c d = and_then (BrbSha1_Update c d) (\<lambda>(c, _). Inr c)"

definition sha1_result :: "sha1_ctx \<Rightarrow> 8 word list result" where
  "sha1_result c = and_then (BrbSha1_Final c) (\<lambda>(_, digest). Inr digest)"

interpretation sha1: streaming sha1_feed sha1_result sha1_ok "\<lambda>d. length d < 2 ^ 29" sha1_digest_of
proof unfold_locales
  fix c msg and d :: "8 word list" assume "sha1_ok c msg" "length d < 2 ^ 29"
  from sha1_update_ok [OF this] show "\<exists>c'. sha1_feed c d = Inr c' \<and> sha1_ok c' (msg @ d)"
    by (auto simp: sha1_feed_def)
next
  fix c msg assume "sha1_ok c msg"
  from sha1_final_ok [OF this] show "sha1_result c = Inr (sha1_digest_of msg)"
    by (auto simp: sha1_result_def)
qed

lemma sha1_init_ok: "length (sha1_buffer c) = 64 \<Longrightarrow> sha1_ok (BrbSha1_Init c) []"
  by (simp add: sha1_ok_def BrbSha1_Init_def pending_def)

lemma sha1_do_ok:
  assumes "length (sha1_buffer c) = 64" "length msg < 2 ^ 29"
  shows "\<exists>msg'. BrbSha1_Do c msg = Inr (sha1_digest_of msg, msg') \<and> length msg' = length msg"
proof -
  obtain c1 d1 where c1: "BrbSha1_Update (BrbSha1_Init c) msg = Inr (c1, d1)" "sha1_ok c1 msg" "length d1 = length msg"
    using sha1_update_ok [OF sha1_init_ok [OF assms(1)] assms(2)] by auto
  moreover obtain c2 where "BrbSha1_Final c1 = Inr (c2, sha1_digest_of msg)" using sha1_final_ok [OF c1(2)] by blast
  ultimately show ?thesis by (simp add: BrbSha1_Do_def)
qed

text \<open>
  C14: SHA-1. Whatever the chunks a message is fed in, each shorter than 512 MiB, updates and
  finalisation stay within the block buffer, the padding loop ends, and the digest is that of the
  Merkle-Damgard construction over the code's compression function on the whole message, however long; the
  one-step function returns the same for a message shorter than 512 MiB.
\<close>

theorem sha1_chunks:
  assumes "length (sha1_buffer c) = 64" "list_all (\<lambda>d. length d < 2 ^ 29) ds"
  shows "and_then (for_each (\<lambda>d c. sha1_feed c d) ds (BrbSha1_Init c)) sha1_result = Inr (sha1_digest_of (concat ds)) \<and>
    (length (concat ds) < 2 ^ 29 \<longrightarrow>
      (\<exists>data'. BrbSha1_Do c (concat ds) = Inr (sha1_digest_of (concat ds), data') \<and> length data' = length (concat ds)))"
  using sha1.hash_chunks [OF sha1_init_ok [OF assms(1)] assms(2)] sha1_do_ok [OF assms(1)] by simp

definition sha1_blank :: sha1_ctx where
  "sha1_blank = \<lparr>sha1_st = (1, 2, 3, 4, 5), sha1_count0 = 9, sha1_count1 = 9, sha1_buffer = replicate 64 7\<rparr>"

theorem sha1_chunks_witness:
  "(and_then (for_each (\<lambda>d c. sha1_feed c d) [[0x61], [0x62, 0x63]] (BrbSha1_Init sha1_blank)) sha1_result =
      Inr (sha1_digest_of (concat [[0x61], [0x62, 0x63]])) \<and>
    (\<exists>data'. BrbSha1_Do sha1_blank (concat [[0x61], [0x62, 0x63]]) = Inr (sha1_digest_of (concat [[0x61], [0x62, 0x63]]), data') \<and>
      length data' = length (concat [[0x61], [0x62, 0x63 :: 8 word]])))
   \<and> sha1_digest_of (concat [[0x61], [0x62, 0x63]]) =
     [0xa9, 0x99, 0x3e, 0x36, 0x47, 0x06, 0x81, 0x6a, 0xba, 0x3e, 0x25, 0x71, 0x78, 0x50, 0xc2, 0x6c, 0x9c, 0xd0, 0xd8, 0x9d]"
proof
  show "and_then (for_each (\<lambda>d c. sha1_feed c d) [[0x61], [0x62, 0x63]] (BrbSha1_Init sha1_blank)) sha1_result =
      Inr (sha1_digest_of (concat [[0x61], [0x62, 0x63]])) \<and>
    (\<exists>data'. BrbSha1_Do sha1_blank (concat [[0x61], [0x62, 0x63]]) = Inr (sha1_digest_of (concat [[0x61], [0x62, 0x63]]), data') \<and>
      length data' = length (concat [[0x61], [0x62, 0x63 :: 8 word]]))"
    using sha1_chunks [of sha1_blank "[[0x61], [0x62, 0x63]]"] by (simp add: sha1_blank_def)
  show "sha1_digest_of (concat [[0x61], [0x62, 0x63]]) =
     [0xa9, 0x99, 0x3e, 0x36, 0x47, 0x06, 0x81, 0x6a, 0xba, 0x3e, 0x25, 0x71, 0x78, 0x50, 0xc2, 0x6c, 0x9c, 0xd0, 0xd8, 0x9d]"
    by code_simp
qed

text \<open>The second block of 128 bytes is compressed where the caller keeps it.\<close>

lemma sha1_update_128:
  assumes "length (sha1_buffer c) = 64" "length a = 64" "length b = 64"
  shows "\<exists>c'. BrbSha1_Update (BrbSha1_Init c) (a @ b) =
    Inr (c', a @ snd (BrbSha1_Transform (fst (BrbSha1_Transform sha1_iv a)) b))"
proof -
  obtain s1 b1 where t: "BrbSha1_Transform sha1_iv a = (s1, b1)" using prod.exhaust by blast
  obtain s2 b2 where t2: "BrbSha1_Transform s1 b = (s2, b2)" using prod.exhaust by blast
  have "sha1_blocks b s1 = (b2, [], s2)"
    using assms t2 by (simp add: sha1_blocks.simps [of b] sha1_blocks.simps [of "[]"])
  then show ?thesis
    using assms t t2 by (simp add: BrbSha1_Update_def BrbSha1_Init_def Let_def arr_copy_def)
qed

text \<open>
  \<open>BrbSha1_Update\<close> destroys the data it is given as \<open>const\<close>: hashing two blocks of zeros, but
  for a one at the start of the second, leaves the expanded message schedule in that second block.
\<close>

theorem sha1_update_clobbers:
  "\<exists>c' b'. BrbSha1_Update (BrbSha1_Init sha1_blank) (replicate 64 0 @ [1] @ replicate 63 0) = Inr (c', replicate 64 0 @ b') \<and>
     b' \<noteq> [1] @ replicate 63 0"
proof -
  have "hd (snd (BrbSha1_Transform (fst (BrbSha1_Transform sha1_iv (replicate 64 0))) ([1] @ replicate 63 0))) \<noteq> 1"
    by code_simp
  then have "snd (BrbSha1_Transform (fst (BrbSha1_Transform sha1_iv (replicate 64 0))) ([1] @ replicate 63 0)) \<noteq> [1] @ replicate 63 0"
    by (metis append_Cons list.sel(1))
  then show ?thesis
    using sha1_update_128 [of sha1_blank "replicate 64 0" "[1] @ replicate 63 0"] by (auto simp: sha1_blank_def)
qed

end
