(* ===== verification/Sha256.thy ===== *)
theory Sha256
  imports HashAbsorb
begin

unbundle bit_operations_syntax

text \<open>
  libbrb_core/crypto/sha256.c. The context keeps its words as \<open>int\<close> and its block as \<open>char\<close>, so bytes
  are sign-extended when they are put together and right shifts are arithmetic; the sums wrap around,
  as they do on the machines the code is built for. A buffer and its length are one list.
\<close>

section \<open>State\<close>

type_synonym sha256_state =
  "32 word \<times> 32 word \<times> 32 word \<times> 32 word \<times> 32 word \<times> 32 word \<times> 32 word \<times> 32 word"

record sha256_ctx =
  sha256_data :: "8 word list"
  sha256_datalen :: int
  sha256_bitlen :: "64 word"
  sha256_st :: sha256_state

definition sha256_iv :: sha256_state where
  "sha256_iv = (0x6a09e667, 0xbb67ae85, 0x3c6ef372, 0xa54ff53a, 0x510e527f, 0x9b05688c, 0x1f83d9ab, 0x5be0cd19)"

definition BrbSha256_Init :: "sha256_ctx \<Rightarrow> sha256_ctx" where
  "BrbSha256_Init ctx = ctx\<lparr>sha256_datalen := 0, sha256_bitlen := 0, sha256_st := sha256_iv\<rparr>"

section \<open>The transformation\<close>

definition ROTRIGHT :: "32 word \<Rightarrow> nat \<Rightarrow> 32 word" where
  "ROTRIGHT a b = signed_drop_bit b a OR push_bit (32 - b) a"

definition sha256_CH :: "32 word \<Rightarrow> 32 word \<Rightarrow> 32 word \<Rightarrow> 32 word" where
  "sha256_CH x y z = (x AND y) XOR (NOT x AND z)"

definition sha256_MAJ :: "32 word \<Rightarrow> 32 word \<Rightarrow> 32 word \<Rightarrow> 32 word" where
  "sha256_MAJ x y z = (x AND y) XOR (x AND z) XOR (y AND z)"

definition sha256_EP0 :: "32 word \<Rightarrow> 32 word" where
  "sha256_EP0 x = ROTRIGHT x 2 XOR ROTRIGHT x 13 XOR ROTRIGHT x 22"

definition sha256_EP1 :: "32 word \<Rightarrow> 32 word" where
  "sha256_EP1 x = ROTRIGHT x 6 XOR ROTRIGHT x 11 XOR ROTRIGHT x 25"

definition sha256_SIG0 :: "32 word \<Rightarrow> 32 word" where
  "sha256_SIG0 x = ROTRIGHT x 7 XOR ROTRIGHT x 18 XOR signed_drop_bit 3 x"

definition sha256_SIG1 :: "32 word \<Rightarrow> 32 word" where
  "sha256_SIG1 x = ROTRIGHT x 17 XOR ROTRIGHT x 19 XOR signed_drop_bit 10 x"

definition sha256_k :: "32 word list" where
  "sha256_k =
     [0x428a2f98, 0x71374491, 0xb5c0fbcf, 0xe9b5dba5, 0x3956c25b, 0x59f111f1, 0x923f82a4, 0xab1c5ed5] @
     [0xd807aa98, 0x12835b01, 0x243185be, 0x550c7dc3, 0x72be5d74, 0x80deb1fe, 0x9bdc06a7, 0xc19bf174] @
     [0xe49b69c1, 0xefbe4786, 0x0fc19dc6, 0x240ca1cc, 0x2de92c6f, 0x4a7484aa, 0x5cb0a9dc, 0x76f988da] @
     [0x983e5152, 0xa831c66d, 0xb00327c8, 0xbf597fc7, 0xc6e00bf3, 0xd5a79147, 0x06ca6351, 0x14292967] @
     [0x27b70a85, 0x2e1b2138, 0x4d2c6dfc, 0x53380d13, 0x650a7354, 0x766a0abb, 0x81c2c92e, 0x92722c85] @
     [0xa2bfe8a1, 0xa81a664b, 0xc24b8b70, 0xc76c51a3, 0xd192e819, 0xd6990624, 0xf40e3585, 0x106aa070] @
     [0x19a4c116, 0x1e376c08, 0x2748774c, 0x34b0bcb5, 0x391c0cb3, 0x4ed8aa4a, 0x5b9cca4f, 0x682e6ff3] @
     [0x748f82ee, 0x78a5636f, 0x84c87814, 0x8cc70208, 0x90befffa, 0xa4506ceb, 0xbef9a3f7, 0xc67178f2]"

definition sha256_word :: "8 word list \<Rightarrow> nat \<Rightarrow> 32 word" where
  "sha256_word data j = push_bit 24 (scast (data ! j)) OR push_bit 16 (scast (data ! (j + 1)))
     OR push_bit 8 (scast (data ! (j + 2))) OR scast (data ! (j + 3))"

definition sha256_expand :: "nat \<Rightarrow> 32 word list \<Rightarrow> 32 word list" where
  "sha256_expand i m = m @ [strict (sha256_SIG1 (m ! (i - 2)) + m ! (i - 7) + sha256_SIG0 (m ! (i - 15)) + m ! (i - 16))]"

definition sha256_schedule :: "8 word list \<Rightarrow> 32 word list" where
  "sha256_schedule data = fold sha256_expand [16..<64] (map (\<lambda>i. strict (sha256_word data (4 * i))) [0..<16])"

fun sha256_next :: "32 word \<Rightarrow> 32 word \<Rightarrow> sha256_state \<Rightarrow> sha256_state" where
  "sha256_next t1 t2 (a, b, c, d, e, f, g, h) = (strict (t1 + t2), a, b, c, strict (d + t1), e, f, g)"

fun sha256_round :: "32 word \<times> 32 word \<Rightarrow> sha256_state \<Rightarrow> sha256_state" where
  "sha256_round (k, m) (a, b, c, d, e, f, g, h) =
     sha256_next (strict (h + sha256_EP1 e + sha256_CH e f g + k + m)) (strict (sha256_EP0 a + sha256_MAJ a b c))
       (a, b, c, d, e, f, g, h)"

fun sha256_add :: "sha256_state \<Rightarrow> sha256_state \<Rightarrow> sha256_state" where
  "sha256_add (s0, s1, s2, s3, s4, s5, s6, s7) (a, b, c, d, e, f, g, h) =
     (s0 + a, s1 + b, s2 + c, s3 + d, s4 + e, s5 + f, s6 + g, s7 + h)"

definition sha256_compress :: "sha256_state \<Rightarrow> 8 word list \<Rightarrow> sha256_state" where
  "sha256_compress state data =
     sha256_add state (fold sha256_round (zip sha256_k (sha256_schedule data)) state)"

definition BrbSha256_Transform :: "sha256_ctx \<Rightarrow> 8 word list \<Rightarrow> sha256_ctx" where
  "BrbSha256_Transform ctx data = ctx\<lparr>sha256_st := sha256_compress (sha256_st ctx) data\<rparr>"

lemma ROTRIGHT_code [code]: "ROTRIGHT a b = strict (signed_drop_bit b a OR push_bit (32 - b) a)"
  by (simp add: strict_def ROTRIGHT_def)

section \<open>Update and finalisation\<close>

definition sha256_put :: "8 word \<Rightarrow> sha256_ctx \<Rightarrow> sha256_ctx result" where
  "sha256_put c ctx =
     and_then (arr_set (sha256_data ctx) (sha256_datalen ctx) c) (\<lambda>data.
     let ctx = ctx\<lparr>sha256_data := data, sha256_datalen := sha256_datalen ctx + 1\<rparr> in
     Inr (if sha256_datalen ctx = 64 then
            let ctx = BrbSha256_Transform ctx (sha256_data ctx) in
            ctx\<lparr>sha256_bitlen := sha256_bitlen ctx + 512, sha256_datalen := 0\<rparr>
          else ctx))"

text \<open>\<open>for (i = 0; i < len; ++i)\<close> with \<open>int i\<close>, on the bytes that are left.\<close>

primrec sha256_bytes :: "int \<Rightarrow> 8 word list \<Rightarrow> sha256_ctx \<Rightarrow> sha256_ctx result" where
  "sha256_bytes i [] ctx = Inr ctx"
| "sha256_bytes i (c # cs) ctx =
     and_then (sha256_put c ctx) (\<lambda>ctx. and_then (in_int (i + 1)) (\<lambda>i. sha256_bytes i cs ctx))"

definition BrbSha256_Update :: "sha256_ctx \<Rightarrow> 8 word list \<Rightarrow> sha256_ctx result" where
  "BrbSha256_Update ctx data = sha256_bytes 0 data ctx"

definition sha256_pad :: "sha256_ctx \<Rightarrow> sha256_ctx result" where
  "sha256_pad ctx =
     (let i = sha256_datalen ctx in
      if sha256_datalen ctx < 56 then
        and_then (arr_set (sha256_data ctx) i 0x80) (\<lambda>data.
        and_then (arr_fill data (i + 1) (56 - (i + 1)) 0) (\<lambda>data. Inr (ctx\<lparr>sha256_data := data\<rparr>)))
      else
        and_then (arr_set (sha256_data ctx) i 0x80) (\<lambda>data.
        and_then (arr_fill data (i + 1) (64 - (i + 1)) 0) (\<lambda>data.
        let ctx = BrbSha256_Transform (ctx\<lparr>sha256_data := data\<rparr>) data in
        and_then (arr_fill (sha256_data ctx) 0 56 0) (\<lambda>data. Inr (ctx\<lparr>sha256_data := data\<rparr>)))))"

definition sha256_digest :: "sha256_state \<Rightarrow> 8 word list" where
  "sha256_digest state = (case state of (a, b, c, d, e, f, g, h) \<Rightarrow>
     concat (map (\<lambda>w. map (\<lambda>i. ucast (signed_drop_bit (24 - i * 8) w AND 0xff)) [0..<4]) [a, b, c, d, e, f, g, h]))"

definition BrbSha256_Final :: "sha256_ctx \<Rightarrow> 8 word list \<Rightarrow> (sha256_ctx \<times> 8 word list) result" where
  "BrbSha256_Final ctx hash =
     and_then (sha256_pad ctx) (\<lambda>ctx.
     let ctx = ctx\<lparr>sha256_bitlen := sha256_bitlen ctx + of_int (sha256_datalen ctx * 8)\<rparr> in
     and_then (arr_copy (sha256_data ctx) 56
       (map (\<lambda>i. ucast (drop_bit (56 - 8 * i) (sha256_bitlen ctx))) [0..<8])) (\<lambda>data.
     let ctx = BrbSha256_Transform (ctx\<lparr>sha256_data := data\<rparr>) data in
     and_then (arr_copy hash 0 (sha256_digest (sha256_st ctx))) (\<lambda>hash. Inr (ctx, hash))))"

section \<open>The context as a buffered message\<close>

definition sha256_ok :: "sha256_ctx \<Rightarrow> 8 word list \<Rightarrow> bool" where
  "sha256_ok c msg \<longleftrightarrow> length (sha256_data c) = 64 \<and> sha256_datalen c = int (length msg mod 64) \<and>
     absorb sha256_compress msg (sha256_iv, []) = (sha256_st c, pending (sha256_data c) (length msg)) \<and>
     sha256_bitlen c = word_of_nat (512 * (length msg div 64))"

lemma sha256_put_ok:
  assumes ok: "sha256_ok ctx msg"
  shows "\<exists>c'. sha256_put b ctx = Inr c' \<and> sha256_ok c' (msg @ [b])"
proof -
  define n where "n = length msg"
  note o = ok [unfolded sha256_ok_def, folded n_def]
  have n64: "n mod 64 < 64" by simp
  have lb: "length (sha256_data ctx) = 64" using o by blast
  have put: "arr_set (sha256_data ctx) (sha256_datalen ctx) b = Inr ((sha256_data ctx)[n mod 64 := b])"
    using o by (simp add: arr_set_def)
  have step: "absorb sha256_compress (msg @ [b]) (sha256_iv, []) =
      absorb_byte sha256_compress b (sha256_st ctx, pending (sha256_data ctx) n)"
    using o by (simp add: absorb_append)
  have lp: "length (pending (sha256_data ctx) n) = n mod 64" by (rule length_pending [OF lb])
  show ?thesis
  proof (cases "n mod 64 = 63")
    case True
    then have e: "(sha256_data ctx)[63 := b] = pending (sha256_data ctx) n @ [b]"
      using lb by (simp add: pending_def upd_conv_take_nth_drop)
    have d: "Suc n div 64 = Suc (n div 64)" "Suc n mod 64 = 0" using True by (simp_all add: div_Suc mod_Suc)
    show ?thesis
      using o put True step lp e d
      by (simp add: sha256_put_def Let_def BrbSha256_Transform_def sha256_ok_def pending_def
          algebra_simps flip: n_def)
  next
    case False
    then have d: "Suc n div 64 = n div 64" "Suc n mod 64 = Suc (n mod 64)" using n64 by (simp_all add: div_Suc mod_Suc)
    have "take (Suc (n mod 64)) ((sha256_data ctx)[n mod 64 := b]) = pending (sha256_data ctx) n @ [b]"
      using lb n64 by (simp add: pending_def take_Suc_conv_app_nth)
    then show ?thesis
      using o put False step lp d n64 by (simp add: sha256_put_def Let_def sha256_ok_def pending_def flip: n_def)
  qed
qed

lemma sha256_bytes_ok:
  "sha256_ok ctx msg \<Longrightarrow> 0 \<le> i \<Longrightarrow> i + int (length d) < 2 ^ 31 \<Longrightarrow> \<exists>c'. sha256_bytes i d ctx = Inr c' \<and> sha256_ok c' (msg @ d)"
proof (induction d arbitrary: i ctx msg)
  case (Cons b d)
  obtain c1 where "sha256_put b ctx = Inr c1" "sha256_ok c1 (msg @ [b])"
    using sha256_put_ok [OF Cons.prems(1)] by blast
  then show ?case using Cons.IH [of c1 "msg @ [b]" "i + 1"] Cons.prems(2,3) by simp
qed simp

lemma sha256_update_ok:
  "sha256_ok ctx msg \<Longrightarrow> length d < 2 ^ 31 \<Longrightarrow> \<exists>c'. BrbSha256_Update ctx d = Inr c' \<and> sha256_ok c' (msg @ d)"
  using sha256_bytes_ok [of ctx msg 0 d] by (simp add: BrbSha256_Update_def)

lemma sha256_pad_ok:
  assumes ok: "sha256_ok ctx msg"
  shows "\<exists>c. sha256_pad ctx = Inr c \<and> length (sha256_data c) = 64 \<and>
    sha256_datalen c = int (length msg mod 64) \<and> sha256_bitlen c = sha256_bitlen ctx \<and>
    sha256_compress (sha256_st c) (take 56 (sha256_data c) @ be64 (word_of_nat (8 * length msg))) =
      md_hash sha256_compress be64 sha256_iv msg"
proof -
  define n where "n = length msg"
  note o = ok [unfolded sha256_ok_def, folded n_def]
  have n64: "n mod 64 < 64" by simp
  have dl: "sha256_datalen ctx = int (n mod 64)" using o by blast
  have lb: "length (sha256_data ctx) = 64" using o by blast
  have lp: "length (pending (sha256_data ctx) n) = n mod 64" using lb by (rule length_pending)
  note pb = pad_buffer [OF lb]
  have e8: "length (be64 w) = 8" for w by (simp add: be64_def)
  have h: "md_hash sha256_compress be64 sha256_iv msg =
      fst (absorb sha256_compress (md_pad be64 n) (sha256_st ctx, pending (sha256_data ctx) n))"
    unfolding n_def by (rule md_hash_absorb) (use o in \<open>simp add: n_def\<close>)
  have a: "56 - (int (n mod 64) + 1) = 55 - int (n mod 64)" "64 - (int (n mod 64) + 1) = 63 - int (n mod 64)" by simp_all
  show ?thesis
  proof (cases "n mod 64 < 56")
    case True
    define inp where "inp = pending (sha256_data ctx) n @ 0x80 # replicate (55 - n mod 64) 0 @ drop 56 (sha256_data ctx)"
    have "sha256_pad ctx = Inr (ctx\<lparr>sha256_data := inp\<rparr>)"
      unfolding sha256_pad_def Let_def dl a pb(1) inp_def using True pb(2) [OF True] by simp
    moreover have "take 56 inp = pending (sha256_data ctx) n @ 0x80 # replicate (55 - n mod 64) 0" "length inp = 64"
      using lp lb True by (simp_all add: inp_def take_Cons')
    ultimately show ?thesis
      unfolding n_def [symmetric] h absorb_pad_one [OF lp True e8] using dl by simp
  next
    case False
    define inp where "inp = pending (sha256_data ctx) n @ 0x80 # replicate (63 - n mod 64) (0 :: 8 word)"
    define c1 where "c1 = BrbSha256_Transform (ctx\<lparr>sha256_data := inp\<rparr>) inp"
    have c1: "sha256_data c1 = inp" "sha256_st c1 = sha256_compress (sha256_st ctx) inp"
      "sha256_datalen c1 = sha256_datalen ctx" "sha256_bitlen c1 = sha256_bitlen ctx"
      by (simp_all add: c1_def BrbSha256_Transform_def)
    have l: "length inp = 64" using lp n64 by (simp add: inp_def)
    then have "arr_fill inp 0 56 0 = Inr (replicate 56 0 @ drop 56 inp)" by (simp add: arr_fill_def)
    then have "sha256_pad ctx = Inr (c1\<lparr>sha256_data := replicate 56 0 @ drop 56 inp\<rparr>)"
      unfolding sha256_pad_def Let_def dl a pb(1) using False pb(3) [OF False, of "0x80" 0, folded inp_def]
      by (simp add: c1(1) flip: c1_def)
    then show ?thesis
      unfolding n_def [symmetric] h absorb_pad_two [OF lp False e8] using l c1 dl by (simp add: inp_def)
  qed
qed

lemma sha256_length_bytes: "map (\<lambda>i. ucast (drop_bit (56 - 8 * i) w)) [0..<8] = be64 (w :: 64 word)"
proof -
  have "ucast (drop_bit k (ucast w :: 32 word)) = (ucast (drop_bit k w) :: 8 word)" if "k \<le> 24" for k
    by (rule bit_word_eqI) (use that in \<open>auto simp: bit_simps\<close>)
  moreover have "ucast (drop_bit k (ucast (drop_bit 32 w) :: 32 word)) = (ucast (drop_bit (k + 32) w) :: 8 word)" if "k \<le> 24" for k
    by (rule bit_word_eqI) (use that in \<open>auto simp: bit_simps ac_simps\<close>)
  moreover note this [of 0, simplified]
  moreover have "ucast (ucast w :: 32 word) = (ucast w :: 8 word)"
    by (rule bit_word_eqI) (auto simp: bit_simps)
  ultimately show ?thesis by (simp add: be64_def be_bytes_def le_bytes_def upt_rec)
qed

definition sha256_digest_of :: "8 word list \<Rightarrow> 8 word list" where
  "sha256_digest_of msg = sha256_digest (md_hash sha256_compress be64 sha256_iv msg)"

lemma length_sha256_digest: "length (sha256_digest s) = 32"
  by (auto simp: sha256_digest_def split: prod.splits)

lemma sha256_final_ok:
  assumes ok: "sha256_ok ctx msg" and hash: "32 \<le> length hash"
  shows "\<exists>c'. BrbSha256_Final ctx hash = Inr (c', sha256_digest_of msg @ drop 32 hash)"
proof -
  obtain c where c: "sha256_pad ctx = Inr c" "length (sha256_data c) = 64" "sha256_datalen c = int (length msg mod 64)"
    "sha256_bitlen c = sha256_bitlen ctx"
    "sha256_compress (sha256_st c) (take 56 (sha256_data c) @ be64 (word_of_nat (8 * length msg))) =
      md_hash sha256_compress be64 sha256_iv msg"
    using sha256_pad_ok [OF ok] by blast
  have "512 * (length msg div 64) + 8 * (length msg mod 64) = 8 * length msg"
    using mult_div_mod_eq [of 64 "length msg"] by linarith
  moreover have "(of_int (int m * 8) :: 64 word) = word_of_nat (8 * m)" for m by (simp add: mult.commute)
  ultimately have "word_of_nat (512 * (length msg div 64)) + of_int (int (length msg mod 64) * 8) = (word_of_nat (8 * length msg) :: 64 word)"
    by (simp only: flip: of_nat_add)
  then have bl: "sha256_bitlen c + of_int (sha256_datalen c * 8) = word_of_nat (8 * length msg)"
    using ok unfolding c(3,4) sha256_ok_def by simp
  show ?thesis
    using c(1,2,5) hash bl
    by (simp add: BrbSha256_Final_def Let_def sha256_length_bytes BrbSha256_Transform_def arr_copy_def be64_def
        sha256_digest_of_def length_sha256_digest)
qed

section \<open>The hash of a message in chunks\<close>

definition sha256_result :: "8 word list \<Rightarrow> sha256_ctx \<Rightarrow> 8 word list result" where
  "sha256_result hash c = and_then (BrbSha256_Final c hash) (\<lambda>(_, hash). Inr (take 32 hash))"

interpretation sha256: streaming BrbSha256_Update "sha256_result (replicate 32 x)" sha256_ok "\<lambda>d. length d < 2 ^ 31" sha256_digest_of
  for x
proof unfold_locales
  fix c msg assume "sha256_ok c msg"
  from sha256_final_ok [OF this, of "replicate 32 x"]
  show "sha256_result (replicate 32 x) c = Inr (sha256_digest_of msg)"
    by (auto simp: sha256_result_def sha256_digest_of_def length_sha256_digest)
qed (rule sha256_update_ok)

lemma sha256_init_ok: "length (sha256_data c) = 64 \<Longrightarrow> sha256_ok (BrbSha256_Init c) []"
  by (simp add: sha256_ok_def BrbSha256_Init_def pending_def)

text \<open>
  C15: the hash of sha256.c. Whatever the chunks a message is fed in, each shorter than 2 GiB (the update counts
  its bytes in \<open>int\<close>), updates and finalisation stay within the block and a hash buffer of 32 bytes, and the result is the Merkle-Damgard construction
  with 64-bit big-endian length over the code's compression function on the whole message.
\<close>

theorem sha256_chunks:
  assumes "length (sha256_data c) = 64" "list_all (\<lambda>d. length d < 2 ^ 31) ds"
  shows "and_then (for_each (\<lambda>d c. BrbSha256_Update c d) ds (BrbSha256_Init c)) (sha256_result (replicate 32 x)) =
    Inr (sha256_digest_of (concat ds))"
  by (rule sha256.hash_chunks [OF sha256_init_ok [OF assms(1)] assms(2)])

definition sha256_blank :: sha256_ctx where
  "sha256_blank = \<lparr>sha256_data = replicate 64 7, sha256_datalen = 3, sha256_bitlen = 9, sha256_st = sha256_iv\<rparr>"

theorem sha256_chunks_witness:
  "and_then (for_each (\<lambda>d c. BrbSha256_Update c d) [[0x61], [0x62, 0x63]] (BrbSha256_Init sha256_blank))
     (sha256_result (replicate 32 0)) = Inr (sha256_digest_of (concat [[0x61], [0x62, 0x63]]))"
  by (rule sha256_chunks) (simp_all add: sha256_blank_def)

lemma sha256_word_high:
  assumes "d AND 0x80 = 0x80"
  shows "sha256_word (a # b # c # d # r) 0 = scast d"
proof (rule bit_word_eqI)
  have e: "sha256_word (a # b # c # d # r) 0 =
      push_bit 24 (scast a) OR push_bit 16 (scast b) OR push_bit 8 (scast c) OR scast d"
    by (simp add: sha256_word_def)
  fix n assume n: "n < LENGTH(32)"
  have "bit d 7"
    using assms bit_and_iff [of d "0x80" 7] by (simp add: bit_simps)
  then show "bit (sha256_word (a # b # c # d # r) 0) n \<longleftrightarrow> bit (scast d :: 32 word) n"
    using n by (auto simp: e bit_simps)
qed

lemma sha256_schedule_cong:
  "(\<And>i. i < 16 \<Longrightarrow> sha256_word x (4 * i) = sha256_word y (4 * i)) \<Longrightarrow> sha256_compress s x = sha256_compress s y"
proof -
  assume "\<And>i. i < 16 \<Longrightarrow> sha256_word x (4 * i) = sha256_word y (4 * i)"
  then have "map (\<lambda>i. strict (sha256_word x (4 * i))) [0..<16] = map (\<lambda>i. strict (sha256_word y (4 * i))) [0..<16]"
    by (intro map_cong) auto
  then show ?thesis by (simp only: sha256_compress_def sha256_schedule_def)
qed

lemma sha256_word_later: "4 \<le> j \<Longrightarrow> sha256_word (a # b # c # d # r) j = sha256_word (a' # b' # c' # d # r) j"
  by (cases j; cases "j - 1"; cases "j - 2"; cases "j - 3") (auto simp: sha256_word_def)

text \<open>
  It is not SHA-256, and has trivial collisions: all messages of three bytes have one hash. The
  padding byte 0x80 is a negative \<open>char\<close>; put into a word it is sign-extended, and its sign bits
  overwrite the three bytes of the message.
\<close>

theorem sha256_collides: "sha256_digest_of [a, b, c] = sha256_digest_of [a', b', c']"
proof -
  have m: "md_hash sha256_compress be64 sha256_iv [x, y, z] =
      sha256_compress sha256_iv (x # y # z # 0x80 # replicate 52 0 @ be64 24)" for x y z
  proof -
    have l: "length [x, y, z] = 3 mod 64" "(3 :: nat) mod 64 < 56" "\<And>w. length (be64 w) = 8" by (simp_all add: be64_def)
    have "md_hash sha256_compress be64 sha256_iv [x, y, z] =
        fst (absorb sha256_compress (md_pad be64 (length [x, y, z])) (sha256_iv, [x, y, z]))"
      by (rule md_hash_absorb) simp
    also have "length [x, y, z] = 3" by simp
    finally show ?thesis unfolding absorb_pad_one [OF l] by simp
  qed
  have "sha256_compress sha256_iv (a # b # c # 0x80 # replicate 52 0 @ be64 24) =
      sha256_compress sha256_iv (a' # b' # c' # 0x80 # replicate 52 0 @ be64 24)"
  proof (rule sha256_schedule_cong)
    fix i :: nat
    show "sha256_word (a # b # c # 0x80 # replicate 52 0 @ be64 24) (4 * i) =
        sha256_word (a' # b' # c' # 0x80 # replicate 52 0 @ be64 24) (4 * i)"
    proof (cases i)
      case 0
      have "(0x80 :: 8 word) AND 0x80 = 0x80" by simp
      then show ?thesis unfolding 0 mult_0_right by (simp only: sha256_word_high)
    next
      case (Suc k)
      then show ?thesis by (intro sha256_word_later) simp
    qed
  qed
  then show ?thesis by (simp only: sha256_digest_of_def m)
qed

end
