(* ===== verification/SlotQueue.thy ===== *)
theory SlotQueue
  imports DynBitmapClaims
begin

text \<open>
  The slot queue of libbrb_core/data/core/slotqueue.c: a stack of free slot numbers in an integer
  array, and, in its mapped form, two bitmaps of slots: those handed out (private) and those another
  party marked busy (public). The freed array is the empty list, so that an access after
  \<open>SlotQueueDestroy\<close> is out of bounds. The messages the functions print are left out.
\<close>

section \<open>State\<close>

record slot_queue =
  sq_private :: "dbm option"
  sq_public :: "dbm option"
  sq_arena :: "int list"
  sq_index :: int
  sq_count :: int
  sq_loaded :: bool
  sq_mapped :: bool

definition deref :: "'a option \<Rightarrow> 'a result" where
  "deref p = (case p of None \<Rightarrow> Inl NullDeref | Some x \<Rightarrow> Inr x)"

lemma deref_Some [simp]: "deref (Some x) = Inr x"
  by (simp add: deref_def)

text \<open>\<open>for (i = slot_count, j = 0; i > 0; i--, j++) arena[i-1] = j\<close>\<close>

definition sq_fill :: "int \<Rightarrow> int list \<Rightarrow> int list result" where
  "sq_fill slot_count arena = for_each (\<lambda>i arena. arr_set arena (i - 1) (slot_count - i)) (rev [1..slot_count]) arena"

definition SlotQueueInit :: "slot_queue \<Rightarrow> int \<Rightarrow> slot_queue result" where
  "SlotQueueInit q slot_count =
     and_then (sq_fill slot_count (replicate (nat slot_count) 0)) (\<lambda>arena.
     Inr (q\<lparr>sq_arena := arena, sq_count := slot_count, sq_index := slot_count, sq_loaded := True\<rparr>))"

definition SlotQueueMappedInit :: "slot_queue \<Rightarrow> int \<Rightarrow> slot_queue result" where
  "SlotQueueMappedInit q slot_count =
     (let min_slots = (if sq_count q sdiv 8 > 1 then sq_count q sdiv 8 else 2) in
      and_then (sq_fill slot_count (replicate (nat slot_count) 0)) (\<lambda>arena.
      Inr (q\<lparr>sq_arena := arena, sq_private := Some (DynBitMapNew False min_slots),
        sq_public := Some (DynBitMapNew False min_slots), sq_count := slot_count, sq_index := slot_count,
        sq_loaded := True, sq_mapped := True\<rparr>)))"

definition SlotQueueDestroy :: "slot_queue \<Rightarrow> slot_queue" where
  "SlotQueueDestroy q = q\<lparr>sq_private := None, sq_public := None, sq_arena := [], sq_loaded := False, sq_mapped := False\<rparr>"

definition SlotQueueReset :: "slot_queue \<Rightarrow> slot_queue result" where
  "SlotQueueReset q =
     and_then (sq_fill (sq_count q) (sq_arena q)) (\<lambda>arena.
     let q = q\<lparr>sq_arena := arena\<rparr> in
     and_then (if sq_mapped q then
         and_then (deref (sq_private q)) (\<lambda>p. and_then (DynBitMapBitClearAll p) (\<lambda>(p, _).
         and_then (deref (sq_public q)) (\<lambda>u. and_then (DynBitMapBitClearAll u) (\<lambda>(u, _).
         Inr (q\<lparr>sq_private := Some p, sq_public := Some u\<rparr>)))))
       else Inr q) (\<lambda>q.
     Inr (q\<lparr>sq_index := sq_count q\<rparr>)))"

section \<open>Marking slots busy\<close>

definition sq_test_public :: "slot_queue \<Rightarrow> int \<Rightarrow> int result" where
  "sq_test_public q slot = and_then (deref (sq_public q)) (\<lambda>u. DynBitMapBitTest u slot)"

definition sq_test_private :: "slot_queue \<Rightarrow> int \<Rightarrow> int result" where
  "sq_test_private q slot = and_then (deref (sq_private q)) (\<lambda>p. DynBitMapBitTest p slot)"

definition SlotQueueMappedSetBusy :: "slot_queue \<Rightarrow> int \<Rightarrow> (slot_queue \<times> int) result" where
  "SlotQueueMappedSetBusy q slot =
     (if \<not> sq_mapped q then Inr (q, 0)
      else and_then (sq_test_public q slot) (\<lambda>t. if t \<noteq> 0 then Inr (q, 0)
      else and_then (sq_test_private q slot) (\<lambda>t. if t \<noteq> 0 then Inr (q, 0)
      else and_then (deref (sq_public q)) (\<lambda>u. and_then (DynBitMapBitSet u slot) (\<lambda>(u, _).
      Inr (q\<lparr>sq_public := Some u\<rparr>, 1))))))"

definition SlotQueueDebugShow :: "slot_queue \<Rightarrow> unit result" where
  "SlotQueueDebugShow q = for_each (\<lambda>i _. and_then (arr_get (sq_arena q) i) (\<lambda>_. Inr ())) [0..sq_count q - 1] ()"

text \<open>\<open>for (i = 0; i <= count; i++)\<close>: the first index holding the negated slot, or -1.\<close>

primrec sq_find :: "int list \<Rightarrow> int \<Rightarrow> int list \<Rightarrow> int result" where
  "sq_find arena slot [] = Inr (- 1)"
| "sq_find arena slot (i # is) =
     and_then (arr_get arena i) (\<lambda>v. if slot * (- 1) = v then Inr i else sq_find arena slot is)"

definition SlotQueueMappedSetFree :: "slot_queue \<Rightarrow> int \<Rightarrow> (slot_queue \<times> int) result" where
  "SlotQueueMappedSetFree q slot =
     (if \<not> sq_mapped q then Inr (q, 0)
      else and_then (sq_test_public q slot) (\<lambda>t. if t = 0 then Inr (q, 0)
      else and_then (deref (sq_public q)) (\<lambda>u. and_then (DynBitMapBitClear u slot) (\<lambda>(u, _).
      let q = q\<lparr>sq_public := Some u\<rparr> in
      and_then (sq_find (sq_arena q) slot [0..sq_count q]) (\<lambda>slot_idx.
      and_then (assert_c (slot_idx \<ge> 0)) (\<lambda>_.
      and_then (if slot_idx \<le> sq_index q then
          and_then (arr_set (sq_arena q) slot_idx slot) (\<lambda>arena. Inr (q\<lparr>sq_arena := arena\<rparr>))
        else
          and_then (for_each (\<lambda>i arena. and_then (arr_get arena (i + 1)) (\<lambda>v. arr_set arena i v))
            [slot_idx..sq_index q] (sq_arena q)) (\<lambda>arena.
          and_then (arr_set arena (sq_index q + 1) slot) (\<lambda>arena.
          Inr (q\<lparr>sq_index := sq_index q + 1, sq_arena := arena\<rparr>)))) (\<lambda>q.
      and_then (SlotQueueDebugShow q) (\<lambda>_. Inr (q, 1)))))))))"

section \<open>Taking and returning slots\<close>

text \<open>
  \<open>while (slot_count-- >= 0)\<close> of \<open>SlotQueueGrab\<close> with the number of rounds left; the flag tells that the
  function returns from inside the loop.
\<close>

primrec sq_grab_loop :: "nat \<Rightarrow> slot_queue \<Rightarrow> int \<Rightarrow> (slot_queue \<times> int \<times> bool) result" where
  "sq_grab_loop 0 q slot = Inr (q, slot, False)"
| "sq_grab_loop (Suc k) q slot =
     (let slot_cur = sq_index q - 1; q = q\<lparr>sq_index := slot_cur\<rparr> in
      and_then (arr_get (sq_arena q) slot_cur) (\<lambda>slot.
      if slot_cur < 0 then Inr (q, - 1, True)
      else if sq_mapped q then
        and_then (sq_test_public q slot) (\<lambda>t.
        if t \<noteq> 0 then
          and_then (arr_set (sq_arena q) slot_cur (slot * (- 1))) (\<lambda>arena.
          sq_grab_loop k (q\<lparr>sq_arena := arena\<rparr>) slot)
        else
          and_then (sq_test_private q slot) (\<lambda>t.
          and_then (assert_c (t = 0)) (\<lambda>_.
          and_then (arr_set (sq_arena q) slot_cur 9999) (\<lambda>arena.
          Inr (q\<lparr>sq_arena := arena\<rparr>, slot, False)))))
      else Inr (q, slot, False)))"

definition SlotQueueGrab :: "slot_queue \<Rightarrow> (slot_queue \<times> int) result" where
  "SlotQueueGrab q =
     (if sq_index q \<le> 0 then Inr (q, - 1)
      else if \<not> sq_mapped q then
        and_then (arr_get (sq_arena q) (sq_index q - 1)) (\<lambda>slot. Inr (q\<lparr>sq_index := sq_index q - 1\<rparr>, slot))
      else
        and_then (sq_grab_loop (nat (sq_count q + 1)) q 0) (\<lambda>(q, slot, returned).
        if returned then Inr (q, slot)
        else and_then (deref (sq_private q)) (\<lambda>p. and_then (DynBitMapBitSet p slot) (\<lambda>(p, _).
        Inr (q\<lparr>sq_private := Some p\<rparr>, slot)))))"

text \<open>The walk of \<open>SlotQueueFree\<close> to the next entry that is not negative.\<close>

primrec sq_walk :: "nat \<Rightarrow> int list \<Rightarrow> int \<Rightarrow> int result" where
  "sq_walk 0 arena index = Inr index"
| "sq_walk (Suc k) arena index =
     and_then (arr_get arena index) (\<lambda>v. if v < 0 then sq_walk k arena (index + 1) else Inr index)"

definition SlotQueueFree :: "slot_queue \<Rightarrow> int \<Rightarrow> slot_queue result" where
  "SlotQueueFree q slot =
     (if \<not> sq_mapped q then
        and_then (arr_set (sq_arena q) (sq_index q) slot) (\<lambda>arena.
        Inr (q\<lparr>sq_arena := arena, sq_index := sq_index q + 1\<rparr>))
      else
        and_then (sq_test_public q slot) (\<lambda>t.
        if t \<noteq> 0 then
          and_then (sq_test_private q slot) (\<lambda>t. and_then (assert_c (t = 0)) (\<lambda>_.
          and_then (SlotQueueMappedSetFree q slot) (\<lambda>(q, _). Inr q)))
        else
          and_then (sq_walk (nat (sq_count q + 1)) (sq_arena q) (sq_index q)) (\<lambda>index.
          and_then (arr_set (sq_arena q) index slot) (\<lambda>arena.
          let q = q\<lparr>sq_arena := arena, sq_index := index + 1\<rparr> in
          and_then (sq_test_private q slot) (\<lambda>t. and_then (assert_c (t \<noteq> 0)) (\<lambda>_.
          and_then (deref (sq_private q)) (\<lambda>p. and_then (DynBitMapBitClear p slot) (\<lambda>(p, _).
          Inr (q\<lparr>sq_private := Some p\<rparr>)))))))))"

section \<open>Filling the arena\<close>

lemma sq_fill_steps:
  assumes "length arena = n" "m \<le> n"
  shows "for_each (\<lambda>i arena. arr_set arena (i - 1) (int n - i)) (rev [int n - int m + 1..int n]) arena =
    Inr (take (n - m) arena @ rev [0..int m - 1])"
  using assms(2)
proof (induction m)
  case (Suc m)
  have "[int n - int (Suc m) + 1..int n] = (int n - int m) # [int n - int m + 1..int n]"
    using upto_rec1 [of "int n - int m" "int n"] Suc.prems by simp
  moreover have "rev [0..int (Suc m) - 1] = int m # rev [0..int m - 1]"
    using upto_rec2 [of 0 "int m"] by simp
  moreover have "arr_set (take (n - m) arena @ rev [0..int m - 1]) (int n - int m - 1) (int m) =
      Inr (take (n - Suc m) arena @ int m # rev [0..int m - 1])"
  proof -
    have k: "nat (int n - int m - 1) = n - Suc m" "0 \<le> int n - int m - 1" using Suc.prems by auto
    have "take (n - m) arena = take (n - Suc m) arena @ [arena ! (n - Suc m)]"
      using Suc.prems assms(1) by (metis Suc_diff_Suc Suc_le_lessD diff_less take_Suc_conv_app_nth zero_less_Suc order.strict_trans2)
    then show ?thesis
      unfolding arr_set_def k(1) using k(2) Suc.prems assms(1) by (simp add: list_update_append)
  qed
  ultimately show ?case using Suc by (simp add: for_each_append)
qed (use assms in simp)

lemma sq_fill_eq: "length arena = nat n \<Longrightarrow> 0 \<le> n \<Longrightarrow> sq_fill n arena = Inr (rev [0..n - 1])"
  using sq_fill_steps [of arena "nat n" "nat n"] by (simp add: sq_fill_def)

section \<open>Runs\<close>

text \<open>
  The life of a slot queue whose slots nobody marks busy: \<open>sq_run n m (q, out)\<close> holds of the states \<open>q\<close>
  that follow the initialisation (mapped or not) with \<open>n\<close> slots, \<open>out\<close> being the slots that were
  grabbed and not given back. Only a slot that is out is given back.
\<close>

text \<open>Slot counts are values of \<open>int\<close>.\<close>

inductive sq_run :: "int \<Rightarrow> bool \<Rightarrow> slot_queue \<times> int set \<Rightarrow> bool" for n :: int and m :: bool where
  init: "0 \<le> n \<Longrightarrow> n < 2 ^ 31 \<Longrightarrow> \<not> m \<Longrightarrow> \<not> sq_mapped q0 \<Longrightarrow> SlotQueueInit q0 n = Inr q \<Longrightarrow> sq_run n m (q, {})"
| mapped_init: "0 \<le> n \<Longrightarrow> n < 2 ^ 31 \<Longrightarrow> sq_count q0 < 2 ^ 31 \<Longrightarrow> m \<Longrightarrow> SlotQueueMappedInit q0 n = Inr q \<Longrightarrow> sq_run n m (q, {})"
| grab: "sq_run n m (q, out) \<Longrightarrow> SlotQueueGrab q = Inr (q', s) \<Longrightarrow> s \<noteq> - 1 \<Longrightarrow> sq_run n m (q', insert s out)"
| grab_none: "sq_run n m (q, out) \<Longrightarrow> SlotQueueGrab q = Inr (q', - 1) \<Longrightarrow> sq_run n m (q', out)"
| free: "sq_run n m (q, out) \<Longrightarrow> s \<in> out \<Longrightarrow> SlotQueueFree q s = Inr q' \<Longrightarrow> sq_run n m (q', out - {s})"

text \<open>The free slots are those below the index; in the mapped form the private map is \<open>out\<close>.\<close>

definition sq_free_slots :: "slot_queue \<Rightarrow> int list" where
  "sq_free_slots q = take (nat (sq_index q)) (sq_arena q)"

definition sq_maps :: "slot_queue \<Rightarrow> int set \<Rightarrow> int set \<Rightarrow> bool" where
  "sq_maps q out busy \<longleftrightarrow> (\<exists>p u. sq_private q = Some p \<and> sq_public q = Some u \<and> dbm_inv p \<and> dbm_inv u \<and>
     dbm_els p = out \<and> dbm_els u = busy)"

definition sq_inv :: "int \<Rightarrow> bool \<Rightarrow> slot_queue \<Rightarrow> int set \<Rightarrow> bool" where
  "sq_inv n m q out \<longleftrightarrow> n < 2 ^ 31 \<and> sq_mapped q = m \<and> sq_count q = n \<and> length (sq_arena q) = nat n \<and> 0 \<le> sq_index q \<and> sq_index q \<le> n \<and>
     distinct (sq_free_slots q) \<and> set (sq_free_slots q) \<inter> out = {} \<and> set (sq_free_slots q) \<union> out = {0..<n} \<and>
     (\<forall>v \<in> set (sq_arena q). 0 \<le> v) \<and> (m \<longrightarrow> sq_maps q out {})"

lemma sq_test_maps:
  assumes "sq_maps q out busy" "0 \<le> s"
  shows "sq_test_public q s = Inr (c_bool (s \<in> busy))" "sq_test_private q s = Inr (c_bool (s \<in> out))"
  using assms bm.tst_law by (auto simp: sq_maps_def sq_test_public_def sq_test_private_def)

lemma sq_free_count:
  assumes "sq_inv n m q out"
  shows "sq_index q = n - int (card out)"
proof -
  have o: "set (sq_free_slots q) \<inter> out = {}" "set (sq_free_slots q) \<union> out = {0..<n}" "distinct (sq_free_slots q)"
    "length (sq_free_slots q) = nat (sq_index q)"
    using assms by (auto simp: sq_inv_def sq_free_slots_def)
  have "finite out" using o(2) by (metis finite_Un finite_atLeastLessThan_int)
  then have "card (set (sq_free_slots q) \<union> out) = nat (sq_index q) + card out"
    using o(1,3,4) by (simp add: card_Un_disjoint distinct_card)
  then have "nat n = nat (sq_index q) + card out" unfolding o(2) by simp
  moreover have "0 \<le> sq_index q" "sq_index q \<le> n" using assms by (auto simp: sq_inv_def)
  ultimately show ?thesis by arith
qed

lemma sq_index_zero:
  assumes "sq_inv n m q out"
  shows "sq_index q = 0 \<longleftrightarrow> out = {0..<n}"
proof
  assume "sq_index q = 0"
  then have "sq_free_slots q = []" by (simp add: sq_free_slots_def)
  then show "out = {0..<n}" using assms by (auto simp: sq_inv_def)
next
  assume "out = {0..<n}"
  moreover have "set (sq_free_slots q) \<inter> out = {}" "set (sq_free_slots q) \<union> out = {0..<n}"
    using assms by (auto simp: sq_inv_def)
  ultimately have "set (sq_free_slots q) = {}" by (metis Un_upper1 inf.absorb1)
  moreover have "length (sq_free_slots q) = nat (sq_index q)"
    using assms unfolding sq_inv_def sq_free_slots_def by (metis length_take min.absorb2 nat_mono)
  ultimately show "sq_index q = 0" using assms by (simp add: sq_inv_def)
qed

lemma sq_free_slots_top:
  assumes "sq_inv n m q out" "0 < sq_index q"
  shows "sq_free_slots q = take (nat (sq_index q - 1)) (sq_arena q) @ [sq_arena q ! nat (sq_index q - 1)]"
    "nat (sq_index q - 1) < length (sq_arena q)"
proof -
  have k: "nat (sq_index q) = Suc (nat (sq_index q - 1))" using assms(2) by simp
  show l: "nat (sq_index q - 1) < length (sq_arena q)" using assms by (auto simp: sq_inv_def)
  then show "sq_free_slots q = take (nat (sq_index q - 1)) (sq_arena q) @ [sq_arena q ! nat (sq_index q - 1)]"
    unfolding sq_free_slots_def k by (simp add: take_Suc_conv_app_nth)
qed

lemma sq_grab_step:
  assumes inv: "sq_inv n m q out" and some: "out \<noteq> {0..<n}"
  defines "s \<equiv> sq_arena q ! nat (sq_index q - 1)"
  shows "\<exists>q'. SlotQueueGrab q = Inr (q', s) \<and> s \<in> {0..<n} - out \<and> sq_inv n m q' (insert s out)"
proof -
  have pos: "0 < sq_index q" using sq_index_zero [OF inv] some inv by (auto simp: sq_inv_def)
  define k where "k = nat (sq_index q - 1)"
  note top = sq_free_slots_top [OF inv pos, folded k_def, folded s_def [folded k_def]]
  have k: "sq_index q - 1 = int k" using pos by (simp add: k_def)
  note o = inv [unfolded sq_inv_def]
  have s: "s \<in> {0..<n} - out" using o top(1) by (auto simp: s_def k_def)
  have get: "arr_get (sq_arena q) (int k) = Inr s" using top(2) by (simp add: arr_get_def s_def k_def [symmetric])
  have frees: "set (take k (sq_arena q)) \<inter> insert s out = {}" "set (take k (sq_arena q)) \<union> insert s out = {0..<n}"
    "distinct (take k (sq_arena q))"
    using o unfolding top(1) by (auto simp: s_def k_def)
  show ?thesis
  proof (cases m)
    case False
    define q' where "q' = q\<lparr>sq_index := int k\<rparr>"
    have "SlotQueueGrab q = Inr (q', s)"
      using pos False o get by (simp add: SlotQueueGrab_def k q'_def)
    moreover have "sq_inv n m q' (insert s out)"
      using o frees False k pos unfolding sq_inv_def q'_def sq_free_slots_def by simp
    ultimately show ?thesis using s by blast
  next
    case True
    then have maps: "sq_maps q out {}" using o by simp
    then obtain p u where pu: "sq_private q = Some p" "sq_public q = Some u" "dbm_inv p" "dbm_els p = out"
      by (auto simp: sq_maps_def)
    have t: "sq_test_public q s = Inr 0" "sq_test_private q s = Inr 0"
      using sq_test_maps [OF maps, of s] s by simp_all
    obtain p' r where p': "DynBitMapBitSet p s = Inr (p', r)" "dbm_inv p'" "dbm_els p' = insert s out"
      using bm.ins_law [OF pu(3), of s] s pu(4) o by auto
    define q' where "q' = q\<lparr>sq_index := int k, sq_arena := (sq_arena q)[k := 9999], sq_private := Some p'\<rparr>"
    obtain j where j: "nat (n + 1) = Suc j" using o pos by (cases "nat (n + 1)") auto
    have "sq_test_public (q\<lparr>sq_index := int k\<rparr>) s = Inr 0" "sq_test_private (q\<lparr>sq_index := int k\<rparr>) s = Inr 0"
      using t by (simp_all add: sq_test_public_def sq_test_private_def)
    then have "SlotQueueGrab q = Inr (q', s)"
      using pos True o get pu p'(1) top(2) by (simp add: SlotQueueGrab_def j k Let_def q'_def arr_set_def)
    moreover have "sq_inv n m q' (insert s out)"
      using o frees True k pos p' maps unfolding sq_inv_def q'_def sq_free_slots_def sq_maps_def
      by (auto dest: in_set_takeD subsetD [OF set_update_subset_insert])
    ultimately show ?thesis using s by blast
  qed
qed

lemma sq_free_step:
  assumes inv: "sq_inv n m q out" and s: "s \<in> out"
  shows "\<exists>q'. SlotQueueFree q s = Inr q' \<and> sq_inv n m q' (out - {s})"
proof -
  note o = inv [unfolded sq_inv_def]
  have fin: "finite out" using o by (metis finite_Un finite_atLeastLessThan_int)
  then have "0 < card out" using s by (auto simp: card_gt_0_iff)
  then have less: "sq_index q < n" using sq_free_count [OF inv] by linarith
  define k where "k = nat (sq_index q)"
  have k: "sq_index q = int k" "k < length (sq_arena q)" using o less by (auto simp: k_def)
  have sn: "s \<in> {0..<n}" using o s by blast
  have set: "arr_set (sq_arena q) (int k) s = Inr ((sq_arena q)[k := s])" using k(2) by (simp add: arr_set_def)
  have t: "nat (int k + 1) = Suc k" by simp
  have tk: "take (Suc k) ((sq_arena q)[k := s]) = take k (sq_arena q) @ [s]"
    using k(2) by (simp add: take_Suc_conv_app_nth)
  have frees: "distinct (take k (sq_arena q) @ [s])" "set (take k (sq_arena q) @ [s]) \<inter> (out - {s}) = {}"
    "set (take k (sq_arena q) @ [s]) \<union> (out - {s}) = {0..<n}"
    using o s by (auto simp: sq_free_slots_def k(1))
  have nonneg: "\<forall>v \<in> set ((sq_arena q)[k := s]). 0 \<le> v"
    using o sn by (auto dest: subsetD [OF set_update_subset_insert])
  show ?thesis
  proof (cases m)
    case False
    then show ?thesis
      using o set tk frees nonneg less k sn by (simp add: SlotQueueFree_def sq_inv_def sq_free_slots_def t)
  next
    case True
    then have maps: "sq_maps q out {}" using o by simp
    then obtain p u where pu: "sq_private q = Some p" "sq_public q = Some u" "dbm_inv p" "dbm_els p = out"
      by (auto simp: sq_maps_def)
    have t1: "sq_test_public q s = Inr 0" "sq_test_private q s = Inr 1"
      using sq_test_maps [OF maps, of s] s sn by simp_all
    obtain p' r where p': "DynBitMapBitClear p s = Inr (p', r)" "dbm_inv p'" "dbm_els p' = out - {s}"
      using bm.del_law [OF pu(3), of s] sn pu(4) by auto
    obtain j where j: "nat (n + 1) = Suc j" using less k by (cases "nat (n + 1)") auto
    have "0 \<le> sq_arena q ! k" using o k(2) by simp
    then have w: "sq_walk (Suc j) (sq_arena q) (int k) = Inr (int k)" using k(2) by (simp add: arr_get_def)
    define q' where "q' = q\<lparr>sq_arena := (sq_arena q)[k := s], sq_index := int k + 1, sq_private := Some p'\<rparr>"
    have "sq_test_private (q\<lparr>sq_arena := (sq_arena q)[k := s], sq_index := int k + 1\<rparr>) s = Inr 1"
      using t1 by (simp add: sq_test_private_def)
    then have "SlotQueueFree q s = Inr q'"
      using True o t1 w set pu p'(1) by (simp add: SlotQueueFree_def j k(1) Let_def q'_def)
    moreover have "sq_inv n m q' (out - {s})"
      using o True tk frees nonneg less k p' maps
      unfolding sq_inv_def q'_def sq_free_slots_def sq_maps_def by (auto simp: t)
    ultimately show ?thesis by blast
  qed
qed

lemma sdiv_le: "a sdiv 8 \<le> max 0 a" for a :: int
proof (cases "0 \<le> a")
  case True
  then show ?thesis by (simp add: sdiv_nonneg)
next
  case False
  then show ?thesis by (auto simp: signed_divide_int_def sgn_if pos_imp_zdiv_nonneg_iff)
qed

lemma sq_init_inv:
  assumes "0 \<le> n" "n < 2 ^ 31"
  shows "\<not> sq_mapped q0 \<Longrightarrow> SlotQueueInit q0 n = Inr q \<Longrightarrow> sq_inv n False q {}"
    "sq_count q0 < 2 ^ 31 \<Longrightarrow> SlotQueueMappedInit q0 n = Inr q \<Longrightarrow> sq_inv n True q {}"
proof -
  have f: "sq_fill n (replicate (nat n) 0) = Inr (rev [0..n - 1])"
    by (rule sq_fill_eq) (use assms in simp_all)
  have d: "distinct (rev [0..n - 1])" "set (rev [0..n - 1]) = {0..<n}" "length (rev [0..n - 1]) = nat n"
    "take (nat n) (rev [0..n - 1]) = rev [0..n - 1]" "\<forall>v \<in> set (rev [0..n - 1]). 0 \<le> v" by auto
  show "SlotQueueInit q0 n = Inr q \<Longrightarrow> sq_inv n False q {}" if "\<not> sq_mapped q0"
  proof -
    assume "SlotQueueInit q0 n = Inr q"
    then have q: "q = q0\<lparr>sq_arena := rev [0..n - 1], sq_count := n, sq_index := n, sq_loaded := True\<rparr>"
      by (simp add: SlotQueueInit_def f)
    show ?thesis unfolding q sq_inv_def sq_free_slots_def using d assms that by (simp del: set_rev)
  qed
  have b: "dbm_inv (DynBitMapNew False g)" "dbm_els (DynBitMapNew False g) = {}" if "2 \<le> g" "g < 2 ^ 62" for g
    using that DynBitMapInit_inv [of g False] by (simp_all add: DynBitMapNew_def)
  show "SlotQueueMappedInit q0 n = Inr q \<Longrightarrow> sq_inv n True q {}" if "sq_count q0 < 2 ^ 31"
  proof -
    assume i: "SlotQueueMappedInit q0 n = Inr q"
    define g where "g = (if sq_count q0 sdiv 8 > 1 then sq_count q0 sdiv 8 else 2)"
    have "2 \<le> g" "g < 2 ^ 62" using that sdiv_le [of "sq_count q0"] by (auto simp: g_def)
    note b = b [OF this]
    have q: "q = q0\<lparr>sq_arena := rev [0..n - 1], sq_private := Some (DynBitMapNew False g),
        sq_public := Some (DynBitMapNew False g), sq_count := n, sq_index := n, sq_loaded := True, sq_mapped := True\<rparr>"
      using i by (simp add: SlotQueueMappedInit_def f Let_def flip: g_def)
    show ?thesis unfolding q sq_inv_def sq_free_slots_def sq_maps_def using d assms b by (simp del: set_rev)
  qed
qed

lemma sq_grab_none: "sq_inv n m q {0..<n} \<Longrightarrow> SlotQueueGrab q = Inr (q, - 1)"
  using sq_index_zero [of n m q "{0..<n}"] by (simp add: SlotQueueGrab_def)

lemma sq_run_inv: "sq_run n m (q, out) \<Longrightarrow> sq_inv n m q out"
proof (induction "(q, out)" arbitrary: q out rule: sq_run.induct)
  case (grab q out q' s)
  show ?case
  proof (cases "out = {0..<n}")
    case True
    then show ?thesis using grab sq_grab_none by auto
  next
    case False
    then show ?thesis using sq_grab_step [OF grab(2) False] grab(3) by auto
  qed
next
  case (grab_none q out q')
  show ?case
  proof (cases "out = {0..<n}")
    case True
    then show ?thesis using grab_none sq_grab_none by auto
  next
    case False
    then show ?thesis using sq_grab_step [OF grab_none(2) False] grab_none(3) by auto
  qed
next
  case (free q out s q')
  then show ?case using sq_free_step [of n m q out s] by auto
qed (use sq_init_inv in auto)

text \<open>
  C16: a slot queue, mapped or not, with a number of slots that an \<open>int\<close> holds, whose slots are returned only while they are out and never marked
  busy, hands out each slot to one owner at a time. After any run of grabs and returns the free slots
  in the arena and the slots that are out are a partition of 0..n-1, grabbing fails exactly when all
  are out, and otherwise yields a slot that is not out; every slot that is out can be returned; and
  no operation leaves the arena or fails an assertion.
\<close>

theorem sq_exclusive:
  assumes "sq_run n m (q, out)"
  shows "distinct (sq_free_slots q) \<and> set (sq_free_slots q) \<inter> out = {} \<and> set (sq_free_slots q) \<union> out = {0..<n} \<and>
    (\<exists>q' s. SlotQueueGrab q = Inr (q', s) \<and>
       (if out = {0..<n} then s = - 1 \<and> q' = q else s \<in> {0..<n} - out)) \<and>
    list_all (\<lambda>s. \<exists>q'. SlotQueueFree q s = Inr q') (filter (\<lambda>s. s \<in> out) [0..n - 1])"
proof -
  note inv = sq_run_inv [OF assms]
  have "\<exists>q' s. SlotQueueGrab q = Inr (q', s) \<and> (if out = {0..<n} then s = - 1 \<and> q' = q else s \<in> {0..<n} - out)"
    using sq_grab_none [of n m q] sq_grab_step [OF inv] inv by (cases "out = {0..<n}") auto
  moreover have "list_all (\<lambda>s. \<exists>q'. SlotQueueFree q s = Inr q') (filter (\<lambda>s. s \<in> out) [0..n - 1])"
    using sq_free_step [OF inv] by (auto simp: list.pred_set)
  ultimately show ?thesis using inv by (simp only: sq_inv_def)
qed

definition sq_zero :: slot_queue where
  "sq_zero = \<lparr>sq_private = None, sq_public = None, sq_arena = [], sq_index = 0, sq_count = 0,
     sq_loaded = False, sq_mapped = False\<rparr>"

definition sq_two :: slot_queue where
  "sq_two = (case and_then (SlotQueueMappedInit sq_zero 2) SlotQueueGrab of Inl _ \<Rightarrow> sq_zero | Inr (q, s) \<Rightarrow> q)"

lemma sq_two_run: "sq_run 2 True (sq_two, {0})"
proof -
  have "case SlotQueueMappedInit sq_zero 2 of Inl _ \<Rightarrow> False
      | Inr q \<Rightarrow> (case SlotQueueGrab q of Inl _ \<Rightarrow> False | Inr (q', s) \<Rightarrow> s = 0 \<and> sq_two = q')"
    by code_simp
  then obtain q where q: "SlotQueueMappedInit sq_zero 2 = Inr q" "SlotQueueGrab q = Inr (sq_two, 0)"
    by (auto split: sum.splits)
  have "sq_run 2 True (q, {})" by (rule sq_run.mapped_init [OF _ _ _ _ q(1)]) (simp_all add: sq_zero_def)
  from sq_run.grab [OF this q(2)] show ?thesis by simp
qed

theorem sq_exclusive_witness:
  "distinct (sq_free_slots sq_two) \<and> set (sq_free_slots sq_two) \<inter> {0} = {} \<and> set (sq_free_slots sq_two) \<union> {0} = {0..<2} \<and>
    (\<exists>q' s. SlotQueueGrab sq_two = Inr (q', s) \<and>
       (if {0} = {0..<2 :: int} then s = - 1 \<and> q' = sq_two else s \<in> {0..<2} - {0})) \<and>
    list_all (\<lambda>s. \<exists>q'. SlotQueueFree sq_two s = Inr q') (filter (\<lambda>s. s \<in> {0}) [0..2 - 1])"
  by (rule sq_exclusive [OF sq_two_run])

section \<open>Slots marked busy\<close>

lemma sq_find_missing:
  "list_all (\<lambda>v. 0 \<le> v) arena \<Longrightarrow> 0 < s \<Longrightarrow> 0 \<le> i \<Longrightarrow> nat i \<le> length arena \<Longrightarrow>
     sq_find arena s [i..int (length arena)] = Inl OutOfBounds"
proof (induction "length arena - nat i" arbitrary: i)
  case 0
  then have i: "i = int (length arena)" by linarith
  have "[int (length arena)..int (length arena)] = [int (length arena)]" by simp
  then show ?case unfolding i by (simp add: arr_get_def)
next
  case (Suc k)
  then have l: "nat i < length arena" by linarith
  then have "[i..int (length arena)] = i # [i + 1..int (length arena)]" by (intro upto_rec1) linarith
  moreover have "sq_find arena s [i + 1..int (length arena)] = Inl OutOfBounds"
    using Suc.hyps(2) Suc.prems l by (intro Suc.hyps(1)) linarith+
  moreover have "0 \<le> arena ! nat i" using Suc.prems(1) l by (simp add: list_all_length)
  ultimately show ?case using l Suc.prems by simp
qed

lemma sq_set_busy:
  assumes "sq_maps q out busy" "0 \<le> s" "s \<notin> out" "s \<notin> busy" "sq_mapped q" "s < 2 ^ 62"
  shows "\<exists>u. SlotQueueMappedSetBusy q s = Inr (q\<lparr>sq_public := Some u\<rparr>, 1) \<and> sq_maps (q\<lparr>sq_public := Some u\<rparr>) out (insert s busy)"
proof -
  obtain p u where pu: "sq_private q = Some p" "sq_public q = Some u" "dbm_inv p" "dbm_els p = out" "dbm_inv u" "dbm_els u = busy"
    using assms(1) by (auto simp: sq_maps_def)
  obtain u' r where "DynBitMapBitSet u s = Inr (u', r)" "dbm_inv u'" "dbm_els u' = insert s busy"
    using bm.ins_law [OF pu(5) assms(2,6)] pu(6) by auto
  then show ?thesis
    using sq_test_maps [OF assms(1,2)] assms(3-5) pu by (auto simp: SlotQueueMappedSetBusy_def sq_maps_def)
qed

text \<open>When only busy slots are left, the search of \<open>SlotQueueGrab\<close> goes below the arena.\<close>

lemma sq_grab_all_busy:
  "sq_maps q out busy \<Longrightarrow> sq_mapped q \<Longrightarrow> 0 \<le> sq_index q \<Longrightarrow> nat (sq_index q) \<le> length (sq_arena q) \<Longrightarrow>
   set (take (nat (sq_index q)) (sq_arena q)) \<subseteq> busy \<Longrightarrow> \<forall>s \<in> busy. 0 \<le> s \<Longrightarrow> nat (sq_index q) < k \<Longrightarrow>
   sq_grab_loop k q slot = Inl OutOfBounds"
proof (induction k arbitrary: q slot)
  case (Suc k)
  show ?case
  proof (cases "sq_index q = 0")
    case True
    then show ?thesis by (simp add: arr_get_def)
  next
    case False
    define j where "j = nat (sq_index q - 1)"
    have j: "sq_index q = int j + 1" "j < length (sq_arena q)" using Suc.prems False by (auto simp: j_def)
    define s where "s = sq_arena q ! j"
    have tk: "take (Suc j) (sq_arena q) = take j (sq_arena q) @ [s]"
      using j(2) by (simp add: s_def take_Suc_conv_app_nth)
    have "nat (int j + 1) = Suc j" by simp
    then have sub: "set (take j (sq_arena q)) \<subseteq> busy" "s \<in> busy" "0 \<le> s"
      using Suc.prems(5,6) j(1) tk by auto
    define q' where "q' = q\<lparr>sq_index := int j, sq_arena := (sq_arena q)[j := s * (- 1)]\<rparr>"
    have "sq_maps q' out busy" using Suc.prems(1) by (simp add: sq_maps_def q'_def)
    then have "sq_grab_loop k q' s = Inl OutOfBounds"
      using Suc.prems j sub by (intro Suc.IH) (simp_all add: q'_def)
    moreover have "sq_test_public (q\<lparr>sq_index := int j\<rparr>) s = Inr 1"
      using sq_test_maps(1) [of "q\<lparr>sq_index := int j\<rparr>" out busy s] Suc.prems(1) sub by (simp add: sq_maps_def)
    ultimately show ?thesis
      using Suc.prems(2) j sub by (simp add: arr_get_def arr_set_def s_def q'_def)
  qed
qed simp

text \<open>
  The busy map breaks the queue. On a mapped queue, marking a free slot other than 0 busy and
  freeing it again before any grab has negated its entry reads past the arena; and if the last free
  slot is marked busy the next grab reads before it.
\<close>

theorem sq_busy_faults:
  assumes "sq_run n True (q, out)" "0 < n" "s \<in> {0..<n} - out"
  shows "(s = 0 \<or> and_then (SlotQueueMappedSetBusy q s) (\<lambda>(q, _). SlotQueueMappedSetFree q s) = Inl OutOfBounds) \<and>
    (out \<noteq> {0..<n} - {s} \<or> and_then (SlotQueueMappedSetBusy q s) (\<lambda>(q, _). SlotQueueGrab q) = Inl OutOfBounds)"
proof -
  note inv = sq_run_inv [OF assms(1)]
  note o = inv [unfolded sq_inv_def]
  obtain u where b: "SlotQueueMappedSetBusy q s = Inr (q\<lparr>sq_public := Some u\<rparr>, 1)" "sq_maps (q\<lparr>sq_public := Some u\<rparr>) out {s}"
    using sq_set_busy [of q out "{}" s] o assms(3) by auto
  have s0: "0 \<le> s" using assms(3) by simp
  define q1 where "q1 = q\<lparr>sq_public := Some u\<rparr>"
  have q1: "sq_mapped q1" "sq_count q1 = n" "sq_arena q1 = sq_arena q" "sq_index q1 = sq_index q" "sq_public q1 = Some u"
    using o by (simp_all add: q1_def)
  have u: "dbm_inv u" "dbm_els u = {s}" using b(2) by (auto simp: sq_maps_def)
  have "SlotQueueMappedSetFree q1 s = Inl OutOfBounds" if "s \<noteq> 0"
  proof -
    obtain u' r where "DynBitMapBitClear u s = Inr (u', r)" using bm.del_law [OF u(1) s0] by blast
    moreover have "sq_find (sq_arena q) s [0..n] = Inl OutOfBounds"
      using sq_find_missing [of "sq_arena q" s 0] o that s0 assms(2) by (simp add: list.pred_set)
    moreover have "sq_test_public q1 s = Inr 1" using sq_test_maps [OF b(2) s0] by (simp add: q1_def)
    ultimately show ?thesis using q1 by (simp add: SlotQueueMappedSetFree_def Let_def)
  qed
  moreover have "SlotQueueGrab q1 = Inl OutOfBounds" if "out = {0..<n} - {s}"
  proof -
    have "s \<in> {0..<n}" "s \<notin> out" using assms(3) by simp_all
    then have "out \<noteq> {0..<n}" by metis
    then have "sq_index q \<noteq> 0" by (simp only: sq_index_zero [OF inv]) simp
    moreover have "0 \<le> sq_index q" using o by simp
    ultimately have pos: "0 < sq_index q" by linarith
    have disj: "set (sq_free_slots q) \<inter> out = {}" "set (sq_free_slots q) \<union> out = {0..<n}" using o by simp_all
    have "set (sq_free_slots q) \<subseteq> {s}"
    proof
      fix x assume x: "x \<in> set (sq_free_slots q)"
      then have "x \<in> {0..<n}" "x \<notin> out" using disj by (blast, blast)
      then show "x \<in> {s}" unfolding that by simp
    qed
    then have sub: "set (take (nat (sq_index q1)) (sq_arena q1)) \<subseteq> {s}" by (simp add: sq_free_slots_def q1)
    have "sq_grab_loop (nat (n + 1)) q1 0 = Inl OutOfBounds"
      by (rule sq_grab_all_busy [OF b(2) [folded q1_def] q1(1) _ _ sub]) (use o q1 s0 in \<open>simp_all add: nat_mono\<close>)
    then show ?thesis using q1 pos by (simp add: SlotQueueGrab_def)
  qed
  ultimately show ?thesis unfolding b(1) q1_def by auto
qed

theorem sq_busy_faults_witness:
  "and_then (SlotQueueMappedSetBusy sq_two 1) (\<lambda>(q, _). SlotQueueMappedSetFree q 1) = Inl OutOfBounds \<and>
   and_then (SlotQueueMappedSetBusy sq_two 1) (\<lambda>(q, _). SlotQueueGrab q) = Inl OutOfBounds"
proof -
  have "{0} = {0..<2 :: int} - {1}" by auto
  then show ?thesis using sq_busy_faults [OF sq_two_run, of 1] by simp
qed

end
