(* ===== verification/MemArena.thy ===== *)
theory MemArena
  imports DLinkedListProps SlotQueue
begin

text \<open>
  The memory arena of libbrb_core/data/core/mem_arena.c: objects of one size, addressed by number. An
  array of pointers holds the blocks of \<open>slot_count\<close> objects each; a block is allocated when its first
  object is taken, carries a header (canaries, a bitmap of the objects in use, a busy count, a node in the
  arena's list of blocks) and is freed when its busy count drops to 0. Block addresses are numbers, so that
  the pointers the arena hands out are computed as in the source; the address \<open>calloc\<close> returns and the
  contents \<open>realloc\<close> leaves in new array elements are arguments. Sizes, products and positions are computed
  in \<open>long\<close> and \<open>size_t\<close> as in the source; the counters of blocks and users (\<open>size[MEMARENA_SIZE_CURRENT]\<close>, \<open>busy_count\<close>),
  which would take 2 ^ 63 calls to overflow, are integers.
\<close>

section \<open>State\<close>

record ma_block =
  mb_canary00 :: int
  mb_bitmap :: "dbm option"
  mb_slot_id :: int
  mb_busy_count :: int
  mb_canary01 :: int
  mb_bytes :: "8 word list"

record ma_mem =
  am_nodes :: dheap
  am_blocks :: "addr \<rightharpoonup> ma_block"

record mem_arena =
  ma_held :: bool
  ma_list :: dlist
  ma_current :: int
  ma_initial :: int
  ma_capacity :: int
  ma_slot_size :: int
  ma_slot_count :: int
  ma_data :: "addr list"
  ma_thread_safe :: bool

text \<open>
  The array \<open>size\<close>, indexed by \<open>MemArenaSizeTypes\<close>, and the constants of \<open>MemArenaSlotTypes\<close>. The header of a block
  takes 72 bytes in the LP64 layout; its node is at offset 8.
\<close>

definition ma_sizes :: "mem_arena \<Rightarrow> int list" where
  "ma_sizes a = [ma_current a, ma_initial a, ma_capacity a]"

definition MEMARENA_SLOT_SIZE :: int where "MEMARENA_SLOT_SIZE = 0"
definition MEMARENA_SLOT_COUNT :: int where "MEMARENA_SLOT_COUNT = 1"

definition sizeof_header :: nat where "sizeof_header = 72"

definition header_node :: "addr \<Rightarrow> addr" where "header_node b = b + 8"

section \<open>Loads and stores through a block pointer\<close>

definition get_block :: "ma_mem \<Rightarrow> addr \<Rightarrow> ma_block result" where
  "get_block m b = (if b = NULL then Inl NullDeref
     else case am_blocks m b of None \<Rightarrow> Inl BadPtr | Some x \<Rightarrow> Inr x)"

definition put_block :: "ma_mem \<Rightarrow> addr \<Rightarrow> ma_block \<Rightarrow> ma_mem" where
  "put_block m b x = m\<lparr>am_blocks := (am_blocks m)(b \<mapsto> x)\<rparr>"

text \<open>\<open>calloc\<close> and \<open>free\<close> of a block of the given payload; a null result is a failed allocation.\<close>

definition calloc_block :: "ma_mem \<Rightarrow> addr \<Rightarrow> int \<Rightarrow> ma_mem" where
  "calloc_block m b n = (if b = NULL then m
     else \<lparr>am_nodes = (am_nodes m)(header_node b \<mapsto> \<lparr>dn_data = NULL, dn_prev = NULL, dn_next = NULL\<rparr>),
       am_blocks = (am_blocks m)(b \<mapsto> \<lparr>mb_canary00 = 0, mb_bitmap = None, mb_slot_id = 0, mb_busy_count = 0,
         mb_canary01 = 0, mb_bytes = replicate (nat n) 0\<rparr>)\<rparr>)"

definition free_block :: "ma_mem \<Rightarrow> addr \<Rightarrow> ma_mem" where
  "free_block m b = \<lparr>am_nodes = (am_nodes m)(header_node b := None), am_blocks = (am_blocks m)(b := None)\<rparr>"

definition ma_lock :: "mem_arena \<Rightarrow> mem_arena result" where
  "ma_lock a = and_then (mutex_lock (ma_thread_safe a) (ma_held a)) (\<lambda>b. Inr (a\<lparr>ma_held := b\<rparr>))"

definition ma_unlock :: "mem_arena \<Rightarrow> mem_arena" where
  "ma_unlock a = a\<lparr>ma_held := mutex_unlock (ma_thread_safe a) (ma_held a)\<rparr>"

section \<open>Creation\<close>

definition MemArenaNew :: "int \<Rightarrow> int \<Rightarrow> int \<Rightarrow> bool \<Rightarrow> mem_arena result" where
  "MemArenaNew arena_size slot_size slot_count thread_safe =
     and_then (in_long (arena_size + 1)) (\<lambda>n. Inr
     \<lparr>ma_held = False, ma_list = DLinkedListInit False, ma_current = 0, ma_initial = arena_size, ma_capacity = arena_size,
       ma_slot_size = slot_size, ma_slot_count = slot_count, ma_data = replicate (nat n) NULL,
       ma_thread_safe = thread_safe\<rparr>)"

section \<open>Block headers\<close>

definition ma_check_canaries :: "ma_block \<Rightarrow> unit result" where
  "ma_check_canaries x = and_then (assert_c (0xDE = mb_canary00 x)) (\<lambda>_. assert_c (0xAD = mb_canary01 x))"

definition MemArenaSlotHeaderInit :: "ma_mem \<Rightarrow> mem_arena \<Rightarrow> addr \<Rightarrow> int \<Rightarrow> (ma_mem \<times> mem_arena) result" where
  "MemArenaSlotHeaderInit m a b slot_id =
     and_then (get_block m b) (\<lambda>x.
     let m = put_block m b (x\<lparr>mb_bitmap := Some (DynBitMapNew False 64), mb_slot_id := slot_id, mb_canary00 := 0xDE, mb_canary01 := 0xAD\<rparr>) in
     and_then (DLinkedListAdd (am_nodes m) (ma_list a) (header_node b) b) (\<lambda>(h, l).
     Inr (m\<lparr>am_nodes := h\<rparr>, a\<lparr>ma_list := l\<rparr>)))"

definition MemArenaSlotHeaderClean :: "ma_mem \<Rightarrow> mem_arena \<Rightarrow> addr \<Rightarrow> (ma_mem \<times> mem_arena) result" where
  "MemArenaSlotHeaderClean m a b =
     and_then (get_block m b) (\<lambda>x.
     and_then (ma_check_canaries x) (\<lambda>_.
     and_then (DLinkedListDelete (am_nodes m) (ma_list a) (header_node b)) (\<lambda>(h, l).
     Inr (put_block (m\<lparr>am_nodes := h\<rparr>) b (x\<lparr>mb_bitmap := None, mb_canary00 := - 1, mb_canary01 := - 1\<rparr>), a\<lparr>ma_list := l\<rparr>))))"

section \<open>Finding, taking and returning an object\<close>

text \<open>\<open>&data[arena_id][slot_offset * slot_size] + sizeof(MemArenaSlotHeader)\<close>\<close>

definition ma_slot_at :: "mem_arena \<Rightarrow> addr \<Rightarrow> int \<Rightarrow> addr result" where
  "ma_slot_at a b slot_offset = and_then (in_long (slot_offset * ma_slot_size a)) (\<lambda>pos. Inr (b + nat pos + sizeof_header))"

definition ma_split_id :: "mem_arena \<Rightarrow> int \<Rightarrow> (int \<times> int) result" where
  "ma_split_id a oid = and_then (c_div oid (ma_slot_count a)) (\<lambda>arena_id.
     and_then (c_mod oid (ma_slot_count a)) (\<lambda>slot_offset. Inr (arena_id, slot_offset)))"

definition ma_test :: "ma_block \<Rightarrow> int \<Rightarrow> int result" where
  "ma_test x slot_offset = and_then (deref (mb_bitmap x)) (\<lambda>bm. DynBitMapBitTest bm slot_offset)"

definition MemArenaFindByID :: "ma_mem \<Rightarrow> mem_arena \<Rightarrow> int \<Rightarrow> (mem_arena \<times> addr) result" where
  "MemArenaFindByID m a oid =
     (if oid < 0 then Inr (a, NULL)
      else and_then (ma_lock a) (\<lambda>a.
      and_then (ma_split_id a oid) (\<lambda>(arena_id, slot_offset).
      if arena_id \<ge> ma_capacity a then Inr (ma_unlock a, NULL)
      else and_then (arr_get (ma_data a) arena_id) (\<lambda>b.
      if b = NULL then Inr (ma_unlock a, NULL)
      else and_then (get_block m b) (\<lambda>x.
      and_then (ma_test x slot_offset) (\<lambda>t.
      if t = 0 then Inr (ma_unlock a, NULL)
      else and_then (ma_slot_at a b slot_offset) (\<lambda>p. Inr (ma_unlock a, p))))))))"

text \<open>
  Growing the array of blocks: \<open>junk\<close> is what the elements \<open>realloc\<close> adds contain. Its size and that of the part
  to clear are in bytes, eight for a pointer.
\<close>

definition ma_grow :: "addr \<Rightarrow> mem_arena \<Rightarrow> int \<Rightarrow> mem_arena result" where
  "ma_grow junk a arena_id =
     and_then (in_long (arena_id + ma_initial a)) (\<lambda>new_cap.
     and_then (in_long (new_cap + 1)) (\<lambda>n.
     let data = arr_realloc junk (ma_data a) (c_size (n * 8) div 8) in
     and_then (in_long (new_cap - ma_capacity a)) (\<lambda>added.
     and_then (arr_fill data (ma_capacity a) (c_size (added * 8) div 8) NULL) (\<lambda>data.
     Inr (a\<lparr>ma_data := data, ma_capacity := new_cap\<rparr>)))))"

text \<open>The bytes of a block behind its header.\<close>

definition ma_area_cap :: "mem_arena \<Rightarrow> int result" where
  "ma_area_cap a = and_then (in_long (ma_slot_count a + 1)) (\<lambda>c. and_then (in_long (ma_slot_size a + 1)) (\<lambda>s. in_long (c * s)))"

definition ma_new_block :: "addr \<Rightarrow> ma_mem \<Rightarrow> mem_arena \<Rightarrow> int \<Rightarrow> (ma_mem \<times> mem_arena) result" where
  "ma_new_block new m a arena_id =
     and_then (ma_area_cap a) (\<lambda>area_cap.
     let m = calloc_block m new area_cap in
     and_then (arr_set (ma_data a) arena_id new) (\<lambda>data.
     MemArenaSlotHeaderInit m (a\<lparr>ma_data := data, ma_current := ma_current a + 1\<rparr>) new arena_id))"

definition ma_mark :: "ma_block \<Rightarrow> int \<Rightarrow> ma_block result" where
  "ma_mark x slot_offset =
     and_then (ma_check_canaries x) (\<lambda>_.
     and_then (ma_test x slot_offset) (\<lambda>t.
     let x = (if t = 0 then x\<lparr>mb_busy_count := mb_busy_count x + 1\<rparr> else x) in
     and_then (deref (mb_bitmap x)) (\<lambda>bm. and_then (DynBitMapBitSet bm slot_offset) (\<lambda>(bm, _).
     Inr (x\<lparr>mb_bitmap := Some bm\<rparr>)))))"

definition MemArenaGrabByID :: "addr \<Rightarrow> addr \<Rightarrow> ma_mem \<Rightarrow> mem_arena \<Rightarrow> int \<Rightarrow> (ma_mem \<times> mem_arena \<times> addr) result" where
  "MemArenaGrabByID junk new m a oid =
     (if oid < 0 then Inr (m, a, NULL)
      else and_then (ma_lock a) (\<lambda>a.
      and_then (ma_split_id a oid) (\<lambda>(arena_id, slot_offset).
      and_then (if arena_id \<ge> ma_capacity a then ma_grow junk a arena_id else Inr a) (\<lambda>a.
      and_then (arr_get (ma_data a) arena_id) (\<lambda>b.
      and_then (if b = NULL then ma_new_block new m a arena_id else Inr (m, a)) (\<lambda>(m, a).
      and_then (arr_get (ma_data a) arena_id) (\<lambda>b.
      and_then (get_block m b) (\<lambda>x.
      and_then (ma_mark x slot_offset) (\<lambda>x.
      and_then (ma_slot_at a b slot_offset) (\<lambda>p.
      Inr (put_block m b x, ma_unlock a, p)))))))))))"

text \<open>The block an active object is in, with its canaries checked.\<close>

definition ma_active :: "ma_mem \<Rightarrow> mem_arena \<Rightarrow> int \<Rightarrow> (addr \<times> ma_block) result" where
  "ma_active m a arena_id =
     and_then (arr_get (ma_data a) arena_id) (\<lambda>b.
     and_then (assert_c (b \<noteq> NULL)) (\<lambda>_.
     and_then (get_block m b) (\<lambda>x.
     and_then (ma_check_canaries x) (\<lambda>_. Inr (b, x)))))"

text \<open>\<open>if (0 == header->busy_count)\<close>: the block is released; the flag tells that it was.\<close>

definition ma_drop :: "ma_mem \<Rightarrow> mem_arena \<Rightarrow> int \<Rightarrow> addr \<Rightarrow> ma_block \<Rightarrow> (ma_mem \<times> mem_arena \<times> bool) result" where
  "ma_drop m a arena_id b x =
     (if mb_busy_count x = 0 then
        and_then (MemArenaSlotHeaderClean (put_block m b x) a b) (\<lambda>(m, a).
        and_then (arr_set (ma_data a) arena_id NULL) (\<lambda>data.
        Inr (free_block m b, a\<lparr>ma_data := data\<rparr>, True)))
      else Inr (put_block m b x, a, False))"

definition MemArenaReleaseByID :: "ma_mem \<Rightarrow> mem_arena \<Rightarrow> int \<Rightarrow> (ma_mem \<times> mem_arena) result" where
  "MemArenaReleaseByID m a oid =
     (if oid < 0 then Inr (m, a)
      else and_then (ma_lock a) (\<lambda>a.
      and_then (ma_split_id a oid) (\<lambda>(arena_id, slot_offset).
      and_then (ma_active m a arena_id) (\<lambda>(b, x).
      and_then (ma_test x slot_offset) (\<lambda>t.
      and_then (assert_c (t \<noteq> 0)) (\<lambda>_.
      and_then (deref (mb_bitmap x)) (\<lambda>bm. and_then (DynBitMapBitClear bm slot_offset) (\<lambda>(bm, _).
      and_then (ma_drop m a arena_id b (x\<lparr>mb_bitmap := Some bm, mb_busy_count := mb_busy_count x - 1\<rparr>)) (\<lambda>(m, a, _).
      Inr (m, ma_unlock a))))))))))"

section \<open>Pinning a block\<close>

definition MemArenaLockByID :: "ma_mem \<Rightarrow> mem_arena \<Rightarrow> int \<Rightarrow> (ma_mem \<times> mem_arena) result" where
  "MemArenaLockByID m a oid =
     (if oid < 0 then Inr (m, a)
      else and_then (ma_lock a) (\<lambda>a.
      and_then (c_div oid (ma_slot_count a)) (\<lambda>arena_id.
      and_then (ma_active m a arena_id) (\<lambda>(b, x).
      Inr (put_block m b (x\<lparr>mb_busy_count := mb_busy_count x + 1\<rparr>), ma_unlock a)))))"

definition MemArenaUnlockByID :: "ma_mem \<Rightarrow> mem_arena \<Rightarrow> int \<Rightarrow> (ma_mem \<times> mem_arena \<times> int) result" where
  "MemArenaUnlockByID m a oid =
     (if oid < 0 then Inr (m, a, 0)
      else and_then (ma_lock a) (\<lambda>a.
      and_then (c_div oid (ma_slot_count a)) (\<lambda>arena_id.
      and_then (ma_active m a arena_id) (\<lambda>(b, x).
      and_then (ma_drop m a arena_id b (x\<lparr>mb_busy_count := mb_busy_count x - 1\<rparr>)) (\<lambda>(m, a, dropped).
      Inr (m, ma_unlock a, c_bool dropped))))))"

section \<open>Cleaning and destroying\<close>

definition MemArenaClean :: "ma_mem \<Rightarrow> mem_arena \<Rightarrow> (ma_mem \<times> mem_arena) result" where
  "MemArenaClean m a =
     and_then (ma_lock a) (\<lambda>a.
     and_then (ma_area_cap a) (\<lambda>area_cap.
     and_then (for_each (\<lambda>i m. and_then (arr_get (ma_data a) i) (\<lambda>b.
         if b \<noteq> NULL then
           and_then (get_block m b) (\<lambda>x.
           and_then (arr_fill (mb_bytes x) 0 (c_size area_cap) 0) (\<lambda>bytes.
           Inr (put_block m b (x\<lparr>mb_bytes := bytes\<rparr>))))
         else Inr m)) [0..ma_capacity a - 1] m) (\<lambda>m.
     Inr (m, ma_unlock a))))"

text \<open>The arena that is left is the freed structure: only its blocks count.\<close>

definition MemArenaDestroy :: "ma_mem \<Rightarrow> mem_arena \<Rightarrow> (ma_mem \<times> mem_arena) result" where
  "MemArenaDestroy m a =
     and_then (for_each (\<lambda>i (m, a). and_then (arr_get (ma_data a) i) (\<lambda>b.
         and_then (if b \<noteq> NULL then
             and_then (MemArenaSlotHeaderClean m a b) (\<lambda>(m, a). Inr (free_block m b, a))
           else Inr (m, a)) (\<lambda>(m, a).
         and_then (arr_set (ma_data a) i NULL) (\<lambda>data. Inr (m, a\<lparr>ma_data := data\<rparr>))))) [0..ma_capacity a - 1] (m, a)) (\<lambda>(m, a).
     Inr (m, a\<lparr>ma_data := []\<rparr>))"

section \<open>Counters\<close>

definition ma_locked_get :: "mem_arena \<Rightarrow> int \<Rightarrow> (mem_arena \<times> int) result" where
  "ma_locked_get a i = and_then (ma_lock a) (\<lambda>a. and_then (arr_get (ma_sizes a) i) (\<lambda>v. Inr (ma_unlock a, v)))"

definition MemArenaGetArenaCapacity :: "mem_arena \<Rightarrow> (mem_arena \<times> int) result" where
  "MemArenaGetArenaCapacity a = ma_locked_get a 2"

definition MemArenaGetSlotSize :: "mem_arena \<Rightarrow> (mem_arena \<times> int) result" where
  "MemArenaGetSlotSize a = ma_locked_get a MEMARENA_SLOT_SIZE"

definition MemArenaGetSlotCount :: "mem_arena \<Rightarrow> (mem_arena \<times> int) result" where
  "MemArenaGetSlotCount a = ma_locked_get a MEMARENA_SLOT_COUNT"

definition MemArenaGetSlotActiveCount :: "mem_arena \<Rightarrow> (mem_arena \<times> int) result" where
  "MemArenaGetSlotActiveCount a = ma_locked_get a 0"

end
