(* ===== verification/MemArenaProps.thy ===== *)
theory MemArenaProps
  imports MemArena
begin

text \<open>
  The memory arena as a store of numbered objects: the invariant of its table of blocks, what each
  operation does to it, the interface clients rely on and the claims about its runs.
\<close>

section \<open>The table of blocks\<close>

text \<open>The payload of a block and the position of an object in it, when the arithmetic does not overflow.\<close>

definition ma_area :: "mem_arena \<Rightarrow> int" where
  "ma_area a = (ma_slot_count a + 1) * (ma_slot_size a + 1)"

definition ma_slot_ptr :: "mem_arena \<Rightarrow> addr \<Rightarrow> int \<Rightarrow> addr" where
  "ma_slot_ptr a b slot_offset = b + nat (slot_offset * ma_slot_size a) + sizeof_header"

definition ma_extent :: "mem_arena \<Rightarrow> nat" where
  "ma_extent a = sizeof_header + nat (ma_area a)"

definition apart :: "nat \<Rightarrow> nat \<Rightarrow> nat \<Rightarrow> bool" where
  "apart n p q \<longleftrightarrow> p + n \<le> q \<or> q + n \<le> p"

definition ma_ptr :: "mem_arena \<Rightarrow> int \<Rightarrow> addr" where
  "ma_ptr a k = ma_data a ! nat k"

definition ma_block_ok :: "mem_arena \<Rightarrow> int \<Rightarrow> int set \<Rightarrow> int \<Rightarrow> ma_block \<Rightarrow> bool" where
  "ma_block_ok a k e n x \<longleftrightarrow> mb_canary00 x = 0xDE \<and> mb_canary01 x = 0xAD \<and> mb_slot_id x = k \<and>
     length (mb_bytes x) = nat (ma_area a) \<and> mb_busy_count x = n \<and>
     (\<exists>bm. mb_bitmap x = Some bm \<and> dbm_inv bm \<and> dbm_els bm = e)"

text \<open>\<open>L\<close> are the numbers of the allocated blocks, \<open>e k\<close> and \<open>n k\<close> the bitmap and the busy count of block \<open>k\<close>.\<close>

definition ma_dims :: "mem_arena \<Rightarrow> bool" where
  "ma_dims a \<longleftrightarrow> 0 < ma_slot_count a \<and> 0 \<le> ma_slot_size a \<and> 0 < ma_initial a \<and> ma_initial a \<le> ma_capacity a \<and>
     length (ma_data a) = nat (ma_capacity a) + 1 \<and> ma_area a < 2 ^ 62 \<and> ma_initial a < 2 ^ 59 \<and> ma_capacity a < 2 ^ 60"

definition ma_table :: "mem_arena \<Rightarrow> int set \<Rightarrow> bool" where
  "ma_table a L \<longleftrightarrow> L \<subseteq> {0..<ma_capacity a} \<and> (\<forall>k \<in> {0..<ma_capacity a}. ma_ptr a k = NULL \<longleftrightarrow> k \<notin> L) \<and>
     (\<forall>j \<in> L. \<forall>k \<in> L. j \<noteq> k \<longrightarrow> apart (ma_extent a) (ma_ptr a j) (ma_ptr a k))"

definition ma_core :: "ma_mem \<Rightarrow> mem_arena \<Rightarrow> int set \<Rightarrow> (int \<Rightarrow> int set) \<Rightarrow> (int \<Rightarrow> int) \<Rightarrow> bool" where
  "ma_core m a L e n \<longleftrightarrow> ma_dims a \<and> ma_table a L \<and> dom (am_blocks m) = ma_ptr a ` L \<and>
     (\<forall>k \<in> L. \<exists>x. am_blocks m (ma_ptr a k) = Some x \<and> ma_block_ok a k (e k) (n k) x) \<and>
     (\<exists>bl. dlist_inv (am_nodes m) (ma_list a) (map header_node bl) \<and> set bl = ma_ptr a ` L)"

lemma ma_dims_held [simp]: "ma_dims (a\<lparr>ma_held := b\<rparr>) = ma_dims a"
  by (simp add: ma_dims_def ma_area_def)

lemma in_long_62: "0 \<le> x \<Longrightarrow> x < 2 ^ 62 \<Longrightarrow> in_long x = Inr x"
  by simp

lemma ma_dims_bounds:
  assumes "ma_dims a"
  shows "ma_slot_count a < 2 ^ 62" "ma_area_cap a = Inr (ma_area a)" "0 \<le> ma_area a"
    "\<And>b j. 0 \<le> j \<Longrightarrow> j < ma_slot_count a \<Longrightarrow> ma_slot_at a b j = Inr (ma_slot_ptr a b j)"
proof -
  define c s where "c = ma_slot_count a" "s = ma_slot_size a"
  note cs = this
  have d: "0 < c" "0 \<le> s" "(c + 1) * (s + 1) < 2 ^ 62" using assms by (simp_all add: ma_dims_def ma_area_def cs)
  have "(c + 1) * 1 \<le> (c + 1) * (s + 1)" "1 * (s + 1) \<le> (c + 1) * (s + 1)" using d(1,2) by (intro mult_mono; simp)+
  then have b: "c + 1 < 2 ^ 62" "s + 1 < 2 ^ 62" using d(3) by simp_all
  show "ma_slot_count a < 2 ^ 62" using b(1) by (simp add: cs)
  have n: "0 \<le> (c + 1) * (s + 1)" using d(1,2) by simp
  then show "0 \<le> ma_area a" by (simp add: ma_area_def cs)
  have "in_long ((c + 1) * (s + 1)) = Inr ((c + 1) * (s + 1))" using n d(3) by (rule in_long_62)
  moreover have "in_long (c + 1) = Inr (c + 1)" "in_long (s + 1) = Inr (s + 1)" using b d(1,2) by simp_all
  ultimately show "ma_area_cap a = Inr (ma_area a)" by (simp add: ma_area_cap_def ma_area_def cs)
  show "ma_slot_at a p j = Inr (ma_slot_ptr a p j)" if j: "0 \<le> j" "j < ma_slot_count a" for p j
  proof -
    have "j * s \<le> (c + 1) * (s + 1)" using j d(1,2) by (intro mult_mono) (simp_all add: cs)
    moreover have "0 \<le> j * s" using j d(2) by simp
    ultimately have "in_long (j * s) = Inr (j * s)" using d(3) by (intro in_long_62) linarith+
    then show ?thesis by (simp add: ma_slot_at_def ma_slot_ptr_def cs)
  qed
qed

lemma ma_core_held [simp]: "ma_core m (a\<lparr>ma_held := b\<rparr>) L e n = ma_core m a L e n"
  by (simp add: ma_core_def ma_table_def ma_ptr_def ma_extent_def ma_area_def ma_block_ok_def)

lemma ma_extent_pos: "0 < ma_extent a"
  by (simp add: ma_extent_def sizeof_header_def)

lemma ma_core_dims: "ma_core m a L e n \<Longrightarrow> ma_dims a"
  by (simp add: ma_core_def)

lemma ma_core_get:
  assumes "ma_core m a L e n" "k \<in> L"
  obtains x where "arr_get (ma_data a) k = Inr (ma_ptr a k)" "ma_ptr a k \<noteq> NULL" "0 \<le> k" "k < ma_capacity a"
    "get_block m (ma_ptr a k) = Inr x" "ma_block_ok a k (e k) (n k) x"
proof -
  obtain x where x: "am_blocks m (ma_ptr a k) = Some x" "ma_block_ok a k (e k) (n k) x"
    using assms by (auto simp: ma_core_def)
  have k: "0 \<le> k" "k < ma_capacity a" "ma_ptr a k \<noteq> NULL"
    using assms by (auto simp: ma_core_def ma_table_def)
  have "nat k < length (ma_data a)" using assms k by (simp add: ma_core_def ma_dims_def)
  then show ?thesis using that [of x] k x by (simp add: get_block_def ma_ptr_def)
qed

lemma ma_core_empty_slot:
  assumes "ma_core m a L e n" "0 \<le> k" "k < ma_capacity a" "k \<notin> L"
  shows "arr_get (ma_data a) k = Inr NULL" "nat k < length (ma_data a)"
proof -
  show l: "nat k < length (ma_data a)" using assms by (simp add: ma_core_def ma_dims_def)
  have "ma_ptr a k = NULL" using assms by (auto simp: ma_core_def ma_table_def)
  then show "arr_get (ma_data a) k = Inr NULL" using assms l by (simp add: ma_ptr_def)
qed

lemma apart_neq: "apart n p q \<Longrightarrow> 0 < n \<Longrightarrow> p \<noteq> q"
  by (auto simp: apart_def)

lemma ma_ptr_inj: "ma_table a L \<Longrightarrow> inj_on (ma_ptr a) L"
  using apart_neq ma_extent_pos unfolding inj_on_def ma_table_def by metis

lemma header_node_inj [simp]: "header_node p = header_node q \<longleftrightarrow> p = q"
  by (simp add: header_node_def)

lemma header_node_pos [simp]: "header_node p \<noteq> NULL"
  by (simp add: header_node_def NULL_def)

section \<open>What the steps do to the table\<close>

lemma ma_core_put:
  assumes "ma_core m a L e n" "k \<in> L" "ma_block_ok a k e' n' x"
  shows "ma_core (put_block m (ma_ptr a k) x) a L (e(k := e')) (n(k := n'))"
proof -
  have inj: "inj_on (ma_ptr a) L" using assms(1) ma_ptr_inj by (auto simp: ma_core_def)
  have "dom (am_blocks (put_block m (ma_ptr a k) x)) = ma_ptr a ` L"
    using assms by (auto simp: put_block_def ma_core_def)
  moreover have "\<exists>y. am_blocks (put_block m (ma_ptr a k) x) (ma_ptr a j) = Some y \<and>
      ma_block_ok a j ((e(k := e')) j) ((n(k := n')) j) y" if "j \<in> L" for j
  proof (cases "j = k")
    case False
    then have "ma_ptr a j \<noteq> ma_ptr a k" using inj assms(2) that by (meson inj_onD)
    then show ?thesis using assms that False by (auto simp: put_block_def ma_core_def)
  qed (use assms in \<open>simp add: put_block_def\<close>)
  ultimately show ?thesis using assms(1) by (auto simp: put_block_def ma_core_def)
qed

lemma ma_fill_grown:
  assumes "length data = cap + 1" "cap \<le> nc"
  shows "arr_fill (arr_realloc junk data (int nc + 1)) (int cap) (int nc - int cap) NULL =
    Inr (take cap data @ replicate (nc - cap) NULL @ drop nc (arr_realloc junk data (int nc + 1)))"
proof -
  have "nat (int nc + 1) = nc + 1" "nat (int nc - int cap) = nc - cap" by simp_all
  moreover have "take cap (arr_realloc junk data (int nc + 1)) = take cap data"
    using assms by (simp add: arr_realloc_def)
  ultimately show ?thesis using assms by (simp add: arr_fill_def)
qed

lemma ma_grow_core:
  assumes "ma_core m a L e n" "ma_capacity a \<le> k" and lim: "k < 2 ^ 59"
  obtains a' where "ma_grow junk a k = Inr a'" "ma_core m a' L e n" "k < ma_capacity a'"
    "\<And>j. j \<in> L \<Longrightarrow> ma_ptr a' j = ma_ptr a j" "ma_slot_size a' = ma_slot_size a" "ma_slot_count a' = ma_slot_count a"
    "ma_thread_safe a' = ma_thread_safe a" "ma_held a' = ma_held a"
proof -
  define cap nc where "cap = nat (ma_capacity a)" "nc = nat (k + ma_initial a)"
  have d: "0 < ma_initial a" "ma_initial a \<le> ma_capacity a" "length (ma_data a) = cap + 1" "ma_initial a < 2 ^ 59"
    using assms(1) by (simp_all add: ma_core_def ma_dims_def cap_nc_def)
  have c: "ma_capacity a = int cap" "k + ma_initial a = int nc" "cap \<le> nc" "k < int nc"
    using d(1,2) assms(2) by (simp_all add: cap_nc_def)
  define data where "data = take cap (ma_data a) @ replicate (nc - cap) NULL @ drop nc (arr_realloc junk (ma_data a) (int nc + 1))"
  define a' where "a' = a\<lparr>ma_data := data, ma_capacity := int nc\<rparr>"
  have len: "length data = nc + 1" using d(3) c(3) by (simp add: data_def nat_add_distrib)
  have old: "ma_ptr a' j = ma_ptr a j" if "0 \<le> j" "j < int cap" for j
  proof -
    have "nat j < cap" using that by auto
    then show ?thesis using d(3) by (simp add: ma_ptr_def a'_def data_def nth_append)
  qed
  have new: "ma_ptr a' j = NULL" if "int cap \<le> j" "j < int nc" for j
  proof -
    have "cap \<le> nat j" "nat j < nc" "nat j - cap < nc - cap" using that by auto
    then show ?thesis using d(3) by (simp add: ma_ptr_def a'_def data_def nth_append)
  qed
  have t: "ma_table a L" using assms(1) by (simp add: ma_core_def)
  have L: "ma_ptr a' j = ma_ptr a j" if "j \<in> L" for j
    using that t c(1) by (intro old) (auto simp: ma_table_def)
  have sz: "ma_extent a' = ma_extent a" "ma_area a' = ma_area a" by (simp_all add: a'_def ma_extent_def ma_area_def)
  have "ma_table a' L"
    unfolding ma_table_def
  proof (intro conjI ballI impI)
    show "L \<subseteq> {0..<ma_capacity a'}" using t c by (force simp: ma_table_def a'_def)
    show "(ma_ptr a' j = NULL) = (j \<notin> L)" if "j \<in> {0..<ma_capacity a'}" for j
    proof (cases "j < int cap")
      case True
      then show ?thesis using t that old [of j] c(1) by (auto simp: ma_table_def)
    next
      case False
      then have "j \<notin> L" using t c(1) by (auto simp: ma_table_def)
      then show ?thesis using new [of j] that False by (simp add: a'_def)
    qed
    show "apart (ma_extent a') (ma_ptr a' i) (ma_ptr a' j)" if "i \<in> L" "j \<in> L" "i \<noteq> j" for i j
      using t that L sz by (simp add: ma_table_def)
  qed
  moreover have "ma_dims a'" using assms(1) len c d lim by (simp add: ma_core_def ma_dims_def a'_def ma_area_def)
  moreover have "ma_ptr a' ` L = ma_ptr a ` L" using L by simp
  ultimately have "ma_core m a' L e n"
    using assms(1) L sz by (simp add: ma_core_def ma_block_ok_def) (simp add: a'_def)
  moreover have "ma_grow junk a k = Inr a'"
  proof -
    have nc: "int nc < 2 ^ 60" using d(4) lim c(2) by simp
    have "in_long (int nc) = Inr (int nc)" "in_long (int nc + 1) = Inr (int nc + 1)" "in_long (int nc - int cap) = Inr (int nc - int cap)"
      using nc c(3) by simp_all
    moreover have "c_size ((int nc + 1) * 8) = (int nc + 1) * 8" "c_size ((int nc - int cap) * 8) = (int nc - int cap) * 8"
      using nc c(3) by (intro c_size_in; simp)+
    ultimately show ?thesis
      unfolding ma_grow_def c(1,2) using ma_fill_grown [OF d(3) c(3), of junk] by (simp add: Let_def a'_def data_def c)
  qed
  ultimately show ?thesis using L c(4) by (intro that [of a']) (simp_all add: a'_def)
qed


text \<open>A block \<open>calloc\<close> may return: not null, and apart from the blocks that are allocated.\<close>

definition ma_fresh :: "ma_mem \<Rightarrow> mem_arena \<Rightarrow> addr \<Rightarrow> bool" where
  "ma_fresh m a new \<longleftrightarrow> new \<noteq> NULL \<and> (\<forall>b \<in> dom (am_blocks m). apart (ma_extent a) new b)"

lemma apart_sym: "apart n p q \<longleftrightarrow> apart n q p"
  by (auto simp: apart_def)

lemma ma_table_new:
  assumes "ma_table a L" "0 \<le> k" "k < ma_capacity a" "k \<notin> L" "length (ma_data a) = nat (ma_capacity a) + 1"
    and new: "new \<noteq> NULL" "\<And>j. j \<in> L \<Longrightarrow> apart (ma_extent a) new (ma_ptr a j)"
    and a': "ma_data a' = (ma_data a)[nat k := new]" "ma_capacity a' = ma_capacity a" "ma_extent a' = ma_extent a"
  shows "ma_table a' (insert k L)" "ma_ptr a' k = new" "\<And>j. j \<in> L \<Longrightarrow> ma_ptr a' j = ma_ptr a j"
proof -
  show k: "ma_ptr a' k = new" using assms by (simp add: ma_ptr_def)
  have o: "ma_ptr a' j = ma_ptr a j" if "0 \<le> j" "j \<noteq> k" for j
  proof -
    have "nat j \<noteq> nat k" using that assms(2) by auto
    then show ?thesis by (simp add: ma_ptr_def a'(1))
  qed
  have L: "0 \<le> j" "j \<noteq> k" "j < ma_capacity a" if "j \<in> L" for j using assms(1,4) that by (auto simp: ma_table_def)
  then show "\<And>j. j \<in> L \<Longrightarrow> ma_ptr a' j = ma_ptr a j" using o by blast
  show "ma_table a' (insert k L)"
    unfolding ma_table_def
  proof (intro conjI ballI impI)
    show "insert k L \<subseteq> {0..<ma_capacity a'}" using assms by (auto simp: ma_table_def)
    show "(ma_ptr a' j = NULL) = (j \<notin> insert k L)" if "j \<in> {0..<ma_capacity a'}" for j
      using assms(1) that k o [of j] new(1) a'(2) by (cases "j = k") (auto simp: ma_table_def)
    fix i j assume "i \<in> insert k L" "j \<in> insert k L" "i \<noteq> j"
    then show "apart (ma_extent a') (ma_ptr a' i) (ma_ptr a' j)"
      using assms(1) k o L new(2) a'(3) apart_sym by (auto simp: ma_table_def)
  qed
qed

lemma ma_table_drop:
  assumes "ma_table a L" "k \<in> L" "length (ma_data a) = nat (ma_capacity a) + 1"
    and a': "ma_data a' = (ma_data a)[nat k := NULL]" "ma_capacity a' = ma_capacity a" "ma_extent a' = ma_extent a"
  shows "ma_table a' (L - {k})" "\<And>j. j \<in> L - {k} \<Longrightarrow> ma_ptr a' j = ma_ptr a j"
proof -
  have kk: "0 \<le> k" "k < ma_capacity a" using assms by (auto simp: ma_table_def)
  have k: "ma_ptr a' k = NULL" using assms kk by (simp add: ma_ptr_def)
  have o: "ma_ptr a' j = ma_ptr a j" if "0 \<le> j" "j \<noteq> k" for j
  proof -
    have "nat j \<noteq> nat k" using that kk by auto
    then show ?thesis by (simp add: ma_ptr_def a'(1))
  qed
  show p: "\<And>j. j \<in> L - {k} \<Longrightarrow> ma_ptr a' j = ma_ptr a j" using o assms(1) by (auto simp: ma_table_def)
  show "ma_table a' (L - {k})"
    unfolding ma_table_def
  proof (intro conjI ballI impI)
    show "L - {k} \<subseteq> {0..<ma_capacity a'}" using assms by (auto simp: ma_table_def)
    show "(ma_ptr a' j = NULL) = (j \<notin> L - {k})" if "j \<in> {0..<ma_capacity a'}" for j
      using assms(1) that k o [of j] a'(2) by (cases "j = k") (auto simp: ma_table_def)
    fix i j assume "i \<in> L - {k}" "j \<in> L - {k}" "i \<noteq> j"
    then show "apart (ma_extent a') (ma_ptr a' i) (ma_ptr a' j)"
      using assms(1) p a'(3) by (simp add: ma_table_def)
  qed
qed

lemma ma_block_ok_cong:
  "ma_area a' = ma_area a \<Longrightarrow> ma_block_ok a' k e n x = ma_block_ok a k e n x"
  by (simp add: ma_block_ok_def)

lemma DynBitMapNew_inv: "dbm_inv (DynBitMapNew False 64)" "dbm_els (DynBitMapNew False 64) = {}"
  using DynBitMapInit_inv [of 64 False] by (simp_all add: DynBitMapNew_def)

lemma ma_new_block_core:
  assumes "ma_core m a L e n" "0 \<le> k" "k < ma_capacity a" "k \<notin> L" "ma_fresh m a new"
  obtains m' a' where "ma_new_block new m a k = Inr (m', a')" "ma_core m' a' (insert k L) (e(k := {})) (n(k := 0))"
    "\<And>j. j \<in> L \<Longrightarrow> ma_ptr a' j = ma_ptr a j" "ma_ptr a' k = new" "ma_slot_size a' = ma_slot_size a" "ma_slot_count a' = ma_slot_count a"
    "ma_thread_safe a' = ma_thread_safe a" "ma_held a' = ma_held a" "ma_capacity a' = ma_capacity a"
proof -
  have t: "ma_table a L" "dom (am_blocks m) = ma_ptr a ` L" and dims: "ma_dims a" using assms(1) by (simp_all add: ma_core_def)
  obtain bl where bl: "dlist_inv (am_nodes m) (ma_list a) (map header_node bl)" "set bl = ma_ptr a ` L"
    using assms(1) by (auto simp: ma_core_def)
  have new: "new \<noteq> NULL" "\<And>j. j \<in> L \<Longrightarrow> apart (ma_extent a) new (ma_ptr a j)" using assms(5) t(2) by (auto simp: ma_fresh_def)
  have out: "new \<notin> set bl" unfolding bl(2) using apart_neq [OF new(2) ma_extent_pos] by auto
  have len: "length (ma_data a) = nat (ma_capacity a) + 1" "nat k < length (ma_data a)"
    using dims assms(2,3) by (simp_all add: ma_dims_def)
  define a1 where "a1 = a\<lparr>ma_data := (ma_data a)[nat k := new], ma_current := ma_current a + 1\<rparr>"
  define x where "x = \<lparr>mb_canary00 = 0xDE, mb_bitmap = Some (DynBitMapNew False 64), mb_slot_id = k, mb_busy_count = 0,
    mb_canary01 = 0xAD, mb_bytes = replicate (nat (ma_area a)) 0\<rparr>"
  define m1 where "m1 = put_block (calloc_block m new (ma_area a)) new x"
  have node: "header_node new \<in> dom (am_nodes m1)" using new(1) by (simp add: m1_def put_block_def calloc_block_def)
  have hn: "header_node new \<notin> set (map header_node bl)" using out by auto
  have inv1: "dlist_inv (am_nodes m1) (ma_list a1) (map header_node bl)"
    using bl(1) new(1) dlist_inv_upd_out [OF hn] by (simp add: m1_def a1_def put_block_def calloc_block_def)
  obtain h l where add: "DLinkedListAdd (am_nodes m1) (ma_list a1) (header_node new) new = Inr (h, l)"
    "list_step (am_nodes m1) (ma_list a1) (set (header_node new # map header_node bl)) h l (header_node new # map header_node bl)
      ((dview (am_nodes m1))(header_node new \<mapsto> new))"
    by (rule DLinkedListAdd_spec [OF inv1 node]) (use out in auto)
  define m' a' where "m' = m1\<lparr>am_nodes := h\<rparr>" "a' = a1\<lparr>ma_list := l\<rparr>"
  note a'_def = m'_a'_def(2) a1_def and m'_def = m'_a'_def(1) m1_def
  have sz: "ma_extent a' = ma_extent a" "ma_area a' = ma_area a" by (simp_all add: a'_def ma_extent_def ma_area_def)
  note tab = ma_table_new [OF t(1) assms(2-4) len(1) new, of a', OF _ _ _ sz(1)]
  have tab: "ma_table a' (insert k L)" "ma_ptr a' k = new" "\<And>j. j \<in> L \<Longrightarrow> ma_ptr a' j = ma_ptr a j"
    by (rule tab; simp add: a'_def)+
  have im: "ma_ptr a' ` insert k L = insert new (ma_ptr a ` L)" using tab(2,3) by simp
  have run: "ma_new_block new m a k = Inr (m', a')"
    using ma_dims_bounds(2) [OF dims] len(2) assms(2) new(1) add(1) unfolding ma_new_block_def MemArenaSlotHeaderInit_def m'_a'_def a1_def m1_def x_def
    by (simp add: Let_def get_block_def calloc_block_def)
  have neq: "ma_ptr a j \<noteq> new" if "j \<in> L" for j using out bl(2) that by blast
  have blk: "\<exists>y. am_blocks m' (ma_ptr a' j) = Some y \<and> ma_block_ok a' j ((e(k := {})) j) ((n(k := 0)) j) y"
    if j: "j \<in> insert k L" for j
  proof (cases "j = k")
    case True
    have "ma_block_ok a' k {} 0 x" using DynBitMapNew_inv sz by (simp add: ma_block_ok_def x_def)
    then show ?thesis using True tab(2) by (simp add: m'_def put_block_def)
  next
    case False
    then have "j \<in> L" using j by simp
    moreover obtain y where "am_blocks m (ma_ptr a j) = Some y" "ma_block_ok a j (e j) (n j) y"
      using assms(1) \<open>j \<in> L\<close> by (auto simp: ma_core_def)
    ultimately show ?thesis using False neq [of j] tab(3) [of j] ma_block_ok_cong [OF sz(2)] new(1)
      by (simp add: m'_def put_block_def calloc_block_def)
  qed
  have lst: "dlist_inv (am_nodes m') (ma_list a') (map header_node (new # bl))" "set (new # bl) = ma_ptr a' ` insert k L"
    using list_stepD(1) [OF add(2)] bl(2) im by (simp_all add: m'_a'_def)
  have "dom (am_blocks m') = ma_ptr a' ` insert k L"
    using t(2) new(1) unfolding im by (auto simp: m'_def put_block_def calloc_block_def)
  moreover have "ma_dims a'" using dims by (simp add: ma_dims_def a'_def ma_area_def)
  ultimately have "ma_core m' a' (insert k L) (e(k := {})) (n(k := 0))"
    unfolding ma_core_def using tab(1) blk lst by metis
  then show ?thesis using run tab(2,3) by (intro that [of m' a']) (simp_all add: a'_def)
qed

lemma header_clean_spec:
  assumes "ma_core m a L e n" "k \<in> L"
  obtains h l bl x where "MemArenaSlotHeaderClean m a (ma_ptr a k) = Inr (put_block (m\<lparr>am_nodes := h\<rparr>) (ma_ptr a k) x, a\<lparr>ma_list := l\<rparr>)"
    "dlist_inv h l (map header_node bl)" "set bl = ma_ptr a ` (L - {k})"
proof -
  obtain x where x: "arr_get (ma_data a) k = Inr (ma_ptr a k)" "get_block m (ma_ptr a k) = Inr x" "ma_block_ok a k (e k) (n k) x"
    using ma_core_get [OF assms] by metis
  obtain bl where bl: "dlist_inv (am_nodes m) (ma_list a) (map header_node bl)" "set bl = ma_ptr a ` L"
    using assms(1) by (auto simp: ma_core_def)
  have d: "distinct bl" using dlist_inv_distinct [OF bl(1)] by (simp add: distinct_map)
  have "ma_ptr a k \<in> set bl" using bl(2) assms(2) by simp
  then obtain as bs where as: "bl = as @ ma_ptr a k # bs" by (meson split_list)
  obtain h l where del: "DLinkedListDelete (am_nodes m) (ma_list a) (header_node (ma_ptr a k)) = Inr (h, l)"
    "list_step (am_nodes m) (ma_list a) (set (map header_node bl)) h l (map header_node (as @ bs)) (dview (am_nodes m))"
    using DLinkedListDelete_spec [of "am_nodes m" "ma_list a" "map header_node as" "header_node (ma_ptr a k)" "map header_node bs"] bl(1) as
    by (metis list.simps(9) map_append)
  have inj: "inj_on (ma_ptr a) L" using assms(1) ma_ptr_inj by (auto simp: ma_core_def)
  have "set (as @ bs) = set bl - {ma_ptr a k}" using d by (auto simp: as)
  also have "\<dots> = ma_ptr a ` (L - {k})"
    using inj assms(2) by (simp add: bl(2) inj_on_image_set_diff [where C = L])
  finally have s: "set (as @ bs) = ma_ptr a ` (L - {k})" .
  show ?thesis
    by (rule that [of h _ l "as @ bs"])
      (use x del list_stepD(1) [OF del(2)] s in \<open>auto simp: MemArenaSlotHeaderClean_def ma_check_canaries_def ma_block_ok_def\<close>)
qed

lemma ma_remove_core:
  assumes "ma_core m a L e n" "k \<in> L"
  obtains m1 a1 data where "MemArenaSlotHeaderClean m a (ma_ptr a k) = Inr (m1, a1)" "arr_set (ma_data a1) k NULL = Inr data"
    "ma_core (free_block m1 (ma_ptr a k)) (a1\<lparr>ma_data := data\<rparr>) (L - {k}) e n"
    "\<And>j. j \<in> L \<Longrightarrow> j \<noteq> k \<Longrightarrow> ma_ptr (a1\<lparr>ma_data := data\<rparr>) j = ma_ptr a j"
    "ma_slot_size a1 = ma_slot_size a" "ma_slot_count a1 = ma_slot_count a"
    "ma_thread_safe a1 = ma_thread_safe a" "ma_held a1 = ma_held a" "ma_capacity a1 = ma_capacity a"
proof -
  let ?p = "ma_ptr a k"
  obtain h l bl y where cl: "MemArenaSlotHeaderClean m a ?p = Inr (put_block (m\<lparr>am_nodes := h\<rparr>) ?p y, a\<lparr>ma_list := l\<rparr>)"
    "dlist_inv h l (map header_node bl)" "set bl = ma_ptr a ` (L - {k})"
    using header_clean_spec [OF assms] by metis
  have t: "ma_table a L" "dom (am_blocks m) = ma_ptr a ` L" and dims: "ma_dims a" using assms(1) by (simp_all add: ma_core_def)
  have k: "0 \<le> k" "k < ma_capacity a" using t(1) assms(2) by (auto simp: ma_table_def)
  have len: "length (ma_data a) = nat (ma_capacity a) + 1" "nat k < length (ma_data a)"
    using dims k by (simp_all add: ma_dims_def)
  define m' where "m' = free_block (put_block (m\<lparr>am_nodes := h\<rparr>) ?p y) ?p"
  define a' where "a' = a\<lparr>ma_list := l, ma_data := (ma_data a)[nat k := NULL]\<rparr>"
  have sz: "ma_extent a' = ma_extent a" "ma_area a' = ma_area a" by (simp_all add: a'_def ma_extent_def ma_area_def)
  note tab = ma_table_drop [OF t(1) assms(2) len(1), of a', OF _ _ sz(1)]
  have tab: "ma_table a' (L - {k})" "\<And>j. j \<in> L - {k} \<Longrightarrow> ma_ptr a' j = ma_ptr a j"
    by (rule tab; simp add: a'_def)+
  have im: "ma_ptr a' ` (L - {k}) = ma_ptr a ` (L - {k})" using tab(2) by simp
  have inj: "inj_on (ma_ptr a) L" using t(1) by (rule ma_ptr_inj)
  have neq: "ma_ptr a j \<noteq> ?p" if "j \<in> L - {k}" for j using inj assms(2) that by (metis DiffE inj_onD singletonI)
  have "\<exists>y. am_blocks m' (ma_ptr a' j) = Some y \<and> ma_block_ok a' j (e j) (n j) y" if j: "j \<in> L - {k}" for j
  proof -
    obtain y where "am_blocks m (ma_ptr a j) = Some y" "ma_block_ok a j (e j) (n j) y"
      using assms(1) j by (auto simp: ma_core_def)
    then show ?thesis using j neq [OF j] tab(2) [OF j] ma_block_ok_cong [OF sz(2)]
      by (simp add: m'_def put_block_def free_block_def)
  qed
  moreover have "header_node ?p \<notin> set (map header_node bl)"
    using neq by (auto simp: cl(3)) (metis Diff_iff singletonD)
  then have "dlist_inv (am_nodes m') (ma_list a') (map header_node bl)" "set bl = ma_ptr a' ` (L - {k})"
    using cl(2,3) im by (simp_all add: m'_def a'_def put_block_def free_block_def)
  moreover have "dom (am_blocks m') = ma_ptr a ` L - {?p}"
    using t(2) assms(2) by (auto simp: m'_def put_block_def free_block_def)
  then have "dom (am_blocks m') = ma_ptr a' ` (L - {k})"
    unfolding im using inj assms(2) by (simp add: inj_on_image_set_diff [where C = L])
  moreover have "ma_dims a'" using dims by (simp add: ma_dims_def a'_def ma_area_def)
  ultimately have core: "ma_core m' a' (L - {k}) e n" unfolding ma_core_def using tab(1) by metis
  show ?thesis
    by (rule that [OF cl(1), of "(ma_data a)[nat k := NULL]"]) (use core len(2) k tab(2) in \<open>simp_all add: m'_def a'_def\<close>)
qed

lemma ma_drop_core:
  assumes "ma_core m a L e n" "k \<in> L" "ma_block_ok a k e' n' x"
  obtains m' a' where "ma_drop m a k (ma_ptr a k) x = Inr (m', a', n' = 0)"
    "ma_core m' a' (if n' = 0 then L - {k} else L) (e(k := e')) (n(k := n'))"
    "\<And>j. j \<in> L \<Longrightarrow> n' = 0 \<Longrightarrow> j \<noteq> k \<Longrightarrow> ma_ptr a' j = ma_ptr a j" "n' \<noteq> 0 \<Longrightarrow> a' = a"
    "ma_slot_size a' = ma_slot_size a" "ma_slot_count a' = ma_slot_count a"
    "ma_thread_safe a' = ma_thread_safe a" "ma_held a' = ma_held a"
proof (cases "n' = 0")
  case False
  then show ?thesis using ma_core_put [OF assms] assms(3)
    by (intro that [of "put_block m (ma_ptr a k) x" a]) (simp_all add: ma_drop_def ma_block_ok_def)
next
  case True
  obtain m1 a1 data where r: "MemArenaSlotHeaderClean (put_block m (ma_ptr a k) x) a (ma_ptr a k) = Inr (m1, a1)"
    "arr_set (ma_data a1) k NULL = Inr data"
    "ma_core (free_block m1 (ma_ptr a k)) (a1\<lparr>ma_data := data\<rparr>) (L - {k}) (e(k := e')) (n(k := n'))"
    "\<And>j. j \<in> L \<Longrightarrow> j \<noteq> k \<Longrightarrow> ma_ptr (a1\<lparr>ma_data := data\<rparr>) j = ma_ptr a j"
    "ma_slot_size a1 = ma_slot_size a" "ma_slot_count a1 = ma_slot_count a"
    "ma_thread_safe a1 = ma_thread_safe a" "ma_held a1 = ma_held a"
    using ma_remove_core [OF ma_core_put [OF assms] assms(2)] by metis
  have "ma_drop m a k (ma_ptr a k) x = Inr (free_block m1 (ma_ptr a k), a1\<lparr>ma_data := data\<rparr>, True)"
    using True r(1,2) assms(3) by (simp add: ma_drop_def ma_block_ok_def)
  then show ?thesis using r True by (intro that [of "free_block m1 (ma_ptr a k)" "a1\<lparr>ma_data := data\<rparr>"]) simp_all
qed

text \<open>Destroying the arena frees every block.\<close>

lemma ma_destroy_core:
  assumes "ma_core m a L e n"
  shows "\<exists>m' a'. MemArenaDestroy m a = Inr (m', a') \<and> am_blocks m' = Map.empty"
proof -
  define step where "step = (\<lambda>i (m, a). and_then (arr_get (ma_data a) i) (\<lambda>b.
         and_then (if b \<noteq> NULL then
             and_then (MemArenaSlotHeaderClean m a b) (\<lambda>(m, a). Inr (free_block m b, a))
           else Inr (m, a)) (\<lambda>(m, a).
         and_then (arr_set (ma_data a) i NULL) (\<lambda>data. Inr (m, a\<lparr>ma_data := data\<rparr>)))))"
  define cap where "cap = ma_capacity a"
  have "\<exists>m' a' L'. for_each step [i..cap - 1] (m, a) = Inr (m', a') \<and> ma_core m' a' L' e n \<and> L' \<inter> {i..<cap} = {} \<and> L' \<subseteq> L"
    if "0 \<le> i" "ma_core m a L e n" "ma_capacity a = cap" for i m a L
    using that
  proof (induction "nat (cap - i)" arbitrary: i m a L)
    case 0
    then show ?case by (intro exI [of _ m] exI [of _ a] exI [of _ L]) simp
  next
    case (Suc r)
    then have up: "[i..cap - 1] = i # [i + 1..cap - 1]" by (intro upto_rec1) linarith
    obtain m1 a1 where s: "step i (m, a) = Inr (m1, a1)" "ma_core m1 a1 (L - {i}) e n" "ma_capacity a1 = cap"
    proof (cases "i \<in> L")
      case True
      obtain m2 a2 data where r: "MemArenaSlotHeaderClean m a (ma_ptr a i) = Inr (m2, a2)" "arr_set (ma_data a2) i NULL = Inr data"
        "ma_core (free_block m2 (ma_ptr a i)) (a2\<lparr>ma_data := data\<rparr>) (L - {i}) e n" "ma_capacity a2 = ma_capacity a"
        using ma_remove_core [OF Suc.prems(2) True] by metis
      moreover have "arr_get (ma_data a) i = Inr (ma_ptr a i)" "ma_ptr a i \<noteq> NULL"
        using ma_core_get [OF Suc.prems(2) True] by metis+
      ultimately have "step i (m, a) = Inr (free_block m2 (ma_ptr a i), a2\<lparr>ma_data := data\<rparr>)" by (simp add: step_def)
      then show ?thesis using that r(3,4) Suc.prems(3) by simp
    next
      case False
      have e: "arr_get (ma_data a) i = Inr NULL" "nat i < length (ma_data a)"
        using ma_core_empty_slot [OF Suc.prems(2,1) _ False] Suc by linarith+
      then have "(ma_data a)[nat i := NULL] = ma_data a" using Suc.prems(1) by (simp add: list_update_same_conv)
      then have "step i (m, a) = Inr (m, a)" using e Suc.prems(1) by (simp add: step_def)
      then show ?thesis using that Suc.prems False by simp
    qed
    obtain m' a' L' where "for_each step [i + 1..cap - 1] (m1, a1) = Inr (m', a')" "ma_core m' a' L' e n"
      "L' \<inter> {i + 1..<cap} = {}" "L' \<subseteq> L - {i}"
    proof -
      have "r = nat (cap - (i + 1))" "0 \<le> i + 1" using Suc.hyps(2) Suc.prems(1) by linarith+
      from Suc.hyps(1) [OF this s(2,3)] show ?thesis using that by metis
    qed
    moreover have "{i..<cap} \<subseteq> insert i {i + 1..<cap}" by auto
    ultimately show ?case unfolding up using s(1) by (intro exI [of _ m'] exI [of _ a'] exI [of _ L']) auto
  qed
  from this [of 0, OF _ assms] obtain m' a' L' where f: "for_each step [0..cap - 1] (m, a) = Inr (m', a')" "ma_core m' a' L' e n"
    "L' \<inter> {0..<cap} = {}" "L' \<subseteq> L"
    by (auto simp: cap_def)
  have "L \<subseteq> {0..<cap}" using assms by (simp add: ma_core_def ma_table_def cap_def)
  then have "dom (am_blocks m') = {}" using f(2-4) by (auto simp: ma_core_def)
  then show ?thesis using f(1) by (simp add: MemArenaDestroy_def step_def cap_def)
qed

section \<open>The objects\<close>

text \<open>The objects of block \<open>k\<close> among \<open>ids\<close>, by their position in the block, and the blocks that are needed.\<close>

definition ma_els :: "int \<Rightarrow> int set \<Rightarrow> int \<Rightarrow> int set" where
  "ma_els c ids k = {i. 0 \<le> i \<and> i < c \<and> k * c + i \<in> ids}"

definition ma_live :: "int \<Rightarrow> int set \<Rightarrow> (int \<Rightarrow> nat) \<Rightarrow> int set" where
  "ma_live c ids pins = {k. ma_els c ids k \<noteq> {} \<or> pins k \<noteq> 0}"

definition ma_inv :: "ma_mem \<Rightarrow> mem_arena \<Rightarrow> int set \<Rightarrow> (int \<Rightarrow> nat) \<Rightarrow> bool" where
  "ma_inv m a ids pins \<longleftrightarrow> \<not> ma_held a \<and> ids \<subseteq> {0..} \<and>
     ma_core m a (ma_live (ma_slot_count a) ids pins) (ma_els (ma_slot_count a) ids)
       (\<lambda>k. int (card (ma_els (ma_slot_count a) ids k)) + int (pins k))"

definition ma_loc :: "mem_arena \<Rightarrow> int \<Rightarrow> addr" where
  "ma_loc a i = ma_slot_ptr a (ma_ptr a (i div ma_slot_count a)) (i mod ma_slot_count a)"

lemma ma_els_index:
  assumes "0 < c" "0 \<le> j" "j < c"
  shows "k * c + j = i \<longleftrightarrow> k = i div c \<and> j = i mod (c :: int)"
proof
  assume "k * c + j = i"
  then show "k = i div c \<and> j = i mod c" using assms by (metis add.commute div_mult_self1 div_pos_pos_trivial mod_mult_self1 mod_pos_pos_trivial add_0 less_irrefl)
next
  assume "k = i div c \<and> j = i mod c"
  then show "k * c + j = i" by simp
qed

lemma ma_els_insert:
  assumes "0 < c"
  shows "ma_els c (insert i ids) = (ma_els c ids)(i div c := insert (i mod c) (ma_els c ids (i div c)))"
proof
  fix k
  have "ma_els c (insert i ids) k = {j. 0 \<le> j \<and> j < c \<and> k * c + j = i} \<union> ma_els c ids k"
    by (auto simp: ma_els_def)
  also have "{j. 0 \<le> j \<and> j < c \<and> k * c + j = i} = (if k = i div c then {i mod c} else {})"
    using assms ma_els_index [OF assms, of _ k i] by auto
  finally show "ma_els c (insert i ids) k = ((ma_els c ids)(i div c := insert (i mod c) (ma_els c ids (i div c)))) k"
    by simp
qed

lemma ma_els_remove:
  assumes "0 < c"
  shows "ma_els c (ids - {i}) = (ma_els c ids)(i div c := ma_els c ids (i div c) - {i mod c})"
proof
  fix k
  have "ma_els c (ids - {i}) k = ma_els c ids k - {j. 0 \<le> j \<and> j < c \<and> k * c + j = i}"
    by (auto simp: ma_els_def)
  also have "{j. 0 \<le> j \<and> j < c \<and> k * c + j = i} = (if k = i div c then {i mod c} else {})"
    using assms ma_els_index [OF assms, of _ k i] by auto
  finally show "ma_els c (ids - {i}) k = ((ma_els c ids)(i div c := ma_els c ids (i div c) - {i mod c})) k"
    by simp
qed

lemma ma_els_finite [simp]: "finite (ma_els c ids k)"
  by (rule finite_subset [of _ "{0..<c}"]) (auto simp: ma_els_def)

lemma ma_els_iff: "0 < c \<Longrightarrow> i mod c \<in> ma_els c ids (i div c) \<longleftrightarrow> i \<in> (ids :: int set)"
  by (simp add: ma_els_def)

lemma ma_live_insert:
  "0 < c \<Longrightarrow> ma_live c (insert i ids) pins = insert (i div c) (ma_live c ids pins)"
  by (auto simp: ma_live_def ma_els_insert)

lemma ma_live_member: "0 < c \<Longrightarrow> i \<in> ids \<Longrightarrow> i div c \<in> ma_live c ids pins"
  using ma_els_iff [of c i ids] by (auto simp: ma_live_def)

lemma ma_live_remove:
  assumes "0 < c" "k = i div c" "i \<in> ids"
  shows "ma_live c (ids - {i}) pins =
    (if int (card (ma_els c (ids - {i}) k)) + int (pins k) = 0 then ma_live c ids pins - {k} else ma_live c ids pins)"
proof -
  have "int (card (ma_els c (ids - {i}) k)) + int (pins k) = 0 \<longleftrightarrow> ma_els c (ids - {i}) k = {} \<and> pins k = 0"
    using card_0_eq [OF ma_els_finite [of c "ids - {i}" k]] by linarith
  moreover have "ma_els c (ids - {i}) j = ma_els c ids j" if "j \<noteq> k" for j using assms that by (simp add: ma_els_remove)
  moreover have "k \<in> ma_live c ids pins" using ma_live_member assms by simp
  ultimately have "j \<in> ma_live c (ids - {i}) pins \<longleftrightarrow> j \<in> (if int (card (ma_els c (ids - {i}) k)) + int (pins k) = 0
      then ma_live c ids pins - {k} else ma_live c ids pins)" for j
    unfolding ma_live_def by (cases "j = k") (simp_all split: if_splits)
  then show ?thesis by blast
qed

lemma ma_split_id_eq: "0 \<le> i \<Longrightarrow> 0 < ma_slot_count a \<Longrightarrow> ma_split_id a i = Inr (i div ma_slot_count a, i mod ma_slot_count a)"
  by (simp add: ma_split_id_def)

lemma ma_lock_free: "\<not> ma_held a \<Longrightarrow> ma_lock a = Inr (a\<lparr>ma_held := ma_thread_safe a\<rparr>)"
  by (simp add: ma_lock_def)

lemma ma_unlock_locked: "ma_held a = ma_thread_safe a \<Longrightarrow> ma_unlock a = a\<lparr>ma_held := False\<rparr>"
  by (simp add: ma_unlock_def)

lemma ma_test_ok:
  assumes "ma_block_ok a k e n x" "0 \<le> j"
  shows "ma_test x j = Inr (c_bool (j \<in> e))"
  using assms bm.tst_law by (auto simp: ma_block_ok_def ma_test_def)

lemma ma_mark_ok:
  assumes "ma_block_ok a k e (int (card e) + p) x" "0 \<le> j" "finite e" and lim: "j < 2 ^ 62"
  obtains x' where "ma_mark x j = Inr x'" "ma_block_ok a k (insert j e) (int (card (insert j e)) + p) x'"
proof -
  obtain bm where bm: "mb_bitmap x = Some bm" "dbm_inv bm" "dbm_els bm = e" using assms(1) by (auto simp: ma_block_ok_def)
  obtain bm' r where bm': "DynBitMapBitSet bm j = Inr (bm', r)" "dbm_inv bm'" "dbm_els bm' = insert j e"
    using bm.ins_law [OF bm(2) assms(2) lim] bm(3) by auto
  show ?thesis
    using assms(1,3) bm bm' ma_test_ok [OF assms(1,2)]
    by (intro that [of "(if j \<in> e then x else x\<lparr>mb_busy_count := mb_busy_count x + 1\<rparr>)\<lparr>mb_bitmap := Some bm'\<rparr>"])
      (auto simp: ma_mark_def ma_check_canaries_def ma_block_ok_def insert_absorb)
qed

lemma ma_inv_counts: "ma_inv m a ids pins \<Longrightarrow> 0 < ma_slot_count a \<and> 0 \<le> ma_slot_size a"
  by (simp add: ma_inv_def ma_core_def ma_dims_def)

lemma ma_grab_spec:
  assumes inv: "ma_inv m a ids pins" and i: "0 \<le> i" and new: "ma_fresh m a new" and lim: "i div ma_slot_count a < 2 ^ 59"
  obtains m' a' where "MemArenaGrabByID junk new m a i = Inr (m', a', ma_loc a' i)" "ma_inv m' a' (insert i ids) pins"
    "\<And>j. j \<in> ids \<Longrightarrow> ma_loc a' j = ma_loc a j" "ma_slot_size a' = ma_slot_size a" "ma_slot_count a' = ma_slot_count a"
    "ma_thread_safe a' = ma_thread_safe a"
proof -
  define c k j where ckj: "c = ma_slot_count a" "k = i div c" "j = i mod c"
  define L e n where len: "L = ma_live c ids pins" "e = ma_els c ids" "n = (\<lambda>k. int (card (e k)) + int (pins k))"
  have c: "0 < c" using ma_inv_counts [OF inv] by (simp add: ckj)
  have k: "0 \<le> k" "0 \<le> j" using i c by (simp_all add: ckj pos_imp_zdiv_nonneg_iff)
  define a1 where "a1 = a\<lparr>ma_held := ma_thread_safe a\<rparr>"
  have nh: "\<not> ma_held a" and core: "ma_core m a L e n" using inv by (simp_all add: ma_inv_def len ckj)
  have core1: "ma_core m a1 L e n" using core by (simp add: a1_def)
  have st: "ma_lock a = Inr a1" "ma_split_id a1 i = Inr (k, j)"
    using nh i c by (simp_all add: ma_lock_free a1_def ma_split_id_eq ckj)
  obtain a2 where a2: "(if k \<ge> ma_capacity a1 then ma_grow junk a1 k else Inr a1) = Inr a2" "ma_core m a2 L e n" "k < ma_capacity a2"
    "\<And>j. j \<in> L \<Longrightarrow> ma_ptr a2 j = ma_ptr a1 j" "ma_slot_size a2 = ma_slot_size a1" "ma_slot_count a2 = ma_slot_count a1"
    "ma_thread_safe a2 = ma_thread_safe a1" "ma_held a2 = ma_held a1"
  proof (cases "k \<ge> ma_capacity a1")
    case True
    have "k < 2 ^ 59" using lim by (simp add: ckj)
    show ?thesis by (rule ma_grow_core [OF core1 True \<open>k < 2 ^ 59\<close>, of junk]) (use that True in simp)
  qed (use core1 that [of a1] in simp)
  have fr: "ma_fresh m a2 new" using new a2(5,6) by (simp add: ma_fresh_def ma_extent_def ma_area_def a1_def)
  obtain b where b: "arr_get (ma_data a2) k = Inr b" "b = NULL \<longleftrightarrow> k \<notin> L"
    by (cases "k \<in> L") (use ma_core_get [OF a2(2), of k] ma_core_empty_slot(1) [OF a2(2) k(1) a2(3)] in auto)
  obtain m3 a3 where a3: "(if b = NULL then ma_new_block new m a2 k else Inr (m, a2)) = Inr (m3, a3)" "ma_core m3 a3 (insert k L) e n"
    "\<And>j. j \<in> L \<Longrightarrow> ma_ptr a3 j = ma_ptr a2 j" "ma_slot_size a3 = ma_slot_size a2" "ma_slot_count a3 = ma_slot_count a2"
    "ma_thread_safe a3 = ma_thread_safe a2" "ma_held a3 = ma_held a2"
  proof (cases "k \<in> L")
    case True
    then show ?thesis using that [of m a2] a2(2) b(2) by (simp add: insert_absorb)
  next
    case False
    then have "e k = {}" "n k = 0" by (auto simp: len ma_live_def)
    then have "e(k := {}) = e" "n(k := 0) = n" by (simp_all add: fun_upd_idem)
    then show ?thesis using ma_new_block_core [OF a2(2) k(1) a2(3) False fr] that b(2) False by metis
  qed
  obtain x where x: "arr_get (ma_data a3) k = Inr (ma_ptr a3 k)" "get_block m3 (ma_ptr a3 k) = Inr x"
    "ma_block_ok a3 k (e k) (int (card (e k)) + int (pins k)) x"
    using ma_core_get [OF a3(2) insertI1] by (auto simp: len)
  have c3: "ma_slot_count a3 = c" using a2 a3 by (simp add: a1_def ckj)
  note bounds = ma_dims_bounds [OF ma_core_dims [OF a3(2)], unfolded c3]
  have jc: "j < c" "j < 2 ^ 62" using bounds(1) pos_mod_bound [OF c, of i] by (simp_all add: ckj)
  have at: "ma_slot_at a3 (ma_ptr a3 k) j = Inr (ma_slot_ptr a3 (ma_ptr a3 k) j)" using bounds(4) [OF k(2) jc(1)] .
  obtain x' where x': "ma_mark x j = Inr x'" "ma_block_ok a3 k (insert j (e k)) (int (card (insert j (e k))) + int (pins k)) x'"
    using ma_mark_ok [OF x(3) k(2)] jc by (auto simp: len)
  define m' where "m' = put_block m3 (ma_ptr a3 k) x'"
  have put: "ma_core m' a3 (insert k L) (e(k := insert j (e k))) (n(k := int (card (insert j (e k))) + int (pins k)))"
    unfolding m'_def by (rule ma_core_put [OF a3(2) _ x'(2)]) simp
  have held: "ma_held a3 = ma_thread_safe a3" "ma_slot_count a3 = c" using a2 a3 by (simp_all add: a1_def ckj)
  have e': "ma_els c (insert i ids) = e(k := insert j (e k))" using c by (simp add: ma_els_insert len ckj)
  have "(\<lambda>q. int (card (ma_els c (insert i ids) q)) + int (pins q)) = n(k := int (card (insert j (e k))) + int (pins k))"
    unfolding e' by (auto simp: len)
  moreover have "ma_live c (insert i ids) pins = insert k L" using c by (simp add: ma_live_insert len ckj)
  ultimately have "ma_inv m' (ma_unlock a3) (insert i ids) pins"
    using put inv i unfolding ma_inv_def ma_unlock_locked [OF held(1)] by (simp add: held(2) e')
  moreover have "ma_slot_ptr a3 (ma_ptr a3 k) j = ma_loc (ma_unlock a3) i"
    using held(2) by (simp add: ma_loc_def ma_slot_ptr_def ma_ptr_def ma_unlock_def ckj)
  then have "MemArenaGrabByID junk new m a i = Inr (m', ma_unlock a3, ma_loc (ma_unlock a3) i)"
    using i st a2(1) b(1) a3(1) x(1,2) x'(1) at by (simp add: MemArenaGrabByID_def m'_def)
  moreover have "ma_loc (ma_unlock a3) q = ma_loc a q" if "q \<in> ids" for q
    using ma_live_member [OF c that] a2 a3 held by (simp add: ma_loc_def ma_unlock_def a1_def len ckj ma_slot_ptr_def ma_ptr_def)
  ultimately show ?thesis
    using a2 a3 by (intro that [of m' "ma_unlock a3"]) (simp_all add: ma_unlock_def a1_def)
qed


lemma ma_active_get:
  assumes "ma_core m a L e n" "k \<in> L"
  obtains x where "ma_active m a k = Inr (ma_ptr a k, x)" "ma_block_ok a k (e k) (n k) x"
proof -
  obtain x where x: "arr_get (ma_data a) k = Inr (ma_ptr a k)" "ma_ptr a k \<noteq> NULL"
    "get_block m (ma_ptr a k) = Inr x" "ma_block_ok a k (e k) (n k) x"
    using ma_core_get [OF assms] by metis
  then show ?thesis by (intro that [of x]) (simp_all add: ma_active_def ma_check_canaries_def ma_block_ok_def)
qed

lemma ma_release_spec:
  assumes inv: "ma_inv m a ids pins" and i: "i \<in> ids"
  obtains m' a' where "MemArenaReleaseByID m a i = Inr (m', a')" "ma_inv m' a' (ids - {i}) pins"
    "\<And>j. j \<in> ids - {i} \<Longrightarrow> ma_loc a' j = ma_loc a j" "ma_slot_size a' = ma_slot_size a" "ma_slot_count a' = ma_slot_count a"
    "ma_thread_safe a' = ma_thread_safe a"
proof -
  define c k j where ckj: "c = ma_slot_count a" "k = i div c" "j = i mod c"
  define L e n where len: "L = ma_live c ids pins" "e = ma_els c ids" "n = (\<lambda>k. int (card (e k)) + int (pins k))"
  have c: "0 < c" using ma_inv_counts [OF inv] by (simp add: ckj)
  have i0: "0 \<le> i" using inv i by (auto simp: ma_inv_def)
  have k: "k \<in> L" "0 \<le> j" "j \<in> e k" using ma_live_member [OF c i] c i by (simp_all add: len ckj ma_els_iff)
  define a1 where "a1 = a\<lparr>ma_held := ma_thread_safe a\<rparr>"
  have nh: "\<not> ma_held a" and core: "ma_core m a1 L e n" using inv by (simp_all add: ma_inv_def len ckj a1_def)
  have st: "ma_lock a = Inr a1" "ma_split_id a1 i = Inr (k, j)"
    using nh i0 c by (simp_all add: ma_lock_free a1_def ma_split_id_eq ckj)
  obtain x where x: "ma_active m a1 k = Inr (ma_ptr a1 k, x)" "ma_block_ok a1 k (e k) (n k) x"
    using ma_active_get [OF core k(1)] by metis
  obtain bm where bm: "mb_bitmap x = Some bm" "dbm_inv bm" "dbm_els bm = e k" using x(2) by (auto simp: ma_block_ok_def)
  obtain bm' r where bm': "DynBitMapBitClear bm j = Inr (bm', r)" "dbm_inv bm'" "dbm_els bm' = e k - {j}"
    using bm.del_law [OF bm(2) k(2)] bm(3) by auto
  define x' where "x' = x\<lparr>mb_bitmap := Some bm', mb_busy_count := mb_busy_count x - 1\<rparr>"
  define n' where "n' = int (card (e k - {j})) + int (pins k)"
  have "finite (e k)" by (simp add: len)
  then have "card (e k) = Suc (card (e k - {j}))" using k(3) by (metis card.remove)
  then have nk: "n k - 1 = n'" by (simp add: len(3) n'_def)
  have x': "ma_block_ok a1 k (e k - {j}) n' x'"
    using x(2) bm' unfolding nk [symmetric] by (auto simp: ma_block_ok_def x'_def)
  obtain m' a' where d: "ma_drop m a1 k (ma_ptr a1 k) x' = Inr (m', a', n' = 0)"
    "ma_core m' a' (if n' = 0 then L - {k} else L) (e(k := e k - {j})) (n(k := n'))"
    "\<And>j. j \<in> L \<Longrightarrow> n' = 0 \<Longrightarrow> j \<noteq> k \<Longrightarrow> ma_ptr a' j = ma_ptr a1 j" "n' \<noteq> 0 \<Longrightarrow> a' = a1"
    "ma_slot_size a' = ma_slot_size a1" "ma_slot_count a' = ma_slot_count a1"
    "ma_thread_safe a' = ma_thread_safe a1" "ma_held a' = ma_held a1"
    using ma_drop_core [OF core k(1) x'] by metis
  have held: "ma_held a' = ma_thread_safe a'" "ma_slot_count a' = c" using d by (simp_all add: a1_def ckj)
  have e': "ma_els c (ids - {i}) = e(k := e k - {j})" using c by (simp add: ma_els_remove len ckj)
  have nn: "(\<lambda>q. int (card (ma_els c (ids - {i}) q)) + int (pins q)) = n(k := n')"
    unfolding e' by (auto simp: len n'_def)
  have "int (card (ma_els c (ids - {i}) k)) + int (pins k) = n'" by (simp add: e' n'_def)
  then have L': "ma_live c (ids - {i}) pins = (if n' = 0 then L - {k} else L)"
    using ma_live_remove [OF c ckj(2) i, of pins] by (simp add: len)
  have inv': "ma_inv m' (ma_unlock a') (ids - {i}) pins"
    using d(2) inv nn L' unfolding ma_inv_def ma_unlock_locked [OF held(1)] by (auto simp: held(2) e')
  have "ma_test x j = Inr 1" using ma_test_ok [OF x(2) k(2)] k(3) by simp
  then have run: "MemArenaReleaseByID m a i = Inr (m', ma_unlock a')"
    using i0 st x(1) bm(1) bm'(1) d(1) by (simp add: MemArenaReleaseByID_def x'_def)
  have "ma_loc (ma_unlock a') q = ma_loc a q" if q: "q \<in> ids - {i}" for q
  proof -
    have "q div c \<in> ma_live c (ids - {i}) pins" using ma_live_member [OF c] q by simp
    then have "ma_ptr a' (q div c) = ma_ptr a1 (q div c)" using d(3,4) L' by (cases "n' = 0") auto
    then show ?thesis using d(5) held by (simp add: ma_loc_def ma_unlock_def a1_def ckj ma_slot_ptr_def ma_ptr_def)
  qed
  then show ?thesis
    using d run inv' by (intro that [of m' "ma_unlock a'"]) (simp_all add: ma_unlock_def a1_def)
qed

lemma ma_slot_bound:
  assumes "0 \<le> r" "r < ma_slot_count a" "0 \<le> ma_slot_size a"
  shows "nat (r * ma_slot_size a) + nat (ma_slot_size a) \<le> nat (ma_area a)"
proof -
  have "(r + 1) * ma_slot_size a \<le> (ma_slot_count a + 1) * (ma_slot_size a + 1)"
    using assms by (intro mult_mono) auto
  then have "r * ma_slot_size a + ma_slot_size a \<le> ma_area a" by (simp add: ma_area_def algebra_simps)
  then show ?thesis using assms by (simp flip: nat_add_distrib)
qed

lemma ma_loc_apart:
  assumes inv: "ma_inv m a ids pins" and i: "i \<in> ids" "j \<in> ids" "i \<noteq> j"
  shows "apart (nat (ma_slot_size a)) (ma_loc a i) (ma_loc a j)"
proof -
  define c where "c = ma_slot_count a"
  have c: "0 < c" "0 \<le> ma_slot_size a" using ma_inv_counts [OF inv] by (simp_all add: c_def)
  have t: "ma_table a (ma_live c ids pins)" using inv by (simp add: ma_inv_def ma_core_def c_def)
  have L: "i div c \<in> ma_live c ids pins" "j div c \<in> ma_live c ids pins" using ma_live_member c i by simp_all
  define s where "s = nat (ma_slot_size a)"
  have sz: "ma_slot_size a = int s" using c(2) by (simp add: s_def)
  define p q where pq: "p = nat (i mod c)" "q = nat (j mod c)"
  have pm: "i mod c = int p" "j mod c = int q" using c(1) by (simp_all add: pq)
  have loc: "ma_loc a i = ma_ptr a (i div c) + p * s + sizeof_header" "ma_loc a j = ma_ptr a (j div c) + q * s + sizeof_header"
    by (simp_all add: ma_loc_def ma_slot_ptr_def pm sz flip: c_def of_nat_mult)
  have bound: "r * s + s \<le> nat (ma_area a)" if "int r < c" for r
    using ma_slot_bound [of "int r" a] that ma_inv_counts [OF inv] by (simp add: c_def sz nat_add_distrib nat_mult_distrib)
  have b: "p * s + s \<le> nat (ma_area a)" "q * s + s \<le> nat (ma_area a)"
    using bound pm c(1) by (metis pos_mod_bound)+
  show ?thesis
  proof (cases "i div c = j div c")
    case False
    then have "apart (ma_extent a) (ma_ptr a (i div c)) (ma_ptr a (j div c))" using t L by (auto simp: ma_table_def)
    then show ?thesis using b unfolding loc s_def [symmetric] apart_def ma_extent_def by linarith
  next
    case True
    then have "p \<noteq> q" using i(3) pm by (metis mult_div_mod_eq)
    then have "Suc p \<le> q \<or> Suc q \<le> p" by linarith
    then have "Suc p * s \<le> q * s \<or> Suc q * s \<le> p * s" using mult_le_mono1 by blast
    then show ?thesis unfolding loc s_def [symmetric] apart_def True by auto
  qed
qed

lemma ma_loc_pos [simp]: "ma_loc a i \<noteq> NULL"
  by (simp add: ma_loc_def ma_slot_ptr_def sizeof_header_def NULL_def)

lemma ma_find_spec:
  assumes inv: "ma_inv m a ids pins" and i: "0 \<le> i"
  shows "MemArenaFindByID m a i = Inr (a, if i \<in> ids then ma_loc a i else NULL)"
proof -
  define c k j where ckj: "c = ma_slot_count a" "k = i div c" "j = i mod c"
  define L where len: "L = ma_live c ids pins"
  have c: "0 < c" using ma_inv_counts [OF inv] by (simp add: ckj)
  have k: "0 \<le> k" "0 \<le> j" using i c by (simp_all add: ckj pos_imp_zdiv_nonneg_iff)
  define a1 where "a1 = a\<lparr>ma_held := ma_thread_safe a\<rparr>"
  have nh: "\<not> ma_held a" and core: "ma_core m a1 L (ma_els c ids) (\<lambda>k. int (card (ma_els c ids k)) + int (pins k))"
    using inv by (simp_all add: ma_inv_def len ckj a1_def)
  have un: "ma_unlock a1 = a" using nh by (simp add: a1_def ma_unlock_def)
  have st: "ma_lock a = Inr a1" "ma_split_id a1 i = Inr (k, j)"
    using nh i c by (simp_all add: ma_lock_free a1_def ma_split_id_eq ckj)
  have start: "MemArenaFindByID m a i = (if k \<ge> ma_capacity a1 then Inr (a, NULL)
      else and_then (arr_get (ma_data a1) k) (\<lambda>b.
      if b = NULL then Inr (a, NULL)
      else and_then (get_block m b) (\<lambda>x.
      and_then (ma_test x j) (\<lambda>t.
      if t = 0 then Inr (a, NULL)
      else and_then (ma_slot_at a1 b j) (\<lambda>p. Inr (a, p))))))"
    using i st by (simp add: MemArenaFindByID_def un cong: if_cong)
  show ?thesis
  proof (cases "k \<in> L")
    case True
    obtain x where x: "arr_get (ma_data a1) k = Inr (ma_ptr a1 k)" "ma_ptr a1 k \<noteq> NULL" "k < ma_capacity a1"
      "get_block m (ma_ptr a1 k) = Inr x" "ma_block_ok a1 k (ma_els c ids k) (int (card (ma_els c ids k)) + int (pins k)) x"
      using ma_core_get [OF core True] by metis
    have "ma_test x j = Inr (c_bool (i \<in> ids))" using ma_test_ok [OF x(5) k(2)] c by (simp add: ckj ma_els_iff)
    moreover have "ma_slot_ptr a1 (ma_ptr a1 k) j = ma_loc a i" by (simp add: ma_loc_def ma_slot_ptr_def a1_def ma_ptr_def ckj)
    moreover have "j < ma_slot_count a1" using pos_mod_bound [OF c, of i] by (simp add: ckj a1_def)
    then have "ma_slot_at a1 (ma_ptr a1 k) j = Inr (ma_slot_ptr a1 (ma_ptr a1 k) j)"
      by (rule ma_dims_bounds(4) [OF ma_core_dims [OF core] k(2)])
    ultimately show ?thesis unfolding start using x(1-4) by simp
  next
    case False
    then have "i \<notin> ids" using ma_live_member [OF c] by (auto simp: len ckj)
    then show ?thesis unfolding start using ma_core_empty_slot(1) [OF core k(1) _ False] by simp
  qed
qed

lemma MemArenaNew_inv:
  assumes "0 < arena_size" "0 \<le> slot_size" "0 < slot_count" "arena_size < 2 ^ 59" "(slot_count + 1) * (slot_size + 1) < 2 ^ 62"
  obtains a where "MemArenaNew arena_size slot_size slot_count ts = Inr a" "ma_inv \<lparr>am_nodes = Map.empty, am_blocks = Map.empty\<rparr> a {} (\<lambda>_. 0)"
    "ma_slot_size a = slot_size" "ma_slot_count a = slot_count" "ma_thread_safe a = ts" "ma_initial a = arena_size"
proof -
  define a where "a = \<lparr>ma_held = False, ma_list = DLinkedListInit False, ma_current = 0, ma_initial = arena_size, ma_capacity = arena_size,
    ma_slot_size = slot_size, ma_slot_count = slot_count, ma_data = replicate (nat (arena_size + 1)) NULL, ma_thread_safe = ts\<rparr>"
  have L: "ma_live c {} (\<lambda>_. 0) = {}" for c by (auto simp: ma_live_def ma_els_def)
  have "nat k < nat (arena_size + 1)" if "0 \<le> k" "k < arena_size" for k using that by auto
  then have "ma_inv \<lparr>am_nodes = Map.empty, am_blocks = Map.empty\<rparr> a {} (\<lambda>_. 0)"
    using assms unfolding ma_inv_def L
    by (auto simp: a_def ma_core_def ma_dims_def ma_table_def ma_ptr_def dlist_inv_def is_dlist_def DLinkedListInit_def ma_area_def)
  moreover have "MemArenaNew arena_size slot_size slot_count ts = Inr a" using assms(1,4) by (simp add: MemArenaNew_def a_def)
  ultimately show ?thesis by (intro that [of a]) (simp_all add: a_def)
qed


lemma ma_lock_spec:
  assumes inv: "ma_inv m a ids pins" and i: "0 \<le> i" "k = i div ma_slot_count a" and act: "k \<in> ma_live (ma_slot_count a) ids pins"
  obtains m' where "MemArenaLockByID m a i = Inr (m', a)" "ma_inv m' a ids (pins(k := Suc (pins k)))"
proof -
  define c where "c = ma_slot_count a"
  define L e n where len: "L = ma_live c ids pins" "e = ma_els c ids" "n = (\<lambda>k. int (card (e k)) + int (pins k))"
  have c: "0 < c" using ma_inv_counts [OF inv] by (simp add: c_def)
  define a1 where "a1 = a\<lparr>ma_held := ma_thread_safe a\<rparr>"
  have nh: "\<not> ma_held a" and core: "ma_core m a1 L e n" using inv by (simp_all add: ma_inv_def len c_def a1_def)
  have st: "ma_lock a = Inr a1" "c_div i (ma_slot_count a1) = Inr k" "ma_unlock a1 = a"
    using nh i c by (simp_all add: ma_lock_free a1_def ma_unlock_def c_def)
  obtain x where x: "ma_active m a1 k = Inr (ma_ptr a1 k, x)" "ma_block_ok a1 k (e k) (n k) x"
    using ma_active_get [OF core] act by (metis len(1) c_def)
  define m' where "m' = put_block m (ma_ptr a1 k) (x\<lparr>mb_busy_count := mb_busy_count x + 1\<rparr>)"
  have kL: "k \<in> L" using act by (simp add: len c_def)
  have "ma_block_ok a1 k (e k) (n k + 1) (x\<lparr>mb_busy_count := mb_busy_count x + 1\<rparr>)" using x(2) by (simp add: ma_block_ok_def)
  then have core': "ma_core m' a1 L e (n(k := n k + 1))"
    using ma_core_put [OF core kL] unfolding m'_def by (metis fun_upd_triv)
  have "(\<lambda>q. int (card (ma_els c ids q)) + int ((pins(k := Suc (pins k))) q)) = n(k := n k + 1)" by (auto simp: len)
  moreover have "ma_live c ids (pins(k := Suc (pins k))) = L" using act by (auto simp: ma_live_def len c_def)
  ultimately have "ma_inv m' a ids (pins(k := Suc (pins k)))"
    using core' inv by (simp add: ma_inv_def len a1_def flip: c_def)
  then show ?thesis using that i st x(1) by (simp add: MemArenaLockByID_def m'_def)
qed

lemma ma_unlock_spec:
  assumes inv: "ma_inv m a ids pins" and i: "0 \<le> i" "k = i div ma_slot_count a" and pin: "pins k \<noteq> 0"
  obtains m' a' where "MemArenaUnlockByID m a i = Inr (m', a', c_bool (ma_els (ma_slot_count a) ids k = {} \<and> pins k = 1))"
    "ma_inv m' a' ids (pins(k := pins k - 1))" "\<And>j. j \<in> ids \<Longrightarrow> ma_loc a' j = ma_loc a j"
    "ma_slot_size a' = ma_slot_size a" "ma_slot_count a' = ma_slot_count a" "ma_thread_safe a' = ma_thread_safe a"
proof -
  define c where "c = ma_slot_count a"
  define L e n where len: "L = ma_live c ids pins" "e = ma_els c ids" "n = (\<lambda>k. int (card (e k)) + int (pins k))"
  define pins' where "pins' = pins(k := pins k - 1)"
  have c: "0 < c" using ma_inv_counts [OF inv] by (simp add: c_def)
  define a1 where "a1 = a\<lparr>ma_held := ma_thread_safe a\<rparr>"
  have nh: "\<not> ma_held a" and core: "ma_core m a1 L e n" using inv by (simp_all add: ma_inv_def len c_def a1_def)
  have st: "ma_lock a = Inr a1" "c_div i (ma_slot_count a1) = Inr k"
    using nh i c by (simp_all add: ma_lock_free a1_def c_def)
  have kL: "k \<in> L" using pin by (simp add: len ma_live_def)
  obtain x where x: "ma_active m a1 k = Inr (ma_ptr a1 k, x)" "ma_block_ok a1 k (e k) (n k) x"
    using ma_active_get [OF core kL] by metis
  define n' where "n' = int (card (e k)) + int (pins' k)"
  have n': "n' = n k - 1" using pin by (simp add: n'_def len pins'_def of_nat_diff)
  have x': "ma_block_ok a1 k (e k) n' (x\<lparr>mb_busy_count := mb_busy_count x - 1\<rparr>)" using x(2) by (simp add: ma_block_ok_def n')
  have z: "n' = 0 \<longleftrightarrow> e k = {} \<and> pins k = 1"
  proof -
    have "n' = 0 \<longleftrightarrow> card (e k) = 0 \<and> pins k = 1" using pin by (auto simp: n'_def pins'_def)
    moreover have "finite (e k)" by (simp add: len)
    ultimately show ?thesis by (metis card_0_eq)
  qed
  obtain m' a' where d: "ma_drop m a1 k (ma_ptr a1 k) (x\<lparr>mb_busy_count := mb_busy_count x - 1\<rparr>) = Inr (m', a', n' = 0)"
    "ma_core m' a' (if n' = 0 then L - {k} else L) (e(k := e k)) (n(k := n'))"
    "\<And>j. j \<in> L \<Longrightarrow> n' = 0 \<Longrightarrow> j \<noteq> k \<Longrightarrow> ma_ptr a' j = ma_ptr a1 j" "n' \<noteq> 0 \<Longrightarrow> a' = a1"
    "ma_slot_size a' = ma_slot_size a1" "ma_slot_count a' = ma_slot_count a1"
    "ma_thread_safe a' = ma_thread_safe a1" "ma_held a' = ma_held a1"
    using ma_drop_core [OF core kL x'] by metis
  have held: "ma_held a' = ma_thread_safe a'" "ma_slot_count a' = c" using d by (simp_all add: a1_def c_def)
  have nn: "(\<lambda>q. int (card (ma_els c ids q)) + int (pins' q)) = n(k := n')" by (auto simp: len n'_def pins'_def)
  have L': "ma_live c ids pins' = (if n' = 0 then L - {k} else L)" using z pin
    by (auto simp: ma_live_def len pins'_def split: if_splits)
  have inv': "ma_inv m' (ma_unlock a') ids pins'"
    using d(2) inv nn L' unfolding ma_inv_def ma_unlock_locked [OF held(1)] by (simp add: held(2) len)
  have run: "MemArenaUnlockByID m a i = Inr (m', ma_unlock a', c_bool (ma_els c ids k = {} \<and> pins k = 1))"
    using i st x(1) d(1) z by (simp add: MemArenaUnlockByID_def len)
  have "ma_loc (ma_unlock a') q = ma_loc a q" if q: "q \<in> ids" for q
  proof -
    have "q div c \<in> L" "n' = 0 \<Longrightarrow> q div c \<noteq> k" using ma_live_member [OF c q] z ma_els_iff [OF c, of q ids] q by (auto simp: len)
    then have "ma_ptr a' (q div c) = ma_ptr a1 (q div c)" using d(3,4) by (cases "n' = 0") auto
    then show ?thesis using d(5) held by (simp add: ma_loc_def ma_unlock_def a1_def c_def ma_slot_ptr_def ma_ptr_def)
  qed
  then show ?thesis
    using d run inv' by (intro that [of m' "ma_unlock a'"]) (simp_all add: ma_unlock_def a1_def c_def pins'_def)
qed

section \<open>The store interface\<close>

text \<open>
  A store of numbered objects: what its clients use of taking, returning and finding an object. From the
  laws follow the facts about a table \<open>objs\<close> of the pointers handed out: an object keeps its pointer
  until it is returned, and the objects do not overlap.
\<close>

locale object_store =
  fixes inv :: "'s \<Rightarrow> int set \<Rightarrow> bool" and loc :: "'s \<Rightarrow> int \<Rightarrow> addr" and osize :: "'s \<Rightarrow> nat"
    and ok_new :: "'s \<Rightarrow> int \<Rightarrow> addr \<Rightarrow> bool"
    and grab :: "addr \<Rightarrow> addr \<Rightarrow> 's \<Rightarrow> int \<Rightarrow> ('s \<times> addr) result"
    and release :: "'s \<Rightarrow> int \<Rightarrow> 's result" and find :: "'s \<Rightarrow> int \<Rightarrow> addr result"
  assumes grab_law: "inv s ids \<Longrightarrow> 0 \<le> i \<Longrightarrow> ok_new s i new \<Longrightarrow>
      \<exists>s'. grab junk new s i = Inr (s', loc s' i) \<and> inv s' (insert i ids) \<and> (\<forall>j \<in> ids. loc s' j = loc s j) \<and> osize s' = osize s"
    and release_law: "inv s ids \<Longrightarrow> i \<in> ids \<Longrightarrow>
      \<exists>s'. release s i = Inr s' \<and> inv s' (ids - {i}) \<and> (\<forall>j \<in> ids - {i}. loc s' j = loc s j) \<and> osize s' = osize s"
    and find_law: "inv s ids \<Longrightarrow> 0 \<le> i \<Longrightarrow> find s i = Inr (if i \<in> ids then loc s i else NULL)"
    and apart_law: "inv s ids \<Longrightarrow> i \<in> ids \<Longrightarrow> j \<in> ids \<Longrightarrow> i \<noteq> j \<Longrightarrow> apart (osize s) (loc s i) (loc s j)"
    and loc_law: "loc s i \<noteq> NULL"
begin

definition holds :: "'s \<Rightarrow> (int \<rightharpoonup> addr) \<Rightarrow> bool" where
  "holds s objs \<longleftrightarrow> inv s (dom objs) \<and> (\<forall>i p. objs i = Some p \<longrightarrow> p = loc s i)"

lemma holds_grab:
  assumes "holds s objs" "0 \<le> i" "ok_new s i new"
  shows "\<exists>s' p. grab junk new s i = Inr (s', p) \<and> p \<noteq> NULL \<and> (objs i = None \<or> objs i = Some p) \<and> holds s' (objs(i \<mapsto> p)) \<and> osize s' = osize s"
proof -
  obtain s' where s': "grab junk new s i = Inr (s', loc s' i)" "inv s' (insert i (dom objs))" "\<forall>j \<in> dom objs. loc s' j = loc s j" "osize s' = osize s"
    using grab_law [OF _ assms(2,3), of "dom objs" junk] assms(1) unfolding holds_def by blast
  have o: "objs j = Some p \<Longrightarrow> p = loc s j" for j p using assms(1) by (simp add: holds_def)
  have same: "p = loc s' j" if "objs j = Some p" for j p using o [OF that] s'(3) that by force
  have "holds s' (objs(i \<mapsto> loc s' i))" using s'(2) same by (simp add: holds_def)
  moreover have "objs i = None \<or> objs i = Some (loc s' i)" using same by (cases "objs i") auto
  ultimately show ?thesis using s'(1,4) loc_law by blast
qed

lemma holds_release:
  assumes "holds s objs" "i \<in> dom objs"
  shows "\<exists>s'. release s i = Inr s' \<and> holds s' (objs(i := None)) \<and> osize s' = osize s"
proof -
  obtain s' where s': "release s i = Inr s'" "inv s' (dom objs - {i})" "\<forall>j \<in> dom objs - {i}. loc s' j = loc s j" "osize s' = osize s"
    using release_law [OF _ assms(2), of s] assms(1) unfolding holds_def by blast
  have o: "objs j = Some p \<Longrightarrow> p = loc s j" for j p using assms(1) by (simp add: holds_def)
  have "p = loc s' j" if "objs j = Some p" "j \<noteq> i" for j p using o [OF that(1)] s'(3) that by force
  then have "holds s' (objs(i := None))" using s'(2) by (simp add: holds_def)
  then show ?thesis using s'(1,4) by blast
qed

lemma holds_find: "holds s objs \<Longrightarrow> 0 \<le> i \<Longrightarrow> find s i = Inr (case objs i of None \<Rightarrow> NULL | Some p \<Rightarrow> p)"
  using find_law [of s "dom objs" i] by (auto simp: holds_def split: option.splits)

lemma holds_apart: "holds s objs \<Longrightarrow> objs i = Some p \<Longrightarrow> objs j = Some q \<Longrightarrow> i \<noteq> j \<Longrightarrow> apart (osize s) p q"
  using apart_law [of s "dom objs" i j] by (auto simp: holds_def)

end

definition ma_grab :: "addr \<Rightarrow> addr \<Rightarrow> ma_mem \<times> mem_arena \<Rightarrow> int \<Rightarrow> ((ma_mem \<times> mem_arena) \<times> addr) result" where
  "ma_grab junk new s i = and_then (MemArenaGrabByID junk new (fst s) (snd s) i) (\<lambda>(m, a, p). Inr ((m, a), p))"

definition ma_find :: "ma_mem \<times> mem_arena \<Rightarrow> int \<Rightarrow> addr result" where
  "ma_find s i = and_then (MemArenaFindByID (fst s) (snd s) i) (\<lambda>(a, p). Inr p)"

interpretation ar: object_store "\<lambda>s ids. ma_inv (fst s) (snd s) ids pins" "\<lambda>s. ma_loc (snd s)" "\<lambda>s. nat (ma_slot_size (snd s))"
  "\<lambda>s i new. ma_fresh (fst s) (snd s) new \<and> i div ma_slot_count (snd s) < 2 ^ 59" ma_grab "\<lambda>s. MemArenaReleaseByID (fst s) (snd s)" ma_find for pins
proof
  fix s :: "ma_mem \<times> mem_arena" and ids :: "int set" and i :: int and new junk :: addr
  assume a: "ma_inv (fst s) (snd s) ids pins" "0 \<le> i" "ma_fresh (fst s) (snd s) new \<and> i div ma_slot_count (snd s) < 2 ^ 59"
  show "\<exists>s'. ma_grab junk new s i = Inr (s', ma_loc (snd s') i) \<and> ma_inv (fst s') (snd s') (insert i ids) pins \<and>
      (\<forall>j \<in> ids. ma_loc (snd s') j = ma_loc (snd s) j) \<and> nat (ma_slot_size (snd s')) = nat (ma_slot_size (snd s))"
    by (rule ma_grab_spec [OF a(1,2) conjunct1 [OF a(3)] conjunct2 [OF a(3)], of junk]) (simp add: ma_grab_def)
next
  fix s :: "ma_mem \<times> mem_arena" and ids :: "int set" and i :: int assume a: "ma_inv (fst s) (snd s) ids pins" "i \<in> ids"
  show "\<exists>s'. MemArenaReleaseByID (fst s) (snd s) i = Inr s' \<and> ma_inv (fst s') (snd s') (ids - {i}) pins \<and>
      (\<forall>j \<in> ids - {i}. ma_loc (snd s') j = ma_loc (snd s) j) \<and> nat (ma_slot_size (snd s')) = nat (ma_slot_size (snd s))"
    by (rule ma_release_spec [OF a]) simp
next
  fix s :: "ma_mem \<times> mem_arena" and ids :: "int set" and i :: int assume "ma_inv (fst s) (snd s) ids pins" "0 \<le> i"
  then show "ma_find s i = Inr (if i \<in> ids then ma_loc (snd s) i else NULL)" using ma_find_spec by (simp add: ma_find_def)
qed (use ma_loc_apart in auto)

end
