(* ===== verification/MemArenaRuns.thy ===== *)
theory MemArenaRuns
  imports MemArenaProps
begin

text \<open>Runs of the memory arena, with the table of the objects that are taken and the pins of its blocks, and the claims.\<close>

section \<open>Runs\<close>

text \<open>
  \<open>ma_run n sz c ts ((m, a), objs, pins)\<close> holds of the states that follow \<open>MemArenaNew\<close> with \<open>n\<close> blocks of \<open>c\<close>
  objects of \<open>sz\<close> bytes, fewer than 2 ^ 59 blocks of fewer than 2 ^ 62 bytes, and take objects of the first
  2 ^ 59 blocks, so that no size wraps. An object is returned only when it is taken, a block is pinned only when it
  is allocated, and unpinned as often as it was pinned.
\<close>

inductive ma_run :: "int \<Rightarrow> int \<Rightarrow> int \<Rightarrow> bool \<Rightarrow> (ma_mem \<times> mem_arena) \<times> (int \<rightharpoonup> addr) \<times> (int \<Rightarrow> nat) \<Rightarrow> bool"
  for n sz c :: int and ts :: bool where
  init: "0 < n \<Longrightarrow> n < 2 ^ 59 \<Longrightarrow> 0 \<le> sz \<Longrightarrow> 0 < c \<Longrightarrow> (c + 1) * (sz + 1) < 2 ^ 62 \<Longrightarrow> MemArenaNew n sz c ts = Inr a \<Longrightarrow>
    ma_run n sz c ts ((\<lparr>am_nodes = Map.empty, am_blocks = Map.empty\<rparr>, a), Map.empty, \<lambda>_. 0)"
| grab: "ma_run n sz c ts ((m, a), objs, pins) \<Longrightarrow> 0 \<le> i \<Longrightarrow> i div c < 2 ^ 59 \<Longrightarrow> ma_fresh m a new \<Longrightarrow>
    MemArenaGrabByID junk new m a i = Inr (m', a', p) \<Longrightarrow> ma_run n sz c ts ((m', a'), objs(i \<mapsto> p), pins)"
| release: "ma_run n sz c ts ((m, a), objs, pins) \<Longrightarrow> i \<in> dom objs \<Longrightarrow>
    MemArenaReleaseByID m a i = Inr (m', a') \<Longrightarrow> ma_run n sz c ts ((m', a'), objs(i := None), pins)"
| pin: "ma_run n sz c ts ((m, a), objs, pins) \<Longrightarrow> 0 \<le> i \<Longrightarrow>
    i div c \<in> (\<lambda>j. j div c) ` dom objs \<union> {k. pins k \<noteq> 0} \<Longrightarrow> MemArenaLockByID m a i = Inr (m', a') \<Longrightarrow>
    ma_run n sz c ts ((m', a'), objs, pins(i div c := Suc (pins (i div c))))"
| unpin: "ma_run n sz c ts ((m, a), objs, pins) \<Longrightarrow> 0 \<le> i \<Longrightarrow> pins (i div c) \<noteq> 0 \<Longrightarrow>
    MemArenaUnlockByID m a i = Inr (m', a', r) \<Longrightarrow> ma_run n sz c ts ((m', a'), objs, pins(i div c := pins (i div c) - 1))"

inductive_cases ma_runE: "ma_run n sz c ts s"

lemma ma_live_image:
  assumes "0 < c"
  shows "ma_live c ids pins = (\<lambda>j. j div c) ` ids \<union> {k. pins k \<noteq> 0}"
proof -
  have "ma_els c ids k \<noteq> {} \<longleftrightarrow> k \<in> (\<lambda>j. j div c) ` ids" for k
  proof
    assume "ma_els c ids k \<noteq> {}"
    then obtain j where j: "0 \<le> j" "j < c" "k * c + j \<in> ids" by (auto simp: ma_els_def)
    then have "k = (k * c + j) div c" using assms ma_els_index [OF assms j(1,2), of k] by blast
    then show "k \<in> (\<lambda>j. j div c) ` ids" using j(3) by blast
  next
    assume "k \<in> (\<lambda>j. j div c) ` ids"
    then obtain j where "k = j div c" "j \<in> ids" by blast
    then show "ma_els c ids k \<noteq> {}" using ma_els_iff [OF assms, of j ids] by blast
  qed
  then show ?thesis unfolding ma_live_def by blast
qed

definition ma_run_inv :: "int \<Rightarrow> int \<Rightarrow> bool \<Rightarrow> (ma_mem \<times> mem_arena) \<times> (int \<rightharpoonup> addr) \<times> (int \<Rightarrow> nat) \<Rightarrow> bool" where
  "ma_run_inv sz c ts = (\<lambda>(s, objs, pins). ar.holds pins s objs \<and> ma_slot_size (snd s) = sz \<and> ma_slot_count (snd s) = c \<and>
     ma_thread_safe (snd s) = ts)"

lemma ma_run_invD:
  assumes "ma_run_inv sz c ts ((m, a), objs, pins)"
  shows "ma_inv m a (dom objs) pins" "ar.holds pins (m, a) objs" "ma_slot_size a = sz" "ma_slot_count a = c" "ma_thread_safe a = ts" "0 < c" "0 \<le> sz"
    "\<And>i p. objs i = Some p \<Longrightarrow> p = ma_loc a i"
proof -
  show *: "ma_inv m a (dom objs) pins" "ar.holds pins (m, a) objs" "ma_slot_size a = sz" "ma_slot_count a = c" "ma_thread_safe a = ts"
    using assms by (simp_all add: ma_run_inv_def ar.holds_def)
  show "0 < c" "0 \<le> sz" using ma_inv_counts [OF *(1)] *(3,4) by simp_all
  show "p = ma_loc a i" if "objs i = Some p" for i p using *(2) that unfolding ar.holds_def by simp
qed

lemma ma_run_invI:
  assumes "ma_inv m a (dom objs) pins" "\<And>i. i \<in> dom objs \<Longrightarrow> objs i = Some (ma_loc a i)" "ma_slot_size a = sz" "ma_slot_count a = c" "ma_thread_safe a = ts"
  shows "ma_run_inv sz c ts ((m, a), objs, pins)"
proof -
  have "p = ma_loc a i" if "objs i = Some p" for i p using assms(2) [of i] that by auto
  then show ?thesis using assms by (simp add: ma_run_inv_def ar.holds_def)
qed

lemma ma_run_holds: "ma_run n sz c ts s \<Longrightarrow> ma_run_inv sz c ts s"
proof (induction rule: ma_run.induct)
  case (init a)
  obtain a' where "MemArenaNew n sz c ts = Inr a'" "ma_inv \<lparr>am_nodes = Map.empty, am_blocks = Map.empty\<rparr> a' {} (\<lambda>_. 0)"
    "ma_slot_size a' = sz" "ma_slot_count a' = c" "ma_thread_safe a' = ts"
    using MemArenaNew_inv [OF init(1,3,4,2,5)] by metis
  then show ?case using init(6) by (intro ma_run_invI) simp_all
next
  case (grab m a objs pins i new junk m' a' p)
  note d = ma_run_invD [OF grab.IH]
  show ?case
  proof (rule ma_grab_spec [OF d(1) grab.hyps(2,4), of junk])
    show "i div ma_slot_count a < 2 ^ 59" using grab.hyps(3) d(4) by simp
    fix m2 a2
    assume g: "MemArenaGrabByID junk new m a i = Inr (m2, a2, ma_loc a2 i)" "ma_inv m2 a2 (insert i (dom objs)) pins"
      "\<And>j. j \<in> dom objs \<Longrightarrow> ma_loc a2 j = ma_loc a j" "ma_slot_size a2 = ma_slot_size a" "ma_slot_count a2 = ma_slot_count a"
      "ma_thread_safe a2 = ma_thread_safe a"
    have eq: "m' = m2" "a' = a2" "p = ma_loc a2 i" using g(1) grab.hyps(5) by simp_all
    have "(objs(i \<mapsto> p)) j = Some (ma_loc a' j)" if "j \<in> dom (objs(i \<mapsto> p))" for j
      using that d(8) [of j] g(3) [of j] eq by (cases "j = i") auto
    then show ?thesis using g eq d(3-5) by (intro ma_run_invI) simp_all
  qed
next
  case (release m a objs pins i m' a')
  note d = ma_run_invD [OF release.IH]
  show ?case
  proof (rule ma_release_spec [OF d(1) release.hyps(2)])
    fix m2 a2
    assume g: "MemArenaReleaseByID m a i = Inr (m2, a2)" "ma_inv m2 a2 (dom objs - {i}) pins"
      "\<And>j. j \<in> dom objs - {i} \<Longrightarrow> ma_loc a2 j = ma_loc a j" "ma_slot_size a2 = ma_slot_size a" "ma_slot_count a2 = ma_slot_count a"
      "ma_thread_safe a2 = ma_thread_safe a"
    have eq: "m' = m2" "a' = a2" using g(1) release.hyps(3) by simp_all
    have "(objs(i := None)) j = Some (ma_loc a' j)" if "j \<in> dom (objs(i := None))" for j
      using that d(8) [of j] g(3) [of j] eq by (cases "j = i") auto
    then show ?thesis using g eq d(3-5) by (intro ma_run_invI) simp_all
  qed
next
  case (pin m a objs pins i m' a')
  note d = ma_run_invD [OF pin.IH]
  have act: "i div c \<in> ma_live (ma_slot_count a) (dom objs) pins" using pin.hyps(3) ma_live_image [OF d(6)] d(4) by simp
  show ?case
  proof (rule ma_lock_spec [OF d(1) pin.hyps(2) _ act])
    fix m2 assume g: "MemArenaLockByID m a i = Inr (m2, a)" "ma_inv m2 a (dom objs) (pins(i div c := Suc (pins (i div c))))"
    have "m' = m2" "a' = a" using g(1) pin.hyps(4) by simp_all
    then show ?thesis using g(2) d(3-5,8) by (intro ma_run_invI) auto
  qed (simp add: d(4))
next
  case (unpin m a objs pins i m' a' r)
  note d = ma_run_invD [OF unpin.IH]
  show ?case
  proof (rule ma_unlock_spec [OF d(1) unpin.hyps(2) _ unpin.hyps(3)])
    fix m2 a2
    assume g: "MemArenaUnlockByID m a i = Inr (m2, a2, c_bool (ma_els (ma_slot_count a) (dom objs) (i div c) = {} \<and> pins (i div c) = 1))"
      "ma_inv m2 a2 (dom objs) (pins(i div c := pins (i div c) - 1))"
      "\<And>j. j \<in> dom objs \<Longrightarrow> ma_loc a2 j = ma_loc a j" "ma_slot_size a2 = ma_slot_size a" "ma_slot_count a2 = ma_slot_count a"
      "ma_thread_safe a2 = ma_thread_safe a"
    have eq: "m' = m2" "a' = a2" using g(1) unpin.hyps(4) by simp_all
    have "objs j = Some (ma_loc a' j)" if "j \<in> dom objs" for j
      using that d(8) [of j] g(3) [of j] eq by auto
    then show ?thesis using g eq d(3-5) by (intro ma_run_invI) simp_all
  qed (simp add: d(4))
qed

section \<open>Claims\<close>

lemma ma_loc_inside:
  assumes inv: "ma_inv m a ids pins" and i: "i \<in> ids"
  shows "\<exists>b x. am_blocks m b = Some x \<and> b + sizeof_header \<le> ma_loc a i \<and>
    ma_loc a i + nat (ma_slot_size a) \<le> b + sizeof_header + length (mb_bytes x)"
proof -
  define c where "c = ma_slot_count a"
  note n = ma_inv_counts [OF inv]
  have "i div c \<in> ma_live c ids pins" using ma_live_member i n by (simp add: c_def)
  then obtain x where x: "am_blocks m (ma_ptr a (i div c)) = Some x" "length (mb_bytes x) = nat (ma_area a)"
    using inv by (auto simp: ma_inv_def ma_core_def ma_block_ok_def c_def)
  have "nat (i mod c * ma_slot_size a) + nat (ma_slot_size a) \<le> nat (ma_area a)"
    using n by (intro ma_slot_bound) (simp_all add: c_def)
  then show ?thesis using x by (intro exI [of _ "ma_ptr a (i div c)"] exI [of _ x]) (simp add: ma_loc_def ma_slot_ptr_def flip: c_def)
qed

text \<open>
  C17: objects of an arena. In every run of an arena with fewer than 2 ^ 59 blocks of fewer than 2 ^ 62 bytes, which
  takes objects of its first 2 ^ 59 blocks, an object that is taken is found at the pointer \<open>MemArenaGrabByID\<close>
  returned for it, also after the table of blocks has grown or other blocks have been freed, and no other
  number is found; the object lies inside the payload of an allocated block and does not overlap another
  object; and the allocated blocks are those with an object taken or a pin, so that a block is freed with its
  last user.
\<close>

theorem arena_objects:
  assumes run: "ma_run n sz c ts ((m, a), objs, pins)" and i: "0 \<le> i"
  shows "MemArenaFindByID m a i = Inr (a, case objs i of None \<Rightarrow> NULL | Some p \<Rightarrow> p) \<and>
    (case objs i of None \<Rightarrow> True | Some p \<Rightarrow>
       (\<exists>b x. am_blocks m b = Some x \<and> b + sizeof_header \<le> p \<and> p + nat sz \<le> b + sizeof_header + length (mb_bytes x)) \<and>
       (case objs j of None \<Rightarrow> True | Some q \<Rightarrow> i = j \<or> apart (nat sz) p q)) \<and>
    dom (am_blocks m) = ma_ptr a ` ((\<lambda>i. i div c) ` dom objs \<union> {k. pins k \<noteq> 0})"
proof (intro conjI)
  note d = ma_run_invD [OF ma_run_holds [OF run]]
  show "MemArenaFindByID m a i = Inr (a, case objs i of None \<Rightarrow> NULL | Some p \<Rightarrow> p)"
    using ma_find_spec [OF d(1) i] d(8) [of i] by (auto split: option.splits)
  show "case objs i of None \<Rightarrow> True | Some p \<Rightarrow>
       (\<exists>b x. am_blocks m b = Some x \<and> b + sizeof_header \<le> p \<and> p + nat sz \<le> b + sizeof_header + length (mb_bytes x)) \<and>
       (case objs j of None \<Rightarrow> True | Some q \<Rightarrow> i = j \<or> apart (nat sz) p q)"
  proof (cases "objs i")
    case (Some p)
    then have "\<exists>b x. am_blocks m b = Some x \<and> b + sizeof_header \<le> p \<and> p + nat sz \<le> b + sizeof_header + length (mb_bytes x)"
      using ma_loc_inside [OF d(1), of i] d(3) d(8) [OF Some] by (simp add: domIff)
    moreover have "case objs j of None \<Rightarrow> True | Some q \<Rightarrow> i = j \<or> apart (nat sz) p q"
      using ar.holds_apart [OF d(2) Some, of j] d(3) by (cases "objs j") auto
    ultimately show ?thesis using Some by simp
  qed simp
  show "dom (am_blocks m) = ma_ptr a ` ((\<lambda>i. i div c) ` dom objs \<union> {k. pins k \<noteq> 0})"
    using d(1,4) ma_live_image [OF d(6), of "dom objs" pins] by (simp add: ma_inv_def ma_core_def)
qed

text \<open>
  C18: progress. In every run, with the bounds of the previous claim, an object of the first 2 ^ 59 blocks can be taken, whether it is new or was taken before, in which case it
  is the same pointer; an object that is taken can be returned; a pinned block can be unpinned, the
  result being 1 exactly when this frees it; and destroying the arena frees every block.
\<close>

theorem arena_progress:
  assumes run: "ma_run n sz c ts ((m, a), objs, pins)" and i: "0 \<le> i" "i div c < 2 ^ 59" and new: "ma_fresh m a new"
  shows "(\<exists>m' a' p. MemArenaGrabByID junk new m a i = Inr (m', a', p) \<and> p \<noteq> NULL \<and> (objs i = None \<or> objs i = Some p)) \<and>
    (objs i = None \<or> (\<exists>m' a'. MemArenaReleaseByID m a i = Inr (m', a'))) \<and>
    (pins (i div c) = 0 \<or> (\<exists>m' a'. MemArenaUnlockByID m a i =
       Inr (m', a', c_bool (i div c \<notin> (\<lambda>i. i div c) ` dom objs \<and> pins (i div c) = 1)))) \<and>
    (\<exists>m' a'. MemArenaDestroy m a = Inr (m', a') \<and> am_blocks m' = Map.empty)"
proof (intro conjI)
  note d = ma_run_invD [OF ma_run_holds [OF run]]
  show "\<exists>m' a' p. MemArenaGrabByID junk new m a i = Inr (m', a', p) \<and> p \<noteq> NULL \<and> (objs i = None \<or> objs i = Some p)"
    using ar.holds_grab [OF d(2) i(1), of new junk] new i(2) d(4) by (auto simp: ma_grab_def and_then_eq_Inr)
  show "objs i = None \<or> (\<exists>m' a'. MemArenaReleaseByID m a i = Inr (m', a'))"
    using ar.holds_release [OF d(2), of i] by auto
  show "\<exists>m' a'. MemArenaDestroy m a = Inr (m', a') \<and> am_blocks m' = Map.empty"
    using ma_destroy_core d(1) unfolding ma_inv_def by metis
  have e: "ma_els c (dom objs) (i div c) = {} \<longleftrightarrow> i div c \<notin> (\<lambda>i. i div c) ` dom objs"
    using ma_live_image [OF d(6), of "dom objs" "\<lambda>_. 0"] by (auto simp: ma_live_def)
  show "pins (i div c) = 0 \<or> (\<exists>m' a'. MemArenaUnlockByID m a i =
       Inr (m', a', c_bool (i div c \<notin> (\<lambda>i. i div c) ` dom objs \<and> pins (i div c) = 1)))"
  proof (cases "pins (i div c) = 0")
    case False
    have u: "i div c = i div ma_slot_count a" using d(4) by simp
    show ?thesis
      by (rule ma_unlock_spec [OF d(1) i(1) u False]) (use d(4) e in simp)
  qed simp
qed

text \<open>
  Misuse. Returning an object that is not taken fails an assertion while its block is inside the table,
  and reads past the table when it is beyond it: \<open>MemArenaReleaseByID\<close> does not compare \<open>arena_id\<close> with the capacity.
\<close>

theorem arena_misuse:
  assumes run: "ma_run n sz c ts ((m, a), objs, pins)" and i: "0 \<le> i" "i \<notin> dom objs" and cap: "i div c \<noteq> ma_capacity a"
  shows "MemArenaReleaseByID m a i = Inl (if i div c < ma_capacity a then AssertFail else OutOfBounds)"
proof -
  note d = ma_run_invD [OF ma_run_holds [OF run]]
  define L where "L = ma_live c (dom objs) pins"
  define a1 where "a1 = a\<lparr>ma_held := ma_thread_safe a\<rparr>"
  define k j where kj: "k = i div c" "j = i mod c"
  have k: "0 \<le> k" "0 \<le> j" using i d(6) by (simp_all add: kj pos_imp_zdiv_nonneg_iff)
  have nh: "\<not> ma_held a" and core: "ma_core m a1 L (ma_els c (dom objs)) (\<lambda>k. int (card (ma_els c (dom objs) k)) + int (pins k))"
    using d(1,4) by (simp_all add: ma_inv_def L_def a1_def)
  have st: "ma_lock a = Inr a1" "ma_split_id a1 i = Inr (k, j)"
    using nh i d(4,6) by (simp_all add: ma_lock_free a1_def ma_split_id_eq kj)
  have cp: "ma_capacity a1 = ma_capacity a" by (simp add: a1_def)
  consider "ma_capacity a < k" | "k < ma_capacity a" "k \<notin> L" | "k \<in> L" using cap k core
    by (auto simp: kj) (metis linorder_cases)
  then show ?thesis
  proof cases
    case 1
    moreover have "length (ma_data a1) = nat (ma_capacity a) + 1" "0 \<le> ma_capacity a"
      using core cp by (simp_all add: ma_core_def ma_dims_def)
    ultimately have "arr_get (ma_data a1) k = Inl OutOfBounds" by (simp add: arr_get_def)
    then show ?thesis using 1 i(1) st by (simp add: MemArenaReleaseByID_def ma_active_def flip: kj)
  next
    case 2
    then show ?thesis using ma_core_empty_slot(1) [OF core k(1)] i(1) st cp by (simp add: MemArenaReleaseByID_def ma_active_def flip: kj)
  next
    case 3
    obtain x where x: "ma_active m a1 k = Inr (ma_ptr a1 k, x)"
      "ma_block_ok a1 k (ma_els c (dom objs) k) (int (card (ma_els c (dom objs) k)) + int (pins k)) x"
      using ma_active_get [OF core 3] by metis
    have "k < ma_capacity a" using core 3 cp by (auto simp: ma_core_def ma_table_def)
    moreover have "ma_test x j = Inr 0"
      using ma_test_ok [OF x(2) k(2)] ma_els_iff [OF d(6), of i "dom objs"] i(2) by (simp add: kj)
    ultimately show ?thesis using i(1) st x(1) by (simp add: MemArenaReleaseByID_def flip: kj)
  qed
qed


text \<open>An address for a new block always exists; two objects taken, in two blocks, one of them pinned.\<close>

lemma ma_fresh_exists:
  assumes "ma_inv m a ids pins"
  shows "\<exists>new. ma_fresh m a new"
proof -
  have "finite (dom (am_blocks m))"
    using assms finite_subset [of _ "{0..<ma_capacity a}"] by (auto simp: ma_inv_def ma_core_def ma_table_def)
  then obtain u where "\<forall>b \<in> dom (am_blocks m). b \<le> u" using finite_nat_set_iff_bounded_le by blast
  then have "apart (ma_extent a) (Suc (u + ma_extent a)) b" if "b \<in> dom (am_blocks m)" for b
    using that by (auto simp: apart_def intro: trans_le_add1 le_SucI dest: bspec)
  then have "ma_fresh m a (Suc (u + ma_extent a))" by (simp add: ma_fresh_def)
  then show ?thesis by blast
qed

lemma ma_run_grab_exists:
  assumes "ma_run n sz c ts ((m, a), objs, pins)" "0 \<le> i" "i div c < 2 ^ 59"
  shows "\<exists>m' a' p. ma_run n sz c ts ((m', a'), objs(i \<mapsto> p), pins)"
proof -
  note d = ma_run_invD [OF ma_run_holds [OF assms(1)]]
  obtain new where "ma_fresh m a new" using ma_fresh_exists [OF d(1)] by blast
  moreover have "i div ma_slot_count a < 2 ^ 59" using assms(3) d(4) by simp
  ultimately show ?thesis using ma_grab_spec [OF d(1) assms(2), of new NULL] ma_run.grab [OF assms, of new NULL] by metis
qed

lemma ex_run: "\<exists>m a p q. ma_run 1 4 2 False ((m, a), [0 \<mapsto> p, 5 \<mapsto> q], (\<lambda>_. 0)(2 := 1))"
proof -
  obtain a where "ma_run 1 4 2 False ((\<lparr>am_nodes = Map.empty, am_blocks = Map.empty\<rparr>, a), Map.empty, \<lambda>_. 0)"
    using ma_run.init [of 1 4 2 False] by (simp add: MemArenaNew_def)
  then obtain m1 a1 p where 1: "ma_run 1 4 2 False ((m1, a1), [0 \<mapsto> p], \<lambda>_. 0)"
    using ma_run_grab_exists [of _ _ _ _ _ _ Map.empty _ 0] by fastforce
  obtain m2 a2 q where 2: "ma_run 1 4 2 False ((m2, a2), [0 \<mapsto> p, 5 \<mapsto> q], \<lambda>_. 0)"
    using ma_run_grab_exists [OF 1, of 5] by auto
  note d = ma_run_invD [OF ma_run_holds [OF 2]]
  have act: "5 div 2 \<in> (\<lambda>j. j div 2) ` dom [0 \<mapsto> p, 5 \<mapsto> q] \<union> {k. (0::nat) \<noteq> 0}" by auto
  have "5 div 2 \<in> ma_live (ma_slot_count a2) (dom [0 \<mapsto> p, 5 \<mapsto> q]) (\<lambda>_. 0)"
    using act by (simp only: d(4) ma_live_image [OF d(6)])
  then obtain m3 where "MemArenaLockByID m2 a2 5 = Inr (m3, a2)" using ma_lock_spec [OF d(1), of 5 "5 div 2"] d(4) by auto
  from ma_run.pin [OF 2 _ act this] show ?thesis by auto
qed

theorem arena_objects_witness:
  "\<exists>m a p q. MemArenaFindByID m a 5 = Inr (a, q) \<and> apart 4 q p \<and>
    dom (am_blocks m) = ma_ptr a ` ((\<lambda>i. i div 2) ` dom [0 \<mapsto> p, 5 \<mapsto> q] \<union> {k. ((\<lambda>_. 0)(2 := 1 :: nat)) k \<noteq> 0})"
proof -
  obtain m a p q where run: "ma_run 1 4 2 False ((m, a), [0 \<mapsto> p, 5 \<mapsto> q], (\<lambda>_. 0)(2 := 1))" using ex_run by blast
  note arena_objects [OF run, of 5 0]
  then have "MemArenaFindByID m a 5 = Inr (a, q)" "apart 4 q p"
    "dom (am_blocks m) = ma_ptr a ` ((\<lambda>i. i div 2) ` dom [0 \<mapsto> p, 5 \<mapsto> q] \<union> {k. ((\<lambda>_. 0)(2 := 1 :: nat)) k \<noteq> 0})"
    by simp_all
  then show ?thesis by blast
qed

theorem arena_progress_witness:
  "\<exists>m a. (\<exists>m' a'. MemArenaReleaseByID m a 0 = Inr (m', a')) \<and> (\<exists>m' a'. MemArenaUnlockByID m a 5 = Inr (m', a', 0)) \<and>
     (\<exists>m' a'. MemArenaDestroy m a = Inr (m', a') \<and> am_blocks m' = Map.empty)"
proof -
  obtain m a p q where run: "ma_run 1 4 2 False ((m, a), [0 \<mapsto> p, 5 \<mapsto> q], (\<lambda>_. 0)(2 := 1))" using ex_run by blast
  obtain new where new: "ma_fresh m a new" using ma_fresh_exists ma_run_invD(1) [OF ma_run_holds [OF run]] by blast
  have "(5 :: int) div 2 \<in> (\<lambda>i. i div 2) ` dom [0 \<mapsto> p, 5 \<mapsto> q]" by auto
  then show ?thesis using arena_progress [OF run _ _ new, of 0 NULL] arena_progress [OF run _ _ new, of 5 NULL] by auto
qed

theorem arena_misuse_witness:
  "and_then (MemArenaNew 1 4 2 False) (\<lambda>a. MemArenaReleaseByID \<lparr>am_nodes = Map.empty, am_blocks = Map.empty\<rparr> a 1) = Inl AssertFail \<and>
   and_then (MemArenaNew 1 4 2 False) (\<lambda>a. MemArenaReleaseByID \<lparr>am_nodes = Map.empty, am_blocks = Map.empty\<rparr> a 4) = Inl OutOfBounds"
proof -
  obtain a where a: "MemArenaNew 1 4 2 False = Inr a" "ma_capacity a = 1" by (simp add: MemArenaNew_def)
  have run: "ma_run 1 4 2 False ((\<lparr>am_nodes = Map.empty, am_blocks = Map.empty\<rparr>, a), Map.empty, \<lambda>_. 0)"
    by (rule ma_run.init) (use a in simp_all)
  show ?thesis using arena_misuse [OF run, of 1] arena_misuse [OF run, of 4] a by simp
qed

end
