(* ===== verification/MemSlot.thy ===== *)
theory MemSlot
  imports MemArenaProps
begin

text \<open>
  The memory slots of libbrb_core/data/utils/mem_slot.c: a bounded pool of objects that composes a slot
  queue (the free numbers), a memory arena (the memory, by number) and eight doubly linked lists (the order of the
  objects in use). Every object carries metadata on its left: canaries, its number, the list it is in and
  its node. The metadata of a slot is kept as a structure at the address of the slot, beside the arena's
  blocks; a slot of a new block reads as zeros, and the metadata of a freed block is gone.
\<close>

section \<open>State\<close>

record ms_meta =
  mm_canary00 :: int
  mm_slot_id :: int
  mm_cur_list_id :: int
  mm_canary01 :: int

record ms_mem =
  ms_am :: ma_mem
  ms_nodes :: dheap
  ms_metas :: "addr \<rightharpoonup> ms_meta"

record mem_slot =
  ms_list :: "dlist list"
  ms_slots :: slot_queue
  ms_arena :: "mem_arena option"
  ms_held :: bool
  ms_loaded :: bool
  ms_thread_safe :: bool

definition MEMSLOT_CANARY_SEED :: int where "MEMSLOT_CANARY_SEED = 0x0B"

definition MEMSLOT_DEFAULT_LIST_COUNT :: int where "MEMSLOT_DEFAULT_LIST_COUNT = 8"

text \<open>The metadata takes 56 bytes in the LP64 layout; its node is at offset 8.\<close>

definition sizeof_meta :: nat where "sizeof_meta = 56"

definition meta_node :: "addr \<Rightarrow> addr" where "meta_node p = p + 8"

section \<open>Metadata\<close>

definition get_meta :: "ms_mem \<Rightarrow> addr \<Rightarrow> ms_meta result" where
  "get_meta mem p = (if p = NULL then Inl NullDeref
     else case ms_metas mem p of None \<Rightarrow> Inl BadPtr | Some x \<Rightarrow> Inr x)"

definition put_meta :: "ms_mem \<Rightarrow> addr \<Rightarrow> ms_meta \<Rightarrow> ms_mem" where
  "put_meta mem p x = mem\<lparr>ms_metas := (ms_metas mem)(p \<mapsto> x)\<rparr>"

text \<open>The view of a slot the arena has just handed out: zeros, unless it has been used before.\<close>

definition ms_view :: "ms_mem \<Rightarrow> addr \<Rightarrow> ms_mem" where
  "ms_view mem p = (if p = NULL \<or> ms_metas mem p \<noteq> None then mem
     else mem\<lparr>ms_metas := (ms_metas mem)(p \<mapsto> \<lparr>mm_canary00 = 0, mm_slot_id = 0, mm_cur_list_id = 0, mm_canary01 = 0\<rparr>),
       ms_nodes := (ms_nodes mem)(meta_node p \<mapsto> \<lparr>dn_data = NULL, dn_prev = NULL, dn_next = NULL\<rparr>)\<rparr>)"

text \<open>The slots of a block that is no longer allocated are gone, each with its node.\<close>

definition ms_forget :: "ms_mem \<Rightarrow> addr \<Rightarrow> nat \<Rightarrow> ms_mem" where
  "ms_forget mem b extent = (if am_blocks (ms_am mem) b \<noteq> None then mem
     else mem\<lparr>ms_metas := (\<lambda>p. if b \<le> p \<and> p < b + extent then None else ms_metas mem p),
       ms_nodes := (\<lambda>q. if meta_node b \<le> q \<and> q < meta_node b + extent then None else ms_nodes mem q)\<rparr>)"

section \<open>The arena and the lists of a base\<close>

definition ms_arena_grab :: "addr \<Rightarrow> addr \<Rightarrow> ms_mem \<Rightarrow> mem_slot \<Rightarrow> int \<Rightarrow> (ms_mem \<times> mem_slot \<times> addr) result" where
  "ms_arena_grab junk new mem b slot_id =
     and_then (deref (ms_arena b)) (\<lambda>a.
     and_then (MemArenaGrabByID junk new (ms_am mem) a slot_id) (\<lambda>(m, a, p).
     Inr (ms_view (mem\<lparr>ms_am := m\<rparr>) p, b\<lparr>ms_arena := Some a\<rparr>, p)))"

definition ms_arena_release :: "ms_mem \<Rightarrow> mem_slot \<Rightarrow> int \<Rightarrow> (ms_mem \<times> mem_slot) result" where
  "ms_arena_release mem b slot_id =
     and_then (deref (ms_arena b)) (\<lambda>a.
     and_then (MemArenaReleaseByID (ms_am mem) a slot_id) (\<lambda>(m, a').
     Inr (ms_forget (mem\<lparr>ms_am := m\<rparr>) (ma_ptr a (slot_id div ma_slot_count a)) (ma_extent a), b\<lparr>ms_arena := Some a'\<rparr>)))"

definition ms_get_list :: "mem_slot \<Rightarrow> int \<Rightarrow> dlist result" where
  "ms_get_list b list_id = arr_get (ms_list b) list_id"

definition ms_put_list :: "mem_slot \<Rightarrow> int \<Rightarrow> dlist \<Rightarrow> mem_slot result" where
  "ms_put_list b list_id l = and_then (arr_set (ms_list b) list_id l) (\<lambda>ls. Inr (b\<lparr>ms_list := ls\<rparr>))"

definition ms_delete :: "ms_mem \<Rightarrow> mem_slot \<Rightarrow> int \<Rightarrow> addr \<Rightarrow> (ms_mem \<times> mem_slot) result" where
  "ms_delete mem b list_id p =
     and_then (ms_get_list b list_id) (\<lambda>l.
     and_then (DLinkedListDelete (ms_nodes mem) l (meta_node p)) (\<lambda>(h, l).
     and_then (ms_put_list b list_id l) (\<lambda>b. Inr (mem\<lparr>ms_nodes := h\<rparr>, b))))"

definition ms_add :: "bool \<Rightarrow> ms_mem \<Rightarrow> mem_slot \<Rightarrow> int \<Rightarrow> addr \<Rightarrow> (ms_mem \<times> mem_slot) result" where
  "ms_add tail mem b list_id p =
     and_then (ms_get_list b list_id) (\<lambda>l.
     and_then (if tail then DLinkedListAddTail (ms_nodes mem) l (meta_node p) p
       else DLinkedListAdd (ms_nodes mem) l (meta_node p) p) (\<lambda>(h, l).
     and_then (ms_put_list b list_id l) (\<lambda>b. Inr (mem\<lparr>ms_nodes := h\<rparr>, b))))"

section \<open>Initialisation and locking\<close>

definition MemSlotBaseInit :: "mem_slot \<Rightarrow> int \<Rightarrow> int \<Rightarrow> bool \<Rightarrow> (mem_slot \<times> int) result" where
  "MemSlotBaseInit b slot_sz slot_count thread_safe =
     (if ms_loaded b then Inr (b, 0)
      else and_then (SlotQueueInit (ms_slots b) (c_int slot_count)) (\<lambda>q.
      and_then (MemArenaNew slot_count (c_long (int sizeof_meta + slot_sz + 1)) 16 False) (\<lambda>arena.
      Inr (b\<lparr>ms_held := False, ms_thread_safe := thread_safe, ms_slots := q,
        ms_list := map (\<lambda>i. DLinkedListInit False) [0..MEMSLOT_DEFAULT_LIST_COUNT - 1],
        ms_arena := Some arena, ms_loaded := True\<rparr>, 1))))"

definition MemSlotBaseClean :: "ms_mem \<Rightarrow> mem_slot \<Rightarrow> (ms_mem \<times> mem_slot \<times> int) result" where
  "MemSlotBaseClean mem b =
     and_then (case ms_arena b of None \<Rightarrow> Inr mem
       | Some a \<Rightarrow> and_then (MemArenaDestroy (ms_am mem) a) (\<lambda>(m, _).
           Inr (mem\<lparr>ms_am := m, ms_metas := Map.empty, ms_nodes := Map.empty\<rparr>))) (\<lambda>mem.
     Inr (mem, b\<lparr>ms_held := (if ms_thread_safe b then False else ms_held b), ms_slots := SlotQueueDestroy (ms_slots b),
       ms_arena := None, ms_loaded := False\<rparr>, 1))"

definition MemSlotBaseLock :: "mem_slot \<Rightarrow> (mem_slot \<times> int) result" where
  "MemSlotBaseLock b = and_then (mutex_lock (ms_thread_safe b) (ms_held b)) (\<lambda>h. Inr (b\<lparr>ms_held := h\<rparr>, 1))"

definition MemSlotBaseUnlock :: "mem_slot \<Rightarrow> mem_slot \<times> int" where
  "MemSlotBaseUnlock b = (b\<lparr>ms_held := mutex_unlock (ms_thread_safe b) (ms_held b)\<rparr>, 1)"

text \<open>The locked statements of an operation.\<close>

definition ms_lock :: "mem_slot \<Rightarrow> mem_slot result" where
  "ms_lock b = and_then (MemSlotBaseLock b) (\<lambda>(b, _). Inr b)"

definition ms_unlock :: "mem_slot \<Rightarrow> mem_slot" where
  "ms_unlock b = fst (MemSlotBaseUnlock b)"

section \<open>Counting\<close>

definition list_is_empty :: "dlist \<Rightarrow> bool" where
  "list_is_empty l \<longleftrightarrow> dl_head l = NULL"

definition MemSlotBaseIsEmptyList :: "mem_slot \<Rightarrow> int \<Rightarrow> (mem_slot \<times> int) result" where
  "MemSlotBaseIsEmptyList b list_id =
     and_then (ms_lock b) (\<lambda>b.
     and_then (ms_get_list b list_id) (\<lambda>l. Inr (ms_unlock b, c_bool (list_is_empty l))))"

primrec ms_all_empty :: "mem_slot \<Rightarrow> int list \<Rightarrow> bool result" where
  "ms_all_empty b [] = Inr True"
| "ms_all_empty b (i # is) = and_then (ms_get_list b i) (\<lambda>l. if list_is_empty l then ms_all_empty b is else Inr False)"

definition MemSlotBaseIsEmpty :: "mem_slot \<Rightarrow> (mem_slot \<times> int) result" where
  "MemSlotBaseIsEmpty b =
     and_then (ms_lock b) (\<lambda>b.
     and_then (ms_all_empty b [0..MEMSLOT_DEFAULT_LIST_COUNT - 1]) (\<lambda>e. Inr (ms_unlock b, c_bool e)))"

definition MemSlotBaseSlotListIDSize :: "mem_slot \<Rightarrow> int \<Rightarrow> (mem_slot \<times> int) result" where
  "MemSlotBaseSlotListIDSize b list_id =
     (if list_id \<ge> MEMSLOT_DEFAULT_LIST_COUNT then Inr (b, 0)
      else and_then (ms_lock b) (\<lambda>b.
      and_then (ms_get_list b list_id) (\<lambda>l. Inr (ms_unlock b, sint (dl_size l)))))"

definition MemSlotBaseSlotListSizeAll :: "mem_slot \<Rightarrow> (mem_slot \<times> int) result" where
  "MemSlotBaseSlotListSizeAll b =
     and_then (ms_lock b) (\<lambda>b.
     and_then (for_each (\<lambda>i (b, count). and_then (MemSlotBaseSlotListIDSize b i) (\<lambda>(b, k). and_then (in_long (count + k)) (\<lambda>count. Inr (b, count))))
       [0..MEMSLOT_DEFAULT_LIST_COUNT - 1] (b, 0)) (\<lambda>(b, count).
     Inr (ms_unlock b, count)))"

section \<open>Data pointers\<close>

definition MemSlotBaseSlotData :: "addr \<Rightarrow> addr" where
  "MemSlotBaseSlotData p = (if p = NULL then NULL else p + sizeof_meta)"

text \<open>The canaries are compared in \<open>long\<close>, the type of the stored number.\<close>

definition ms_check_canaries :: "ms_meta \<Rightarrow> unit result" where
  "ms_check_canaries x =
     and_then (in_long (mm_slot_id x + 1)) (\<lambda>i.
     and_then (in_long (MEMSLOT_CANARY_SEED * i)) (\<lambda>c.
     if mm_canary00 x \<noteq> c then Inl AssertFail
     else and_then (in_long (MEMSLOT_CANARY_SEED + i)) (\<lambda>c. assert_c (mm_canary01 x = c))))"

definition MemSlotBaseSlotGetID :: "ms_mem \<Rightarrow> addr \<Rightarrow> int result" where
  "MemSlotBaseSlotGetID mem slot_ptr =
     and_then (get_meta mem (slot_ptr - sizeof_meta)) (\<lambda>x.
     and_then (ms_check_canaries x) (\<lambda>_. Inr (c_int (mm_slot_id x))))"

section \<open>Looking at and removing the ends of a list\<close>

text \<open>Head and tail differ only in the end the source reads.\<close>

definition MemSlotBaseSlotPointToHead :: "ms_mem \<Rightarrow> mem_slot \<Rightarrow> int \<Rightarrow> (mem_slot \<times> addr) result" where
  "MemSlotBaseSlotPointToHead mem b list_id =
     and_then (ms_lock b) (\<lambda>b.
     and_then (ms_get_list b list_id) (\<lambda>l.
     if dl_head l = NULL then Inr (ms_unlock b, NULL)
     else and_then (get_data (ms_nodes mem) (dl_head l)) (\<lambda>slot_meta.
     if slot_meta = NULL then Inr (ms_unlock b, NULL)
     else Inr (ms_unlock b, MemSlotBaseSlotData slot_meta))))"

definition MemSlotBaseSlotPointToTail :: "ms_mem \<Rightarrow> mem_slot \<Rightarrow> int \<Rightarrow> (mem_slot \<times> addr) result" where
  "MemSlotBaseSlotPointToTail mem b list_id =
     and_then (ms_lock b) (\<lambda>b.
     and_then (ms_get_list b list_id) (\<lambda>l.
     if dl_tail l = NULL then Inr (ms_unlock b, NULL)
     else and_then (get_data (ms_nodes mem) (dl_tail l)) (\<lambda>slot_meta.
     if slot_meta = NULL then Inr (ms_unlock b, NULL)
     else Inr (ms_unlock b, MemSlotBaseSlotData slot_meta))))"

text \<open>From the popped payload on: the slot goes back to the queue, the arena keeps it.\<close>

definition ms_popped :: "ms_mem \<Rightarrow> mem_slot \<Rightarrow> addr \<Rightarrow> (ms_mem \<times> mem_slot \<times> addr) result" where
  "ms_popped mem b slot_meta =
     (if slot_meta = NULL then Inr (mem, ms_unlock b, NULL)
      else and_then (get_meta mem slot_meta) (\<lambda>x.
      and_then (SlotQueueFree (ms_slots b) (c_int (mm_slot_id x))) (\<lambda>q.
      Inr (mem, ms_unlock (b\<lparr>ms_slots := q\<rparr>), MemSlotBaseSlotData slot_meta))))"

definition MemSlotBaseSlotPopHead :: "ms_mem \<Rightarrow> mem_slot \<Rightarrow> int \<Rightarrow> (ms_mem \<times> mem_slot \<times> addr) result" where
  "MemSlotBaseSlotPopHead mem b list_id =
     and_then (ms_lock b) (\<lambda>b.
     and_then (ms_get_list b list_id) (\<lambda>l.
     and_then (DLinkedListPopHead (ms_nodes mem) l) (\<lambda>(h, l, slot_meta).
     and_then (ms_put_list b list_id l) (\<lambda>b.
     ms_popped (mem\<lparr>ms_nodes := h\<rparr>) b slot_meta))))"

definition MemSlotBaseSlotPopTail :: "ms_mem \<Rightarrow> mem_slot \<Rightarrow> int \<Rightarrow> (ms_mem \<times> mem_slot \<times> addr) result" where
  "MemSlotBaseSlotPopTail mem b list_id =
     and_then (ms_lock b) (\<lambda>b.
     and_then (ms_get_list b list_id) (\<lambda>l.
     and_then (DLinkedListPopTail (ms_nodes mem) l) (\<lambda>(h, l, slot_meta).
     and_then (ms_put_list b list_id l) (\<lambda>b.
     ms_popped (mem\<lparr>ms_nodes := h\<rparr>) b slot_meta))))"

section \<open>Switching lists\<close>

definition ms_switch :: "bool \<Rightarrow> ms_mem \<Rightarrow> mem_slot \<Rightarrow> addr \<Rightarrow> int \<Rightarrow> (ms_mem \<times> mem_slot) result" where
  "ms_switch tail mem b slot_meta list_id =
     and_then (get_meta mem slot_meta) (\<lambda>x.
     and_then (ms_delete mem b (mm_cur_list_id x) slot_meta) (\<lambda>(mem, b).
     and_then (ms_add tail mem b list_id slot_meta) (\<lambda>(mem, b).
     Inr (put_meta mem slot_meta (x\<lparr>mm_cur_list_id := list_id\<rparr>), b))))"

definition MemSlotBaseSlotPointToHeadAndSwitchListID ::
  "ms_mem \<Rightarrow> mem_slot \<Rightarrow> int \<Rightarrow> int \<Rightarrow> (ms_mem \<times> mem_slot \<times> addr) result" where
  "MemSlotBaseSlotPointToHeadAndSwitchListID mem b cur_list_id new_list_id =
     and_then (ms_lock b) (\<lambda>b.
     and_then (ms_get_list b cur_list_id) (\<lambda>l.
     if dl_head l = NULL then Inr (mem, ms_unlock b, NULL)
     else and_then (get_data (ms_nodes mem) (dl_head l)) (\<lambda>slot_meta.
     if slot_meta = NULL then Inr (mem, ms_unlock b, NULL)
     else and_then (ms_switch True mem b slot_meta new_list_id) (\<lambda>(mem, b).
     Inr (mem, ms_unlock b, MemSlotBaseSlotData slot_meta)))))"

definition MemSlotBaseSlotListIDSwitchToTail ::
  "addr \<Rightarrow> addr \<Rightarrow> ms_mem \<Rightarrow> mem_slot \<Rightarrow> int \<Rightarrow> int \<Rightarrow> (ms_mem \<times> mem_slot \<times> int) result" where
  "MemSlotBaseSlotListIDSwitchToTail junk new mem b slot_id list_id =
     (if list_id \<ge> MEMSLOT_DEFAULT_LIST_COUNT then Inr (mem, b, 0)
      else if slot_id < 0 then Inr (mem, b, 0)
      else and_then (ms_lock b) (\<lambda>b.
      and_then (ms_arena_grab junk new mem b slot_id) (\<lambda>(mem, b, slot_meta).
      and_then (ms_switch True mem b slot_meta list_id) (\<lambda>(mem, b).
      Inr (mem, ms_unlock b, 1)))))"

definition MemSlotBaseSlotListIDSwitch ::
  "addr \<Rightarrow> addr \<Rightarrow> ms_mem \<Rightarrow> mem_slot \<Rightarrow> int \<Rightarrow> int \<Rightarrow> (ms_mem \<times> mem_slot \<times> int) result" where
  "MemSlotBaseSlotListIDSwitch junk new mem b slot_id list_id =
     (if slot_id < 0 then Inr (mem, b, 0)
      else if list_id \<ge> MEMSLOT_DEFAULT_LIST_COUNT then Inr (mem, b, 0)
      else and_then (ms_lock b) (\<lambda>b.
      and_then (ms_arena_grab junk new mem b slot_id) (\<lambda>(mem, b, slot_meta).
      and_then (ms_switch False mem b slot_meta list_id) (\<lambda>(mem, b).
      Inr (mem, ms_unlock b, 1)))))"

section \<open>Taking and returning an object\<close>

definition MemSlotBaseSlotGrabByID :: "addr \<Rightarrow> addr \<Rightarrow> ms_mem \<Rightarrow> mem_slot \<Rightarrow> int \<Rightarrow> (ms_mem \<times> mem_slot \<times> addr) result" where
  "MemSlotBaseSlotGrabByID junk new mem b slot_id =
     (if slot_id < 0 then Inr (mem, b, NULL)
      else and_then (ms_arena_grab junk new mem b slot_id) (\<lambda>(mem, b, slot_meta).
      Inr (mem, b, MemSlotBaseSlotData slot_meta)))"

text \<open>
  The two grabbing operations differ in whether they release the mutex when they succeed. The number is an \<open>int\<close>, and the
  canaries are computed in \<open>int\<close>.
\<close>

definition ms_set_meta :: "ms_mem \<Rightarrow> addr \<Rightarrow> int \<Rightarrow> ms_mem result" where
  "ms_set_meta mem slot_meta slot_id = and_then (get_meta mem slot_meta) (\<lambda>x.
     and_then (in_int (slot_id + 1)) (\<lambda>i.
     and_then (in_int (MEMSLOT_CANARY_SEED * i)) (\<lambda>c00.
     and_then (in_int (MEMSLOT_CANARY_SEED + i)) (\<lambda>c01.
     Inr (put_meta mem slot_meta (x\<lparr>mm_slot_id := slot_id, mm_cur_list_id := 0, mm_canary00 := c00, mm_canary01 := c01\<rparr>))))))"

definition MemSlotBaseSlotGrabAndLeaveLocked :: "addr \<Rightarrow> addr \<Rightarrow> ms_mem \<Rightarrow> mem_slot \<Rightarrow> (ms_mem \<times> mem_slot \<times> addr) result" where
  "MemSlotBaseSlotGrabAndLeaveLocked junk new mem b =
     and_then (ms_lock b) (\<lambda>b.
     and_then (SlotQueueGrab (ms_slots b)) (\<lambda>(q, slot_id).
     let b = b\<lparr>ms_slots := q\<rparr> in
     if slot_id < 0 then Inr (mem, ms_unlock b, NULL)
     else and_then (ms_arena_grab junk new mem b slot_id) (\<lambda>(mem, b, slot_meta).
     and_then (ms_set_meta mem slot_meta slot_id) (\<lambda>mem.
     and_then (ms_add True mem b 0 slot_meta) (\<lambda>(mem, b).
     Inr (mem, b, slot_meta + sizeof_meta))))))"

definition MemSlotBaseSlotGrab :: "addr \<Rightarrow> addr \<Rightarrow> ms_mem \<Rightarrow> mem_slot \<Rightarrow> (ms_mem \<times> mem_slot \<times> addr) result" where
  "MemSlotBaseSlotGrab junk new mem b =
     and_then (ms_lock b) (\<lambda>b.
     and_then (SlotQueueGrab (ms_slots b)) (\<lambda>(q, slot_id).
     let b = b\<lparr>ms_slots := q\<rparr> in
     if slot_id < 0 then Inr (mem, ms_unlock b, NULL)
     else and_then (ms_arena_grab junk new mem b slot_id) (\<lambda>(mem, b, slot_meta).
     and_then (ms_set_meta mem slot_meta slot_id) (\<lambda>mem.
     and_then (ms_add True mem b 0 slot_meta) (\<lambda>(mem, b).
     Inr (mem, ms_unlock b, MemSlotBaseSlotData slot_meta))))))"

definition MemSlotBaseSlotFree :: "ms_mem \<Rightarrow> mem_slot \<Rightarrow> addr \<Rightarrow> (ms_mem \<times> mem_slot \<times> int) result" where
  "MemSlotBaseSlotFree mem b slot_ptr =
     (if slot_ptr = NULL then Inr (mem, b, 0)
      else let slot_meta = slot_ptr - sizeof_meta in
      and_then (get_meta mem slot_meta) (\<lambda>x.
      and_then (ms_check_canaries x) (\<lambda>_.
      and_then (ms_lock b) (\<lambda>b.
      and_then (SlotQueueFree (ms_slots b) (c_int (mm_slot_id x))) (\<lambda>q.
      let b = b\<lparr>ms_slots := q\<rparr> in
      and_then (ms_delete mem b (mm_cur_list_id x) slot_meta) (\<lambda>(mem, b).
      and_then (ms_arena_release mem b (mm_slot_id x)) (\<lambda>(mem, b).
      Inr (mem, ms_unlock b, 1))))))))"

end
