(* ===== verification/MemSlotProps.thy ===== *)
theory MemSlotProps
  imports MemSlot
begin

text \<open>
  The memory slots as eight sequences of slot numbers: what the operations do to the lists, the metadata, the
  queue and the arena, and the claims. The arena is used through the store interface of its theory.
\<close>

section \<open>Eight lists in one heap\<close>

text \<open>List \<open>k\<close> holds the nodes \<open>f i\<close> of the numbers \<open>i\<close> in \<open>ls ! k\<close>.\<close>

definition ms_lists :: "dheap \<Rightarrow> dlist list \<Rightarrow> (int \<Rightarrow> addr) \<Rightarrow> int list list \<Rightarrow> bool" where
  "ms_lists h L f ls \<longleftrightarrow> length L = length ls \<and> distinct (concat ls) \<and> inj_on f (set (concat ls)) \<and>
     (\<forall>k < length ls. dlist_inv h (L ! k) (map f (ls ! k)))"

lemma in_concat_nth: "k < length ls \<Longrightarrow> x \<in> set (ls ! k) \<Longrightarrow> x \<in> set (concat ls)"
  using nth_mem by fastforce

lemma concat_split:
  assumes "k < length ls"
  obtains A B where "concat ls = A @ ls ! k @ B" "\<And>ys. concat (ls[k := ys]) = A @ ys @ B"
proof
  show "concat ls = concat (take k ls) @ ls ! k @ concat (drop (Suc k) ls)"
    using arg_cong [OF id_take_nth_drop [OF assms], of concat] by simp
  show "concat (ls[k := ys]) = concat (take k ls) @ ys @ concat (drop (Suc k) ls)" for ys
    using assms by (simp add: upd_conv_take_nth_drop)
qed

lemma concat_other:
  assumes "distinct (concat ls)" "k < length ls" "j < length ls" "j \<noteq> k"
  shows "set (ls ! j) \<inter> set (ls ! k) = {}" "distinct (ls ! k)"
proof -
  obtain A B where AB: "concat ls = A @ ls ! k @ B" "\<And>ys. concat (ls[k := ys]) = A @ ys @ B"
    using concat_split [OF assms(2)] by metis
  then show "distinct (ls ! k)" using assms(1) by simp
  have "ls ! j \<in> set (ls[k := []])" using assms(2-4) by (metis length_list_update nth_list_update_neq nth_mem)
  then have "set (ls ! j) \<subseteq> set (A @ B)" using AB(2) [of "[]"] by (metis append_Nil concat_eq_concat_iff set_concat UN_upper)
  then show "set (ls ! j) \<inter> set (ls ! k) = {}" using assms(1) AB(1) by auto
qed

lemma concat_remove:
  assumes "distinct (concat ls)" "k < length ls" "i \<in> set (ls ! k)"
  shows "map (remove1 i) ls = ls[k := remove1 i (ls ! k)]"
proof (rule nth_equalityI)
  fix j assume "j < length (map (remove1 i) ls)"
  then have j: "j < length ls" by simp
  show "map (remove1 i) ls ! j = ls[k := remove1 i (ls ! k)] ! j"
  proof (cases "j = k")
    case False
    then have "i \<notin> set (ls ! j)" using concat_other(1) [OF assms(1,2) j] assms(3) by blast
    then show ?thesis using False j by (simp add: remove1_idem)
  qed (use j in simp)
qed simp

lemma ms_lists_frame:
  "ms_lists h L f ls \<Longrightarrow> (\<And>i. i \<in> set (concat ls) \<Longrightarrow> h' (f i) = h (f i)) \<Longrightarrow> ms_lists h' L f ls"
proof -
  assume a: "ms_lists h L f ls" "\<And>i. i \<in> set (concat ls) \<Longrightarrow> h' (f i) = h (f i)"
  have "dlist_inv h' (L ! k) (map f (ls ! k)) = dlist_inv h (L ! k) (map f (ls ! k))" if "k < length ls" for k
    using a(2) in_concat_nth [OF that] by (intro dlist_inv_frame) auto
  then show "ms_lists h' L f ls" using a(1) by (simp add: ms_lists_def)
qed

lemma ms_lists_cong:
  assumes "ms_lists h L f ls" "\<And>i. i \<in> set (concat ls) \<Longrightarrow> g i = f i"
  shows "ms_lists h L g ls"
proof -
  have "map g (ls ! k) = map f (ls ! k)" if "k < length ls" for k
    using assms(2) in_concat_nth [OF that] by (intro map_cong) auto
  moreover have "inj_on g (set (concat ls)) = inj_on f (set (concat ls))" using assms(2) by (rule inj_on_cong)
  ultimately show ?thesis using assms(1) unfolding ms_lists_def by metis
qed

text \<open>An operation on list \<open>k\<close> that leaves the other lists' nodes alone.\<close>

lemma ms_lists_step:
  assumes "ms_lists h L f ls" "k < length ls" and step: "list_step h (L ! k) A h' l' (map f ys) v"
    and A: "A \<subseteq> f ` (set (ls ! k) \<union> N)" and N: "f ` N \<inter> f ` set (concat ls) = {}" and ys: "distinct ys" "set ys \<subseteq> set (ls ! k) \<union> N"
    and inj: "inj_on f (set (concat ls) \<union> N)"
  shows "ms_lists h' (L[k := l']) f (ls[k := ys])"
proof -
  obtain P Q where PQ: "concat ls = P @ ls ! k @ Q" "\<And>ys. concat (ls[k := ys]) = P @ ys @ Q"
    using concat_split [OF assms(2)] by metis
  have d: "distinct (concat ls)" "length L = length ls" "inj_on f (set (concat ls))" using assms(1) by (simp_all add: ms_lists_def)
  have NN: "N \<inter> set (concat ls) = {}" using N by blast
  have "distinct (concat (ls[k := ys]))" using d(1) ys NN unfolding PQ(2) PQ(1) by auto
  moreover have "set (concat (ls[k := ys])) \<subseteq> set (concat ls) \<union> N" using ys(2) unfolding PQ by auto
  then have "inj_on f (set (concat (ls[k := ys])))" using inj inj_on_subset by blast
  moreover have "dlist_inv h' (L[k := l'] ! j) (map f (ls[k := ys] ! j))" if j: "j < length ls" for j
  proof (cases "j = k")
    case True
    then show ?thesis using list_stepD(1) [OF step] j d(2) by simp
  next
    case False
    have o: "set (ls ! j) \<inter> set (ls ! k) = {}" using concat_other(1) [OF d(1) assms(2) j False] .
    have sub: "set (ls ! j) \<subseteq> set (concat ls)" "set (ls ! k) \<subseteq> set (concat ls)"
      using in_concat_nth [OF j] in_concat_nth [OF assms(2)] by blast+
    have "f x \<notin> A" if "x \<in> set (ls ! j)" for x
    proof
      assume "f x \<in> A"
      then obtain y where y: "y \<in> set (ls ! k) \<union> N" "f x = f y" using A by auto
      then have "x = y" using inj_onD [OF inj y(2)] sub that by blast
      then show False using y(1) o that sub NN by blast
    qed
    then have "h' a = h a" if "a \<in> set (map f (ls ! j))" for a
      using frame_outD [OF list_stepD(4) [OF step]] that by auto
    moreover have "dlist_inv h (L ! j) (map f (ls ! j))" using assms(1) j by (simp add: ms_lists_def)
    ultimately show ?thesis using False dlist_inv_frame by (metis nth_list_update_neq)
  qed
  ultimately show ?thesis using d(2) by (simp add: ms_lists_def)
qed

lemma ms_lists_delete:
  assumes "ms_lists h L f ls" "k < length ls" "i \<in> set (ls ! k)"
  obtains h' l' where "DLinkedListDelete h (L ! k) (f i) = Inr (h', l')"
    "ms_lists h' (L[k := l']) f (map (remove1 i) ls)" "dview h' = dview h"
proof -
  have d: "distinct (concat ls)" "inj_on f (set (concat ls))" using assms(1) by (simp_all add: ms_lists_def)
  have dk: "distinct (ls ! k)"
  proof -
    obtain P Q where "concat ls = P @ ls ! k @ Q" using concat_split [OF assms(2)] by metis
    then show ?thesis using d(1) by simp
  qed
  obtain as bs where as: "ls ! k = as @ i # bs" "i \<notin> set as" using split_list_first [OF assms(3)] by metis
  have inv: "dlist_inv h (L ! k) (map f as @ f i # map f bs)" using assms(1,2) as by (auto simp: ms_lists_def)
  obtain h' l' where del: "DLinkedListDelete h (L ! k) (f i) = Inr (h', l')"
    "list_step h (L ! k) (set (map f as @ f i # map f bs)) h' l' (map f (as @ bs)) (dview h)"
    using DLinkedListDelete_spec [OF inv] by (metis map_append)
  have r: "remove1 i (ls ! k) = as @ bs" using as by (simp add: remove1_append)
  have "ms_lists h' (L[k := l']) f (ls[k := as @ bs])"
    by (rule ms_lists_step [OF assms(1,2) del(2), of "{}"]) (use d dk as in auto)
  then show ?thesis using that del list_stepD(3) [OF del(2)] concat_remove [OF d(1) assms(2,3)] r by simp
qed

lemma ms_lists_add:
  assumes "ms_lists h L f ls" "k < length ls" "i \<notin> set (concat ls)" "f i \<notin> f ` set (concat ls)" "f i \<in> dom h" "f i \<noteq> NULL"
  obtains h' l' where "DLinkedListAdd h (L ! k) (f i) d = Inr (h', l')"
    "ms_lists h' (L[k := l']) f (ls[k := i # ls ! k])" "dview h' = (dview h)(f i \<mapsto> d)"
proof -
  obtain P Q where PQ: "concat ls = P @ ls ! k @ Q" using concat_split [OF assms(2)] by metis
  have d: "distinct (ls ! k)" "inj_on f (insert i (set (concat ls)))" "set (ls ! k) \<subseteq> set (concat ls)"
    using assms by (auto simp: ms_lists_def PQ)
  have inv: "dlist_inv h (L ! k) (map f (ls ! k))" using assms(1,2) by (simp add: ms_lists_def)
  have "f i \<notin> set (map f (ls ! k))" using assms(4) d(3) by auto
  then obtain h' l' where add: "DLinkedListAdd h (L ! k) (f i) d = Inr (h', l')"
    "list_step h (L ! k) (set (f i # map f (ls ! k))) h' l' (map f (i # ls ! k)) ((dview h)(f i \<mapsto> d))"
    using DLinkedListAdd_spec [OF inv assms(5,6), of d] by (metis list.simps(9))
  have "ms_lists h' (L[k := l']) f (ls[k := i # ls ! k])"
    by (rule ms_lists_step [OF assms(1,2) add(2), of "{i}"]) (use d assms(3,4) in auto)
  then show ?thesis using that add list_stepD(3) [OF add(2)] by simp
qed

lemma ms_lists_add_tail:
  assumes "ms_lists h L f ls" "k < length ls" "i \<notin> set (concat ls)" "f i \<notin> f ` set (concat ls)" "f i \<in> dom h" "f i \<noteq> NULL"
  obtains h' l' where "DLinkedListAddTail h (L ! k) (f i) d = Inr (h', l')"
    "ms_lists h' (L[k := l']) f (ls[k := ls ! k @ [i]])" "dview h' = (dview h)(f i \<mapsto> d)"
proof -
  obtain P Q where PQ: "concat ls = P @ ls ! k @ Q" using concat_split [OF assms(2)] by metis
  have d: "distinct (ls ! k)" "inj_on f (insert i (set (concat ls)))" "set (ls ! k) \<subseteq> set (concat ls)"
    using assms by (auto simp: ms_lists_def PQ)
  have inv: "dlist_inv h (L ! k) (map f (ls ! k))" using assms(1,2) by (simp add: ms_lists_def)
  have "f i \<notin> set (map f (ls ! k))" using assms(4) d(3) by auto
  then obtain h' l' where add: "DLinkedListAddTail h (L ! k) (f i) d = Inr (h', l')"
    "list_step h (L ! k) (set (f i # map f (ls ! k))) h' l' (map f (ls ! k @ [i])) ((dview h)(f i \<mapsto> d))"
    using DLinkedListAddTail_spec [OF inv assms(5,6), of d] by (metis list.simps(8,9) map_append)
  have "ms_lists h' (L[k := l']) f (ls[k := ls ! k @ [i]])"
    by (rule ms_lists_step [OF assms(1,2) add(2), of "{i}"]) (use d assms(3,4) in auto)
  then show ?thesis using that add list_stepD(3) [OF add(2)] by simp
qed

lemma ms_lists_pop:
  assumes "ms_lists h L f ls" "k < length ls"
  shows "ls ! k = i # xs \<Longrightarrow> \<exists>h' l'. DLinkedListPopHead h (L ! k) = Inr (h', l', dn_data (the (h (f i)))) \<and>
      ms_lists h' (L[k := l']) f (ls[k := xs]) \<and> dview h' = dview h"
    "ls ! k = xs @ [i] \<Longrightarrow> \<exists>h' l'. DLinkedListPopTail h (L ! k) = Inr (h', l', dn_data (the (h (f i)))) \<and>
      ms_lists h' (L[k := l']) f (ls[k := xs]) \<and> dview h' = dview h"
proof -
  obtain P Q where PQ: "concat ls = P @ ls ! k @ Q" using concat_split [OF assms(2)] by metis
  have d: "distinct (ls ! k)" "inj_on f (set (concat ls))" using assms by (auto simp: ms_lists_def PQ)
  have inv: "dlist_inv h (L ! k) (map f (ls ! k))" using assms by (simp add: ms_lists_def)
  show "\<exists>h' l'. DLinkedListPopHead h (L ! k) = Inr (h', l', dn_data (the (h (f i)))) \<and>
      ms_lists h' (L[k := l']) f (ls[k := xs]) \<and> dview h' = dview h" if e: "ls ! k = i # xs"
  proof -
    have "dlist_inv h (L ! k) (f i # map f xs)" using inv e by simp
    then obtain h' l' where p: "DLinkedListPopHead h (L ! k) = Inr (h', l', dn_data (the (h (f i))))"
      "list_step h (L ! k) (set (f i # map f xs)) h' l' (map f xs) (dview h)"
      using DLinkedListPopHead_spec by metis
    have "ms_lists h' (L[k := l']) f (ls[k := xs])"
      by (rule ms_lists_step [OF assms p(2), of "{}"]) (use d e in auto)
    then show ?thesis using p(1) list_stepD(3) [OF p(2)] by blast
  qed
  show "\<exists>h' l'. DLinkedListPopTail h (L ! k) = Inr (h', l', dn_data (the (h (f i)))) \<and>
      ms_lists h' (L[k := l']) f (ls[k := xs]) \<and> dview h' = dview h" if e: "ls ! k = xs @ [i]"
  proof -
    have "dlist_inv h (L ! k) (map f xs @ [f i])" using inv e by simp
    then obtain h' l' where p: "DLinkedListPopTail h (L ! k) = Inr (h', l', dn_data (the (h (f i))))"
      "list_step h (L ! k) (set (map f xs @ [f i])) h' l' (map f xs) (dview h)"
      using DLinkedListPopTail_spec by metis
    have "ms_lists h' (L[k := l']) f (ls[k := xs])"
      by (rule ms_lists_step [OF assms p(2), of "{}"]) (use d e in auto)
    then show ?thesis using p(1) list_stepD(3) [OF p(2)] by blast
  qed
qed


section \<open>The invariant\<close>

definition ms_node :: "mem_arena \<Rightarrow> int \<Rightarrow> addr" where
  "ms_node a i = meta_node (ma_loc a i)"

text \<open>Metadata that has been set up for a number in the range of \<open>int\<close>.\<close>

definition ms_canaries_ok :: "ms_meta \<Rightarrow> bool" where
  "ms_canaries_ok x \<longleftrightarrow> 0 \<le> mm_slot_id x \<and> mm_slot_id x < 2 ^ 31 \<and> mm_canary00 x = MEMSLOT_CANARY_SEED * (mm_slot_id x + 1) \<and>
     mm_canary01 x = MEMSLOT_CANARY_SEED + (mm_slot_id x + 1)"

lemma ms_canaries_checked:
  assumes "ms_canaries_ok x"
  shows "ms_check_canaries x = Inr ()" "c_int (mm_slot_id x) = mm_slot_id x"
proof -
  have r: "0 \<le> mm_slot_id x" "mm_slot_id x < 2147483648" using assms by (simp_all add: ms_canaries_ok_def)
  show "c_int (mm_slot_id x) = mm_slot_id x" by (rule c_int_in) (use r in simp_all)
  show "ms_check_canaries x = Inr ()" using r assms by (simp add: ms_check_canaries_def ms_canaries_ok_def MEMSLOT_CANARY_SEED_def)
qed

definition ms_slot_ok :: "ms_mem \<Rightarrow> mem_arena \<Rightarrow> int \<Rightarrow> bool" where
  "ms_slot_ok mem a i \<longleftrightarrow> (\<exists>x. ms_metas mem (ma_loc a i) = Some x \<and> mm_slot_id x = i \<and> ms_canaries_ok x) \<and>
     dview (ms_nodes mem) (ms_node a i) = Some (ma_loc a i)"

text \<open>\<open>res\<close> are the slots the arena holds, \<open>ok\<close> those whose metadata has been set up, the lists hold some of them.\<close>

definition ms_core :: "ms_mem \<Rightarrow> mem_arena \<Rightarrow> dlist list \<Rightarrow> int list list \<Rightarrow> int set \<Rightarrow> int set \<Rightarrow> bool" where
  "ms_core mem a L ls res ok \<longleftrightarrow> ma_inv (ms_am mem) a res (\<lambda>_. 0) \<and> ma_slot_count a = 16 \<and> int sizeof_meta < ma_slot_size a \<and>
     length ls = 8 \<and> set (concat ls) \<subseteq> ok \<and> ok \<subseteq> res \<and> ms_lists (ms_nodes mem) L (ms_node a) ls \<and>
     (\<forall>i \<in> ok. ms_slot_ok mem a i) \<and> (\<forall>p. ms_metas mem p \<noteq> None \<longrightarrow> ms_nodes mem (meta_node p) \<noteq> None)"

definition ms_curs :: "ms_mem \<Rightarrow> mem_arena \<Rightarrow> int list list \<Rightarrow> bool" where
  "ms_curs mem a ls \<longleftrightarrow> (\<forall>k < length ls. \<forall>i \<in> set (ls ! k). map_option mm_cur_list_id (ms_metas mem (ma_loc a i)) = Some (int k))"

text \<open>The canaries of the largest number are below \<open>2 ^ 31\<close>.\<close>

definition ms_inv :: "int \<Rightarrow> bool \<Rightarrow> ms_mem \<Rightarrow> mem_slot \<Rightarrow> int list list \<Rightarrow> bool" where
  "ms_inv n ts mem b ls \<longleftrightarrow> \<not> ms_held b \<and> ms_thread_safe b = ts \<and> sq_inv n False (ms_slots b) (set (concat ls)) \<and>
     11 * n < 2 ^ 31 \<and>
     (\<exists>a res. ms_arena b = Some a \<and> ms_core mem a (ms_list b) ls res res \<and> ms_curs mem a ls)"

lemma meta_node_eq [simp]: "meta_node p = meta_node q \<longleftrightarrow> p = q" "meta_node p \<noteq> NULL"
  by (simp_all add: meta_node_def NULL_def)

lemma ms_coreD:
  assumes "ms_core mem a L ls res ok"
  shows "ma_inv (ms_am mem) a res (\<lambda>_. 0)" "ma_slot_count a = 16" "int sizeof_meta < ma_slot_size a" "length ls = 8"
    "set (concat ls) \<subseteq> ok" "ok \<subseteq> res" "ms_lists (ms_nodes mem) L (ms_node a) ls" "\<And>i. i \<in> ok \<Longrightarrow> ms_slot_ok mem a i"
    "\<And>p. ms_metas mem p \<noteq> None \<Longrightarrow> ms_nodes mem (meta_node p) \<noteq> None"
  using assms unfolding ms_core_def by blast+

lemma ms_loc_inj:
  assumes "ms_core mem a L ls res ok" "i \<in> res" "j \<in> res"
  shows "ma_loc a i = ma_loc a j \<longleftrightarrow> i = j"
proof (cases "i = j")
  case False
  then have "apart (nat (ma_slot_size a)) (ma_loc a i) (ma_loc a j)" using ma_loc_apart [OF ms_coreD(1) [OF assms(1)]] assms(2,3) by blast
  moreover have "0 < nat (ma_slot_size a)" using ms_coreD(3) [OF assms(1)] by simp
  ultimately show ?thesis using False apart_neq by blast
qed simp

lemma dview_None: "dview h' = dview h \<Longrightarrow> h' a \<noteq> None \<longleftrightarrow> h a \<noteq> None"
  using dview_frame by metis

lemma ms_get_list_nth: "k < length (ms_list b) \<Longrightarrow> ms_get_list b (int k) = Inr (ms_list b ! k)"
  by (simp add: ms_get_list_def)

lemma ms_put_list_nth: "k < length (ms_list b) \<Longrightarrow> ms_put_list b (int k) l = Inr (b\<lparr>ms_list := (ms_list b)[k := l]\<rparr>)"
  by (simp add: ms_put_list_def)

lemma ms_lists_length: "ms_lists h L f ls \<Longrightarrow> length L = length ls"
  by (simp add: ms_lists_def)

lemma ms_core_nodes:
  assumes "ms_core mem a L ls res ok" "ms_lists h' L' (ms_node a) ls'" "dview h' = dview (ms_nodes mem)" "length ls' = 8"
    "set (concat ls') \<subseteq> ok"
  shows "ms_core (mem\<lparr>ms_nodes := h'\<rparr>) a L' ls' res ok"
  using assms dview_None [OF assms(3)] unfolding ms_core_def ms_slot_ok_def by simp

lemma in_concat_iff: "i \<in> set (concat ls) \<longleftrightarrow> (\<exists>k < length ls. i \<in> set (ls ! k))"
  by (metis (no_types, lifting) UN_iff in_concat_nth in_set_conv_nth set_concat)

lemma set_concat_remove:
  assumes "distinct (concat ls)"
  shows "set (concat (map (remove1 i) ls)) = set (concat ls) - {i}"
proof -
  have "distinct l" if "l \<in> set ls" for l using assms that by (simp add: distinct_concat_iff)
  then show ?thesis by auto
qed

lemma ms_delete_core:
  assumes core: "ms_core mem a (ms_list b) ls res ok" and k: "k < 8" "i \<in> set (ls ! k)"
  obtains h' L' where "ms_delete mem b (int k) (ma_loc a i) = Inr (mem\<lparr>ms_nodes := h'\<rparr>, b\<lparr>ms_list := L'\<rparr>)"
    "ms_core (mem\<lparr>ms_nodes := h'\<rparr>) a L' (map (remove1 i) ls) res ok" "dview h' = dview (ms_nodes mem)"
proof -
  note c = ms_coreD [OF core]
  have kl: "k < length ls" "k < length (ms_list b)" using k(1) c(4) ms_lists_length [OF c(7)] by simp_all
  have d: "distinct (concat ls)" using c(7) by (simp add: ms_lists_def)
  obtain h' l' where del: "DLinkedListDelete (ms_nodes mem) (ms_list b ! k) (ms_node a i) = Inr (h', l')"
    "ms_lists h' ((ms_list b)[k := l']) (ms_node a) (map (remove1 i) ls)" "dview h' = dview (ms_nodes mem)"
    by (rule ms_lists_delete [OF c(7) kl(1) k(2)])
  have "set (concat (map (remove1 i) ls)) \<subseteq> ok" unfolding set_concat_remove [OF d] using c(5) by blast
  then have "ms_core (mem\<lparr>ms_nodes := h'\<rparr>) a ((ms_list b)[k := l']) (map (remove1 i) ls) res ok"
    using ms_core_nodes [OF core del(2,3)] c(4) by simp
  then show ?thesis
    using del kl by (intro that [of h' "(ms_list b)[k := l']"])
      (simp_all add: ms_delete_def ms_get_list_nth ms_put_list_nth ms_node_def)
qed

text \<open>The numbers after an insertion at the head or the tail of list \<open>k\<close>.\<close>

definition put_end :: "bool \<Rightarrow> nat \<Rightarrow> int \<Rightarrow> int list list \<Rightarrow> int list list" where
  "put_end tail k i ls = ls[k := (if tail then ls ! k @ [i] else i # ls ! k)]"

lemma put_end_simps [simp]:
  "length (put_end tail k i ls) = length ls"
  "k < length ls \<Longrightarrow> set (concat (put_end tail k i ls)) = insert i (set (concat ls))"
proof -
  assume "k < length ls"
  then obtain A B where "concat ls = A @ ls ! k @ B" "\<And>ys. concat (ls[k := ys]) = A @ ys @ B"
    using concat_split by metis
  then show "set (concat (put_end tail k i ls)) = insert i (set (concat ls))" by (simp add: put_end_def del: set_concat)
qed (simp add: put_end_def)

lemma ms_add_core:
  assumes core: "ms_core mem a (ms_list b) ls res ok" and k: "k < 8" "i \<in> res" "i \<notin> set (concat ls)"
    and meta: "ms_metas mem (ma_loc a i) = Some x" "mm_slot_id x = i" "ms_canaries_ok x"
  obtains h' L' where "ms_add tail mem b (int k) (ma_loc a i) = Inr (mem\<lparr>ms_nodes := h'\<rparr>, b\<lparr>ms_list := L'\<rparr>)"
    "ms_core (mem\<lparr>ms_nodes := h'\<rparr>) a L' (put_end tail k i ls) res (insert i ok)"
proof -
  note c = ms_coreD [OF core]
  have kl: "k < length ls" "k < length (ms_list b)" using k(1) c(4) ms_lists_length [OF c(7)] by simp_all
  have out: "ms_node a i \<notin> ms_node a ` set (concat ls)"
  proof
    assume "ms_node a i \<in> ms_node a ` set (concat ls)"
    then obtain j where "j \<in> set (concat ls)" "ma_loc a i = ma_loc a j" by (auto simp: ms_node_def simp del: set_concat)
    then show False using ms_loc_inj [OF core k(2)] c(5,6) k(3) by blast
  qed
  have dom: "ms_node a i \<in> dom (ms_nodes mem)" using c(9) [of "ma_loc a i"] meta(1) by (auto simp: ms_node_def)
  have nn: "ms_node a i \<noteq> NULL" and nd: "meta_node (ma_loc a i) = ms_node a i" by (simp_all add: ms_node_def)
  obtain h' l' where add: "(if tail then DLinkedListAddTail (ms_nodes mem) (ms_list b ! k) (ms_node a i) (ma_loc a i)
      else DLinkedListAdd (ms_nodes mem) (ms_list b ! k) (ms_node a i) (ma_loc a i)) = Inr (h', l')"
    "ms_lists h' ((ms_list b)[k := l']) (ms_node a) (put_end tail k i ls)"
    "dview h' = (dview (ms_nodes mem))(ms_node a i \<mapsto> ma_loc a i)"
  proof (cases tail)
    case True
    show ?thesis
      by (rule ms_lists_add_tail [OF c(7) kl(1) k(3) out dom, of "ma_loc a i"]) (use that True nn in \<open>simp_all add: put_end_def\<close>)
  next
    case False
    show ?thesis
      by (rule ms_lists_add [OF c(7) kl(1) k(3) out dom, of "ma_loc a i"]) (use that False nn in \<open>simp_all add: put_end_def\<close>)
  qed
  have "ms_slot_ok (mem\<lparr>ms_nodes := h'\<rparr>) a j" if j: "j \<in> insert i ok" for j
  proof (cases "j = i")
    case True
    then show ?thesis using meta add(3) by (simp add: ms_slot_ok_def)
  next
    case False
    then have "ma_loc a j \<noteq> ma_loc a i" using ms_loc_inj [OF core _ k(2), of j] j c(6) by blast
    then have "dview h' (ms_node a j) = dview (ms_nodes mem) (ms_node a j)" unfolding add(3) by (simp add: ms_node_def)
    then show ?thesis using c(8) [of j] False j by (simp add: ms_slot_ok_def)
  qed
  moreover have "h' (meta_node p) \<noteq> None" if "ms_metas mem p \<noteq> None" for p
  proof -
    have "dom h' = insert (ms_node a i) (dom (ms_nodes mem))" using dview_dom_eq [OF add(3)] .
    then show ?thesis using c(9) [OF that] by auto
  qed
  ultimately have "ms_core (mem\<lparr>ms_nodes := h'\<rparr>) a ((ms_list b)[k := l']) (put_end tail k i ls) res (insert i ok)"
    using c(1-6) k(2) kl(1) add(2) unfolding ms_core_def by (simp del: set_concat) blast
  then show ?thesis
    using add(1) kl by (intro that [of h' "(ms_list b)[k := l']"])
      (simp_all add: ms_add_def ms_get_list_nth ms_put_list_nth nd split del: if_split cong: if_cong)
qed

lemma ms_put_meta_core:
  assumes core: "ms_core mem a L ls res ok" and i: "i \<in> res" "ms_metas mem (ma_loc a i) \<noteq> None" "mm_slot_id x = i" "ms_canaries_ok x"
  shows "ms_core (put_meta mem (ma_loc a i) x) a L ls res ok"
proof -
  note c = ms_coreD [OF core]
  have "ms_slot_ok (put_meta mem (ma_loc a i) x) a j" if "j \<in> ok" for j
    using c(8) [OF that] ms_loc_inj [OF core _ i(1), of j] c(6) that i by (cases "j = i") (auto simp: ms_slot_ok_def put_meta_def)
  moreover have "ms_nodes mem (meta_node p) \<noteq> None" if "ms_metas (put_meta mem (ma_loc a i) x) p \<noteq> None" for p
    using c(9) [of p] i(2) that by (auto simp: put_meta_def split: if_splits)
  ultimately show ?thesis using c(1-7) unfolding ms_core_def by (simp add: put_meta_def)
qed


section \<open>The arena under the slots\<close>

lemma ms_view_cases:
  assumes "p \<noteq> NULL"
  shows "ms_am (ms_view mem p) = ms_am mem" "ms_metas (ms_view mem p) p \<noteq> None"
    "q \<noteq> p \<Longrightarrow> ms_metas (ms_view mem p) q = ms_metas mem q"
    "q \<noteq> meta_node p \<Longrightarrow> ms_nodes (ms_view mem p) q = ms_nodes mem q"
    "ms_metas mem p \<noteq> None \<Longrightarrow> ms_view mem p = mem"
    "ms_metas mem p = None \<Longrightarrow> ms_nodes (ms_view mem p) (meta_node p) \<noteq> None"
  using assms by (auto simp: ms_view_def)

lemma ms_slot_ok_loc: "ma_loc a' i = ma_loc a i \<Longrightarrow> ms_slot_ok mem a' i = ms_slot_ok mem a i"
  by (simp add: ms_slot_ok_def ms_node_def)

lemma ms_curs_frame:
  assumes "ms_curs mem a ls" "\<And>i. i \<in> set (concat ls) \<Longrightarrow> ma_loc a' i = ma_loc a i \<and> ms_metas mem' (ma_loc a i) = ms_metas mem (ma_loc a i)"
  shows "ms_curs mem' a' ls"
  using assms in_concat_nth unfolding ms_curs_def by metis

lemma ms_arena_grab_core:
  assumes core: "ms_core mem a L ls res res" and curs: "ms_curs mem a ls" and i: "0 \<le> i" "i < 2 ^ 31" and new: "ma_fresh (ms_am mem) a new"
    and b: "ms_arena b = Some a"
  obtains mem' a' where "ms_arena_grab junk new mem b i = Inr (mem', b\<lparr>ms_arena := Some a'\<rparr>, ma_loc a' i)"
    "ms_core mem' a' L ls (insert i res) res" "ms_curs mem' a' ls" "ms_metas mem' (ma_loc a' i) \<noteq> None"
    "\<And>j. j \<in> res \<Longrightarrow> ma_loc a' j = ma_loc a j"
    "\<And>j. j \<in> res \<Longrightarrow> ms_metas mem' (ma_loc a j) = ms_metas mem (ma_loc a j)"
proof -
  note c = ms_coreD [OF core]
  have lim: "i div ma_slot_count a < 2 ^ 59" using i c(2) by simp
  obtain m' a' where g: "MemArenaGrabByID junk new (ms_am mem) a i = Inr (m', a', ma_loc a' i)"
    "ma_inv m' a' (insert i res) (\<lambda>_. 0)" "\<And>j. j \<in> res \<Longrightarrow> ma_loc a' j = ma_loc a j"
    "ma_slot_size a' = ma_slot_size a" "ma_slot_count a' = ma_slot_count a"
    using ma_grab_spec [OF c(1) i(1) new lim, of junk] by metis
  define p where "p = ma_loc a' i"
  define mem' where "mem' = ms_view (mem\<lparr>ms_am := m'\<rparr>) p"
  have pn: "p \<noteq> NULL" by (simp add: p_def)
  have ap: "apart (nat (ma_slot_size a')) (ma_loc a' j) p" if "j \<in> res" "j \<noteq> i" for j
    unfolding p_def using ma_loc_apart [OF g(2)] that by blast
  have pos: "0 < nat (ma_slot_size a')" using c(3) g(4) by simp
  have old: "ms_metas mem' (ma_loc a j) = ms_metas mem (ma_loc a j) \<and> ms_nodes mem' (ms_node a j) = ms_nodes mem (ms_node a j)"
    if j: "j \<in> res" for j
  proof (cases "j = i")
    case True
    then have "p = ma_loc a j" using g(3) [OF j] by (simp add: p_def)
    moreover have "ms_metas mem (ma_loc a j) \<noteq> None" using c(8) [OF j] by (auto simp: ms_slot_ok_def)
    ultimately have "mem' = mem\<lparr>ms_am := m'\<rparr>" unfolding mem'_def using ms_view_cases(5) [OF pn, of "mem\<lparr>ms_am := m'\<rparr>"] by simp
    then show ?thesis by simp
  next
    case False
    then have "ma_loc a j \<noteq> p" using apart_neq [OF ap [OF j False] pos] g(3) [OF j] by simp
    then show ?thesis
      using ms_view_cases(3) [OF pn, of "ma_loc a j" "mem\<lparr>ms_am := m'\<rparr>"] ms_view_cases(4) [OF pn, of "ms_node a j" "mem\<lparr>ms_am := m'\<rparr>"]
      by (simp add: mem'_def ms_node_def)
  qed
  have sub: "j \<in> res" if "j \<in> set (concat ls)" for j using that c(5) by blast
  have node: "ms_node a' j = ms_node a j" if "j \<in> res" for j using g(3) [OF that] by (simp add: ms_node_def)
  have "ms_lists (ms_nodes mem') L (ms_node a) ls" by (rule ms_lists_frame [OF c(7)]) (use old sub in blast)
  then have lists: "ms_lists (ms_nodes mem') L (ms_node a') ls" by (rule ms_lists_cong) (use node sub in blast)
  have ok: "ms_slot_ok mem' a' j" if "j \<in> res" for j
    using c(8) [OF that] old [OF that] ms_slot_ok_loc [OF g(3) [OF that]] by (simp add: ms_slot_ok_def dview_def)
  have nodes: "ms_nodes mem' (meta_node q) \<noteq> None" if "ms_metas mem' q \<noteq> None" for q
  proof (cases "ms_metas mem p = None \<and> q = p")
    case True
    then show ?thesis using ms_view_cases(6) [OF pn, of "mem\<lparr>ms_am := m'\<rparr>"] by (simp add: mem'_def)
  next
    case False
    then have "ms_metas mem' q = ms_metas mem q \<and> ms_nodes mem' (meta_node q) = ms_nodes mem (meta_node q)"
      using ms_view_cases(3) [OF pn, of q "mem\<lparr>ms_am := m'\<rparr>"] ms_view_cases(4) [OF pn, of "meta_node q" "mem\<lparr>ms_am := m'\<rparr>"]
        ms_view_cases(5) [OF pn, of "mem\<lparr>ms_am := m'\<rparr>"] by (cases "q = p") (simp_all add: mem'_def)
    then show ?thesis using c(9) that by simp
  qed
  have "ms_core mem' a' L ls (insert i res) res"
    using g(2,4,5) c(2-5) lists ok nodes ms_view_cases(1) [OF pn] unfolding ms_core_def by (auto simp: mem'_def)
  moreover have "ms_curs mem' a' ls" by (rule ms_curs_frame [OF curs]) (use old sub g(3) in blast)
  moreover have "ms_metas mem' p \<noteq> None" unfolding mem'_def by (rule ms_view_cases(2) [OF pn])
  moreover have "ms_arena_grab junk new mem b i = Inr (mem', b\<lparr>ms_arena := Some a'\<rparr>, p)"
    using b g(1) by (simp add: ms_arena_grab_def mem'_def p_def)
  ultimately show ?thesis using g(3) old by (intro that [of mem' a']) (simp_all add: p_def)
qed

text \<open>A block that is freed holds no other taken object.\<close>

lemma ma_release_region:
  assumes inv: "ma_inv m a ids pins" and i: "i \<in> ids" and j: "j \<in> ids - {i}"
    and inv': "ma_inv m' a' (ids - {i}) pins" and same: "ma_loc a' j = ma_loc a j" "ma_slot_count a' = ma_slot_count a" "ma_slot_size a' = ma_slot_size a"
    and b: "b = ma_ptr a (i div ma_slot_count a)" and gone: "am_blocks m' b = None"
  shows "\<not> (b \<le> ma_loc a j \<and> ma_loc a j < b + ma_extent a)"
proof -
  define c where "c = ma_slot_count a"
  note n = ma_inv_counts [OF inv]
  have p: "ma_ptr a' (j div c) = ma_ptr a (j div c)" using same by (simp add: ma_loc_def ma_slot_ptr_def c_def)
  have L: "i div c \<in> ma_live c ids pins" "j div c \<in> ma_live c ids pins" "j div c \<in> ma_live c (ids - {i}) pins"
    using ma_live_member n i j by (auto simp: c_def)
  have "am_blocks m' (ma_ptr a' (j div c)) \<noteq> None"
    using inv' L(3) same(2) unfolding ma_inv_def ma_core_def by (auto simp: c_def)
  then have "j div c \<noteq> i div c" using gone b p by (auto simp: c_def)
  moreover have "ma_table a (ma_live c ids pins)" using inv by (simp add: ma_inv_def ma_core_def c_def)
  ultimately have ap: "apart (ma_extent a) (ma_ptr a (j div c)) b" using L b by (auto simp: ma_table_def c_def)
  have bd: "nat (j mod c * ma_slot_size a) + nat (ma_slot_size a) \<le> nat (ma_area a)"
    using n by (intro ma_slot_bound) (simp_all add: c_def)
  have "ma_ptr a (j div c) \<le> ma_loc a j" "ma_loc a j \<le> ma_ptr a (j div c) + ma_extent a"
    using bd by (simp_all add: ma_loc_def ma_slot_ptr_def ma_extent_def flip: c_def)
  moreover have "ma_loc a j < ma_ptr a (j div c) + ma_extent a"
  proof -
    have "j mod c < c" using n by (simp add: c_def)
    have "(j mod c + 1) * ma_slot_size a < ma_area a"
    proof -
      have "(j mod c + 1) * ma_slot_size a \<le> c * ma_slot_size a" using n \<open>j mod c < c\<close> by (intro mult_right_mono) auto
      also have "\<dots> < ma_area a" using n by (simp add: ma_area_def algebra_simps flip: c_def)
      finally show ?thesis .
    qed
    then have "j mod c * ma_slot_size a < ma_area a" using n by (simp add: algebra_simps)
    then have "nat (j mod c * ma_slot_size a) < nat (ma_area a)" using n by (intro nat_mono_iff [THEN iffD2]) (auto simp: ma_area_def c_def)
    then show ?thesis by (simp add: ma_loc_def ma_slot_ptr_def ma_extent_def flip: c_def)
  qed
  ultimately show ?thesis using ap by (auto simp: apart_def)
qed

lemma ms_arena_release_core:
  assumes core: "ms_core mem a L ls res res" and curs: "ms_curs mem a ls" and i: "i \<in> res" "i \<notin> set (concat ls)"
    and b: "ms_arena b = Some a"
  obtains mem' a' where "ms_arena_release mem b i = Inr (mem', b\<lparr>ms_arena := Some a'\<rparr>)"
    "ms_core mem' a' L ls (res - {i}) (res - {i})" "ms_curs mem' a' ls"
proof -
  note c = ms_coreD [OF core]
  obtain m' a' where g: "MemArenaReleaseByID (ms_am mem) a i = Inr (m', a')"
    "ma_inv m' a' (res - {i}) (\<lambda>_. 0)" "\<And>j. j \<in> res - {i} \<Longrightarrow> ma_loc a' j = ma_loc a j"
    "ma_slot_size a' = ma_slot_size a" "ma_slot_count a' = ma_slot_count a"
    using ma_release_spec [OF c(1) i(1)] by metis
  define q where "q = ma_ptr a (i div ma_slot_count a)"
  define mem' where "mem' = ms_forget (mem\<lparr>ms_am := m'\<rparr>) q (ma_extent a)"
  have am: "ms_am mem' = m'" by (simp add: mem'_def ms_forget_def)
  have old: "ms_metas mem' (ma_loc a j) = ms_metas mem (ma_loc a j) \<and> ms_nodes mem' (ms_node a j) = ms_nodes mem (ms_node a j)"
    if j: "j \<in> res - {i}" for j
    using ma_release_region [OF c(1) i(1) j g(2) g(3) [OF j] g(5,4) q_def]
    by (auto simp: mem'_def ms_forget_def ms_node_def meta_node_def)
  have sub: "j \<in> res - {i}" if "j \<in> set (concat ls)" for j using that c(5) i(2) by blast
  have node: "ms_node a' j = ms_node a j" if "j \<in> res - {i}" for j using g(3) [OF that] by (simp add: ms_node_def)
  have "ms_lists (ms_nodes mem') L (ms_node a) ls" by (rule ms_lists_frame [OF c(7)]) (use old sub in blast)
  then have lists: "ms_lists (ms_nodes mem') L (ms_node a') ls" by (rule ms_lists_cong) (use node sub in blast)
  have ok: "ms_slot_ok mem' a' j" if "j \<in> res - {i}" for j
    using c(8) [of j] old [OF that] ms_slot_ok_loc [OF g(3) [OF that]] that by (simp add: ms_slot_ok_def dview_def)
  have nodes: "ms_nodes mem' (meta_node p) \<noteq> None" if "ms_metas mem' p \<noteq> None" for p
    using c(9) [of p] that by (auto simp: mem'_def ms_forget_def meta_node_def split: if_splits)
  have "ms_core mem' a' L ls (res - {i}) (res - {i})"
    using g(2,4,5) c(2-4) lists ok nodes sub am unfolding ms_core_def by (simp del: set_concat) blast
  moreover have "ms_curs mem' a' ls" by (rule ms_curs_frame [OF curs]) (use old sub g(3) in blast)
  moreover have "ms_arena_release mem b i = Inr (mem', b\<lparr>ms_arena := Some a'\<rparr>)"
    using b g(1) by (simp add: ms_arena_release_def mem'_def q_def)
  ultimately show ?thesis by (intro that [of mem' a'])
qed

end
