(* ===== verification/MemSlotRuns.thy ===== *)
theory MemSlotRuns
  imports MemSlotProps
begin

text \<open>The operations of the memory slots against operations on eight sequences of numbers, and the claims.\<close>

section \<open>Operations on the sequences\<close>

datatype ms_op = SGrab | SFree int | SSwitch int nat | SSwitchTail int nat | SPopHead nat | SPopTail nat
  | SPeekHead nat | SPeekTail nat | SRequeue nat nat

text \<open>What a client has to ensure, and what it observes: the number of the slot of the pointer it gets, -1 for none.\<close>

fun as_pre :: "ms_op \<Rightarrow> int list list \<Rightarrow> bool" where
  "as_pre SGrab ls \<longleftrightarrow> True"
| "as_pre (SFree i) ls \<longleftrightarrow> i \<in> set (concat ls)"
| "as_pre (SSwitch i k) ls \<longleftrightarrow> i \<in> set (concat ls) \<and> k < 8"
| "as_pre (SSwitchTail i k) ls \<longleftrightarrow> i \<in> set (concat ls) \<and> k < 8"
| "as_pre (SRequeue j k) ls \<longleftrightarrow> j < 8 \<and> k < 8"
| "as_pre (SPopHead k) ls \<longleftrightarrow> k < 8"
| "as_pre (SPopTail k) ls \<longleftrightarrow> k < 8"
| "as_pre (SPeekHead k) ls \<longleftrightarrow> k < 8"
| "as_pre (SPeekTail k) ls \<longleftrightarrow> k < 8"

fun as_ok :: "int \<Rightarrow> ms_op \<Rightarrow> int list list \<Rightarrow> int \<Rightarrow> int list list \<Rightarrow> bool" where
  "as_ok n SGrab ls r ls' \<longleftrightarrow> (if set (concat ls) = {0..<n} then r = - 1 \<and> ls' = ls
     else r \<in> {0..<n} - set (concat ls) \<and> ls' = put_end True 0 r ls)"
| "as_ok n (SFree i) ls r ls' \<longleftrightarrow> r = 1 \<and> ls' = map (remove1 i) ls"
| "as_ok n (SSwitch i k) ls r ls' \<longleftrightarrow> r = 1 \<and> ls' = put_end False k i (map (remove1 i) ls)"
| "as_ok n (SSwitchTail i k) ls r ls' \<longleftrightarrow> r = 1 \<and> ls' = put_end True k i (map (remove1 i) ls)"
| "as_ok n (SRequeue j k) ls r ls' \<longleftrightarrow> (case ls ! j of [] \<Rightarrow> r = - 1 \<and> ls' = ls
     | i # _ \<Rightarrow> r = i \<and> ls' = put_end True k i (map (remove1 i) ls))"
| "as_ok n (SPopHead k) ls r ls' \<longleftrightarrow> (case ls ! k of [] \<Rightarrow> r = - 1 \<and> ls' = ls | i # is \<Rightarrow> r = i \<and> ls' = ls[k := is])"
| "as_ok n (SPopTail k) ls r ls' \<longleftrightarrow> (if ls ! k = [] then r = - 1 \<and> ls' = ls else r = last (ls ! k) \<and> ls' = ls[k := butlast (ls ! k)])"
| "as_ok n (SPeekHead k) ls r ls' \<longleftrightarrow> ls' = ls \<and> r = first_or (ls ! k) (- 1)"
| "as_ok n (SPeekTail k) ls r ls' \<longleftrightarrow> ls' = ls \<and> r = last_or (- 1) (ls ! k)"

section \<open>The operations of the source\<close>

definition ms_id :: "ms_mem \<Rightarrow> addr \<Rightarrow> int result" where
  "ms_id mem p = (if p = NULL then Inr (- 1) else MemSlotBaseSlotGetID mem p)"

definition with_id :: "(ms_mem \<times> mem_slot \<times> addr) result \<Rightarrow> (ms_mem \<times> mem_slot \<times> int) result" where
  "with_id m = and_then m (\<lambda>(mem, b, p). and_then (ms_id mem p) (\<lambda>r. Inr (mem, b, r)))"

definition with_mem :: "ms_mem \<Rightarrow> (mem_slot \<times> addr) result \<Rightarrow> (ms_mem \<times> mem_slot \<times> addr) result" where
  "with_mem mem m = and_then m (\<lambda>(b, p). Inr (mem, b, p))"

fun ms_step :: "addr \<Rightarrow> addr \<Rightarrow> ms_op \<Rightarrow> ms_mem \<Rightarrow> mem_slot \<Rightarrow> (ms_mem \<times> mem_slot \<times> int) result" where
  "ms_step junk new SGrab mem b = with_id (MemSlotBaseSlotGrab junk new mem b)"
| "ms_step junk new (SFree i) mem b = and_then (MemSlotBaseSlotGrabByID junk new mem b i) (\<lambda>(mem, b, p). MemSlotBaseSlotFree mem b p)"
| "ms_step junk new (SSwitch i k) mem b = MemSlotBaseSlotListIDSwitch junk new mem b i (int k)"
| "ms_step junk new (SSwitchTail i k) mem b = MemSlotBaseSlotListIDSwitchToTail junk new mem b i (int k)"
| "ms_step junk new (SRequeue j k) mem b = with_id (MemSlotBaseSlotPointToHeadAndSwitchListID mem b (int j) (int k))"
| "ms_step junk new (SPopHead k) mem b = with_id (MemSlotBaseSlotPopHead mem b (int k))"
| "ms_step junk new (SPopTail k) mem b = with_id (MemSlotBaseSlotPopTail mem b (int k))"
| "ms_step junk new (SPeekHead k) mem b = with_id (with_mem mem (MemSlotBaseSlotPointToHead mem b (int k)))"
| "ms_step junk new (SPeekTail k) mem b = with_id (with_mem mem (MemSlotBaseSlotPointToTail mem b (int k)))"

section \<open>Simulation\<close>

lemma ms_lock_free: "\<not> ms_held b \<Longrightarrow> ms_lock b = Inr (b\<lparr>ms_held := ms_thread_safe b\<rparr>)"
  by (simp add: ms_lock_def MemSlotBaseLock_def)

lemma ms_unlock_locked: "ms_held b = ms_thread_safe b \<Longrightarrow> ms_unlock b = b\<lparr>ms_held := False\<rparr>"
  by (simp add: ms_unlock_def MemSlotBaseUnlock_def)

lemma ms_invE:
  assumes "ms_inv n ts mem b ls"
  obtains a res where "ms_lock b = Inr (b\<lparr>ms_held := ts\<rparr>)" "ms_thread_safe b = ts" "\<not> ms_held b"
    "sq_inv n False (ms_slots b) (set (concat ls))"
    "ms_arena b = Some a" "ms_core mem a (ms_list b) ls res res" "ms_curs mem a ls"
  using assms ms_lock_free [of b] by (auto simp: ms_inv_def simp del: set_concat)

lemma ms_inv_lim: "ms_inv n ts mem b ls \<Longrightarrow> 11 * n < 2 ^ 31"
  by (simp add: ms_inv_def)

lemma ms_invI:
  "11 * n < 2 ^ 31 \<Longrightarrow> \<not> ms_held b \<Longrightarrow> ms_thread_safe b = ts \<Longrightarrow> sq_inv n False (ms_slots b) (set (concat ls)) \<Longrightarrow> ms_arena b = Some a \<Longrightarrow>
   ms_core mem a (ms_list b) ls res res \<Longrightarrow> ms_curs mem a ls \<Longrightarrow> ms_inv n ts mem b ls"
  unfolding ms_inv_def by blast

lemma data_id:
  assumes "ms_slot_ok mem a i"
  shows "ms_id mem (MemSlotBaseSlotData (ma_loc a i)) = Inr i" "MemSlotBaseSlotData (ma_loc a i) - sizeof_meta = ma_loc a i"
    "MemSlotBaseSlotData (ma_loc a i) \<noteq> NULL"
proof -
  show d: "MemSlotBaseSlotData (ma_loc a i) - sizeof_meta = ma_loc a i" "MemSlotBaseSlotData (ma_loc a i) \<noteq> NULL"
    using ma_loc_pos [of a i] by (simp_all add: MemSlotBaseSlotData_def sizeof_meta_def) (simp add: NULL_def)
  show "ms_id mem (MemSlotBaseSlotData (ma_loc a i)) = Inr i"
    using assms d ms_canaries_checked by (auto simp: ms_id_def MemSlotBaseSlotGetID_def get_meta_def ms_slot_ok_def)
qed

lemma get_meta_ok:
  assumes "ms_slot_ok mem a i"
  obtains x where "get_meta mem (ma_loc a i) = Inr x" "ms_metas mem (ma_loc a i) = Some x" "mm_slot_id x = i" "ms_canaries_ok x"
  using assms by (auto simp: ms_slot_ok_def get_meta_def)

lemma ms_core_held [simp]: "ms_core (mem\<lparr>ms_nodes := ms_nodes mem\<rparr>) a L ls res ok = ms_core mem a L ls res ok"
  by (simp add: ms_core_def ms_slot_ok_def)

lemma sq_int: "sq_inv n m q out \<Longrightarrow> i \<in> out \<Longrightarrow> 0 \<le> i \<and> i < n \<and> i < 2 ^ 31"
  unfolding sq_inv_def by (metis UnI2 atLeastLessThan_iff order.strict_trans)

lemma ms_curs_put:
  assumes "ms_curs mem a ls" "\<And>j. j \<in> set (concat ls) \<Longrightarrow> ms_metas mem' (ma_loc a j) = ms_metas mem (ma_loc a j)"
    "ms_metas mem' (ma_loc a i) = Some x" "mm_cur_list_id x = int k" "k < length ls" "i \<notin> set (concat ls)"
  shows "ms_curs mem' a (put_end tail k i ls)"
  unfolding ms_curs_def
proof (intro allI impI ballI)
  fix j q assume j: "j < length (put_end tail k i ls)" "q \<in> set (put_end tail k i ls ! j)"
  show "map_option mm_cur_list_id (ms_metas mem' (ma_loc a q)) = Some (int j)"
  proof (cases "q = i")
    case True
    then have "j = k" using j assms(6) in_concat_nth [of j ls i] by (cases "j = k") (auto simp: put_end_def)
    then show ?thesis using True assms(3,4) by simp
  next
    case False
    then have q: "q \<in> set (ls ! j)" "j < length ls" using j assms(5) by (cases "j = k"; auto simp: put_end_def split: if_splits)+
    then show ?thesis using assms(1) assms(2) [OF in_concat_nth [OF q(2,1)]] by (simp add: ms_curs_def)
  qed
qed

lemma ms_curs_remove: "ms_curs mem a ls \<Longrightarrow> ms_curs mem a (map (remove1 i) ls)"
  using set_remove1_subset by (fastforce simp: ms_curs_def)

lemma ms_curs_update: "ms_curs mem a ls \<Longrightarrow> set xs \<subseteq> set (ls ! k) \<Longrightarrow> ms_curs mem a (ls[k := xs])"
  unfolding ms_curs_def by (metis length_list_update nth_list_update nth_list_update_neq subsetD)

lemma ms_curs_nodes [simp]: "ms_curs (mem\<lparr>ms_nodes := h\<rparr>) a ls = ms_curs mem a ls"
  by (simp add: ms_curs_def)

lemma ms_core_distinct: "ms_core mem a L ls res ok \<Longrightarrow> distinct (concat ls)"
  by (simp add: ms_core_def ms_lists_def)

lemma ms_switch_core:
  assumes core: "ms_core mem a (ms_list b) ls res res" and curs: "ms_curs mem a ls" and i: "i \<in> set (concat ls)" and k: "k < 8"
  obtains mem' L' where "ms_switch tail mem b (ma_loc a i) (int k) = Inr (mem', b\<lparr>ms_list := L'\<rparr>)"
    "ms_core mem' a L' (put_end tail k i (map (remove1 i) ls)) res res" "ms_curs mem' a (put_end tail k i (map (remove1 i) ls))"
proof -
  note c = ms_coreD [OF core]
  define ls0 where "ls0 = map (remove1 i) ls"
  obtain j where j: "j < 8" "i \<in> set (ls ! j)" using i c(4) unfolding in_concat_iff by metis
  have ir: "i \<in> res" using i c(5) by blast
  obtain x where x: "get_meta mem (ma_loc a i) = Inr x" "ms_metas mem (ma_loc a i) = Some x" "mm_slot_id x = i" "ms_canaries_ok x"
    using get_meta_ok [OF c(8) [OF ir]] by metis
  have "map_option mm_cur_list_id (ms_metas mem (ma_loc a i)) = Some (int j)"
    using curs j unfolding ms_curs_def c(4) by blast
  then have cur: "mm_cur_list_id x = int j" using x(2) by simp
  obtain h1 L1 where del: "ms_delete mem b (int j) (ma_loc a i) = Inr (mem\<lparr>ms_nodes := h1\<rparr>, b\<lparr>ms_list := L1\<rparr>)"
    "ms_core (mem\<lparr>ms_nodes := h1\<rparr>) a L1 ls0 res res"
    using ms_delete_core [OF core j] unfolding ls0_def by metis
  define b1 mem1 where b1: "b1 = b\<lparr>ms_list := L1\<rparr>" "mem1 = mem\<lparr>ms_nodes := h1\<rparr>"
  have out: "i \<notin> set (concat ls0)" unfolding ls0_def set_concat_remove [OF ms_core_distinct [OF core]] by simp
  have core1: "ms_core mem1 a (ms_list b1) ls0 res res" using del(2) by (simp add: b1)
  have x1: "ms_metas mem1 (ma_loc a i) = Some x" using x(2) by (simp add: b1)
  obtain h2 L2 where add: "ms_add tail mem1 b1 (int k) (ma_loc a i) = Inr (mem1\<lparr>ms_nodes := h2\<rparr>, b1\<lparr>ms_list := L2\<rparr>)"
    "ms_core (mem1\<lparr>ms_nodes := h2\<rparr>) a L2 (put_end tail k i ls0) res (insert i res)"
    using ms_add_core [OF core1 k ir out x1 x(3,4)] by metis
  define y where "y = x\<lparr>mm_cur_list_id := int k\<rparr>"
  define mem2 where "mem2 = put_meta (mem1\<lparr>ms_nodes := h2\<rparr>) (ma_loc a i) y"
  have y: "mm_slot_id y = i" "ms_canaries_ok y" "mm_cur_list_id y = int k" using x(3,4) by (simp_all add: y_def ms_canaries_ok_def)
  have core2: "ms_core mem2 a L2 (put_end tail k i ls0) res res"
    unfolding mem2_def using ms_put_meta_core [OF add(2) ir _ y(1,2)] x1 ir by (simp add: insert_absorb)
  have "ms_curs mem2 a (put_end tail k i ls0)"
  proof (rule ms_curs_put [where mem = mem and x = y])
    show "ms_curs mem a ls0" unfolding ls0_def by (rule ms_curs_remove [OF curs])
    show "ms_metas mem2 (ma_loc a q) = ms_metas mem (ma_loc a q)" if q: "q \<in> set (concat ls0)" for q
    proof -
      have "q \<noteq> i" "q \<in> res" using q out ms_coreD(5) [OF core1] by blast+
      then have "ma_loc a q \<noteq> ma_loc a i" using ms_loc_inj [OF core _ ir] by blast
      then show ?thesis by (simp add: mem2_def put_meta_def b1)
    qed
  qed (use y out k c(4) in \<open>simp_all add: mem2_def put_meta_def ls0_def\<close>)
  moreover have "ms_switch tail mem b (ma_loc a i) (int k) = Inr (mem2, b\<lparr>ms_list := L2\<rparr>)"
    using x(1) cur del(1) add(1) by (simp add: ms_switch_def mem2_def y_def b1)
  ultimately show ?thesis using core2 by (intro that [of mem2 L2]) (simp_all add: ls0_def)
qed

lemma ms_core_ext:
  "ms_core mem a L ls res ok \<Longrightarrow> ms_list b' = L \<Longrightarrow> ms_core mem a (ms_list b') ls res ok"
  by simp

definition ms_fresh :: "ms_mem \<Rightarrow> mem_slot \<Rightarrow> addr \<Rightarrow> bool" where
  "ms_fresh mem b new \<longleftrightarrow> (case ms_arena b of None \<Rightarrow> False | Some a \<Rightarrow> ma_fresh (ms_am mem) a new)"

definition ms_sim :: "int \<Rightarrow> bool \<Rightarrow> addr \<Rightarrow> addr \<Rightarrow> ms_op \<Rightarrow> ms_mem \<Rightarrow> mem_slot \<Rightarrow> int list list \<Rightarrow> bool" where
  "ms_sim n ts junk new c mem b ls \<longleftrightarrow> (\<exists>mem' b' r ls'. ms_step junk new c mem b = Inr (mem', b', r) \<and>
     as_ok n c ls r ls' \<and> ms_inv n ts mem' b' ls')"

lemma ms_simI:
  "ms_step junk new c mem b = Inr (mem', b', r) \<Longrightarrow> as_ok n c ls r ls' \<Longrightarrow> ms_inv n ts mem' b' ls' \<Longrightarrow> ms_sim n ts junk new c mem b ls"
  unfolding ms_sim_def by blast

lemma ms_grab_some:
  assumes b: "ms_lock b = Inr (b\<lparr>ms_held := ts\<rparr>)" "ms_thread_safe b = ts" "ms_arena b = Some a" "ms_core mem a (ms_list b) ls res res" "ms_curs mem a ls"
    and new: "ms_fresh mem b new" and lim: "11 * n < 2 ^ 31"
    and q: "SlotQueueGrab (ms_slots b) = Inr (q, s)" "s \<in> {0..<n} - set (concat ls)" "sq_inv n False q (insert s (set (concat ls)))"
  obtains mem' b' a' where "MemSlotBaseSlotGrab junk new mem b = Inr (mem', b', MemSlotBaseSlotData (ma_loc a' s))"
    "s \<in> res \<Longrightarrow> ma_loc a' s = ma_loc a s" "ms_id mem' (MemSlotBaseSlotData (ma_loc a' s)) = Inr s" "ms_inv n ts mem' b' (put_end True 0 s ls)"
proof -
  note c = ms_coreD [OF b(4)]
  have s: "0 \<le> s" "s \<notin> set (concat ls)" "s < n" using q(2) by simp_all
  have s31: "s < 2 ^ 31" "11 * (s + 1) < 2 ^ 31" using s lim by simp_all
  define b1 where "b1 = b\<lparr>ms_held := ts, ms_slots := q\<rparr>"
  have b1: "ms_arena b1 = Some a" "ms_list b1 = ms_list b" using b(3) by (simp_all add: b1_def)
  have fr: "ma_fresh (ms_am mem) a new" using new b(3) by (simp add: ms_fresh_def)
  obtain mem1 a1 where g: "ms_arena_grab junk new mem b1 s = Inr (mem1, b1\<lparr>ms_arena := Some a1\<rparr>, ma_loc a1 s)"
    "ms_core mem1 a1 (ms_list b) ls (insert s res) res" "ms_curs mem1 a1 ls" "ms_metas mem1 (ma_loc a1 s) \<noteq> None"
    "\<And>j. j \<in> res \<Longrightarrow> ma_loc a1 j = ma_loc a j"
    using ms_arena_grab_core [OF b(4,5) s(1) s31(1) fr b1(1), of junk] by metis
  obtain x where x: "ms_metas mem1 (ma_loc a1 s) = Some x" using g(4) by blast
  define y where "y = x\<lparr>mm_slot_id := s, mm_cur_list_id := 0,
     mm_canary00 := MEMSLOT_CANARY_SEED * (s + 1), mm_canary01 := MEMSLOT_CANARY_SEED + (s + 1)\<rparr>"
  have y: "mm_slot_id y = s" "ms_canaries_ok y" "mm_cur_list_id y = int 0" using s s31 by (simp_all add: y_def ms_canaries_ok_def)
  define mem2 where "mem2 = put_meta mem1 (ma_loc a1 s) y"
  define b2 where "b2 = b1\<lparr>ms_arena := Some a1\<rparr>"
  have set: "ms_set_meta mem1 (ma_loc a1 s) s = Inr mem2"
    using x s s31 by (simp add: ms_set_meta_def get_meta_def mem2_def y_def MEMSLOT_CANARY_SEED_def)
  have core2: "ms_core mem2 a1 (ms_list b2) ls (insert s res) res"
    unfolding mem2_def using ms_put_meta_core [OF g(2) insertI1 g(4) y(1,2)] by (simp add: b2_def b1)
  have y2: "ms_metas mem2 (ma_loc a1 s) = Some y" by (simp add: mem2_def put_meta_def)
  obtain h3 L3 where add: "ms_add True mem2 b2 (int 0) (ma_loc a1 s) = Inr (mem2\<lparr>ms_nodes := h3\<rparr>, b2\<lparr>ms_list := L3\<rparr>)"
    "ms_core (mem2\<lparr>ms_nodes := h3\<rparr>) a1 L3 (put_end True 0 s ls) (insert s res) (insert s res)"
    by (rule ms_add_core [OF core2 _ insertI1 s(2) y2 y(1,2), of 0 True]) simp_all
  define b3 where "b3 = ms_unlock (b2\<lparr>ms_list := L3\<rparr>)"
  have b3: "\<not> ms_held b3" "ms_thread_safe b3 = ts" "ms_slots b3 = q" "ms_arena b3 = Some a1" "ms_list b3 = L3"
    using b(2) by (simp_all add: b3_def b2_def b1_def ms_unlock_locked)
  have "ms_curs (mem2\<lparr>ms_nodes := h3\<rparr>) a1 (put_end True 0 s ls)"
  proof (rule ms_curs_put [OF g(3)])
    show "ms_metas (mem2\<lparr>ms_nodes := h3\<rparr>) (ma_loc a1 j) = ms_metas mem1 (ma_loc a1 j)" if j: "j \<in> set (concat ls)" for j
    proof -
      have "j \<in> insert s res" "j \<noteq> s" using j s(2) c(5) by blast+
      then have "ma_loc a1 j \<noteq> ma_loc a1 s" using ms_loc_inj [OF g(2) _ insertI1] by blast
      then show ?thesis by (simp add: mem2_def put_meta_def)
    qed
  qed (use y y2 s(2) c(4) in \<open>simp_all del: set_concat\<close>)
  moreover have "set (concat (put_end True 0 s ls)) = insert s (set (concat ls))" using c(4) by (intro put_end_simps) simp
  ultimately have inv': "ms_inv n ts (mem2\<lparr>ms_nodes := h3\<rparr>) b3 (put_end True 0 s ls)"
    using add(2) q(3) b3 by (intro ms_invI [OF lim b3(1,2) _ b3(4)]) simp_all
  have id: "ms_id (mem2\<lparr>ms_nodes := h3\<rparr>) (MemSlotBaseSlotData (ma_loc a1 s)) = Inr s"
    using data_id(1) ms_coreD(8) [OF add(2)] by blast
  have "MemSlotBaseSlotGrab junk new mem b = Inr (mem2\<lparr>ms_nodes := h3\<rparr>, b3, MemSlotBaseSlotData (ma_loc a1 s))"
    using b(1) q(1) s(1) g(1) set add(1) by (simp add: MemSlotBaseSlotGrab_def b3_def flip: b1_def b2_def)
  then show ?thesis using that g(5) id inv' by blast
qed

lemma ms_sim_grab:
  assumes inv: "ms_inv n ts mem b ls" and new: "ms_fresh mem b new"
  shows "ms_sim n ts junk new SGrab mem b ls"
proof -
  obtain a res where b: "ms_lock b = Inr (b\<lparr>ms_held := ts\<rparr>)" "ms_thread_safe b = ts" "\<not> ms_held b"
    "sq_inv n False (ms_slots b) (set (concat ls))"
    "ms_arena b = Some a" "ms_core mem a (ms_list b) ls res res" "ms_curs mem a ls"
    using ms_invE [OF inv] by metis
  show ?thesis
  proof (cases "set (concat ls) = {0..<n}")
    case True
    have g: "SlotQueueGrab (ms_slots b) = Inr (ms_slots b, - 1)" using sq_grab_none b(4) True by metis
    have "ms_unlock (b\<lparr>ms_held := ts, ms_slots := ms_slots b\<rparr>) = b"
      using b(2,3) by (simp add: ms_unlock_locked)
    then have "ms_step junk new SGrab mem b = Inr (mem, b, - 1)"
      using b(1) g by (simp add: MemSlotBaseSlotGrab_def with_id_def ms_id_def)
    then show ?thesis by (rule ms_simI) (use True inv in \<open>simp_all del: set_concat\<close>)
  next
    case False
    obtain q s where q: "SlotQueueGrab (ms_slots b) = Inr (q, s)" "s \<in> {0..<n} - set (concat ls)" "sq_inv n False q (insert s (set (concat ls)))"
      using sq_grab_step [OF b(4) False] by blast
    obtain mem' b' a' where g: "MemSlotBaseSlotGrab junk new mem b = Inr (mem', b', MemSlotBaseSlotData (ma_loc a' s))"
      "ms_id mem' (MemSlotBaseSlotData (ma_loc a' s)) = Inr s" "ms_inv n ts mem' b' (put_end True 0 s ls)"
      using ms_grab_some [OF b(1,2,5,6,7) new ms_inv_lim [OF inv] q] by metis
    then have "ms_step junk new SGrab mem b = Inr (mem', b', s)" by (simp add: with_id_def)
    then show ?thesis by (rule ms_simI) (use q(2) False g(3) in \<open>simp_all del: set_concat\<close>)
  qed
qed

lemma ms_sim_free:
  assumes inv: "ms_inv n ts mem b ls" and new: "ms_fresh mem b new" and i: "i \<in> set (concat ls)"
  shows "ms_sim n ts junk new (SFree i) mem b ls"
proof -
  obtain a res where b: "ms_thread_safe b = ts" "\<not> ms_held b" "sq_inv n False (ms_slots b) (set (concat ls))"
    "ms_arena b = Some a" "ms_core mem a (ms_list b) ls res res" "ms_curs mem a ls"
    using ms_invE [OF inv] by metis
  note c = ms_coreD [OF b(5)]
  have fr: "ma_fresh (ms_am mem) a new" using new b(4) by (simp add: ms_fresh_def)
  have ir: "i \<in> res" "0 \<le> i" "i < 2 ^ 31" using i c(5) sq_int [OF b(3) i] by blast+
  obtain mem1 a1 where g: "ms_arena_grab junk new mem b i = Inr (mem1, b\<lparr>ms_arena := Some a1\<rparr>, ma_loc a1 i)"
    "ms_core mem1 a1 (ms_list b) ls (insert i res) res" "ms_curs mem1 a1 ls"
    using ms_arena_grab_core [OF b(5,6) ir(2,3) fr b(4), of junk] by metis
  have core1: "ms_core mem1 a1 (ms_list b) ls res res" using g(2) ir(1) by (simp add: insert_absorb)
  note c1 = ms_coreD [OF core1]
  note id = data_id [OF c1(8) [OF ir(1)]]
  obtain x where x: "get_meta mem1 (ma_loc a1 i) = Inr x" "ms_metas mem1 (ma_loc a1 i) = Some x" "mm_slot_id x = i" "ms_canaries_ok x"
    using get_meta_ok [OF c1(8) [OF ir(1)]] by metis
  obtain k where k: "k < 8" "i \<in> set (ls ! k)" using i c(4) unfolding in_concat_iff by metis
  have "map_option mm_cur_list_id (ms_metas mem1 (ma_loc a1 i)) = Some (int k)"
    using g(3) k unfolding ms_curs_def c(4) by blast
  then have cur: "mm_cur_list_id x = int k" using x(2) by simp
  obtain q where q: "SlotQueueFree (ms_slots b) i = Inr q" "sq_inv n False q (set (concat ls) - {i})"
    using sq_free_step [OF b(3) i] by blast
  define b1 where "b1 = b\<lparr>ms_arena := Some a1\<rparr>"
  define b2 where "b2 = b1\<lparr>ms_held := ts, ms_slots := q\<rparr>"
  have lock: "ms_lock b1 = Inr (b1\<lparr>ms_held := ts\<rparr>)" using b(1,2) ms_lock_free [of b1] by (simp add: b1_def)
  have core2: "ms_core mem1 a1 (ms_list b2) ls res res" using core1 by (simp add: b2_def b1_def)
  obtain h3 L3 where del: "ms_delete mem1 b2 (int k) (ma_loc a1 i) = Inr (mem1\<lparr>ms_nodes := h3\<rparr>, b2\<lparr>ms_list := L3\<rparr>)"
    "ms_core (mem1\<lparr>ms_nodes := h3\<rparr>) a1 L3 (map (remove1 i) ls) res res"
    using ms_delete_core [OF core2 k] by metis
  define ls' b3 where "ls' = map (remove1 i) ls" "b3 = b2\<lparr>ms_list := L3\<rparr>"
  have set': "set (concat ls') = set (concat ls) - {i}" unfolding ls'_b3_def set_concat_remove [OF ms_core_distinct [OF b(5)]] ..
  have curs3: "ms_curs (mem1\<lparr>ms_nodes := h3\<rparr>) a1 ls'" unfolding ls'_b3_def ms_curs_nodes by (rule ms_curs_remove [OF g(3)])
  have out: "i \<notin> set (concat ls')" unfolding set' by simp
  have a3: "ms_arena b3 = Some a1" by (simp add: ls'_b3_def b2_def b1_def)
  obtain mem4 a4 where rel: "ms_arena_release (mem1\<lparr>ms_nodes := h3\<rparr>) b3 i = Inr (mem4, b3\<lparr>ms_arena := Some a4\<rparr>)"
    "ms_core mem4 a4 L3 ls' (res - {i}) (res - {i})" "ms_curs mem4 a4 ls'"
    using ms_arena_release_core [OF del(2) [folded ls'_b3_def(1)] curs3 ir(1) out a3] by metis
  define b4 where "b4 = ms_unlock (b3\<lparr>ms_arena := Some a4\<rparr>)"
  have b4: "\<not> ms_held b4" "ms_thread_safe b4 = ts" "ms_slots b4 = q" "ms_arena b4 = Some a4" "ms_list b4 = L3"
    using b(1) by (simp_all add: b4_def ls'_b3_def b2_def b1_def ms_unlock_locked)
  have inv': "ms_inv n ts mem4 b4 ls'"
    using rel(2,3) q(2) b4 set' by (intro ms_invI [OF ms_inv_lim [OF inv] b4(1,2) _ b4(4)]) (simp_all del: set_concat)
  have "MemSlotBaseSlotGrabByID junk new mem b i = Inr (mem1, b1, MemSlotBaseSlotData (ma_loc a1 i))"
    using ir(2) g(1) by (simp add: MemSlotBaseSlotGrabByID_def b1_def)
  moreover have "MemSlotBaseSlotFree mem1 b1 (MemSlotBaseSlotData (ma_loc a1 i)) = Inr (mem4, b4, 1)"
    using id(2,3) x(1,3) ms_canaries_checked [OF x(4)] lock q(1) cur del(1) rel(1)
    by (simp add: MemSlotBaseSlotFree_def Let_def b4_def ls'_b3_def b2_def) (simp add: b1_def)
  ultimately have "ms_step junk new (SFree i) mem b = Inr (mem4, b4, 1)" by simp
  then show ?thesis by (rule ms_simI) (use inv' in \<open>simp_all add: ls'_b3_def\<close>)
qed

lemma ms_inv_unlocked:
  assumes "sq_inv n False (ms_slots b) (set (concat ls))" "ms_arena b = Some a" "ms_core mem a (ms_list b) ls res res" "ms_curs mem a ls"
    "ms_held b = ts" "ms_thread_safe b = ts" "11 * n < 2 ^ 31"
  shows "ms_inv n ts mem (ms_unlock b) ls"
  using assms by (intro ms_invI [where a = a and res = res]) (simp_all add: ms_unlock_locked)

lemma ms_sim_switch:
  assumes inv: "ms_inv n ts mem b ls" and new: "ms_fresh mem b new" and i: "i \<in> set (concat ls)" "k < 8"
  shows "ms_sim n ts junk new (SSwitch i k) mem b ls" "ms_sim n ts junk new (SSwitchTail i k) mem b ls"
proof -
  obtain a res where b: "ms_lock b = Inr (b\<lparr>ms_held := ts\<rparr>)" "ms_thread_safe b = ts" "sq_inv n False (ms_slots b) (set (concat ls))"
    "ms_arena b = Some a" "ms_core mem a (ms_list b) ls res res" "ms_curs mem a ls"
    using ms_invE [OF inv] by metis
  note c = ms_coreD [OF b(5)]
  have fr: "ma_fresh (ms_am mem) a new" using new b(4) by (simp add: ms_fresh_def)
  have ir: "i \<in> res" "0 \<le> i" "i < 2 ^ 31" using i c(5) sq_int [OF b(3) i(1)] by blast+
  define b1 where "b1 = b\<lparr>ms_held := ts\<rparr>"
  have a1: "ms_arena b1 = Some a" using b(4) by (simp add: b1_def)
  obtain mem1 a1 where g: "ms_arena_grab junk new mem b1 i = Inr (mem1, b1\<lparr>ms_arena := Some a1\<rparr>, ma_loc a1 i)"
    "ms_core mem1 a1 (ms_list b) ls (insert i res) res" "ms_curs mem1 a1 ls"
    using ms_arena_grab_core [OF b(5,6) ir(2,3) fr a1, of junk] by metis
  define b2 where "b2 = b1\<lparr>ms_arena := Some a1\<rparr>"
  have core2: "ms_core mem1 a1 (ms_list b2) ls res res" using g(2) ir(1) by (simp add: insert_absorb b2_def b1_def)
  have k8: "\<not> int k \<ge> MEMSLOT_DEFAULT_LIST_COUNT" using i(2) by (simp add: MEMSLOT_DEFAULT_LIST_COUNT_def)
  have *: "\<exists>mem' L'. ms_switch tail mem1 b2 (ma_loc a1 i) (int k) = Inr (mem', b2\<lparr>ms_list := L'\<rparr>) \<and>
      ms_inv n ts mem' (ms_unlock (b2\<lparr>ms_list := L'\<rparr>)) (put_end tail k i (map (remove1 i) ls))" for tail
  proof -
    obtain mem' L' where sw: "ms_switch tail mem1 b2 (ma_loc a1 i) (int k) = Inr (mem', b2\<lparr>ms_list := L'\<rparr>)"
      "ms_core mem' a1 L' (put_end tail k i (map (remove1 i) ls)) res res" "ms_curs mem' a1 (put_end tail k i (map (remove1 i) ls))"
      using ms_switch_core [OF core2 g(3) i] by metis
    have "set (concat (put_end tail k i (map (remove1 i) ls))) = set (concat ls)"
      using i c(4) set_concat_remove [OF ms_core_distinct [OF b(5)], of i] by (simp del: set_concat) blast
    then have "ms_inv n ts mem' (ms_unlock (b2\<lparr>ms_list := L'\<rparr>)) (put_end tail k i (map (remove1 i) ls))"
      using ms_inv_lim [OF inv] b(2,3) sw(2,3) by (intro ms_inv_unlocked [where a = a1 and res = res]) (simp_all add: b2_def b1_def del: set_concat)
    then show ?thesis using sw(1) by blast
  qed
  obtain mem' L' where s: "ms_switch False mem1 b2 (ma_loc a1 i) (int k) = Inr (mem', b2\<lparr>ms_list := L'\<rparr>)"
      "ms_inv n ts mem' (ms_unlock (b2\<lparr>ms_list := L'\<rparr>)) (put_end False k i (map (remove1 i) ls))" using * by blast
  have "ms_step junk new (SSwitch i k) mem b = Inr (mem', ms_unlock (b2\<lparr>ms_list := L'\<rparr>), 1)"
    using ir(2) k8 b(1) g(1) s(1) by (simp add: MemSlotBaseSlotListIDSwitch_def flip: b1_def) (simp flip: b2_def)
  then show "ms_sim n ts junk new (SSwitch i k) mem b ls" by (rule ms_simI) (use s(2) in simp_all)
  obtain mem' L' where s: "ms_switch True mem1 b2 (ma_loc a1 i) (int k) = Inr (mem', b2\<lparr>ms_list := L'\<rparr>)"
      "ms_inv n ts mem' (ms_unlock (b2\<lparr>ms_list := L'\<rparr>)) (put_end True k i (map (remove1 i) ls))" using * by blast
  have "ms_step junk new (SSwitchTail i k) mem b = Inr (mem', ms_unlock (b2\<lparr>ms_list := L'\<rparr>), 1)"
    using ir(2) k8 b(1) g(1) s(1) by (simp add: MemSlotBaseSlotListIDSwitchToTail_def flip: b1_def) (simp flip: b2_def)
  then show "ms_sim n ts junk new (SSwitchTail i k) mem b ls" by (rule ms_simI) (use s(2) in simp_all)
qed

text \<open>The ends of a list.\<close>

lemma ms_list_ends:
  assumes core: "ms_core mem a L ls res res" and k: "k < 8"
  shows "k < length L" "dl_head (L ! k) = first_or (map (ms_node a) (ls ! k)) NULL" "dl_tail (L ! k) = last_or NULL (map (ms_node a) (ls ! k))"
    "i \<in> set (ls ! k) \<Longrightarrow> i \<in> res \<and> get_data (ms_nodes mem) (ms_node a i) = Inr (ma_loc a i) \<and> dn_data (the (ms_nodes mem (ms_node a i))) = ma_loc a i"
proof -
  note c = ms_coreD [OF core]
  have kl: "k < length ls" using k c(4) by simp
  show "k < length L" using kl c(7) by (simp add: ms_lists_def)
  have "dlist_inv (ms_nodes mem) (L ! k) (map (ms_node a) (ls ! k))" using c(7) kl by (simp add: ms_lists_def)
  from is_dlistD [OF dlist_invD(1) [OF this]]
  show "dl_head (L ! k) = first_or (map (ms_node a) (ls ! k)) NULL" "dl_tail (L ! k) = last_or NULL (map (ms_node a) (ls ! k))" by simp_all
  show "i \<in> res \<and> get_data (ms_nodes mem) (ms_node a i) = Inr (ma_loc a i) \<and> dn_data (the (ms_nodes mem (ms_node a i))) = ma_loc a i" if i: "i \<in> set (ls ! k)"
  proof -
    have "i \<in> res" using in_concat_nth [OF kl i] c(5) by blast
    moreover obtain nd where "ms_nodes mem (ms_node a i) = Some nd" "dn_data nd = ma_loc a i"
      using c(8) [OF \<open>i \<in> res\<close>] by (auto simp: ms_slot_ok_def dview_Some_iff)
    moreover have "ms_node a i \<noteq> NULL" by (simp add: ms_node_def)
    ultimately show ?thesis by simp
  qed
qed

lemma ms_sim_peek:
  assumes inv: "ms_inv n ts mem b ls" and k: "k < 8"
  shows "ms_sim n ts junk new (SPeekHead k) mem b ls" "ms_sim n ts junk new (SPeekTail k) mem b ls"
proof -
  obtain a res where b: "ms_lock b = Inr (b\<lparr>ms_held := ts\<rparr>)" "ms_thread_safe b = ts" "\<not> ms_held b"
    "ms_core mem a (ms_list b) ls res res"
    using ms_invE [OF inv] by metis
  note c = ms_coreD [OF b(4)]
  note e = ms_list_ends [OF b(4) k]
  define b1 where "b1 = b\<lparr>ms_held := ts\<rparr>"
  have l: "ms_get_list b1 (int k) = Inr (ms_list b ! k)" using e(1) by (simp add: ms_get_list_def b1_def)
  have un: "ms_unlock b1 = b" using b(2,3) by (simp add: b1_def ms_unlock_locked)
  have nn: "ms_node a i \<noteq> NULL" "ma_loc a i \<noteq> NULL" for i by (simp_all add: ms_node_def)
  have id: "ms_id mem NULL = Inr (- 1)" "i \<in> set (ls ! k) \<Longrightarrow> ms_id mem (MemSlotBaseSlotData (ma_loc a i)) = Inr i" for i
    using data_id(1) c(8) e(4) by (auto simp: ms_id_def)
  have "ms_step junk new (SPeekHead k) mem b = Inr (mem, b, first_or (ls ! k) (- 1))"
    using b(1) l un e(2) e(4) nn id
    by (cases "ls ! k") (simp_all add: MemSlotBaseSlotPointToHead_def with_id_def with_mem_def flip: b1_def)
  then show "ms_sim n ts junk new (SPeekHead k) mem b ls" by (rule ms_simI) (use inv in simp_all)
  have "ms_step junk new (SPeekTail k) mem b = Inr (mem, b, last_or (- 1) (ls ! k))"
    using b(1) l un e(3) e(4) nn id
    by (cases "ls ! k" rule: rev_cases) (simp_all add: MemSlotBaseSlotPointToTail_def with_id_def with_mem_def flip: b1_def)
  then show "ms_sim n ts junk new (SPeekTail k) mem b ls" by (rule ms_simI) (use inv in simp_all)
qed


lemma ms_popped_spec:
  assumes core: "ms_core mem a (ms_list b) ls res res" and curs: "ms_curs mem a ls" and b: "ms_arena b = Some a" "ms_held b = ts" "ms_thread_safe b = ts"
    and sq: "sq_inv n False (ms_slots b) (insert i (set (concat ls)))" "i \<notin> set (concat ls)" and i: "i \<in> res"
    and lim: "11 * n < 2 ^ 31"
  shows "\<exists>q. SlotQueueFree (ms_slots b) i = Inr q \<and>
    ms_popped mem b (ma_loc a i) = Inr (mem, ms_unlock (b\<lparr>ms_slots := q\<rparr>), MemSlotBaseSlotData (ma_loc a i)) \<and>
    ms_id mem (MemSlotBaseSlotData (ma_loc a i)) = Inr i \<and> ms_inv n ts mem (ms_unlock (b\<lparr>ms_slots := q\<rparr>)) ls"
proof -
  obtain x where x: "get_meta mem (ma_loc a i) = Inr x" "mm_slot_id x = i" "c_int i = i"
    using get_meta_ok [OF ms_coreD(8) [OF core i]] ms_canaries_checked(2) by metis
  obtain q where q: "SlotQueueFree (ms_slots b) i = Inr q" "sq_inv n False q (set (concat ls))"
    using sq_free_step [OF sq(1), of i] sq(2) by (metis Diff_insert_absorb insertI1)
  have "ms_popped mem b (ma_loc a i) = Inr (mem, ms_unlock (b\<lparr>ms_slots := q\<rparr>), MemSlotBaseSlotData (ma_loc a i))"
    using x q(1) by (simp add: ms_popped_def)
  moreover have "ms_inv n ts mem (ms_unlock (b\<lparr>ms_slots := q\<rparr>)) ls"
    using lim core curs b q(2) by (intro ms_inv_unlocked [where a = a and res = res]) simp_all
  ultimately show ?thesis using q(1) data_id(1) [OF ms_coreD(8) [OF core i]] by blast
qed

lemma ms_pop_lists:
  assumes core: "ms_core mem a (ms_list b) ls res res" and curs: "ms_curs mem a ls" and k: "k < 8"
    and h: "ms_lists h' ((ms_list b)[k := l']) (ms_node a) (ls[k := xs])" "dview h' = dview (ms_nodes mem)" and xs: "set (ls ! k) = insert i (set xs)" "i \<notin> set xs"
  shows "ms_core (mem\<lparr>ms_nodes := h'\<rparr>) a ((ms_list b)[k := l']) (ls[k := xs]) res res" "ms_curs (mem\<lparr>ms_nodes := h'\<rparr>) a (ls[k := xs])"
    "set (concat ls) = insert i (set (concat (ls[k := xs])))" "i \<notin> set (concat (ls[k := xs]))" "i \<in> res"
proof -
  note c = ms_coreD [OF core]
  have kl: "k < length ls" using k c(4) by simp
  obtain A B where AB: "concat ls = A @ ls ! k @ B" "\<And>ys. concat (ls[k := ys]) = A @ ys @ B"
    using concat_split [OF kl] by metis
  show s: "set (concat ls) = insert i (set (concat (ls[k := xs])))" unfolding AB using xs(1) by auto
  show "i \<notin> set (concat (ls[k := xs]))" using ms_core_distinct [OF core] xs unfolding AB by auto
  show "i \<in> res" using s c(5) by blast
  show "ms_core (mem\<lparr>ms_nodes := h'\<rparr>) a ((ms_list b)[k := l']) (ls[k := xs]) res res"
    by (rule ms_core_nodes [OF core h]) (use c(4,5) s in \<open>simp_all del: set_concat\<close>)
  show "ms_curs (mem\<lparr>ms_nodes := h'\<rparr>) a (ls[k := xs])"
    using ms_curs_update [OF curs, of xs k] xs(1) by auto
qed

lemma ms_sim_pop:
  assumes inv: "ms_inv n ts mem b ls" and k: "k < 8"
  shows "ms_sim n ts junk new (SPopHead k) mem b ls" "ms_sim n ts junk new (SPopTail k) mem b ls"
proof -
  obtain a res where b: "ms_lock b = Inr (b\<lparr>ms_held := ts\<rparr>)" "ms_thread_safe b = ts" "\<not> ms_held b"
    "sq_inv n False (ms_slots b) (set (concat ls))" "ms_arena b = Some a" "ms_core mem a (ms_list b) ls res res" "ms_curs mem a ls"
    using ms_invE [OF inv] by metis
  note c = ms_coreD [OF b(6)]
  note e = ms_list_ends [OF b(6) k]
  have kl: "k < length ls" using k c(4) by simp
  define b1 where "b1 = b\<lparr>ms_held := ts\<rparr>"
  have l: "ms_get_list b1 (int k) = Inr (ms_list b ! k)" "ms_put_list b1 (int k) l' = Inr (b1\<lparr>ms_list := (ms_list b)[k := l']\<rparr>)" for l'
    using e(1) by (simp_all add: ms_get_list_def ms_put_list_def b1_def)
  have un: "ms_unlock b1 = b" using b(2,3) by (simp add: b1_def ms_unlock_locked)
  have empty: "dlist_inv (ms_nodes mem) (ms_list b ! k) []" "(ms_list b)[k := ms_list b ! k] = ms_list b" if "ls ! k = []"
    using c(7) kl that unfolding ms_lists_def by (metis list.map_disc_iff, simp)
  have b1l: "b1\<lparr>ms_list := ms_list b\<rparr> = b1" by (simp add: b1_def)
  show "ms_sim n ts junk new (SPopHead k) mem b ls"
  proof (cases "ls ! k")
    case Nil
    have "ms_step junk new (SPopHead k) mem b = Inr (mem, b, - 1)"
      using b(1) l un b1l DLinkedListPopHead_empty(1) [OF empty(1) [OF Nil]] empty(2) [OF Nil]
      by (simp add: MemSlotBaseSlotPopHead_def with_id_def ms_popped_def ms_id_def flip: b1_def)
    then show ?thesis by (rule ms_simI) (use inv Nil in simp_all)
  next
    case (Cons i xs)
    obtain h' l' where p: "DLinkedListPopHead (ms_nodes mem) (ms_list b ! k) = Inr (h', l', dn_data (the (ms_nodes mem (ms_node a i))))"
      "ms_lists h' ((ms_list b)[k := l']) (ms_node a) (ls[k := xs])" "dview h' = dview (ms_nodes mem)"
      using ms_lists_pop(1) [OF c(7) kl Cons] by blast
    have "distinct (ls ! k)" using ms_core_distinct [OF b(6)] kl by (simp add: distinct_concat_iff)
    then have "set (ls ! k) = insert i (set xs)" "i \<notin> set xs" using Cons by simp_all
    note r = ms_pop_lists [OF b(6,7) k p(2,3) this]
    define b2 where "b2 = b1\<lparr>ms_list := (ms_list b)[k := l']\<rparr>"
    have core2: "ms_core (mem\<lparr>ms_nodes := h'\<rparr>) a (ms_list b2) (ls[k := xs]) res res" using r(1) by (simp add: b2_def)
    have b2: "ms_arena b2 = Some a" "ms_held b2 = ts" "ms_thread_safe b2 = ts" "ms_slots b2 = ms_slots b" using b(2,5) by (simp_all add: b2_def b1_def)
    have sq: "sq_inv n False (ms_slots b2) (insert i (set (concat (ls[k := xs]))))" using b(4) b2(4) unfolding r(3) by simp
    obtain q where q: "ms_popped (mem\<lparr>ms_nodes := h'\<rparr>) b2 (ma_loc a i) = Inr (mem\<lparr>ms_nodes := h'\<rparr>, ms_unlock (b2\<lparr>ms_slots := q\<rparr>), MemSlotBaseSlotData (ma_loc a i))"
      "ms_id (mem\<lparr>ms_nodes := h'\<rparr>) (MemSlotBaseSlotData (ma_loc a i)) = Inr i"
      "ms_inv n ts (mem\<lparr>ms_nodes := h'\<rparr>) (ms_unlock (b2\<lparr>ms_slots := q\<rparr>)) (ls[k := xs])"
      using ms_popped_spec [OF core2 r(2) b2(1-3) sq r(4,5) ms_inv_lim [OF inv]] by blast
    have "dn_data (the (ms_nodes mem (ms_node a i))) = ma_loc a i" using e(4) Cons by simp
    then have "ms_step junk new (SPopHead k) mem b = Inr (mem\<lparr>ms_nodes := h'\<rparr>, ms_unlock (b2\<lparr>ms_slots := q\<rparr>), i)"
      using b(1) l p(1) q(1,2) by (simp add: MemSlotBaseSlotPopHead_def with_id_def flip: b1_def) (simp flip: b2_def)
    then show ?thesis by (rule ms_simI) (use q(3) Cons in simp_all)
  qed
  show "ms_sim n ts junk new (SPopTail k) mem b ls"
  proof (cases "ls ! k" rule: rev_cases)
    case Nil
    have "ms_step junk new (SPopTail k) mem b = Inr (mem, b, - 1)"
      using b(1) l un b1l DLinkedListPopHead_empty(2) [OF empty(1) [OF Nil]] empty(2) [OF Nil]
      by (simp add: MemSlotBaseSlotPopTail_def with_id_def ms_popped_def ms_id_def flip: b1_def)
    then show ?thesis by (rule ms_simI) (use inv Nil in simp_all)
  next
    case (snoc xs i)
    obtain h' l' where p: "DLinkedListPopTail (ms_nodes mem) (ms_list b ! k) = Inr (h', l', dn_data (the (ms_nodes mem (ms_node a i))))"
      "ms_lists h' ((ms_list b)[k := l']) (ms_node a) (ls[k := xs])" "dview h' = dview (ms_nodes mem)"
      using ms_lists_pop(2) [OF c(7) kl snoc] by blast
    have "distinct (ls ! k)" using ms_core_distinct [OF b(6)] kl by (simp add: distinct_concat_iff)
    then have "set (ls ! k) = insert i (set xs)" "i \<notin> set xs" using snoc by simp_all
    note r = ms_pop_lists [OF b(6,7) k p(2,3) this]
    define b2 where "b2 = b1\<lparr>ms_list := (ms_list b)[k := l']\<rparr>"
    have core2: "ms_core (mem\<lparr>ms_nodes := h'\<rparr>) a (ms_list b2) (ls[k := xs]) res res" using r(1) by (simp add: b2_def)
    have b2: "ms_arena b2 = Some a" "ms_held b2 = ts" "ms_thread_safe b2 = ts" "ms_slots b2 = ms_slots b" using b(2,5) by (simp_all add: b2_def b1_def)
    have sq: "sq_inv n False (ms_slots b2) (insert i (set (concat (ls[k := xs]))))" using b(4) b2(4) unfolding r(3) by simp
    obtain q where q: "ms_popped (mem\<lparr>ms_nodes := h'\<rparr>) b2 (ma_loc a i) = Inr (mem\<lparr>ms_nodes := h'\<rparr>, ms_unlock (b2\<lparr>ms_slots := q\<rparr>), MemSlotBaseSlotData (ma_loc a i))"
      "ms_id (mem\<lparr>ms_nodes := h'\<rparr>) (MemSlotBaseSlotData (ma_loc a i)) = Inr i"
      "ms_inv n ts (mem\<lparr>ms_nodes := h'\<rparr>) (ms_unlock (b2\<lparr>ms_slots := q\<rparr>)) (ls[k := xs])"
      using ms_popped_spec [OF core2 r(2) b2(1-3) sq r(4,5) ms_inv_lim [OF inv]] by blast
    have "dn_data (the (ms_nodes mem (ms_node a i))) = ma_loc a i" using e(4) snoc by simp
    then have "ms_step junk new (SPopTail k) mem b = Inr (mem\<lparr>ms_nodes := h'\<rparr>, ms_unlock (b2\<lparr>ms_slots := q\<rparr>), i)"
      using b(1) l p(1) q(1,2) by (simp add: MemSlotBaseSlotPopTail_def with_id_def flip: b1_def) (simp flip: b2_def)
    then show ?thesis by (rule ms_simI) (use q(3) snoc in simp_all)
  qed
qed

lemma ms_sim_requeue:
  assumes inv: "ms_inv n ts mem b ls" and k: "j < 8" "k < 8"
  shows "ms_sim n ts junk new (SRequeue j k) mem b ls"
proof -
  obtain a res where b: "ms_lock b = Inr (b\<lparr>ms_held := ts\<rparr>)" "ms_thread_safe b = ts" "\<not> ms_held b"
    "sq_inv n False (ms_slots b) (set (concat ls))" "ms_arena b = Some a" "ms_core mem a (ms_list b) ls res res" "ms_curs mem a ls"
    using ms_invE [OF inv] by metis
  note c = ms_coreD [OF b(6)]
  note e = ms_list_ends [OF b(6) k(1)]
  have kl: "j < length ls" using k c(4) by simp
  define b1 where "b1 = b\<lparr>ms_held := ts\<rparr>"
  have l: "ms_get_list b1 (int j) = Inr (ms_list b ! j)" using e(1) by (simp add: ms_get_list_def b1_def)
  have un: "ms_unlock b1 = b" using b(2,3) by (simp add: b1_def ms_unlock_locked)
  have nn: "ms_node a i \<noteq> NULL" for i by (simp add: ms_node_def)
  show ?thesis
  proof (cases "ls ! j")
    case Nil
    have "ms_step junk new (SRequeue j k) mem b = Inr (mem, b, - 1)"
      using b(1) l un e(2) Nil by (simp add: MemSlotBaseSlotPointToHeadAndSwitchListID_def with_id_def ms_id_def flip: b1_def)
    then show ?thesis by (rule ms_simI) (use inv Nil in simp_all)
  next
    case (Cons i xs)
    have i: "i \<in> set (concat ls)" using in_concat_nth [OF kl] Cons by simp
    have core1: "ms_core mem a (ms_list b1) ls res res" using b(6) by (simp add: b1_def)
    obtain mem' L' where sw: "ms_switch True mem b1 (ma_loc a i) (int k) = Inr (mem', b1\<lparr>ms_list := L'\<rparr>)"
      "ms_core mem' a L' (put_end True k i (map (remove1 i) ls)) res res" "ms_curs mem' a (put_end True k i (map (remove1 i) ls))"
      using ms_switch_core [OF core1 b(7) i k(2)] by metis
    have "set (concat (put_end True k i (map (remove1 i) ls))) = set (concat ls)"
      using i k c(4) set_concat_remove [OF ms_core_distinct [OF b(6)], of i] by (simp del: set_concat) blast
    then have inv': "ms_inv n ts mem' (ms_unlock (b1\<lparr>ms_list := L'\<rparr>)) (put_end True k i (map (remove1 i) ls))"
      using ms_inv_lim [OF inv] b(2,4,5) sw(2,3) by (intro ms_inv_unlocked [where a = a and res = res]) (simp_all add: b1_def del: set_concat)
    have "ms_id mem' (MemSlotBaseSlotData (ma_loc a i)) = Inr i"
      using data_id(1) ms_coreD(8) [OF sw(2)] i c(5) by blast
    then have "ms_step junk new (SRequeue j k) mem b = Inr (mem', ms_unlock (b1\<lparr>ms_list := L'\<rparr>), i)"
      using b(1) l e(2) e(4) [of i] Cons nn sw(1)
      by (simp add: MemSlotBaseSlotPointToHeadAndSwitchListID_def with_id_def flip: b1_def)
    then show ?thesis by (rule ms_simI) (use inv' Cons in simp_all)
  qed
qed

lemma ms_sim_all:
  assumes "ms_inv n ts mem b ls" "ms_fresh mem b new" "as_pre c ls"
  shows "ms_sim n ts junk new c mem b ls"
  using assms ms_sim_grab ms_sim_free ms_sim_switch ms_sim_pop ms_sim_peek ms_sim_requeue by (cases c) auto

section \<open>Runs\<close>

text \<open>
  \<open>ms_run n sz ts (mem, b) ls\<close> holds of the bases that follow \<open>MemSlotBaseInit\<close> for \<open>n\<close> objects of \<open>sz\<close> bytes in a
  zeroed base, with the sequences \<open>ls\<close> the abstract operations give.
\<close>

definition zero_base :: mem_slot where
  "zero_base = \<lparr>ms_list = replicate 8 (DLinkedListInit False), ms_slots = \<lparr>sq_private = None, sq_public = None, sq_arena = [], sq_index = 0,
     sq_count = 0, sq_loaded = False, sq_mapped = False\<rparr>, ms_arena = None, ms_held = False, ms_loaded = False, ms_thread_safe = False\<rparr>"

definition empty_mem :: ms_mem where
  "empty_mem = \<lparr>ms_am = \<lparr>am_nodes = Map.empty, am_blocks = Map.empty\<rparr>, ms_nodes = Map.empty, ms_metas = Map.empty\<rparr>"

inductive ms_run :: "int \<Rightarrow> int \<Rightarrow> bool \<Rightarrow> ms_mem \<times> mem_slot \<Rightarrow> int list list \<Rightarrow> bool" for n sz :: int and ts :: bool where
  init: "0 < n \<Longrightarrow> 11 * n < 2 ^ 31 \<Longrightarrow> 0 \<le> sz \<Longrightarrow> sz < 2 ^ 57 \<Longrightarrow> MemSlotBaseInit zero_base sz n ts = Inr (b, r) \<Longrightarrow> ms_run n sz ts (empty_mem, b) (replicate 8 [])"
| step: "ms_run n sz ts (mem, b) ls \<Longrightarrow> ms_fresh mem b new \<Longrightarrow> as_pre c ls \<Longrightarrow> ms_step junk new c mem b = Inr (mem', b', r) \<Longrightarrow>
    as_ok n c ls r ls' \<Longrightarrow> ms_run n sz ts (mem', b') ls'"

lemma ms_init_inv:
  assumes "0 < n" "11 * n < 2 ^ 31" "0 \<le> sz" "sz < 2 ^ 57"
  shows "\<exists>b. MemSlotBaseInit zero_base sz n ts = Inr (b, 1) \<and> ms_inv n ts empty_mem b (replicate 8 [])"
proof -
  define q0 where "q0 = \<lparr>sq_private = None, sq_public = None, sq_arena = [], sq_index = 0, sq_count = 0, sq_loaded = False, sq_mapped = False\<rparr>"
  have f: "sq_fill n (replicate (nat n) 0) = Inr (rev [0..n - 1])" by (rule sq_fill_eq) (use assms in simp_all)
  define q where "q = q0\<lparr>sq_arena := rev [0..n - 1], sq_count := n, sq_index := n, sq_loaded := True\<rparr>"
  have i: "SlotQueueInit q0 n = Inr q" by (simp add: SlotQueueInit_def f q_def)
  have sq: "sq_inv n False q {}" using sq_init_inv(1) [OF _ _ _ i] assms by (simp add: q0_def)
  have slot: "0 \<le> int sizeof_meta + sz + 1" "n < 2 ^ 59" "(16 + 1) * (int sizeof_meta + sz + 1 + 1) < 2 ^ 62"
    using assms by (simp_all add: sizeof_meta_def)
  obtain a where a: "MemArenaNew n (int sizeof_meta + sz + 1) 16 False = Inr a"
    "ma_inv \<lparr>am_nodes = Map.empty, am_blocks = Map.empty\<rparr> a {} (\<lambda>_. 0)" "ma_slot_size a = int sizeof_meta + sz + 1" "ma_slot_count a = 16"
    by (rule MemArenaNew_inv [OF assms(1) slot(1) _ slot(2,3), of False]) simp
  have conv: "c_int n = n" by (rule c_int_in) (use assms in simp_all)
  have conv2: "c_long (int sizeof_meta + sz + 1) = int sizeof_meta + sz + 1"
    by (rule c_long_in) (use assms in \<open>simp_all add: sizeof_meta_def\<close>)
  define b where "b = zero_base\<lparr>ms_held := False, ms_thread_safe := ts, ms_slots := q,
        ms_list := map (\<lambda>i. DLinkedListInit False) [0..MEMSLOT_DEFAULT_LIST_COUNT - 1], ms_arena := Some a, ms_loaded := True\<rparr>"
  have init: "MemSlotBaseInit zero_base sz n ts = Inr (b, 1)"
    using i a(1) by (simp add: MemSlotBaseInit_def b_def conv conv2) (simp add: zero_base_def q0_def)
  have "map (\<lambda>i. DLinkedListInit False) [0..MEMSLOT_DEFAULT_LIST_COUNT - 1] = replicate 8 (DLinkedListInit False)"
    unfolding MEMSLOT_DEFAULT_LIST_COUNT_def by (rule nth_equalityI) simp_all
  then have L: "ms_list b = replicate 8 (DLinkedListInit False)" by (simp add: b_def)
  have "dlist_inv Map.empty (DLinkedListInit False) []" by (simp add: dlist_inv_def is_dlist_def DLinkedListInit_def)
  then have lists: "ms_lists (ms_nodes empty_mem) (ms_list b) (ms_node a) (replicate 8 [])"
    unfolding L by (simp add: ms_lists_def empty_mem_def)
  have "ma_inv (ms_am empty_mem) a {} (\<lambda>_. 0)"
    using a(2) by (simp add: empty_mem_def)
  then have "ms_core empty_mem a (ms_list b) (replicate 8 []) {} {}"
    using lists assms unfolding ms_core_def by (simp add: a(3,4) empty_mem_def)
  moreover have "ms_curs empty_mem a (replicate 8 [])" by (simp add: ms_curs_def)
  moreover have "ms_held b = False" "ms_thread_safe b = ts" "ms_arena b = Some a" "ms_slots b = q" by (simp_all add: b_def)
  ultimately have "ms_inv n ts empty_mem b (replicate 8 [])" using sq assms(2) by (intro ms_invI) simp_all
  then show ?thesis using init by blast
qed

lemma ms_run_inv: "ms_run n sz ts s ls \<Longrightarrow> ms_inv n ts (fst s) (snd s) ls"
proof (induction rule: ms_run.induct)
  case (init b r)
  then show ?case using ms_init_inv [OF init(1-4), of ts] by auto
next
  case (step mem b ls new c junk mem' b' r ls')
  then obtain mem2 b2 r2 ls2 where s: "ms_step junk new c mem b = Inr (mem2, b2, r2)" "as_ok n c ls r2 ls2" "ms_inv n ts mem2 b2 ls2"
    using ms_sim_all [of n ts mem b ls new c junk] unfolding ms_sim_def by auto
  then have "mem2 = mem'" "b2 = b'" "r2 = r" using step.hyps(4) by simp_all
  moreover have "ls2 = ls'"
    using s(2) step.hyps(5) \<open>r2 = r\<close> by (cases c) (auto split: if_splits list.splits simp del: set_concat)
  ultimately show ?case using s(3) by simp
qed


section \<open>Claims\<close>

text \<open>
  C19: the memory slots refine eight sequences of numbers. In every run of a base for \<open>n\<close> objects of \<open>sz\<close> bytes, with
  11 n below 2 ^ 31, the canaries being computed in \<open>int\<close>, and sz below 2 ^ 57, each operation of a client that keeps
  to the preconditions succeeds, its result is the one of the abstract operation (for a new object: a number that
  is in no sequence, or none when all \<open>n\<close> are taken), the number being what \<open>MemSlotBaseSlotGetID\<close> reads from
  the pointer returned, and the state that follows is again one of a run.
\<close>

theorem memslot_refines:
  assumes run: "ms_run n sz ts (mem, b) ls" and new: "ms_fresh mem b new" and pre: "as_pre c ls"
  shows "\<exists>mem' b' r ls'. ms_step junk new c mem b = Inr (mem', b', r) \<and> as_ok n c ls r ls' \<and>
    ms_run n sz ts (mem', b') ls' \<and> \<not> ms_held b'"
proof -
  have "ms_inv n ts mem b ls" using ms_run_inv [OF run] by simp
  then obtain mem' b' r ls' where s: "ms_step junk new c mem b = Inr (mem', b', r)" "as_ok n c ls r ls'" "ms_inv n ts mem' b' ls'"
    using ms_sim_all [OF _ new pre] unfolding ms_sim_def by blast
  moreover have "ms_run n sz ts (mem', b') ls'" by (rule ms_run.step [OF run new pre s(1,2)])
  moreover have "\<not> ms_held b'" using s(3) by (simp add: ms_inv_def)
  ultimately show ?thesis by blast
qed

lemma ms_for_sizes:
  assumes inv: "\<not> ms_held b" "\<not> ms_thread_safe b" and L: "length (ms_list b) = length ls" "length ls = 8"
    and sz: "\<And>k. k < 8 \<Longrightarrow> sint (dl_size (ms_list b ! k)) = int (length (ls ! k))" and m: "m \<le> 8"
    and len: "length (concat ls) < 2 ^ 63"
  shows "for_each (\<lambda>i (b, count). and_then (MemSlotBaseSlotListIDSize b i) (\<lambda>(b, k). and_then (in_long (count + k)) (\<lambda>count. Inr (b, count)))) [0..int m - 1] (b, 0) =
    Inr (b, int (length (concat (take m ls))))"
  using m
proof (induction m)
  case (Suc m)
  have "[0..int (Suc m) - 1] = [0..int m - 1] @ [int m]" using upto_rec2 [of 0 "int m"] by simp
  moreover have "MemSlotBaseSlotListIDSize b (int m) = Inr (b, int (length (ls ! m)))"
    using Suc.prems inv L sz [of m]
    by (simp add: MemSlotBaseSlotListIDSize_def MEMSLOT_DEFAULT_LIST_COUNT_def ms_lock_free ms_get_list_def ms_unlock_locked)
  moreover have "take (Suc m) ls = take m ls @ [ls ! m]" using Suc.prems L(2) by (simp add: take_Suc_conv_app_nth)
  moreover have "length (concat (take (Suc m) ls)) \<le> length (concat ls)" by (metis append_take_drop_id concat_append length_append le_add1)
  ultimately show ?case using Suc len by (simp add: for_each_append)
qed simp

lemma ms_all_empty_upto:
  assumes "length L = 8" "\<And>k. k < 8 \<Longrightarrow> list_is_empty (L ! k) \<longleftrightarrow> ls ! k = []" "ms_list b = L" "length ls = 8"
  shows "m \<le> 8 \<Longrightarrow> ms_all_empty b [8 - int m..7] = Inr (concat (drop (8 - m) ls) = [])"
proof (induction m)
  case (Suc m)
  have "[8 - int (Suc m)..7] = (7 - int m) # [8 - int m..7]" using upto_rec1 [of "7 - int m" 7] by simp
  moreover have "ms_get_list b (7 - int m) = Inr (L ! (7 - m))"
  proof -
    have "7 - int m = int (7 - m)" "7 - m < 8" using Suc.prems by auto
    then show ?thesis using assms(1,3) by (metis ms_get_list_nth)
  qed
  moreover have "drop (8 - Suc m) ls = ls ! (7 - m) # drop (8 - m) ls"
  proof -
    have "8 - m = Suc (7 - m)" "8 - Suc m = 7 - m" "7 - m < length ls" using Suc.prems assms(4) by auto
    then show ?thesis by (simp add: Cons_nth_drop_Suc)
  qed
  ultimately show ?case using Suc assms(2) [of "7 - m"] by simp
qed (simp add: assms)

text \<open>
  Counting. The size and emptiness functions agree with the sequences; the sum over all lists is
  right on a base without mutex, and on a thread-safe base it always deadlocks, since
  \<open>MemSlotBaseSlotListIDSize\<close> locks the mutex \<open>MemSlotBaseSlotListSizeAll\<close> holds.
\<close>

theorem memslot_counts:
  assumes run: "ms_run n sz ts (mem, b) ls" and k: "k < 8"
  shows "MemSlotBaseSlotListIDSize b (int k) = Inr (b, int (length (ls ! k))) \<and>
    MemSlotBaseIsEmptyList b (int k) = Inr (b, c_bool (ls ! k = [])) \<and>
    MemSlotBaseIsEmpty b = Inr (b, c_bool (concat ls = [])) \<and>
    MemSlotBaseSlotListSizeAll b = (if ts then Inl SelfDeadlock else Inr (b, int (length (concat ls))))"
proof -
  have inv0: "ms_inv n ts mem b ls" using ms_run_inv [OF run] by simp
  then obtain a res where b: "ms_lock b = Inr (b\<lparr>ms_held := ts\<rparr>)" "ms_thread_safe b = ts" "\<not> ms_held b"
    "sq_inv n False (ms_slots b) (set (concat ls))" "ms_core mem a (ms_list b) ls res res"
    using ms_invE by metis
  note c = ms_coreD [OF b(5)]
  have L: "length (ms_list b) = 8" "length ls = 8" using c(4) ms_lists_length [OF c(7)] by simp_all
  have un: "ms_unlock (b\<lparr>ms_held := ts\<rparr>) = b" using b(2,3) by (simp add: ms_unlock_locked)
  have n: "nat n < 2 ^ 63" using ms_inv_lim [OF inv0] by (simp add: nat_less_iff)
  have "x \<in> {0..<n}" if "x \<in> set (concat ls)" for x using sq_int [OF b(4) that] by (simp del: set_concat)
  then have "card (set (concat ls)) \<le> card {0..<n}" by (intro card_mono) (simp, blast)
  then have total: "length (concat ls) < 2 ^ 63" using n ms_core_distinct [OF b(5)] by (simp add: distinct_card del: set_concat)
  have len: "length (ls ! j) \<le> length (concat ls)" if "j < 8" for j
    using concat_split [of j ls] that L(2) by (metis length_append le_add1 le_add2 order_trans)
  have inv: "dlist_inv (ms_nodes mem) (ms_list b ! j) (map (ms_node a) (ls ! j))" if "j < 8" for j
    using c(7) L(2) that by (simp add: ms_lists_def)
  have sz: "sint (dl_size (ms_list b ! j)) = int (length (ls ! j))" if j: "j < 8" for j
  proof -
    have "dl_size (ms_list b ! j) = of_nat (length (ls ! j))" using dlist_invD(2) [OF inv [OF j]] by simp
    moreover have "length (ls ! j) < 2 ^ 63" using len [OF j] total by simp
    ultimately show ?thesis by (simp add: signed_of_nat signed_take_bit_int_eq_self)
  qed
  have em: "list_is_empty (ms_list b ! j) \<longleftrightarrow> ls ! j = []" if "j < 8" for j
    using is_dlist_head_iff [OF dlist_invD(1) [OF inv [OF that]]] by (simp add: list_is_empty_def)
  have get: "ms_get_list (b\<lparr>ms_held := ts\<rparr>) (int k) = Inr (ms_list b ! k)" using k L(1) by (simp add: ms_get_list_def)
  have 1: "MemSlotBaseSlotListIDSize b (int k) = Inr (b, int (length (ls ! k)))"
    using k b(1) get un sz by (simp add: MemSlotBaseSlotListIDSize_def MEMSLOT_DEFAULT_LIST_COUNT_def)
  have 2: "MemSlotBaseIsEmptyList b (int k) = Inr (b, c_bool (ls ! k = []))"
    using k b(1) get un em by (simp add: MemSlotBaseIsEmptyList_def)
  have "ms_all_empty (b\<lparr>ms_held := ts\<rparr>) [8 - int 8..7] = Inr (concat (drop (8 - 8) ls) = [])"
    by (rule ms_all_empty_upto [OF L(1) em _ L(2)]) simp_all
  then have 3: "MemSlotBaseIsEmpty b = Inr (b, c_bool (concat ls = []))"
    using b(1) un by (simp add: MemSlotBaseIsEmpty_def MEMSLOT_DEFAULT_LIST_COUNT_def)
  have 4: "MemSlotBaseSlotListSizeAll b = (if ts then Inl SelfDeadlock else Inr (b, int (length (concat ls))))"
  proof (cases ts)
    case True
    have "[0..MEMSLOT_DEFAULT_LIST_COUNT - 1] = 0 # [1..7]"
      unfolding MEMSLOT_DEFAULT_LIST_COUNT_def using upto_rec1 [of 0 7] by simp
    moreover have "MemSlotBaseSlotListIDSize (b\<lparr>ms_held := ts\<rparr>) 0 = Inl SelfDeadlock"
      using True b(2) by (simp add: MemSlotBaseSlotListIDSize_def MEMSLOT_DEFAULT_LIST_COUNT_def ms_lock_def MemSlotBaseLock_def mutex_lock_def)
    ultimately show ?thesis using b(1) True by (simp add: MemSlotBaseSlotListSizeAll_def)
  next
    case False
    have e: "b\<lparr>ms_held := ts\<rparr> = b" using False b(3) by simp
    show ?thesis
      using ms_for_sizes [of b ls 8] total b(1-3) [unfolded e] False L sz un [unfolded e] by (simp add: MemSlotBaseSlotListSizeAll_def MEMSLOT_DEFAULT_LIST_COUNT_def)
  qed
  show ?thesis using 1 2 3 4 by blast
qed


lemma sq_free_grab:
  assumes "sq_inv n False q out" "i \<in> out" "SlotQueueFree q i = Inr q'"
  shows "\<exists>q''. SlotQueueGrab q' = Inr (q'', i)"
proof -
  have m: "\<not> sq_mapped q" "0 \<le> sq_index q" using assms(1) by (simp_all add: sq_inv_def)
  obtain arena where a: "arr_set (sq_arena q) (sq_index q) i = Inr arena" "q' = q\<lparr>sq_arena := arena, sq_index := sq_index q + 1\<rparr>"
    using assms(3) m(1) by (auto simp: SlotQueueFree_def and_then_eq_Inr)
  then have "arr_get arena (sq_index q) = Inr i" by (auto simp: arr_set_def arr_get_def split: if_splits)
  then show ?thesis using a(2) m by (simp add: SlotQueueGrab_def)
qed

text \<open>
  A popped object is reused at once. \<open>MemSlotBaseSlotPopHead\<close> returns the data of the head after it has given
  its slot back to the queue, and without releasing it in the arena; the next object taken is the same
  memory, so the caller of the pop may not use the pointer once the base is unlocked.
\<close>

theorem memslot_pop_reuse:
  assumes run: "ms_run n sz ts (mem, b) ls" and new: "ms_fresh mem b new" and k: "k < 8" "ls ! k = i # is"
  shows "and_then (MemSlotBaseSlotPopHead mem b (int k)) (\<lambda>(mem, b, p).
    and_then (MemSlotBaseSlotGrab junk new mem b) (\<lambda>(mem, b, p'). Inr (p, p' = p))) =
    and_then (MemSlotBaseSlotPointToHead mem b (int k)) (\<lambda>(b, p). Inr (p, True))"
proof -
  have inv: "ms_inv n ts mem b ls" using ms_run_inv [OF run] by simp
  then obtain a res where b: "ms_lock b = Inr (b\<lparr>ms_held := ts\<rparr>)" "ms_thread_safe b = ts" "\<not> ms_held b"
    "sq_inv n False (ms_slots b) (set (concat ls))" "ms_arena b = Some a" "ms_core mem a (ms_list b) ls res res" "ms_curs mem a ls"
    using ms_invE by metis
  note c = ms_coreD [OF b(6)]
  note e = ms_list_ends [OF b(6) k(1)]
  have kl: "k < length ls" using k(1) c(4) by simp
  define b1 where "b1 = b\<lparr>ms_held := ts\<rparr>"
  have l: "ms_get_list b1 (int k) = Inr (ms_list b ! k)" "ms_put_list b1 (int k) l' = Inr (b1\<lparr>ms_list := (ms_list b)[k := l']\<rparr>)" for l'
    using e(1) by (simp_all add: ms_get_list_def ms_put_list_def b1_def)
  obtain h' l' where p: "DLinkedListPopHead (ms_nodes mem) (ms_list b ! k) = Inr (h', l', dn_data (the (ms_nodes mem (ms_node a i))))"
    "ms_lists h' ((ms_list b)[k := l']) (ms_node a) (ls[k := is])" "dview h' = dview (ms_nodes mem)"
    using ms_lists_pop(1) [OF c(7) kl k(2)] by blast
  have "distinct (ls ! k)" using ms_core_distinct [OF b(6)] kl by (simp add: distinct_concat_iff)
  then have "set (ls ! k) = insert i (set is)" "i \<notin> set is" using k(2) by simp_all
  note r = ms_pop_lists [OF b(6,7) k(1) p(2,3) this]
  define b2 where "b2 = b1\<lparr>ms_list := (ms_list b)[k := l']\<rparr>"
  have core2: "ms_core (mem\<lparr>ms_nodes := h'\<rparr>) a (ms_list b2) (ls[k := is]) res res" using r(1) by (simp add: b2_def)
  have b2: "ms_arena b2 = Some a" "ms_held b2 = ts" "ms_thread_safe b2 = ts" "ms_slots b2 = ms_slots b" using b(2,5) by (simp_all add: b2_def b1_def)
  have sq: "sq_inv n False (ms_slots b2) (insert i (set (concat (ls[k := is]))))" using b(4) b2(4) unfolding r(3) by simp
  obtain q where q: "SlotQueueFree (ms_slots b2) i = Inr q"
    "ms_popped (mem\<lparr>ms_nodes := h'\<rparr>) b2 (ma_loc a i) = Inr (mem\<lparr>ms_nodes := h'\<rparr>, ms_unlock (b2\<lparr>ms_slots := q\<rparr>), MemSlotBaseSlotData (ma_loc a i))"
    "ms_inv n ts (mem\<lparr>ms_nodes := h'\<rparr>) (ms_unlock (b2\<lparr>ms_slots := q\<rparr>)) (ls[k := is])"
    using ms_popped_spec [OF core2 r(2) b2(1-3) sq r(4,5) ms_inv_lim [OF inv]] by blast
  define b3 where "b3 = ms_unlock (b2\<lparr>ms_slots := q\<rparr>)"
  have b3: "ms_arena b3 = Some a" "ms_list b3 = ms_list b2" "ms_slots b3 = q" "ms_thread_safe b3 = ts" "\<not> ms_held b3"
    using b2 by (simp_all add: b3_def ms_unlock_locked)
  have pop: "MemSlotBaseSlotPopHead mem b (int k) = Inr (mem\<lparr>ms_nodes := h'\<rparr>, b3, MemSlotBaseSlotData (ma_loc a i))"
    using b(1) l p(1) q(2) e(4) [of i] k(2) by (simp add: MemSlotBaseSlotPopHead_def b3_def flip: b1_def) (simp flip: b2_def)
  have sq3: "sq_inv n False (ms_slots b3) (set (concat (ls[k := is])))" using q(3) by (simp add: ms_inv_def b3_def)
  obtain q' where g: "SlotQueueGrab (ms_slots b3) = Inr (q', i)" using sq_free_grab [OF sq _ q(1)] b3(3) by auto
  have notall: "set (concat (ls[k := is])) \<noteq> {0..<n}"
    using r(4) sq_int [OF b(4), of i] unfolding r(3) by (metis atLeastLessThan_iff insertI1)
  have g2: "i \<in> {0..<n} - set (concat (ls[k := is]))" "sq_inv n False q' (insert i (set (concat (ls[k := is]))))"
    using sq_grab_step [OF sq3 notall] g by auto
  have lock3: "ms_lock b3 = Inr (b3\<lparr>ms_held := ts\<rparr>)" using b3(4,5) ms_lock_free by simp
  have core3: "ms_core (mem\<lparr>ms_nodes := h'\<rparr>) a (ms_list b3) (ls[k := is]) res res" using core2 b3(2) by simp
  have new3: "ms_fresh (mem\<lparr>ms_nodes := h'\<rparr>) b3 new" using new b(5) b3(1) by (simp add: ms_fresh_def)
  obtain mem' b' a' where "MemSlotBaseSlotGrab junk new (mem\<lparr>ms_nodes := h'\<rparr>) b3 = Inr (mem', b', MemSlotBaseSlotData (ma_loc a' i))"
    "ma_loc a' i = ma_loc a i"
    using ms_grab_some [OF lock3 b3(4,1) core3 r(2) new3 ms_inv_lim [OF inv] g g2] r(5) by metis
  moreover have "ms_node a i \<noteq> NULL" by (simp add: ms_node_def)
  then have "and_then (MemSlotBaseSlotPointToHead mem b (int k)) (\<lambda>(b, p). Inr (p, True)) = Inr (MemSlotBaseSlotData (ma_loc a i), True)"
    using b(1) l e(2) e(4) [of i] k(2) by (simp add: MemSlotBaseSlotPointToHead_def flip: b1_def)
  ultimately show ?thesis using pop by simp
qed

section \<open>Examples\<close>

lemma ms_fresh_exists:
  assumes "ms_run n sz ts (mem, b) ls"
  shows "\<exists>new. ms_fresh mem b new"
proof -
  obtain a res where a: "ms_arena b = Some a" "ma_inv (ms_am mem) a res (\<lambda>_. 0)"
    using ms_run_inv [OF assms] ms_coreD(1) unfolding ms_inv_def by (metis fst_conv snd_conv)
  have "finite (dom (am_blocks (ms_am mem)))"
    using a(2) finite_subset [of _ "{0..<ma_capacity a}"] by (auto simp: ma_inv_def ma_core_def ma_table_def)
  then obtain u where u: "\<forall>b \<in> dom (am_blocks (ms_am mem)). b \<le> u" using finite_nat_set_iff_bounded_le by blast
  have "apart (ma_extent a) (Suc (u + ma_extent a)) b" if "b \<in> dom (am_blocks (ms_am mem))" for b
    using u that by (auto simp: apart_def intro: trans_le_add1 le_SucI dest: bspec)
  then have "ma_fresh (ms_am mem) a (Suc (u + ma_extent a))" by (simp add: ma_fresh_def)
  then show ?thesis using a(1) by (auto simp: ms_fresh_def)
qed

lemma ex_ms_run: "\<exists>mem b. ms_run 2 8 True (mem, b) [[0], [], [], [], [], [], [], []]"
proof -
  obtain b where "MemSlotBaseInit zero_base 8 2 True = Inr (b, 1)" using ms_init_inv [of 2 8 True] by auto
  then have run: "ms_run 2 8 True (empty_mem, b) (replicate 8 [])" by (intro ms_run.init) simp_all
  obtain new where new: "ms_fresh empty_mem b new" using ms_fresh_exists [OF run] by blast
  have i: "ms_inv 2 True empty_mem b (replicate 8 [])" using ms_run_inv [OF run] by simp
  have pre: "as_pre SGrab (replicate 8 [])" by simp
  obtain mem' b' r ls' where s: "ms_step NULL new SGrab empty_mem b = Inr (mem', b', r)" "as_ok 2 SGrab (replicate 8 []) r ls'"
    using ms_sim_all [OF i new pre] unfolding ms_sim_def by blast
  have n: "{} \<noteq> {0..<2 :: int}" by (metis atLeastLessThan_iff empty_iff order_refl zero_less_numeral)
  have run2: "ms_run 2 8 True (mem', b') ls'" by (rule ms_run.step [OF run new pre s])
  have ls: "r \<in> {0..<2}" "ls' = put_end True 0 r (replicate 8 [])" using s(2) n by auto
  have l8: "put_end True 0 x (replicate 8 []) = [[x], [], [], [], [], [], [], []]" for x
    by (simp add: put_end_def numeral_eq_Suc)
  have "r = 0 \<or> r = 1" using ls(1) by auto
  then show ?thesis
  proof
    assume "r = 0"
    then show ?thesis using run2 ls(2) l8 by auto
  next
    assume r: "r = 1"
    have run2: "ms_run 2 8 True (mem', b') [[1], [], [], [], [], [], [], []]" using run2 ls(2) l8 r by simp
    obtain new where new: "ms_fresh mem' b' new" using ms_fresh_exists [OF run2] by blast
    have i: "ms_inv 2 True mem' b' [[1], [], [], [], [], [], [], []]" using ms_run_inv [OF run2] by simp
    have "as_pre SGrab [[1], [], [], [], [], [], [], []]" by simp
    then obtain mem2 b2 r2 ls2 where t: "ms_step NULL new SGrab mem' b' = Inr (mem2, b2, r2)" "as_ok 2 SGrab [[1], [], [], [], [], [], [], []] r2 ls2"
      using ms_sim_all [OF i new] unfolding ms_sim_def by blast
    have run3: "ms_run 2 8 True (mem2, b2) ls2" by (rule ms_run.step [OF run2 new _ t]) simp
    have n: "{1} \<noteq> {0..<2 :: int}" by (metis atLeastLessThan_iff order_refl singletonD zero_less_numeral zero_neq_one)
    have r2: "r2 \<in> {0..<2} - {1}" "ls2 = [[1, r2], [], [], [], [], [], [], []]" using t(2) n by (auto simp: put_end_def)
    then have "0 \<le> r2" "r2 < 2" "r2 \<noteq> 1" by simp_all
    then have "r2 = 0" by linarith
    then have run3: "ms_run 2 8 True (mem2, b2) [[1, 0], [], [], [], [], [], [], []]" using run3 r2(2) by simp
    obtain new where new: "ms_fresh mem2 b2 new" using ms_fresh_exists [OF run3] by blast
    have i: "ms_inv 2 True mem2 b2 [[1, 0], [], [], [], [], [], [], []]" using ms_run_inv [OF run3] by simp
    have pre: "as_pre (SPopHead 0) [[1, 0], [], [], [], [], [], [], []]" by simp
    then obtain mem3 b3 r3 ls3 where u: "ms_step NULL new (SPopHead 0) mem2 b2 = Inr (mem3, b3, r3)"
      "as_ok 2 (SPopHead 0) [[1, 0], [], [], [], [], [], [], []] r3 ls3"
      using ms_sim_all [OF i new] unfolding ms_sim_def by blast
    have "ms_run 2 8 True (mem3, b3) ls3" by (rule ms_run.step [OF run3 new pre u])
    then show ?thesis using u(2) by auto
  qed
qed

theorem memslot_refines_witness:
  "\<exists>mem b new. (\<exists>mem' b'. ms_step NULL new SGrab mem b = Inr (mem', b', 1) \<and> ms_run 2 8 True (mem', b') [[0, 1], [], [], [], [], [], [], []]) \<and>
    (\<exists>mem' b'. ms_step NULL new (SSwitch 0 3) mem b = Inr (mem', b', 1) \<and> ms_run 2 8 True (mem', b') [[], [], [], [0], [], [], [], []])"
proof -
  obtain mem b where run: "ms_run 2 8 True (mem, b) [[0], [], [], [], [], [], [], []]" using ex_ms_run by blast
  obtain new where new: "ms_fresh mem b new" using ms_fresh_exists [OF run] by blast
  have n: "{0} \<noteq> {0..<2 :: int}" by (metis atLeastLessThan_iff one_less_numeral_iff semiring_norm(76) singletonD zero_le_one zero_neq_one)
  obtain mem1 b1 r1 ls1 where g: "ms_step NULL new SGrab mem b = Inr (mem1, b1, r1)" "as_ok 2 SGrab [[0], [], [], [], [], [], [], []] r1 ls1"
    "ms_run 2 8 True (mem1, b1) ls1"
    using memslot_refines [OF run new, of SGrab NULL] by auto
  have "r1 = 1" "ls1 = [[0, 1], [], [], [], [], [], [], []]" using g(2) n by (auto simp: put_end_def)
  then have 1: "\<exists>mem' b'. ms_step NULL new SGrab mem b = Inr (mem', b', 1) \<and> ms_run 2 8 True (mem', b') [[0, 1], [], [], [], [], [], [], []]"
    using g by auto
  obtain mem2 b2 r2 ls2 where h: "ms_step NULL new (SSwitch 0 3) mem b = Inr (mem2, b2, r2)" "as_ok 2 (SSwitch 0 3) [[0], [], [], [], [], [], [], []] r2 ls2"
    "ms_run 2 8 True (mem2, b2) ls2"
    using memslot_refines [OF run new, of "SSwitch 0 3" NULL] by auto
  have "r2 = 1" "ls2 = [[], [], [], [0], [], [], [], []]" using h(2) by (auto simp: put_end_def numeral_eq_Suc)
  then have "\<exists>mem' b'. ms_step NULL new (SSwitch 0 3) mem b = Inr (mem', b', 1) \<and> ms_run 2 8 True (mem', b') [[], [], [], [0], [], [], [], []]"
    using h(1,3) by auto
  then show ?thesis using 1 by blast
qed

theorem memslot_counts_witness:
  "\<exists>mem b. ms_run 2 8 True (mem, b) [[0], [], [], [], [], [], [], []] \<and> MemSlotBaseSlotListIDSize b (int 0) = Inr (b, 1) \<and>
    MemSlotBaseIsEmpty b = Inr (b, 0) \<and> MemSlotBaseSlotListSizeAll b = Inl SelfDeadlock"
proof -
  obtain mem b where run: "ms_run 2 8 True (mem, b) [[0], [], [], [], [], [], [], []]" using ex_ms_run by blast
  then show ?thesis using memslot_counts [OF run, of 0] by (intro exI [of _ mem] exI [of _ b]) simp
qed

theorem memslot_pop_reuse_witness:
  "\<exists>mem b new p. and_then (MemSlotBaseSlotPopHead mem b (int 0)) (\<lambda>(mem, b, p).
    and_then (MemSlotBaseSlotGrab NULL new mem b) (\<lambda>(mem, b, p'). Inr (p, p' = p))) = Inr (p, True)"
proof -
  obtain mem b where run: "ms_run 2 8 True (mem, b) [[0], [], [], [], [], [], [], []]" using ex_ms_run by blast
  obtain new where new: "ms_fresh mem b new" using ms_fresh_exists [OF run] by blast
  have i: "ms_inv 2 True mem b [[0], [], [], [], [], [], [], []]" using ms_run_inv [OF run] by simp
  have pre: "as_pre (SPeekHead 0) [[0], [], [], [], [], [], [], []]" by simp
  obtain b' p where "MemSlotBaseSlotPointToHead mem b (int 0) = Inr (b', p)"
    using ms_sim_all [OF i new pre, of NULL] unfolding ms_sim_def
    by (auto simp: with_id_def with_mem_def and_then_eq_Inr)
  then show ?thesis using memslot_pop_reuse [OF run new, of 0 0 "[]" NULL] by auto
qed

end
