(* ===== verification/LinkedList.thy ===== *)
theory LinkedList
  imports BrbPrelude
begin

text \<open>
  The singly linked list of libbrb_core/data/core/linked_list.c. A list is a pointer to its first node. The
  loops follow \<open>next\<close> without a bound, so they are partial functions: a run that does not end has the
  value \<open>None\<close>, a run that ends has the result of the last statement, a fault or a value. Memory is
  allocated by a function of the heap, the allocator, which the theorems take to return a new address. The
  counter of \<open>LinkedListGetSize\<close> is an \<open>int\<close> that wraps around, as on the machines the code is built for; what is
  proved of it for lists of fewer than 2 ^ 31 elements does not depend on that.
\<close>

section \<open>Computations that may not end\<close>

definition obind :: "'a result option \<Rightarrow> ('a \<Rightarrow> 'b result option) \<Rightarrow> 'b result option" where
  "obind m f = Option.bind m (\<lambda>r. case r of Inl e \<Rightarrow> Some (Inl e) | Inr x \<Rightarrow> f x)"

lemma obind_simps [simp]:
  "obind None f = None" "obind (Some (Inl e)) f = Some (Inl e)" "obind (Some (Inr x)) f = f x"
  by (simp_all add: obind_def)

lemma obind_eq_Inr: "obind m f = Some (Inr y) \<longleftrightarrow> (\<exists>x. m = Some (Inr x) \<and> f x = Some (Inr y))"
proof (cases m)
  case (Some r)
  then show ?thesis by (cases r) (simp_all add: obind_def)
qed (simp add: obind_def)

lemma obind_mono [partial_function_mono]:
  assumes "mono_option B" "\<And>x. mono_option (C x)"
  shows "mono_option (\<lambda>f. obind (B f) (\<lambda>x. C x f))"
  unfolding obind_def
proof (rule bind_mono [OF assms(1)])
  fix r
  show "mono_option (\<lambda>f. case r of Inl e \<Rightarrow> Some (Inl e) | Inr x \<Rightarrow> C x f)"
    using assms(2) by (cases r) (simp_all add: option.const_mono)
qed

section \<open>Nodes\<close>

record lnode =
  ln_data :: addr
  ln_next :: addr

type_synonym lheap = "addr \<rightharpoonup> lnode"

type_synonym allocator = "lheap \<Rightarrow> addr"

definition ll_load :: "lheap \<Rightarrow> addr \<Rightarrow> lnode result option" where
  "ll_load h p = Some (if p = NULL then Inl NullDeref else case h p of None \<Rightarrow> Inl BadPtr | Some n \<Rightarrow> Inr n)"

definition ll_next :: "lheap \<Rightarrow> addr \<Rightarrow> addr result option" where
  "ll_next h p = obind (ll_load h p) (\<lambda>n. Some (Inr (ln_next n)))"

definition ll_data :: "lheap \<Rightarrow> addr \<Rightarrow> addr result option" where
  "ll_data h p = obind (ll_load h p) (\<lambda>n. Some (Inr (ln_data n)))"

definition ll_set_next :: "lheap \<Rightarrow> addr \<Rightarrow> addr \<Rightarrow> lheap result option" where
  "ll_set_next h p v = obind (ll_load h p) (\<lambda>n. Some (Inr (h(p \<mapsto> n\<lparr>ln_next := v\<rparr>))))"

definition ll_set_data :: "lheap \<Rightarrow> addr \<Rightarrow> addr \<Rightarrow> lheap result option" where
  "ll_set_data h p v = obind (ll_load h p) (\<lambda>n. Some (Inr (h(p \<mapsto> n\<lparr>ln_data := v\<rparr>))))"

definition ll_free :: "lheap \<Rightarrow> addr \<Rightarrow> lheap" where
  "ll_free h p = h(p := None)"

section \<open>Operations\<close>

definition LinkedListNew :: "allocator \<Rightarrow> lheap \<Rightarrow> lheap \<times> addr" where
  "LinkedListNew al h = (let p = al h in if p = NULL then (h, NULL)
     else (h(p \<mapsto> \<lparr>ln_data = NULL, ln_next = NULL\<rparr>), p))"

definition LinkedListGetData :: "lheap \<Rightarrow> addr \<Rightarrow> addr result option" where
  "LinkedListGetData h elem = (if elem = NULL then Some (Inr NULL) else ll_data h elem)"

definition LinkedListHasNext :: "lheap \<Rightarrow> addr \<Rightarrow> int result option" where
  "LinkedListHasNext h list = (if list = NULL then Some (Inr 0) else obind (ll_next h list) (\<lambda>nx. Some (Inr (c_bool (nx \<noteq> NULL)))))"

definition LinkedListNext :: "lheap \<Rightarrow> addr \<Rightarrow> addr result option" where
  "LinkedListNext h elem = (if elem = NULL then Some (Inr NULL) else ll_next h elem)"

text \<open>\<open>while (aux->next) aux = aux->next\<close>\<close>

partial_function (option) ll_last :: "lheap \<Rightarrow> addr \<Rightarrow> addr result option" where
  "ll_last h aux = obind (ll_next h aux) (\<lambda>nx. if nx \<noteq> NULL then ll_last h nx else Some (Inr aux))"

definition LinkedListInsertTail :: "allocator \<Rightarrow> lheap \<Rightarrow> addr \<Rightarrow> addr \<Rightarrow> (lheap \<times> addr) result option" where
  "LinkedListInsertTail al h list d =
     (let (h, elem) = LinkedListNew al h in
      if elem = NULL then Some (Inr (h, list))
      else obind (ll_set_data h elem d) (\<lambda>h.
        if list = NULL then Some (Inr (h, elem))
        else obind (ll_last h list) (\<lambda>aux.
          obind (ll_set_next h aux elem) (\<lambda>h. Some (Inr (h, list))))))"

definition LinkedListInsertHead :: "allocator \<Rightarrow> lheap \<Rightarrow> addr \<Rightarrow> addr \<Rightarrow> (lheap \<times> addr) result option" where
  "LinkedListInsertHead al h list d =
     (let (h, elem) = LinkedListNew al h in
      obind (ll_set_data h elem d) (\<lambda>h. obind (ll_set_next h elem list) (\<lambda>h. Some (Inr (h, elem)))))"

text \<open>The search loop of \<open>LinkedListRemove\<close>: the node found and the one before it.\<close>

partial_function (option) ll_find :: "(addr \<Rightarrow> addr \<Rightarrow> int) \<Rightarrow> lheap \<Rightarrow> addr \<Rightarrow> addr \<Rightarrow> addr \<Rightarrow> (addr \<times> addr) result option" where
  "ll_find eq h d behind aux = (if aux = NULL then Some (Inr (behind, aux))
     else obind (ll_data h aux) (\<lambda>x. if eq d x \<noteq> 0 then Some (Inr (behind, aux))
       else obind (ll_next h aux) (\<lambda>nx. ll_find eq h d aux nx)))"

definition LinkedListRemove :: "(addr \<Rightarrow> addr \<Rightarrow> int) \<Rightarrow> lheap \<Rightarrow> addr \<Rightarrow> addr \<Rightarrow> (lheap \<times> addr) result option" where
  "LinkedListRemove eq h list d = (if list = NULL then Some (Inr (h, NULL))
     else obind (ll_find eq h d NULL list) (\<lambda>(behind, aux).
       if aux \<noteq> NULL then
         if behind \<noteq> NULL then
           obind (ll_next h aux) (\<lambda>nx. obind (ll_set_next h behind nx) (\<lambda>h. Some (Inr (ll_free h aux, list))))
         else obind (ll_next h aux) (\<lambda>tmpPtr. Some (Inr (ll_free h aux, tmpPtr)))
       else Some (Inr (h, list))))"

partial_function (option) LinkedListExist :: "(addr \<Rightarrow> addr \<Rightarrow> int) \<Rightarrow> lheap \<Rightarrow> addr \<Rightarrow> addr \<Rightarrow> int result option" where
  "LinkedListExist eq h aux d = (if aux = NULL then Some (Inr 0)
     else obind (LinkedListGetData h aux) (\<lambda>x. if eq x d \<noteq> 0 then Some (Inr 1)
       else obind (LinkedListNext h aux) (\<lambda>nx. LinkedListExist eq h nx d)))"

partial_function (option) ll_count :: "lheap \<Rightarrow> addr \<Rightarrow> int \<Rightarrow> int result option" where
  "ll_count h aux n = (if aux = NULL then Some (Inr n) else obind (ll_next h aux) (\<lambda>nx. ll_count h nx (c_int (n + 1))))"

definition LinkedListGetSize :: "lheap \<Rightarrow> addr \<Rightarrow> int result option" where
  "LinkedListGetSize h list = ll_count h list 0"

definition LinkedListMerge :: "lheap \<Rightarrow> addr \<Rightarrow> addr \<Rightarrow> (lheap \<times> addr) result option" where
  "LinkedListMerge h head tail = (if head = NULL then Some (Inr (h, tail))
     else obind (ll_last h head) (\<lambda>aux. obind (ll_set_next h aux tail) (\<lambda>h. Some (Inr (h, head)))))"

partial_function (option) LinkedListDestroy :: "lheap \<Rightarrow> addr \<Rightarrow> lheap result option" where
  "LinkedListDestroy h list = (if list = NULL then Some (Inr h)
     else obind (ll_next h list) (\<lambda>nx. LinkedListDestroy (ll_free h list) nx))"

definition LinkedListNodeDestroy :: "lheap \<Rightarrow> addr \<Rightarrow> lheap" where
  "LinkedListNodeDestroy h list = ll_free h list"

section \<open>Insertion sort\<close>

definition LinkedListInsertAfter :: "allocator \<Rightarrow> lheap \<Rightarrow> addr \<Rightarrow> addr \<Rightarrow> (lheap \<times> addr) result option" where
  "LinkedListInsertAfter al h lst d = (if lst = NULL then LinkedListInsertHead al h lst d
     else obind (ll_next h lst) (\<lambda>aux.
       let (h, new) = LinkedListNew al h in
       obind (ll_set_next h lst new) (\<lambda>h. obind (ll_set_next h new aux) (\<lambda>h.
       obind (ll_set_data h new d) (\<lambda>h. Some (Inr (h, lst)))))))"

text \<open>The inner loop: \<open>x\<close> is the element to ins, \<open>aux1\<close> the node before \<open>tmp\<close>.\<close>

partial_function (option) ll_sort_inner ::
  "allocator \<Rightarrow> (addr \<Rightarrow> addr \<Rightarrow> int) \<Rightarrow> int \<Rightarrow> addr \<Rightarrow> lheap \<Rightarrow> addr \<Rightarrow> addr \<Rightarrow> addr \<Rightarrow> bool \<Rightarrow> (lheap \<times> addr \<times> addr \<times> bool) result option" where
  "ll_sort_inner al f cmp x h res tmp aux1 ins =
     (if tmp = NULL \<or> ins then Some (Inr (h, res, aux1, ins))
      else obind (LinkedListGetData h tmp) (\<lambda>t.
        obind (if f x t = cmp then
            if aux1 = NULL then obind (LinkedListInsertHead al h res x) (\<lambda>(h, res). Some (Inr (h, res, True)))
            else obind (LinkedListInsertAfter al h aux1 x) (\<lambda>(h, _). Some (Inr (h, res, True)))
          else Some (Inr (h, res, ins))) (\<lambda>(h, res, ins).
        obind (ll_next h tmp) (\<lambda>nx. ll_sort_inner al f cmp x h res nx tmp ins))))"

partial_function (option) ll_sort_outer ::
  "allocator \<Rightarrow> (addr \<Rightarrow> addr \<Rightarrow> int) \<Rightarrow> int \<Rightarrow> lheap \<Rightarrow> addr \<Rightarrow> addr \<Rightarrow> (lheap \<times> addr) result option" where
  "ll_sort_outer al f cmp h res aux =
     (if aux = NULL then Some (Inr (h, res))
      else obind (LinkedListGetData h aux) (\<lambda>x.
        obind (ll_sort_inner al f cmp x h res res NULL False) (\<lambda>(h, res, aux1, ins).
        obind (if \<not> ins then obind (LinkedListInsertTail al h aux1 x) (\<lambda>(h, _). Some (Inr h)) else Some (Inr h)) (\<lambda>h.
        obind (ll_next h aux) (\<lambda>nx. ll_sort_outer al f cmp (ll_free h aux) res nx)))))"

definition LinkedListSort :: "allocator \<Rightarrow> (addr \<Rightarrow> addr \<Rightarrow> int) \<Rightarrow> lheap \<Rightarrow> addr \<Rightarrow> int \<Rightarrow> (lheap \<times> addr) result option" where
  "LinkedListSort al f h lst desc =
     (if lst = NULL then Some (Inr (h, NULL))
      else obind (LinkedListGetData h lst) (\<lambda>x.
        obind (LinkedListInsertHead al h NULL x) (\<lambda>(h, res).
        obind (ll_next h lst) (\<lambda>aux.
        ll_sort_outer al f (if desc \<noteq> 0 then - 1 else 1) (ll_free h lst) res aux))))"


section \<open>Chains\<close>

text \<open>\<open>lchain h p ps q\<close>: from \<open>p\<close> the nodes \<open>ps\<close>, each with its address and data, lead to \<open>q\<close>.\<close>

primrec lchain :: "lheap \<Rightarrow> addr \<Rightarrow> (addr \<times> addr) list \<Rightarrow> addr \<Rightarrow> bool" where
  "lchain h p [] q \<longleftrightarrow> p = q"
| "lchain h p (n # ps) q \<longleftrightarrow> p = fst n \<and> p \<noteq> NULL \<and> (\<exists>nx. h p = Some \<lparr>ln_data = snd n, ln_next = nx\<rparr> \<and> lchain h nx ps q)"

definition llist :: "lheap \<Rightarrow> addr \<Rightarrow> addr list \<Rightarrow> bool" where
  "llist h p ds \<longleftrightarrow> (\<exists>ps. lchain h p ps NULL \<and> map snd ps = ds)"

lemma lchain_append: "lchain h p (ps @ qs) r \<longleftrightarrow> (\<exists>m. lchain h p ps m \<and> lchain h m qs r)"
  by (induction ps arbitrary: p) auto

lemma lchain_frame: "lchain h p ps q \<Longrightarrow> (\<And>a. a \<in> fst ` set ps \<Longrightarrow> h' a = h a) \<Longrightarrow> lchain h' p ps q"
  by (induction ps arbitrary: p) auto

lemma lchain_upd [simp]: "a \<notin> fst ` set ps \<Longrightarrow> lchain (h(a := v)) p ps q \<longleftrightarrow> lchain h p ps q"
  by (induction ps arbitrary: p) auto

lemma lchain_dom: "lchain h p ps q \<Longrightarrow> fst ` set ps \<subseteq> dom h - {NULL}"
  by (induction ps arbitrary: p) auto

lemma lchain_NULL_unique: "lchain h p ps NULL \<Longrightarrow> lchain h p qs NULL \<Longrightarrow> ps = qs"
proof (induction ps arbitrary: p qs)
  case Nil
  then show ?case by (cases qs) auto
next
  case (Cons n ps)
  then show ?case by (cases qs) (auto simp: prod_eq_iff)
qed

lemma lchain_end_unique: "lchain h p ps m \<Longrightarrow> lchain h p ps m' \<Longrightarrow> m = m'"
  by (induction ps arbitrary: p) auto

lemma lchain_distinct: "lchain h p ps NULL \<Longrightarrow> distinct (map fst ps)"
proof (induction ps arbitrary: p)
  case (Cons n ps)
  have "fst n \<notin> set (map fst ps)"
  proof
    assume "fst n \<in> set (map fst ps)"
    then obtain as b bs where ps: "ps = as @ b # bs" "fst b = fst n" by (metis (no_types, lifting) imageE list.set_map split_list)
    obtain nx where "lchain h nx ps NULL" using Cons.prems by auto
    then have "lchain h (fst n) (b # bs) NULL" using ps by (auto simp: lchain_append)
    moreover have "lchain h (fst n) (n # ps) NULL" using Cons.prems by auto
    ultimately have "b # bs = n # ps" by (rule lchain_NULL_unique)
    then have "length (b # bs) = length (n # ps)" by simp
    then show False using ps(1) by simp
  qed
  then show ?case using Cons by auto
qed simp

lemma ll_ops [simp]:
  assumes "p \<noteq> NULL" "h p = Some n"
  shows "ll_next h p = Some (Inr (ln_next n))" "ll_data h p = Some (Inr (ln_data n))"
    "ll_set_next h p v = Some (Inr (h(p \<mapsto> n\<lparr>ln_next := v\<rparr>)))" "ll_set_data h p v = Some (Inr (h(p \<mapsto> n\<lparr>ln_data := v\<rparr>)))"
    "LinkedListGetData h p = Some (Inr (ln_data n))" "LinkedListNext h p = Some (Inr (ln_next n))"
  using assms by (simp_all add: ll_next_def ll_data_def ll_set_next_def ll_set_data_def ll_load_def LinkedListGetData_def LinkedListNext_def)

section \<open>The loops\<close>

lemma ll_last_spec: "lchain h p (ps @ [n]) NULL \<Longrightarrow> ll_last h p = Some (Inr (fst n))"
proof (induction ps arbitrary: p)
  case Nil
  then show ?case by (subst ll_last.simps) auto
next
  case (Cons m ps)
  then obtain nx where nx: "h p = Some \<lparr>ln_data = snd m, ln_next = nx\<rparr>" "p \<noteq> NULL" "lchain h nx (ps @ [n]) NULL" by auto
  then have "nx \<noteq> NULL" by (cases ps) auto
  then show ?case using nx Cons.IH [OF nx(3)] by (subst ll_last.simps) simp
qed

lemma ll_count_spec:
  "lchain h p ps NULL \<Longrightarrow> 0 \<le> k \<Longrightarrow> k + int (length ps) < 2 ^ 31 \<Longrightarrow> ll_count h p k = Some (Inr (k + int (length ps)))"
proof (induction ps arbitrary: p k)
  case (Cons m ps)
  then have "c_int (k + 1) = k + 1" by (intro c_int_in) simp_all
  then show ?case using Cons.prems Cons.IH [of _ "k + 1"] by (auto simp: ll_count.simps)
qed (simp add: ll_count.simps)

lemma ll_find_spec:
  "lchain h p ps NULL \<Longrightarrow> ll_find eq h d b p =
    (case dropWhile (\<lambda>n. eq d (snd n) = 0) ps of [] \<Rightarrow> Some (Inr (last_or b (map fst ps), NULL))
     | n # _ \<Rightarrow> Some (Inr (last_or b (map fst (takeWhile (\<lambda>n. eq d (snd n) = 0) ps)), fst n)))"
proof (induction ps arbitrary: p b)
  case Nil
  then show ?case by (subst ll_find.simps) simp
next
  case (Cons n ps)
  then obtain nx where nx: "h p = Some \<lparr>ln_data = snd n, ln_next = nx\<rparr>" "p \<noteq> NULL" "p = fst n" "lchain h nx ps NULL" by auto
  show ?case
  proof (cases "eq d (snd n) = 0")
    case True
    then show ?thesis using nx Cons.IH [OF nx(4), of p]
      by (cases "dropWhile (\<lambda>n. eq d (snd n) = 0) ps") (simp_all add: ll_find.simps [of eq h d b] last_or_Cons del: dropWhile_eq_Nil_conv)
  qed (use nx in \<open>simp add: ll_find.simps [of eq h d b]\<close>)
qed

lemma LinkedListExist_spec:
  "lchain h p ps NULL \<Longrightarrow> LinkedListExist eq h p d = Some (Inr (c_bool (\<exists>x \<in> snd ` set ps. eq x d \<noteq> 0)))"
  by (induction ps arbitrary: p) (auto simp: LinkedListExist.simps)

lemma LinkedListDestroy_spec:
  "lchain h p ps NULL \<Longrightarrow> LinkedListDestroy h p = Some (Inr (\<lambda>a. if a \<in> fst ` set ps then None else h a))"
proof (induction ps arbitrary: h p)
  case Nil
  then show ?case by (subst LinkedListDestroy.simps) simp
next
  case (Cons n ps)
  then obtain nx where nx: "h p = Some \<lparr>ln_data = snd n, ln_next = nx\<rparr>" "p \<noteq> NULL" "p = fst n" "lchain h nx ps NULL" by auto
  have "p \<notin> fst ` set ps" using lchain_distinct [OF Cons.prems] nx(3) by auto
  then have "lchain (ll_free h p) nx ps NULL" using nx(4) by (simp add: ll_free_def)
  moreover have "(\<lambda>a. if a \<in> fst ` set (n # ps) then None else h a) = (\<lambda>a. if a \<in> fst ` set ps then None else ll_free h p a)"
    using nx(3) by (auto simp: ll_free_def)
  ultimately show ?case using Cons.IH [of "ll_free h p" nx] nx(1,2)
    by (subst LinkedListDestroy.simps) simp
qed

section \<open>Allocation\<close>

definition allocates :: "allocator \<Rightarrow> bool" where
  "allocates al \<longleftrightarrow> (\<forall>h. finite (dom h) \<longrightarrow> al h \<noteq> NULL \<and> al h \<notin> dom h)"

lemma allocatesD: "allocates al \<Longrightarrow> finite (dom h) \<Longrightarrow> al h \<noteq> NULL \<and> h (al h) = None"
  by (auto simp: allocates_def)

lemma LinkedListNew_eq:
  assumes "allocates al" "finite (dom h)"
  shows "LinkedListNew al h = (h(al h \<mapsto> \<lparr>ln_data = NULL, ln_next = NULL\<rparr>), al h)"
  using allocatesD [OF assms] by (simp add: LinkedListNew_def Let_def)

lemma LinkedListInsertHead_eq:
  assumes "allocates al" "finite (dom h)"
  shows "LinkedListInsertHead al h p d = Some (Inr (h(al h \<mapsto> \<lparr>ln_data = d, ln_next = p\<rparr>), al h))"
  using allocatesD [OF assms] by (simp add: LinkedListInsertHead_def LinkedListNew_eq [OF assms])

lemma lchain_set_next:
  assumes "lchain h p (ps @ [n]) NULL"
  shows "lchain (h(fst n \<mapsto> \<lparr>ln_data = snd n, ln_next = v\<rparr>)) p (ps @ [n]) v" "h (fst n) = Some \<lparr>ln_data = snd n, ln_next = NULL\<rparr>" "fst n \<noteq> NULL"
proof -
  have d: "fst n \<notin> fst ` set ps" using lchain_distinct [OF assms] by auto
  obtain m where m: "lchain h p ps m" "m = fst n" "m \<noteq> NULL" "h m = Some \<lparr>ln_data = snd n, ln_next = NULL\<rparr>"
    using assms by (auto simp: lchain_append)
  then show "h (fst n) = Some \<lparr>ln_data = snd n, ln_next = NULL\<rparr>" "fst n \<noteq> NULL" by simp_all
  have "lchain (h(fst n \<mapsto> \<lparr>ln_data = snd n, ln_next = v\<rparr>)) p ps m" using m(1) d by simp
  then show "lchain (h(fst n \<mapsto> \<lparr>ln_data = snd n, ln_next = v\<rparr>)) p (ps @ [n]) v"
    using m by (auto simp: lchain_append)
qed

lemma LinkedListInsertTail_spec:
  assumes "allocates al" "finite (dom h)" "lchain h p ps NULL"
  shows "\<exists>h' p'. LinkedListInsertTail al h p d = Some (Inr (h', p')) \<and> lchain h' p' (ps @ [(al h, d)]) NULL \<and>
    (ps \<noteq> [] \<longrightarrow> p' = p) \<and> dom h' = insert (al h) (dom h) \<and> (\<forall>a. a \<notin> insert (al h) (fst ` set ps) \<longrightarrow> h' a = h a)"
proof -
  note al = allocatesD [OF assms(1,2)]
  have out: "al h \<notin> fst ` set ps" using lchain_dom [OF assms(3)] al by auto
  define h1 where "h1 = h(al h \<mapsto> \<lparr>ln_data = d, ln_next = NULL\<rparr>)"
  have c1: "lchain h1 p ps NULL" using assms(3) out by (simp add: h1_def)
  show ?thesis
  proof (cases ps rule: rev_cases)
    case Nil
    then have "LinkedListInsertTail al h p d = Some (Inr (h1, al h))"
      using assms(3) al by (simp add: LinkedListInsertTail_def LinkedListNew_eq [OF assms(1,2)] h1_def)
    then show ?thesis using Nil al by (auto simp: h1_def)
  next
    case (snoc qs n)
    note s = lchain_set_next(1) [OF c1 [unfolded snoc], of "al h"] lchain_set_next(2,3) [OF c1 [unfolded snoc]]
    have last: "ll_last h1 p = Some (Inr (fst n))" using ll_last_spec c1 snoc by simp
    have "p \<noteq> NULL" using assms(3) snoc by (cases qs) auto
    then have run: "LinkedListInsertTail al h p d = Some (Inr (h1(fst n \<mapsto> \<lparr>ln_data = snd n, ln_next = al h\<rparr>), p))"
      using al last s(2,3) by (simp add: LinkedListInsertTail_def LinkedListNew_eq [OF assms(1,2)] h1_def)
    have "al h \<noteq> fst n" using out snoc by auto
    then have "lchain (h1(fst n \<mapsto> \<lparr>ln_data = snd n, ln_next = al h\<rparr>)) (al h) [(al h, d)] NULL" using al by (simp add: h1_def)
    then have "lchain (h1(fst n \<mapsto> \<lparr>ln_data = snd n, ln_next = al h\<rparr>)) p (ps @ [(al h, d)]) NULL"
      using s(1) snoc lchain_append by blast
    moreover have "fst n \<in> dom h" using lchain_dom [OF assms(3)] snoc by auto
    ultimately show ?thesis using run snoc by (auto simp: h1_def)
  qed
qed


section \<open>Operations on the data\<close>

text \<open>The first element that satisfies \<open>P\<close> is taken out.\<close>

fun remove_first :: "('a \<Rightarrow> bool) \<Rightarrow> 'a list \<Rightarrow> 'a list" where
  "remove_first P [] = []"
| "remove_first P (x # xs) = (if P x then xs else x # remove_first P xs)"

lemma remove_first_split:
  "remove_first P xs = takeWhile (\<lambda>x. \<not> P x) xs @ tl (dropWhile (\<lambda>x. \<not> P x) xs)"
  by (induction xs) auto

lemma LinkedListRemove_spec:
  assumes c: "lchain h p ps NULL"
  shows "\<exists>h' p'. LinkedListRemove eq h p d = Some (Inr (h', p')) \<and> lchain h' p' (remove_first (\<lambda>n. eq d (snd n) \<noteq> 0) ps) NULL"
proof -
  define P where "P = (\<lambda>n :: addr \<times> addr. eq d (snd n) = 0)"
  define as bs where ab: "as = takeWhile P ps" "bs = dropWhile P ps"
  have ps: "ps = as @ bs" by (simp add: ab)
  have rem: "remove_first (\<lambda>n. eq d (snd n) \<noteq> 0) ps = as @ tl bs" by (simp add: remove_first_split ab P_def)
  note f = ll_find_spec [OF c, of eq d NULL, folded P_def, folded ab]
  show ?thesis
  proof (cases bs)
    case Nil
    then show ?thesis using c f rem ps by (cases "p = NULL") (auto simp: LinkedListRemove_def)
  next
    case (Cons n cs)
    obtain m nx where m: "lchain h p as m" "m = fst n" "m \<noteq> NULL" "h m = Some \<lparr>ln_data = snd n, ln_next = nx\<rparr>" "lchain h nx cs NULL"
      using c unfolding ps Cons by (auto simp: lchain_append)
    have d: "distinct (map fst (as @ n # cs))" using lchain_distinct [OF c] ps Cons by simp
    have p: "p \<noteq> NULL" using m(1,3) by (cases as) auto
    show ?thesis
    proof (cases as rule: rev_cases)
      case Nil
      then have "LinkedListRemove eq h p d = Some (Inr (ll_free h m, nx))"
        using f Cons m p by (simp add: LinkedListRemove_def)
      moreover have "lchain (ll_free h m) nx cs NULL" using m d by (simp add: ll_free_def)
      ultimately show ?thesis using rem Nil Cons by auto
    next
      case (snoc as' b)
      obtain mb where b: "lchain h p as' mb" "mb = fst b" "mb \<noteq> NULL" "h mb = Some \<lparr>ln_data = snd b, ln_next = m\<rparr>"
        using m(1) unfolding snoc by (auto simp: lchain_append)
      define h' where "h' = ll_free (h(mb \<mapsto> \<lparr>ln_data = snd b, ln_next = nx\<rparr>)) m"
      have run: "LinkedListRemove eq h p d = Some (Inr (h', p))"
        using f Cons m p b snoc by (simp add: LinkedListRemove_def h'_def)
      have "lchain h' p as' mb" using b(1,2) m(2) d snoc by (auto simp: h'_def ll_free_def)
      moreover have "lchain h' nx cs NULL" using m(2,5) b(2) d snoc by (auto simp: h'_def ll_free_def)
      moreover have "h' mb = Some \<lparr>ln_data = snd b, ln_next = nx\<rparr>" using b(2) m(2) d snoc by (auto simp: h'_def ll_free_def)
      ultimately have "lchain h' p (as' @ b # cs) NULL" using b(2,3) by (auto simp: lchain_append)
      then show ?thesis using run rem snoc Cons by auto
    qed
  qed
qed

section \<open>Insertion sort\<close>

text \<open>Before the first element \<open>t\<close> with \<open>f x t = cmp\<close>, at the end when there is none.\<close>

definition ins_by :: "('a \<Rightarrow> 'a \<Rightarrow> bool) \<Rightarrow> 'a \<Rightarrow> 'a list \<Rightarrow> 'a list" where
  "ins_by P x ys = takeWhile (\<lambda>t. \<not> P x t) ys @ x # dropWhile (\<lambda>t. \<not> P x t) ys"

lemma ll_sort_inner_done: "ll_sort_inner al f cmp x h res tmp aux1 True = Some (Inr (h, res, aux1, True))"
  by (subst ll_sort_inner.simps) simp

text \<open>The scan of the sorted list \<open>as @ bs\<close>, \<open>bs\<close> still to be looked at.\<close>

lemma ll_sort_inner_spec:
  assumes "allocates al" "finite (dom h)"
  shows "lchain h res (as @ bs) NULL \<Longrightarrow> lchain h tmp bs NULL \<Longrightarrow>
   ll_sort_inner al f cmp x h res tmp (last_or NULL (map fst as)) False =
    (case dropWhile (\<lambda>n. f x (snd n) \<noteq> cmp) bs of
       [] \<Rightarrow> Some (Inr (h, res, last_or NULL (map fst (as @ bs)), False))
     | n # _ \<Rightarrow> Some (Inr (case last_or NULL (map fst (as @ takeWhile (\<lambda>n. f x (snd n) \<noteq> cmp) bs)) of
         a \<Rightarrow> if a = NULL then (h(al h \<mapsto> \<lparr>ln_data = x, ln_next = res\<rparr>), al h, fst n, True)
           else (h(a \<mapsto> (the (h a))\<lparr>ln_next := al h\<rparr>, al h \<mapsto> \<lparr>ln_data = x, ln_next = fst n\<rparr>), res, fst n, True))))"
proof (induction bs arbitrary: tmp as)
  case Nil
  then show ?case by (subst ll_sort_inner.simps) simp
next
  case (Cons n bs)
  obtain nx where n: "tmp = fst n" "tmp \<noteq> NULL" "h tmp = Some \<lparr>ln_data = snd n, ln_next = nx\<rparr>" "lchain h nx bs NULL"
    using Cons.prems(2) by auto
  show ?case
  proof (cases "f x (snd n) = cmp")
    case False
    define as2 where "as2 = as @ [n]"
    have e: "as @ n # xs = as2 @ xs" for xs by (simp add: as2_def)
    have s: "ll_sort_inner al f cmp x h res tmp (last_or NULL (map fst as)) False =
        ll_sort_inner al f cmp x h res nx (last_or NULL (map fst as2)) False"
      using n False unfolding as2_def by (subst ll_sort_inner.simps) simp
    have t: "takeWhile (\<lambda>n. f x (snd n) \<noteq> cmp) (n # bs) = n # takeWhile (\<lambda>n. f x (snd n) \<noteq> cmp) bs"
      "dropWhile (\<lambda>n. f x (snd n) \<noteq> cmp) (n # bs) = dropWhile (\<lambda>n. f x (snd n) \<noteq> cmp) bs" using False by simp_all
    have "lchain h res (as2 @ bs) NULL" using Cons.prems(1) by (simp add: e)
    note IH = Cons.IH [OF this n(4)]
    show ?thesis unfolding s IH t e ..
  next
    case True
    note al = allocatesD [OF assms]
    have tn: "al h \<noteq> tmp" using al n(3) by auto
    show ?thesis
    proof (cases as rule: rev_cases)
      case Nil
      then show ?thesis using n True tn al
        by (subst ll_sort_inner.simps) (simp add: LinkedListInsertHead_eq [OF assms] ll_sort_inner_done)
    next
      case (snoc as' a)
      obtain m where m: "m = fst a" "m \<noteq> NULL" "h m = Some \<lparr>ln_data = snd a, ln_next = tmp\<rparr>"
        using Cons.prems(1) n(1) unfolding snoc by (auto simp: lchain_append)
      have am: "al h \<noteq> m" using al m(3) by auto
      have "m \<noteq> tmp" using lchain_distinct [OF Cons.prems(1)] snoc m(1) n(1) by simp
      have "LinkedListInsertAfter al h m x = Some (Inr (h(m \<mapsto> \<lparr>ln_data = snd a, ln_next = al h\<rparr>, al h \<mapsto> \<lparr>ln_data = x, ln_next = tmp\<rparr>), m))"
        using m am al by (simp add: LinkedListInsertAfter_def LinkedListNew_eq [OF assms] fun_upd_twist [of "al h" m])
      then show ?thesis using n True tn m snoc \<open>m \<noteq> tmp\<close>
        by (subst ll_sort_inner.simps) (simp add: ll_sort_inner_done)
    qed
  qed
qed


text \<open>One element: the result is a chain of the sorted data, and no other node is changed.\<close>

definition others_kept :: "lheap \<Rightarrow> (addr \<times> addr) list \<Rightarrow> lheap \<Rightarrow> bool" where
  "others_kept h ps h' \<longleftrightarrow> (\<forall>a \<in> dom h. a \<notin> fst ` set ps \<longrightarrow> h' a = h a)"

lemma lchain_insert_mid:
  assumes c: "lchain h p (as @ bs) NULL" and al: "new \<noteq> NULL" "h new = None" and as: "as = as' @ [a]"
  shows "lchain (h(fst a \<mapsto> (the (h (fst a)))\<lparr>ln_next := new\<rparr>, new \<mapsto> \<lparr>ln_data = x, ln_next = first_or (map fst bs) NULL\<rparr>)) p (as @ (new, x) # bs) NULL"
proof -
  obtain m nx where m: "lchain h p as' m" "m = fst a" "m \<noteq> NULL" "h m = Some \<lparr>ln_data = snd a, ln_next = nx\<rparr>" "lchain h nx bs NULL"
    using c unfolding as by (auto simp: lchain_append)
  have d: "distinct (map fst (as' @ a # bs))" using lchain_distinct [OF c] as by simp
  have out: "new \<notin> fst ` set as'" "new \<notin> fst ` set bs" "new \<noteq> fst a" using lchain_dom [OF c] al as by auto
  have nx: "nx = first_or (map fst bs) NULL" using m(5) by (cases bs) auto
  define h' where "h' = h(fst a \<mapsto> (the (h (fst a)))\<lparr>ln_next := new\<rparr>, new \<mapsto> \<lparr>ln_data = x, ln_next = nx\<rparr>)"
  have "lchain h' p as' m" "lchain h' nx bs NULL" using m d out by (simp_all add: h'_def)
  moreover have "h' m = Some \<lparr>ln_data = snd a, ln_next = new\<rparr>" "h' new = Some \<lparr>ln_data = x, ln_next = nx\<rparr>"
    using m(2,4) out by (auto simp: h'_def)
  ultimately have "lchain h' p (as' @ a # (new, x) # bs) NULL" using m(2,3) al(1) by (auto simp: lchain_append)
  then show ?thesis unfolding as h'_def nx by simp
qed

definition ll_sort_step :: "allocator \<Rightarrow> (addr \<Rightarrow> addr \<Rightarrow> int) \<Rightarrow> int \<Rightarrow> addr \<Rightarrow> lheap \<Rightarrow> addr \<Rightarrow> (lheap \<times> addr) result option" where
  "ll_sort_step al f cmp x h res =
     obind (ll_sort_inner al f cmp x h res res NULL False) (\<lambda>(h, res, aux1, ins).
     obind (if \<not> ins then obind (LinkedListInsertTail al h aux1 x) (\<lambda>(h, _). Some (Inr h)) else Some (Inr h)) (\<lambda>h.
     Some (Inr (h, res))))"

lemma ins_by_map: "map snd (takeWhile (\<lambda>n. \<not> P (snd n)) ps @ (new, x) # dropWhile (\<lambda>n. \<not> P (snd n)) ps) =
    takeWhile (\<lambda>t. \<not> P t) (map snd ps) @ x # dropWhile (\<lambda>t. \<not> P t) (map snd ps)"
  by (simp add: takeWhile_map dropWhile_map comp_def)

lemma ll_sort_step_spec:
  assumes "allocates al" "finite (dom h)" and c: "lchain h res ps NULL" and ne: "ps \<noteq> []"
  shows "\<exists>h' res' ps'. ll_sort_step al f cmp x h res = Some (Inr (h', res')) \<and> lchain h' res' ps' NULL \<and>
    map snd ps' = ins_by (\<lambda>x t. f x t = cmp) x (map snd ps) \<and> fst ` set ps' = insert (al h) (fst ` set ps) \<and>
    dom h' = insert (al h) (dom h) \<and> others_kept h ps h'"
proof -
  note al = allocatesD [OF assms(1,2)]
  define P where "P = (\<lambda>n :: addr \<times> addr. f x (snd n) \<noteq> cmp)"
  define as bs where ab: "as = takeWhile P ps" "bs = dropWhile P ps"
  have ps: "ps = as @ bs" by (simp add: ab)
  have data: "map snd (as @ (al h, x) # bs) = ins_by (\<lambda>x t. f x t = cmp) x (map snd ps)"
    using ins_by_map [of "\<lambda>t. f x t = cmp" ps "al h" x] by (simp add: ins_by_def ab P_def)
  note scan = ll_sort_inner_spec [OF assms(1,2), of res "[]" ps res f cmp x,
      unfolded append_Nil list.map(1) last_or_simps(1), OF c c, folded P_def, folded ab]
  have nin: "al h \<notin> fst ` set ps" using lchain_dom [OF c] al by auto
  show ?thesis
  proof (cases bs)
    case Nil
    then have "as = ps" using ps by simp
    obtain qs n where qs: "ps = qs @ [n]" using ne by (metis rev_exhaust)
    then obtain m where m: "lchain h res qs m" "lchain h (fst n) [n] NULL" using c by (auto simp: lchain_append)
    have s: "ll_sort_inner al f cmp x h res res NULL False = Some (Inr (h, res, fst n, False))" using scan Nil qs by simp
    obtain h' where t: "LinkedListInsertTail al h (fst n) x = Some (Inr (h', fst n))" "lchain h' (fst n) [n, (al h, x)] NULL"
      "dom h' = insert (al h) (dom h)" "\<forall>a. a \<notin> {al h, fst n} \<longrightarrow> h' a = h a"
      using LinkedListInsertTail_spec [OF assms(1,2) m(2), of x] by auto
    have fn: "fst n \<notin> fst ` set qs" using lchain_distinct [OF c] qs by auto
    have nq: "al h \<notin> fst ` set qs" using nin qs by simp
    have "h' z = h z" if "z \<in> fst ` set qs" for z
    proof -
      have "z \<noteq> al h" "z \<noteq> fst n" using that fn nq by metis+
      then show ?thesis using t(4) by simp
    qed
    then have "lchain h' res qs m" by (rule lchain_frame [OF m(1)])
    moreover have "m = fst n" using c qs m(1) by (metis lchain.simps(2) lchain_append lchain_end_unique)
    ultimately have "lchain h' res (ps @ [(al h, x)]) NULL" using t(2) qs by (auto simp: lchain_append)
    moreover have "ll_sort_step al f cmp x h res = Some (Inr (h', res))" using s t(1) by (simp add: ll_sort_step_def)
    moreover have "others_kept h ps h'"
      using t(4) al unfolding others_kept_def qs by (metis domIff image_eqI in_set_conv_decomp insertE singletonD)
    ultimately show ?thesis using t(3) data Nil \<open>as = ps\<close> by (intro exI [of _ h'] exI [of _ res] exI [of _ "ps @ [(al h, x)]"]) simp
  next
    case (Cons n cs)
    show ?thesis
    proof (cases as rule: rev_cases)
      case Nil
      have "ll_sort_step al f cmp x h res = Some (Inr (h(al h \<mapsto> \<lparr>ln_data = x, ln_next = res\<rparr>), al h))"
        using scan Cons Nil by (simp add: ll_sort_step_def)
      moreover have "lchain (h(al h \<mapsto> \<lparr>ln_data = x, ln_next = res\<rparr>)) (al h) ((al h, x) # ps) NULL" using c al nin by simp
      ultimately show ?thesis using data ps Nil al
        by (intro exI [of _ "h(al h \<mapsto> \<lparr>ln_data = x, ln_next = res\<rparr>)"] exI [of _ "al h"] exI [of _ "(al h, x) # ps"])
          (auto simp: others_kept_def)
    next
      case (snoc as' a)
      have an: "fst a \<noteq> NULL" "fst a \<in> dom h" using lchain_dom [OF c] ps snoc by auto
      define h' where "h' = h(fst a \<mapsto> (the (h (fst a)))\<lparr>ln_next := al h\<rparr>, al h \<mapsto> \<lparr>ln_data = x, ln_next = fst n\<rparr>)"
      have "ll_sort_step al f cmp x h res = Some (Inr (h', res))"
        using scan Cons snoc an by (simp add: ll_sort_step_def h'_def)
      moreover have "lchain h' res (as @ (al h, x) # bs) NULL"
        using lchain_insert_mid [OF c [unfolded ps] _ _ snoc, of "al h" x] al Cons by (simp add: h'_def)
      ultimately show ?thesis using data ps snoc an al
        by (intro exI [of _ h'] exI [of _ res] exI [of _ "as @ (al h, x) # bs"]) (auto simp: others_kept_def h'_def)
    qed
  qed
qed


text \<open>The outer loop, and the whole sort.\<close>

lemma ll_sort_outer_step:
  assumes "aux \<noteq> NULL" "h aux = Some \<lparr>ln_data = x, ln_next = nx\<rparr>"
    and "ll_sort_step al f cmp x h res = Some (Inr (h', res'))" "h' aux = h aux"
  shows "ll_sort_outer al f cmp h res aux = ll_sort_outer al f cmp (ll_free h' aux) res' nx"
proof -
  obtain h1 res1 aux1 ins where s: "ll_sort_inner al f cmp x h res res NULL False = Some (Inr (h1, res1, aux1, ins))"
    "(if \<not> ins then obind (LinkedListInsertTail al h1 aux1 x) (\<lambda>(h, _). Some (Inr h)) else Some (Inr h1)) = Some (Inr h')" "res1 = res'"
    using assms(3) unfolding ll_sort_step_def by (auto simp: obind_eq_Inr)
  then show ?thesis using assms(1,2,4) by (subst ll_sort_outer.simps) simp
qed

lemma ll_sort_outer_spec:
  assumes al: "allocates al"
  shows "finite (dom h) \<Longrightarrow> lchain h res ps NULL \<Longrightarrow> ps \<noteq> [] \<Longrightarrow> lchain h aux qs NULL \<Longrightarrow> fst ` set ps \<inter> fst ` set qs = {} \<Longrightarrow>
    \<exists>h' res' ps'. ll_sort_outer al f cmp h res aux = Some (Inr (h', res')) \<and> lchain h' res' ps' NULL \<and>
      map snd ps' = foldl (\<lambda>ys x. ins_by (\<lambda>x t. f x t = cmp) x ys) (map snd ps) (map snd qs)"
proof (induction qs arbitrary: h res ps aux)
  case Nil
  then show ?case by (subst ll_sort_outer.simps) auto
next
  case (Cons n qs)
  obtain nx where n: "aux = fst n" "aux \<noteq> NULL" "h aux = Some \<lparr>ln_data = snd n, ln_next = nx\<rparr>" "lchain h nx qs NULL"
    using Cons.prems(4) by auto
  obtain h1 res1 ps1 where s: "ll_sort_step al f cmp (snd n) h res = Some (Inr (h1, res1))" "lchain h1 res1 ps1 NULL"
    "map snd ps1 = ins_by (\<lambda>x t. f x t = cmp) (snd n) (map snd ps)" "fst ` set ps1 = insert (al h) (fst ` set ps)"
    "dom h1 = insert (al h) (dom h)" "others_kept h ps h1"
    using ll_sort_step_spec [OF al Cons.prems(1-3)] by metis
  have d: "distinct (map fst (n # qs))" using lchain_distinct [OF Cons.prems(4)] .
  have new: "al h \<notin> dom h" using allocatesD [OF al Cons.prems(1)] by auto
  have dom: "fst ` set (n # qs) \<subseteq> dom h" using lchain_dom [OF Cons.prems(4)] by auto
  have kept: "h1 z = h z" if "z \<in> fst ` set (n # qs)" for z
  proof -
    have "z \<in> dom h" using that dom by (rule rev_subsetD)
    moreover have "z \<notin> fst ` set ps" using that Cons.prems(5) by blast
    ultimately show ?thesis using s(6) unfolding others_kept_def by simp
  qed
  define h2 where "h2 = ll_free h1 aux"
  have step: "ll_sort_outer al f cmp h res aux = ll_sort_outer al f cmp h2 res1 nx"
    unfolding h2_def using n kept [of aux] by (intro ll_sort_outer_step [OF n(2,3) s(1)]) simp
  have "aux \<notin> fst ` set ps1" using s(4) new dom Cons.prems(5) n(1) by auto
  then have "lchain h2 res1 ps1 NULL" using s(2) by (simp add: h2_def ll_free_def)
  moreover have "lchain h2 nx qs NULL"
  proof (rule lchain_frame [OF n(4)])
    fix z assume z: "z \<in> fst ` set qs"
    moreover have "fst n \<notin> fst ` set qs" using d by simp
    ultimately have "z \<noteq> aux" using n(1) by metis
    then show "h2 z = h z" using kept [of z] z by (simp add: h2_def ll_free_def)
  qed
  moreover have "fst ` set ps1 \<inter> fst ` set qs = {}" using s(4) new dom Cons.prems(5) by auto
  moreover have "finite (dom h2)" using s(5) Cons.prems(1) by (simp add: h2_def ll_free_def)
  moreover have "ps1 \<noteq> []" using s(4) by auto
  ultimately show ?case using Cons.IH [of h2 res1 ps1 nx] step s(3) by auto
qed

lemma LinkedListSort_spec:
  assumes al: "allocates al" and fin: "finite (dom h)" and l: "llist h p ds"
  shows "\<exists>h' p'. LinkedListSort al f h p desc = Some (Inr (h', p')) \<and>
    llist h' p' (foldl (\<lambda>ys x. ins_by (\<lambda>x t. f x t = (if desc \<noteq> 0 then - 1 else 1)) x ys) [] ds)"
proof -
  define cmp where "cmp = (if desc \<noteq> 0 then - 1 else 1 :: int)"
  obtain qs where qs: "lchain h p qs NULL" "map snd qs = ds" using l by (auto simp: llist_def)
  show ?thesis
  proof (cases qs)
    case Nil
    then show ?thesis using qs by (auto simp: LinkedListSort_def llist_def)
  next
    case (Cons n rs)
    obtain nx where n: "p = fst n" "p \<noteq> NULL" "h p = Some \<lparr>ln_data = snd n, ln_next = nx\<rparr>" "lchain h nx rs NULL"
      using qs(1) Cons by auto
    note a = allocatesD [OF al fin]
    have d: "distinct (map fst (n # rs))" using lchain_distinct [OF qs(1)] Cons by simp
    have dom: "fst ` set (n # rs) \<subseteq> dom h" using lchain_dom [OF qs(1)] Cons by auto
    define h1 where "h1 = ll_free (h(al h \<mapsto> \<lparr>ln_data = snd n, ln_next = NULL\<rparr>)) p"
    have ap: "al h \<noteq> p" "al h \<notin> fst ` set rs" using a n(3) dom by auto
    have run: "LinkedListSort al f h p desc = ll_sort_outer al f cmp h1 (al h) nx"
      using n ap by (simp add: LinkedListSort_def LinkedListInsertHead_eq [OF al fin] h1_def cmp_def)
    have "lchain h1 (al h) [(al h, snd n)] NULL" using a ap by (simp add: h1_def ll_free_def)
    moreover have "lchain h1 nx rs NULL" using n(1,4) d ap by (simp add: h1_def ll_free_def)
    moreover have "finite (dom h1)" using fin by (simp add: h1_def ll_free_def)
    moreover have "fst ` set [(al h, snd n)] \<inter> fst ` set rs = {}" using ap by simp
    ultimately obtain h' res' ps' where o: "ll_sort_outer al f cmp h1 (al h) nx = Some (Inr (h', res'))" "lchain h' res' ps' NULL"
      "map snd ps' = foldl (\<lambda>ys x. ins_by (\<lambda>x t. f x t = cmp) x ys) [snd n] (map snd rs)"
      using ll_sort_outer_spec [OF al, of h1 "al h" "[(al h, snd n)]" nx rs f cmp] by auto
    then show ?thesis using run qs(2) Cons by (auto simp: llist_def ins_by_def cmp_def)
  qed
qed


section \<open>Cycles\<close>

text \<open>A set of nodes that the links do not leave.\<close>

definition ll_closed :: "lheap \<Rightarrow> addr set \<Rightarrow> bool" where
  "ll_closed h S \<longleftrightarrow> (\<forall>a \<in> S. a \<noteq> NULL \<and> (\<exists>n. h a = Some n \<and> ln_next n \<in> S))"

lemma ll_closedD: "ll_closed h S \<Longrightarrow> a \<in> S \<Longrightarrow> \<exists>n. a \<noteq> NULL \<and> h a = Some n \<and> ln_next n \<in> S"
  by (auto simp: ll_closed_def)

lemma ll_count_cycle_aux:
  assumes "ll_count h a k = Some y"
  shows "ll_closed h S \<longrightarrow> a \<notin> S"
proof (rule ll_count.raw_induct [OF _ assms])
  fix count h aux n y
  assume IH: "\<And>h aux n y. count h aux n = Some y \<Longrightarrow> ll_closed h S \<longrightarrow> aux \<notin> S"
    and run: "(if aux = NULL then Some (Inr n) else obind (ll_next h aux) (\<lambda>nx. count h nx (c_int (n + 1)))) = Some y"
  show "ll_closed h S \<longrightarrow> aux \<notin> S"
  proof (intro impI notI)
    assume c: "ll_closed h S" and a: "aux \<in> S"
    then obtain m where m: "aux \<noteq> NULL" "h aux = Some m" "ln_next m \<in> S" using ll_closedD by blast
    then have "count h (ln_next m) (c_int (n + 1)) = Some y" using run by simp
    then show False using IH c m(3) by blast
  qed
qed

lemma ll_count_cycle: "ll_closed h S \<Longrightarrow> a \<in> S \<Longrightarrow> ll_count h a k = None"
  using ll_count_cycle_aux by (cases "ll_count h a k") auto

lemma lchain_closed:
  assumes "lchain h p ps p" "ps \<noteq> []"
  shows "ll_closed h (fst ` set ps)" "p \<in> fst ` set ps"
proof -
  show p: "p \<in> fst ` set ps" using assms by (cases ps) auto
  have "\<exists>n. a \<noteq> NULL \<and> h a = Some n \<and> ln_next n \<in> insert q (fst ` set ps)" if "lchain h r ps q" "a \<in> fst ` set ps" for r q a
    using that
  proof (induction ps arbitrary: r)
    case (Cons m ps)
    obtain nx where nx: "r = fst m" "r \<noteq> NULL" "h r = Some \<lparr>ln_data = snd m, ln_next = nx\<rparr>" "lchain h nx ps q" using Cons.prems(1) by auto
    have "nx \<in> insert q (fst ` set ps)" using nx(4) by (cases ps) auto
    then show ?case using nx Cons.IH [OF nx(4)] Cons.prems(2) by (cases "a = r") auto
  qed simp
  from this [OF assms(1)] show "ll_closed h (fst ` set ps)" using p by (auto simp: ll_closed_def insert_absorb)
qed

lemma LinkedListDestroy_dangling:
  "lchain h p ps q \<Longrightarrow> distinct (map fst ps) \<Longrightarrow> q \<noteq> NULL \<Longrightarrow> h q = None \<or> q \<in> fst ` set ps \<Longrightarrow> LinkedListDestroy h p = Some (Inl BadPtr)"
proof (induction ps arbitrary: h p)
  case Nil
  then show ?case by (subst LinkedListDestroy.simps) (simp add: ll_next_def ll_load_def)
next
  case (Cons n ps)
  then obtain nx where nx: "h p = Some \<lparr>ln_data = snd n, ln_next = nx\<rparr>" "p \<noteq> NULL" "p = fst n" "lchain h nx ps q" by auto
  have "p \<notin> fst ` set ps" using Cons.prems(2) nx(3) by simp
  then have "lchain (ll_free h p) nx ps q" using nx(4) by (simp add: ll_free_def)
  moreover have "ll_free h p q = None \<or> q \<in> fst ` set ps" using Cons.prems(4) nx(3) by (auto simp: ll_free_def)
  ultimately have "LinkedListDestroy (ll_free h p) nx = Some (Inl BadPtr)" using Cons.IH Cons.prems(2,3) by simp
  then show ?case using nx(1,2) by (subst LinkedListDestroy.simps) simp
qed

lemma LinkedListMerge_eq:
  assumes "lchain h p (ps @ [n]) NULL"
  shows "LinkedListMerge h p q = Some (Inr (h(fst n \<mapsto> \<lparr>ln_data = snd n, ln_next = q\<rparr>), p))"
proof -
  have "p \<noteq> NULL" using assms by (cases ps) auto
  then show ?thesis using ll_last_spec [OF assms] lchain_set_next(2,3) [OF assms] by (simp add: LinkedListMerge_def)
qed

lemma LinkedListMerge_spec:
  assumes "lchain h p ps NULL" "lchain h q qs NULL" "fst ` set ps \<inter> fst ` set qs = {}"
  shows "\<exists>h' r. LinkedListMerge h p q = Some (Inr (h', r)) \<and> lchain h' r (ps @ qs) NULL"
proof (cases ps rule: rev_cases)
  case Nil
  then show ?thesis using assms by (auto simp: LinkedListMerge_def)
next
  case (snoc as n)
  define h' where "h' = h(fst n \<mapsto> \<lparr>ln_data = snd n, ln_next = q\<rparr>)"
  have "lchain h' p ps q" using lchain_set_next(1) assms(1) by (simp add: snoc h'_def)
  moreover have "lchain h' q qs NULL" using assms(2,3) snoc by (simp add: h'_def)
  ultimately show ?thesis using LinkedListMerge_eq [of h p as n q] assms(1) lchain_append snoc by (auto simp: h'_def)
qed

lemma LinkedListMerge_self:
  assumes c: "lchain h p ps NULL" and ne: "ps \<noteq> []"
  shows "\<exists>h'. LinkedListMerge h p p = Some (Inr (h', p)) \<and> lchain h' p ps p"
proof -
  obtain as n where ps: "ps = as @ [n]" using ne by (metis rev_exhaust)
  show ?thesis using LinkedListMerge_eq [of h p as n p] lchain_set_next(1) [of h p as n p] c ps by auto
qed

end
