(* ===== verification/LinkedListProps.thy ===== *)
theory LinkedListProps
  imports LinkedList "HOL-Library.Multiset"
begin

text \<open>
  What the operations of LinkedList do to the data a list holds: insertion, removal, search, size and
  destruction; the order that \<open>LinkedListSort\<close> produces; and when the loops end.
\<close>

section \<open>Sorting\<close>

lemma ins_by_cong: "(\<And>t. t \<in> set ys \<Longrightarrow> P x t \<longleftrightarrow> Q x t) \<Longrightarrow> ins_by P x ys = ins_by Q x ys"
  unfolding ins_by_def by (metis (mono_tags, lifting) dropWhile_cong takeWhile_cong)

lemma set_ins_by [simp]: "set (ins_by P x ys) = insert x (set ys)"
proof -
  have "set ys = set (takeWhile (\<lambda>t. \<not> P x t) ys) \<union> set (dropWhile (\<lambda>t. \<not> P x t) ys)"
    by (metis set_append takeWhile_dropWhile_id)
  then show ?thesis by (auto simp: ins_by_def)
qed

lemma mset_ins_by [simp]: "mset (ins_by P x ys) = add_mset x (mset ys)"
proof -
  have "mset ys = mset (takeWhile (\<lambda>t. \<not> P x t) ys) + mset (dropWhile (\<lambda>t. \<not> P x t) ys)"
    by (metis mset_append takeWhile_dropWhile_id)
  then show ?thesis by (simp add: ins_by_def)
qed

lemma dropWhile_above:
  fixes k :: "'a \<Rightarrow> int"
  assumes "sorted (map k ys)" "b \<in> set (dropWhile (\<lambda>t. \<not> c < k t) ys)"
  shows "c < k b"
  using assms by (induction ys) (auto split: if_splits)

lemma takeWhile_below: "a \<in> set (takeWhile (\<lambda>t. \<not> c < (k t :: int)) ys) \<Longrightarrow> k a \<le> c"
  by (drule set_takeWhileD) simp

lemma sorted_ins_by:
  fixes k :: "'a \<Rightarrow> int"
  assumes "sorted (map k ys)"
  shows "sorted (map k (ins_by (\<lambda>x t. k x < k t) x ys))"
proof -
  define as bs where ab: "as = takeWhile (\<lambda>t. \<not> k x < k t) ys" "bs = dropWhile (\<lambda>t. \<not> k x < k t) ys"
  have "sorted (map k (as @ bs))" using assms by (simp add: ab)
  moreover have "k a \<le> k x" if "a \<in> set as" for a using takeWhile_below that unfolding ab by fast
  moreover have "k x \<le> k b" if "b \<in> set bs" for b using dropWhile_above [OF assms, of b "k x"] that ab by simp
  ultimately show ?thesis by (simp add: ins_by_def ab [symmetric] sorted_append)
qed

lemma filter_ins_by:
  fixes k :: "'a \<Rightarrow> int"
  assumes "sorted (map k ys)"
  shows "filter (\<lambda>y. k y = c) (ins_by (\<lambda>x t. k x < k t) x ys) = filter (\<lambda>y. k y = c) (ys @ [x])"
proof -
  define as bs where ab: "as = takeWhile (\<lambda>t. \<not> k x < k t) ys" "bs = dropWhile (\<lambda>t. \<not> k x < k t) ys"
  have ys: "ys = as @ bs" by (simp add: ab)
  have "filter (\<lambda>y. k y = c) bs = []" if "c = k x"
  proof -
    have "k b \<noteq> c" if "b \<in> set bs" for b using dropWhile_above [OF assms, of b "k x"] that \<open>c = k x\<close> ab by force
    then show ?thesis by (simp add: filter_empty_conv)
  qed
  then show ?thesis unfolding ins_by_def ab [symmetric] by (subst ys) auto
qed

lemma insertion_sort_key:
  fixes k :: "'a \<Rightarrow> int"
  shows "foldl (\<lambda>ys x. ins_by (\<lambda>x t. k x < k t) x ys) [] xs = sort_key k xs"
proof -
  let ?S = "\<lambda>xs. foldl (\<lambda>ys x. ins_by (\<lambda>x t. k x < k t) x ys) [] xs"
  have inv: "sorted (map k (?S xs)) \<and> mset (?S xs) = mset xs \<and> (\<forall>c. filter (\<lambda>y. k y = c) (?S xs) = filter (\<lambda>y. k y = c) xs)"
  proof (induction xs rule: rev_induct)
    case (snoc x xs)
    then show ?case by (simp add: sorted_ins_by filter_ins_by)
  qed simp
  have "sort_key k xs = ?S xs"
    by (rule properties_for_sort_key) (use inv in \<open>auto simp: eq_commute\<close>)
  then show ?thesis by simp
qed

section \<open>Claims\<close>

text \<open>C20: on a list that holds the data \<open>map snd ps\<close>, \<open>LinkedListInsertHead\<close> and \<open>LinkedListInsertTail\<close> add
  an element at either end, \<open>LinkedListRemove\<close> takes out the first element that the comparison accepts and
  leaves the list alone when there is none, \<open>LinkedListExist\<close> is 1 when some element is accepted and 0
  otherwise, \<open>LinkedListGetSize\<close> is the length when it is below 2 ^ 31, and \<open>LinkedListDestroy\<close> releases the nodes of the list and
  no others.\<close>

theorem linked_list_functional:
  assumes "allocates al" "finite (dom h)" "lchain h p ps NULL"
  shows "(\<exists>h' p'. LinkedListInsertHead al h p d = Some (Inr (h', p')) \<and> llist h' p' (d # map snd ps)) \<and>
    (\<exists>h' p'. LinkedListInsertTail al h p d = Some (Inr (h', p')) \<and> llist h' p' (map snd ps @ [d])) \<and>
    (\<exists>h' p'. LinkedListRemove eq h p d = Some (Inr (h', p')) \<and> llist h' p' (remove_first (\<lambda>x. eq d x \<noteq> 0) (map snd ps))) \<and>
    LinkedListExist eq h p d = Some (Inr (c_bool (\<exists>x \<in> set (map snd ps). eq x d \<noteq> 0))) \<and>
    (length ps < 2 ^ 31 \<longrightarrow> LinkedListGetSize h p = Some (Inr (int (length ps)))) \<and>
    LinkedListDestroy h p = Some (Inr (\<lambda>a. if a \<in> fst ` set ps then None else h a))"
proof (intro conjI)
  note al = allocatesD [OF assms(1,2)]
  have out: "al h \<notin> fst ` set ps" using lchain_dom [OF assms(3)] al by auto
  show "\<exists>h' p'. LinkedListInsertHead al h p d = Some (Inr (h', p')) \<and> llist h' p' (d # map snd ps)"
    using assms(3) al out by (auto simp: LinkedListInsertHead_eq [OF assms(1,2)] llist_def intro!: exI [of _ "(al h, d) # ps"])
  obtain h1 p1 where "LinkedListInsertTail al h p d = Some (Inr (h1, p1))" "lchain h1 p1 (ps @ [(al h, d)]) NULL"
    using LinkedListInsertTail_spec [OF assms] by blast
  then show "\<exists>h' p'. LinkedListInsertTail al h p d = Some (Inr (h', p')) \<and> llist h' p' (map snd ps @ [d])"
    by (auto simp: llist_def intro!: exI [of _ "ps @ [(al h, d)]"])
  have m: "map snd (remove_first (\<lambda>n. eq d (snd n) \<noteq> 0) qs) = remove_first (\<lambda>x. eq d x \<noteq> 0) (map snd qs)" for qs :: "(addr \<times> addr) list"
    by (induction qs) auto
  show "\<exists>h' p'. LinkedListRemove eq h p d = Some (Inr (h', p')) \<and> llist h' p' (remove_first (\<lambda>x. eq d x \<noteq> 0) (map snd ps))"
    using LinkedListRemove_spec [OF assms(3), of eq d] m by (auto simp: llist_def)
  show "LinkedListExist eq h p d = Some (Inr (c_bool (\<exists>x \<in> set (map snd ps). eq x d \<noteq> 0)))"
    using LinkedListExist_spec [OF assms(3), of eq d] by simp
  show "length ps < 2 ^ 31 \<longrightarrow> LinkedListGetSize h p = Some (Inr (int (length ps)))"
    using ll_count_spec [OF assms(3), of 0] by (simp add: LinkedListGetSize_def)
  show "LinkedListDestroy h p = Some (Inr (\<lambda>a. if a \<in> fst ` set ps then None else h a))"
    by (rule LinkedListDestroy_spec [OF assms(3)])
qed

text \<open>An allocator and a list of three nodes.\<close>

definition bump_alloc :: allocator where
  "bump_alloc h = (if finite (dom h) then Suc (Max (insert 0 (dom h))) else NULL)"

lemma bump_alloc: "allocates bump_alloc"
proof -
  have "bump_alloc h \<notin> dom h" if "finite (dom h)" for h
  proof
    assume "bump_alloc h \<in> dom h"
    then have "bump_alloc h \<le> Max (insert 0 (dom h))" using that by (intro Max_ge) auto
    then show False using that by (simp add: bump_alloc_def)
  qed
  then show ?thesis by (auto simp: allocates_def bump_alloc_def)
qed

definition three_nodes :: lheap where
  "three_nodes = [5 \<mapsto> \<lparr>ln_data = 20, ln_next = 7\<rparr>, 7 \<mapsto> \<lparr>ln_data = 10, ln_next = 3\<rparr>, 3 \<mapsto> \<lparr>ln_data = 30, ln_next = NULL\<rparr>]"

lemma three_nodes: "lchain three_nodes 5 [(5, 20), (7, 10), (3, 30)] NULL" "finite (dom three_nodes)"
  by (simp_all add: three_nodes_def NULL_def)

lemma linked_list_functional_witness:
  "(\<exists>h' p'. LinkedListInsertTail bump_alloc three_nodes 5 40 = Some (Inr (h', p')) \<and> llist h' p' [20, 10, 30, 40]) \<and>
   (\<exists>h' p'. LinkedListRemove (\<lambda>x y. c_bool (x = y)) three_nodes 5 10 = Some (Inr (h', p')) \<and> llist h' p' [20, 30]) \<and>
   LinkedListExist (\<lambda>x y. c_bool (x = y)) three_nodes 5 10 = Some (Inr 1) \<and> LinkedListGetSize three_nodes 5 = Some (Inr 3)"
  using linked_list_functional [OF bump_alloc three_nodes(2,1), of 40 "\<lambda>x y. c_bool (x = y)"]
    linked_list_functional [OF bump_alloc three_nodes(2,1), of 10 "\<lambda>x y. c_bool (x = y)"] by simp

text \<open>C21: with a comparison that returns the sign of a difference of keys, \<open>LinkedListSort\<close> returns the list
  sorted by key: ascending when \<open>desc\<close> is not 0 and descending when it is 0, the reverse of the parameter's
  name. Elements of equal key keep their order.\<close>

theorem linked_list_sort:
  assumes "allocates al" "finite (dom h)" "llist h p ds" "\<And>x t. f x t = sgn (key x - key t)"
  shows "\<exists>h' p'. LinkedListSort al f h p desc = Some (Inr (h', p')) \<and>
    llist h' p' (sort_key (\<lambda>x. if desc \<noteq> 0 then key x else - key x) ds)"
proof -
  have "(\<lambda>x t. f x t = (if desc \<noteq> 0 then - 1 else 1)) =
      (\<lambda>x t. (if desc \<noteq> 0 then key x else - key x) < (if desc \<noteq> 0 then key t else - key t))"
    using assms(4) by (auto simp: sgn_if fun_eq_iff)
  then show ?thesis using LinkedListSort_spec [OF assms(1-3), of f desc] by (simp only: insertion_sort_key)
qed

lemma linked_list_sort_witness:
  "(\<exists>h' p'. LinkedListSort bump_alloc (\<lambda>x t. sgn (int x - int t)) three_nodes 5 0 = Some (Inr (h', p')) \<and> llist h' p' [30, 20, 10]) \<and>
   (\<exists>h' p'. LinkedListSort bump_alloc (\<lambda>x t. sgn (int x - int t)) three_nodes 5 1 = Some (Inr (h', p')) \<and> llist h' p' [10, 20, 30])"
proof -
  have l: "llist three_nodes 5 [20, 10, 30]" using three_nodes(1) unfolding llist_def by (intro exI [of _ "[(5, 20), (7, 10), (3, 30)]"]) simp
  note s = linked_list_sort [OF bump_alloc three_nodes(2) l, of "\<lambda>x t. sgn (int x - int t)" int]
  show ?thesis using s [of 0] s [of 1] by simp
qed

text \<open>C22: \<open>LinkedListMerge\<close> of two lists without common nodes returns, after a walk that ends, the
  concatenation. Merged with itself a list becomes a cycle: \<open>LinkedListGetSize\<close> never returns and
  \<open>LinkedListDestroy\<close> returns to a node it has released.\<close>

theorem linked_list_merge:
  assumes "lchain h p ps NULL" "lchain h q qs NULL" "fst ` set ps \<inter> fst ` set qs = {}" "ps \<noteq> []"
  shows "(\<exists>h' r. LinkedListMerge h p q = Some (Inr (h', r)) \<and> llist h' r (map snd ps @ map snd qs)) \<and>
    (\<exists>h'. LinkedListMerge h p p = Some (Inr (h', p)) \<and> LinkedListGetSize h' p = None \<and> LinkedListDestroy h' p = Some (Inl BadPtr))"
proof
  show "\<exists>h' r. LinkedListMerge h p q = Some (Inr (h', r)) \<and> llist h' r (map snd ps @ map snd qs)"
    using LinkedListMerge_spec [OF assms(1-3)] by (auto simp: llist_def intro!: exI [of _ "ps @ qs"])
  obtain h' where h': "LinkedListMerge h p p = Some (Inr (h', p))" "lchain h' p ps p"
    using LinkedListMerge_self [OF assms(1,4)] by blast
  have "p \<noteq> NULL" using assms(1,4) by (cases ps) auto
  then show "\<exists>h'. LinkedListMerge h p p = Some (Inr (h', p)) \<and> LinkedListGetSize h' p = None \<and> LinkedListDestroy h' p = Some (Inl BadPtr)"
    using h' ll_count_cycle [OF lchain_closed [OF h'(2) assms(4)]]
      LinkedListDestroy_dangling [OF h'(2) lchain_distinct [OF assms(1)]] lchain_closed(2) [OF h'(2) assms(4)]
    by (auto simp: LinkedListGetSize_def)
qed

lemma linked_list_merge_witness:
  "(\<exists>h' r. LinkedListMerge (three_nodes(9 \<mapsto> \<lparr>ln_data = 40, ln_next = NULL\<rparr>)) 5 9 = Some (Inr (h', r)) \<and> llist h' r [20, 10, 30, 40]) \<and>
   (\<exists>h'. LinkedListMerge (three_nodes(9 \<mapsto> \<lparr>ln_data = 40, ln_next = NULL\<rparr>)) 5 5 = Some (Inr (h', 5)) \<and> LinkedListGetSize h' 5 = None)"
proof -
  have "lchain (three_nodes(9 \<mapsto> \<lparr>ln_data = 40, ln_next = NULL\<rparr>)) 5 [(5, 20), (7, 10), (3, 30)] NULL"
    "lchain (three_nodes(9 \<mapsto> \<lparr>ln_data = 40, ln_next = NULL\<rparr>)) 9 [(9, 40)] NULL"
    using three_nodes(1) by (simp_all add: NULL_def)
  from linked_list_merge [OF this] show ?thesis by fastforce
qed

end
