(* ===== verification/DynArray.thy ===== *)
theory DynArray
  imports BrbPrelude
begin

text \<open>
  The growing array of pointers of libbrb_core/data/core/dyn_array.c. Counters keep their C width: the
  fields are \<open>unsigned int\<close>, positions are \<open>int\<close> and are converted where the code compares them. Allocations
  succeed (the code does not test them); \<open>realloc\<close> keeps the old elements and adds indeterminate ones, given
  as an argument. The user's destructor of items is a function on a state of the caller's choice.
\<close>

section \<open>Data\<close>

record 's dyn_array =
  da_thread_safe :: bool
  da_grow_rate :: "32 word"
  da_busy_flags :: "32 word"
  da_elements :: "32 word"
  da_capacity :: "32 word"
  da_held :: bool
  da_itemdestroy :: "(addr \<Rightarrow> 's \<Rightarrow> 's) option"
  da_data :: "addr list option"

definition DYNARRAY_BUSY :: nat where "DYNARRAY_BUSY = 1"

definition DYNARRAY_FREE :: nat where "DYNARRAY_FREE = 2"

text \<open>\<open>pthread_mutex_lock\<close>, and the flags set under the mutex; \<open>_DynArrayLeaveCritical\<close> sets them after it
  has released the mutex.\<close>

definition DynArrayEnterCritical :: "'s dyn_array \<Rightarrow> 's dyn_array result" where
  "DynArrayEnterCritical a = and_then (mutex_lock True (da_held a)) (\<lambda>held.
     Inr (a\<lparr>da_held := held, da_busy_flags := EBIT_SET (EBIT_CLR (da_busy_flags a) DYNARRAY_FREE) DYNARRAY_BUSY\<rparr>))"

definition DynArrayLeaveCritical :: "'s dyn_array \<Rightarrow> 's dyn_array" where
  "DynArrayLeaveCritical a = a\<lparr>da_held := mutex_unlock True (da_held a),
     da_busy_flags := EBIT_SET (EBIT_CLR (da_busy_flags a) DYNARRAY_BUSY) DYNARRAY_FREE\<rparr>"

definition da_enter :: "'s dyn_array \<Rightarrow> 's dyn_array result" where
  "da_enter a = (if da_thread_safe a then DynArrayEnterCritical a else Inr a)"

definition da_leave :: "'s dyn_array \<Rightarrow> 's dyn_array" where
  "da_leave a = (if da_thread_safe a then DynArrayLeaveCritical a else a)"

section \<open>Operations\<close>

definition DynArrayNew :: "bool \<Rightarrow> int \<Rightarrow> (addr \<Rightarrow> 's \<Rightarrow> 's) option \<Rightarrow> 's dyn_array" where
  "DynArrayNew ts grow_rate itemdestroy_func =
     \<lparr>da_thread_safe = ts, da_grow_rate = (if grow_rate = 0 then 64 else word_of_int grow_rate),
      da_busy_flags = (if ts then EBIT_SET 0 DYNARRAY_FREE else 0), da_elements = 0, da_capacity = 0,
      da_held = False, da_itemdestroy = itemdestroy_func, da_data = None\<rparr>"

definition DynArrayGetDataByPos :: "'s dyn_array \<Rightarrow> int \<Rightarrow> addr result" where
  "DynArrayGetDataByPos a pos = (case da_data a of
       None \<Rightarrow> Inr NULL
     | Some xs \<Rightarrow> if da_elements a < word_of_int pos then Inr NULL
         else and_then (arr_get xs pos) (\<lambda>x. if x = NULL then Inr NULL else arr_get xs pos))"

text \<open>\<open>DYNARRAY_FOREACH\<close> with the destructor as its body.\<close>

definition da_destroy_items :: "'s dyn_array \<Rightarrow> 's \<Rightarrow> 's result" where
  "da_destroy_items a s = (case da_itemdestroy a of
       None \<Rightarrow> Inr s
     | Some f \<Rightarrow> for_each (\<lambda>i s. and_then (DynArrayGetDataByPos a (int i)) (\<lambda>elem_ptr.
         Inr (if elem_ptr \<noteq> NULL then f elem_ptr s else s))) [0..<nat (sint (da_elements a))] s)"

definition DynArrayDestroy :: "'s dyn_array \<Rightarrow> 's \<Rightarrow> 's result" where
  "DynArrayDestroy a s = da_destroy_items a s"

text \<open>The array grows when it has no room for one more element after the new one.\<close>

definition da_grow :: "addr \<Rightarrow> 's dyn_array \<Rightarrow> 's dyn_array result" where
  "da_grow junk a =
     (if da_capacity a = 0 then
        Inr (a\<lparr>da_data := Some (replicate (unat (da_grow_rate a)) NULL), da_capacity := da_capacity a + da_grow_rate a\<rparr>)
      else if da_capacity a \<le> da_elements a + 1 then
        let xs = arr_realloc junk (case da_data a of None \<Rightarrow> [] | Some xs \<Rightarrow> xs) (uint (da_elements a + da_grow_rate a)) in
        and_then (arr_fill xs (uint (da_elements a)) (uint (da_grow_rate a)) NULL) (\<lambda>xs.
        Inr (a\<lparr>da_data := Some xs, da_capacity := da_capacity a + da_grow_rate a\<rparr>))
      else Inr a)"

definition DynArrayAdd :: "addr \<Rightarrow> 's dyn_array \<Rightarrow> addr \<Rightarrow> ('s dyn_array \<times> int) result" where
  "DynArrayAdd junk a new_data =
     and_then (da_enter a) (\<lambda>a. and_then (da_grow junk a) (\<lambda>a.
     case da_data a of
       None \<Rightarrow> Inl NullDeref
     | Some xs \<Rightarrow> and_then (arr_set xs (uint (da_elements a)) new_data) (\<lambda>xs.
         let a = da_leave (a\<lparr>da_data := Some xs, da_elements := da_elements a + 1\<rparr>) in
         Inr (a, sint (da_elements a - 1)))))"

definition DynArrayClean :: "addr \<Rightarrow> 's dyn_array \<Rightarrow> 's \<Rightarrow> ('s dyn_array \<times> 's \<times> int) result" where
  "DynArrayClean junk a s =
     (if da_capacity a = 0 then Inr (a, s, 0)
      else and_then (da_enter a) (\<lambda>a. and_then (da_destroy_items a s) (\<lambda>s.
        let a = da_leave (a\<lparr>da_elements := 0,
             da_data := Some (arr_realloc junk (case da_data a of None \<Rightarrow> [] | Some xs \<Rightarrow> xs) (uint (da_grow_rate a))),
             da_capacity := da_grow_rate a\<rparr>) in
        Inr (a, s, sint (da_capacity a)))))"

definition DynArraySetNullByPos :: "'s dyn_array \<Rightarrow> int \<Rightarrow> ('s dyn_array \<times> int) result" where
  "DynArraySetNullByPos a pos = (case da_data a of
       None \<Rightarrow> Inl NullDeref
     | Some xs \<Rightarrow> and_then (arr_get xs pos) (\<lambda>x.
         if x = NULL then Inr (a, 0)
         else and_then (da_enter a) (\<lambda>a. and_then (arr_set xs pos NULL) (\<lambda>xs.
           Inr (da_leave (a\<lparr>da_data := Some xs\<rparr>), 1)))))"

section \<open>Invariant\<close>

text \<open>
  The allocation is the capacity, or one less after the first growth. The elements are within it, and the
  capacity exceeds them by the growth rate at most.
\<close>

definition da_alloc :: "'s dyn_array \<Rightarrow> addr list" where
  "da_alloc a = (case da_data a of None \<Rightarrow> [] | Some xs \<Rightarrow> xs)"

definition da_items :: "'s dyn_array \<Rightarrow> addr list" where
  "da_items a = take (unat (da_elements a)) (da_alloc a)"

definition da_inv :: "'s dyn_array \<Rightarrow> bool" where
  "da_inv a \<longleftrightarrow> da_grow_rate a \<noteq> 0 \<and> (da_data a = None \<longleftrightarrow> da_capacity a = 0) \<and>
     unat (da_elements a) \<le> length (da_alloc a) \<and> length (da_alloc a) \<le> unat (da_capacity a) \<and>
     unat (da_capacity a) \<le> Suc (length (da_alloc a)) \<and> unat (da_capacity a) \<le> unat (da_elements a) + unat (da_grow_rate a)"


text \<open>\<open>da_is a g f ds\<close>: the array is well formed, has growth rate \<open>g\<close> and destructor \<open>f\<close>, and holds \<open>ds\<close>.\<close>

definition da_is :: "'s dyn_array \<Rightarrow> nat \<Rightarrow> (addr \<Rightarrow> 's \<Rightarrow> 's) option \<Rightarrow> addr list \<Rightarrow> bool" where
  "da_is a g f ds \<longleftrightarrow> da_inv a \<and> \<not> da_held a \<and> unat (da_grow_rate a) = g \<and> da_itemdestroy a = f \<and> da_items a = ds \<and> length ds = unat (da_elements a)"

lemma unat_word_of_int_small: "0 \<le> i \<Longrightarrow> i < 2 ^ 32 \<Longrightarrow> unat (word_of_int i :: 32 word) = nat i"
  by (simp add: uint_word_of_int flip: nat_uint_eq)

lemma DynArrayNew_is:
  assumes "0 \<le> g" "g < 2 ^ 31"
  shows "da_is (DynArrayNew ts g f) (if g = 0 then 64 else nat g) f []"
proof -
  have "unat (word_of_int g :: 32 word) = nat g" using assms by (intro unat_word_of_int_small) simp_all
  moreover from this have "(word_of_int g :: 32 word) = 0 \<longleftrightarrow> g = 0" using assms(1) by (auto simp flip: unat_eq_zero)
  ultimately show ?thesis by (simp add: DynArrayNew_def da_is_def da_inv_def da_alloc_def da_items_def)
qed

section \<open>What the operations do\<close>

lemma da_enter_leave [simp]:
  "\<not> da_held a \<Longrightarrow> \<exists>b. da_enter a = Inr (a\<lparr>da_held := da_thread_safe a, da_busy_flags := b\<rparr>)"
  by (cases a) (auto simp: da_enter_def DynArrayEnterCritical_def)

lemma da_leave_eq: "\<exists>b. da_leave a = a\<lparr>da_held := (if da_thread_safe a then False else da_held a), da_busy_flags := b\<rparr>"
  by (cases a) (auto simp: da_leave_def DynArrayLeaveCritical_def mutex_unlock_def)

text \<open>The sizes after \<open>da_grow\<close>: the allocation and the capacity.\<close>

definition da_sizes :: "nat \<Rightarrow> nat \<Rightarrow> nat \<times> nat \<Rightarrow> nat \<times> nat" where
  "da_sizes g e = (\<lambda>(n, c). if c = 0 then (g, g) else if c \<le> Suc e then (e + g, c + g) else (n, c))"

lemma set_replicate_sub [simp]: "set (replicate n x) \<subseteq> insert x A"
  by auto

lemma da_grow_spec:
  assumes "da_inv a" "unat (da_elements a) + 2 * unat (da_grow_rate a) < 2 ^ 31"
  shows "\<exists>xs c. da_grow junk a = Inr (a\<lparr>da_data := Some xs, da_capacity := c\<rparr>) \<and>
    take (unat (da_elements a)) xs = da_items a \<and>
    (length xs, unat c) = da_sizes (unat (da_grow_rate a)) (unat (da_elements a)) (length (da_alloc a), unat (da_capacity a)) \<and>
    set (drop (unat (da_elements a)) xs) \<subseteq> insert NULL (set (drop (unat (da_elements a)) (da_alloc a)))"
proof (cases "da_capacity a = 0")
  case True
  then have "da_alloc a = []" using assms(1) by (simp add: da_inv_def da_alloc_def)
  then show ?thesis using True assms(1)
    by (intro exI [of _ "replicate (unat (da_grow_rate a)) NULL"] exI [of _ "da_grow_rate a"])
      (auto simp: da_grow_def da_sizes_def da_items_def da_inv_def)
next
  case False
  then obtain xs where xs: "da_data a = Some xs" using assms(1) by (auto simp: da_inv_def)
  define E G C where "E = unat (da_elements a)" "G = unat (da_grow_rate a)" "C = unat (da_capacity a)"
  have C: "C \<noteq> 0" using False by (simp add: E_G_C_def unat_eq_zero)
  have inv: "E \<le> length xs" "length xs \<le> C" "C \<le> Suc (length xs)" "C \<le> E + G" "E + 2 * G < 2 ^ 31"
    using assms xs by (simp_all add: da_inv_def da_alloc_def E_G_C_def)
  have w: "unat (da_elements a + 1) = Suc E" "unat (da_elements a + da_grow_rate a) = E + G" "unat (da_capacity a + da_grow_rate a) = C + G"
    using inv by (simp_all add: E_G_C_def unat_add_small)
  show ?thesis
  proof (cases "C \<le> Suc E")
    case True
    then have le: "da_capacity a \<le> da_elements a + 1" using w(1) by (simp add: word_le_nat_alt E_G_C_def)
    have "arr_fill (arr_realloc junk xs (uint (da_elements a + da_grow_rate a))) (uint (da_elements a)) (uint (da_grow_rate a)) NULL =
        Inr (take E xs @ replicate G NULL)"
      using inv(1) by (simp add: arr_fill_def w(2) flip: E_G_C_def) (simp add: arr_realloc_def w(2))
    then have "da_grow junk a = Inr (a\<lparr>da_data := Some (take E xs @ replicate G NULL), da_capacity := da_capacity a + da_grow_rate a\<rparr>)"
      using False le xs by (simp add: da_grow_def)
    then show ?thesis using True C inv(1) w(3) xs
      by (intro exI [of _ "take E xs @ replicate G NULL"] exI [of _ "da_capacity a + da_grow_rate a"]) (simp_all add: da_sizes_def da_items_def da_alloc_def flip: E_G_C_def)
  next
    case less: False
    then have "\<not> da_capacity a \<le> da_elements a + 1" using w(1) by (simp add: word_le_nat_alt E_G_C_def)
    then have "da_grow junk a = Inr (a\<lparr>da_data := Some xs, da_capacity := da_capacity a\<rparr>)"
      using False xs by (cases a) (simp add: da_grow_def)
    then show ?thesis using less C xs
      by (intro exI [of _ xs] exI [of _ "da_capacity a"]) (auto simp: da_sizes_def da_items_def da_alloc_def simp flip: E_G_C_def)
  qed
qed


lemma da_isD:
  assumes "da_is a g f ds"
  shows "da_inv a" "unat (da_grow_rate a) = g" "da_itemdestroy a = f" "da_items a = ds" "length ds = unat (da_elements a)"
    "\<not> da_held a" "0 < g" "length ds \<le> length (da_alloc a)" "length (da_alloc a) \<le> unat (da_capacity a)"
    "unat (da_capacity a) \<le> Suc (length (da_alloc a))" "unat (da_capacity a) \<le> length ds + g"
  using assms by (auto simp: da_is_def da_inv_def simp flip: unat_gt_0)

lemma da_isI:
  assumes "da_data a = Some xs" "unat (da_grow_rate a) = g" "0 < g" "da_itemdestroy a = f" "\<not> da_held a"
    "take (unat (da_elements a)) xs = ds" "length ds = unat (da_elements a)" "length ds \<le> length xs"
    "length xs \<le> unat (da_capacity a)" "unat (da_capacity a) \<le> Suc (length xs)" "unat (da_capacity a) \<le> length ds + g"
    "0 < unat (da_capacity a)"
  shows "da_is a g f ds"
  using assms by (auto simp: da_is_def da_inv_def da_alloc_def da_items_def)

text \<open>\<open>DynArrayAdd\<close> appends, and the allocation and the capacity follow \<open>da_sizes\<close>.\<close>

lemma DynArrayAdd_spec:
  assumes "da_is a g f ds" "length ds + 2 * g < 2 ^ 31"
  shows "\<exists>a'. DynArrayAdd junk a d = Inr (a', int (length ds)) \<and> da_is a' g f (ds @ [d]) \<and>
    (length (da_alloc a'), unat (da_capacity a')) = da_sizes g (length ds) (length (da_alloc a), unat (da_capacity a)) \<and>
    (set (drop (length ds) (da_alloc a)) \<subseteq> {NULL} \<longrightarrow> set (drop (Suc (length ds)) (da_alloc a')) \<subseteq> {NULL})"
proof -
  note A = da_isD [OF assms(1)]
  obtain b where enter: "da_enter a = Inr (a\<lparr>da_held := da_thread_safe a, da_busy_flags := b\<rparr>)" using da_enter_leave A(6) by blast
  define a1 where "a1 = a\<lparr>da_held := da_thread_safe a, da_busy_flags := b\<rparr>"
  have "da_inv a1" "unat (da_elements a1) + 2 * unat (da_grow_rate a1) < 2 ^ 31"
    using A assms(2) by (simp_all add: a1_def da_inv_def da_alloc_def)
  from da_grow_spec [OF this, of junk] obtain xs c where grow: "da_grow junk a1 = Inr (a1\<lparr>da_data := Some xs, da_capacity := c\<rparr>)"
    and xs: "take (length ds) xs = ds" and sizes: "(length xs, unat c) = da_sizes g (length ds) (length (da_alloc a), unat (da_capacity a))"
    and fill: "set (drop (length ds) xs) \<subseteq> insert NULL (set (drop (length ds) (da_alloc a)))"
    using A by (auto simp: a1_def da_alloc_def da_items_def)
  have bounds: "length ds < length xs" "length xs \<le> unat c" "unat c \<le> Suc (length xs)" "unat c \<le> Suc (length ds) + g" "0 < unat c"
    using sizes A(7-11) by (auto simp: da_sizes_def split: if_splits)
  have e: "unat (da_elements a + 1) = Suc (length ds)" using A(5) assms(2) by (simp add: unat_add_small)
  define a2 where "a2 = a1\<lparr>da_capacity := c, da_data := Some (xs[length ds := d]), da_elements := da_elements a + 1\<rparr>"
  obtain b2 where leave: "da_leave a2 = a2\<lparr>da_held := False, da_busy_flags := b2\<rparr>"
    using da_leave_eq [of a2] by (cases a) (auto simp: a2_def a1_def split: if_splits)
  have "sint (da_elements a) = int (length ds)" using A(5) assms(2) by (simp add: sint_small)
  then have run: "DynArrayAdd junk a d = Inr (a2\<lparr>da_held := False, da_busy_flags := b2\<rparr>, int (length ds))"
    using grow bounds(1) A(5) leave by (simp add: DynArrayAdd_def enter Let_def flip: a1_def) (simp add: a1_def a2_def)
  have "da_is (a2\<lparr>da_held := False, da_busy_flags := b2\<rparr>) g f (ds @ [d])"
    by (rule da_isI [where xs = "xs[length ds := d]"])
      (use A bounds e xs in \<open>simp_all add: a2_def a1_def take_Suc_conv_app_nth\<close>)
  moreover have al: "da_alloc (a2\<lparr>da_held := False, da_busy_flags := b2\<rparr>) = xs[length ds := d]" by (simp add: da_alloc_def a2_def)
  moreover have "set (drop (Suc (length ds)) (xs[length ds := d])) \<subseteq> set (drop (length ds) xs)"
    by (simp add: set_drop_subset_set_drop)
  then have "set (drop (length ds) (da_alloc a)) \<subseteq> {NULL} \<longrightarrow> set (drop (Suc (length ds)) (xs[length ds := d])) \<subseteq> {NULL}"
    using fill by auto
  ultimately show ?thesis using run sizes by (simp add: a2_def)
qed

lemma DynArrayGetDataByPos_spec:
  assumes "da_is a g f ds" "length ds < 2 ^ 31"
  shows "i < length ds \<Longrightarrow> DynArrayGetDataByPos a (int i) = Inr (ds ! i)"
    "- (2 ^ 31) \<le> p \<Longrightarrow> p < 2 ^ 31 \<Longrightarrow> p < 0 \<or> int (length ds) < p \<Longrightarrow> DynArrayGetDataByPos a p = Inr NULL"
    "DynArrayGetDataByPos a (int (length ds)) = (if ds = [] \<and> da_data a = None then Inr NULL
      else if length ds = length (da_alloc a) then Inl OutOfBounds else Inr (da_alloc a ! length ds))"
proof -
  note A = da_isD [OF assms(1)]
  show "DynArrayGetDataByPos a (int i) = Inr (ds ! i)" if i: "i < length ds"
  proof -
    obtain xs where xs: "da_data a = Some xs" "ds = take (length ds) xs" "length ds \<le> length xs"
      using A(4,5,8) i by (cases "da_data a") (auto simp: da_items_def da_alloc_def)
    have "\<not> da_elements a < word_of_int (int i)"
      using i A(5) assms(2) by (simp add: word_less_nat_alt unat_of_nat)
    moreover have "xs ! i = ds ! i" using xs(2) i by (metis nth_take)
    ultimately show ?thesis using xs i by (simp add: DynArrayGetDataByPos_def)
  qed
  show "DynArrayGetDataByPos a p = Inr NULL" if p: "- (2 ^ 31) \<le> p" "p < 2 ^ 31" "p < 0 \<or> int (length ds) < p"
  proof -
    have "uint (word_of_int p :: 32 word) = (if p < 0 then p + 2 ^ 32 else p)"
    proof (cases "p < 0")
      case True
      then have "(p + 2 ^ 32) mod 2 ^ 32 = p + 2 ^ 32" using p(1) by (intro mod_pos_pos_trivial) simp_all
      then show ?thesis using True by (simp add: uint_word_of_int)
    qed (use p(2) in \<open>simp add: uint_word_of_int\<close>)
    moreover have "uint (da_elements a) = int (length ds)" using A(5) by simp
    ultimately have "da_elements a < word_of_int p" using p assms(2) by (auto simp: word_less_def)
    then show ?thesis by (cases "da_data a") (simp_all add: DynArrayGetDataByPos_def)
  qed
  show "DynArrayGetDataByPos a (int (length ds)) = (if ds = [] \<and> da_data a = None then Inr NULL
      else if length ds = length (da_alloc a) then Inl OutOfBounds else Inr (da_alloc a ! length ds))"
  proof (cases "da_data a")
    case None
    then have "ds = []" using A(8) by (simp add: da_alloc_def)
    then show ?thesis using None by (simp add: DynArrayGetDataByPos_def)
  next
    case (Some xs)
    have "\<not> da_elements a < word_of_int (int (length ds))"
      using A(5) by simp
    then show ?thesis using Some A(8) by (auto simp: DynArrayGetDataByPos_def da_alloc_def arr_get_def)
  qed
qed

text \<open>The destructor runs on the elements that are not null, in order.\<close>

definition destroy_all :: "(addr \<Rightarrow> 's \<Rightarrow> 's) option \<Rightarrow> addr list \<Rightarrow> 's \<Rightarrow> 's" where
  "destroy_all f ds s = (case f of None \<Rightarrow> s | Some f \<Rightarrow> fold f (filter (\<lambda>x. x \<noteq> NULL) ds) s)"

lemma da_destroy_items_spec:
  assumes "da_is a g f ds" "length ds < 2 ^ 31"
  shows "da_destroy_items a s = Inr (destroy_all f ds s)"
proof (cases f)
  case None
  then show ?thesis using da_isD(3) [OF assms(1)] by (simp add: da_destroy_items_def destroy_all_def)
next
  case (Some k)
  note A = da_isD [OF assms(1)]
  define body where "body = (\<lambda>i s. and_then (DynArrayGetDataByPos a (int i)) (\<lambda>x. Inr (if x \<noteq> NULL then k x s else s)))"
  have n: "nat (sint (da_elements a)) = length ds" using A(5) assms(2) by (simp add: sint_small)
  have "for_each body [0..<m] s = Inr (destroy_all f (take m ds) s)" if "m \<le> length ds" for m
    using that
  proof (induction m)
    case (Suc m)
    then show ?case
      using DynArrayGetDataByPos_spec(1) [OF assms, of m] Some
      by (simp add: for_each_append body_def destroy_all_def take_Suc_conv_app_nth)
  qed (simp add: destroy_all_def Some)
  from this [of "length ds"] show ?thesis using n A(3) Some by (simp add: da_destroy_items_def body_def)
qed


lemma DynArraySetNullByPos_spec:
  assumes "da_is a g f ds" "i < length ds"
  shows "\<exists>a'. DynArraySetNullByPos a (int i) = Inr (a', c_bool (ds ! i \<noteq> NULL)) \<and> da_is a' g f (ds[i := NULL])"
proof -
  note A = da_isD [OF assms(1)]
  obtain xs where xs: "da_data a = Some xs" "ds = take (length ds) xs" "length ds \<le> length xs"
    using A(4,5,8) assms(2) by (cases "da_data a") (auto simp: da_items_def da_alloc_def)
  have x: "xs ! i = ds ! i" "i < length xs" using xs(2,3) assms(2) by (metis nth_take, simp)
  show ?thesis
  proof (cases "ds ! i = NULL")
    case True
    then have "ds[i := NULL] = ds" by (metis list_update_id)
    then show ?thesis using True x xs(1) assms by (simp add: DynArraySetNullByPos_def)
  next
    case False
    obtain b where enter: "da_enter a = Inr (a\<lparr>da_held := da_thread_safe a, da_busy_flags := b\<rparr>)" using da_enter_leave A(6) by blast
    define a2 where "a2 = a\<lparr>da_held := da_thread_safe a, da_busy_flags := b, da_data := Some (xs[i := NULL])\<rparr>"
    obtain b2 where leave: "da_leave a2 = a2\<lparr>da_held := False, da_busy_flags := b2\<rparr>"
      using da_leave_eq [of a2] by (cases a) (auto simp: a2_def split: if_splits)
    have "take (length ds) (xs[i := NULL]) = ds[i := NULL]" using xs(2) by (metis take_update_swap)
    then have "da_is (a2\<lparr>da_held := False, da_busy_flags := b2\<rparr>) g f (ds[i := NULL])"
      using A xs(1,3) assms(2) by (intro da_isI [where xs = "xs[i := NULL]"]) (auto simp: a2_def da_alloc_def da_inv_def)
    moreover have "DynArraySetNullByPos a (int i) = Inr (a2\<lparr>da_held := False, da_busy_flags := b2\<rparr>, 1)"
      using False x xs(1) enter leave by (simp add: DynArraySetNullByPos_def a2_def)
    ultimately show ?thesis using False by auto
  qed
qed

text \<open>\<open>DynArrayClean\<close> keeps the pointers in the memory that it does not release.\<close>

lemma DynArrayClean_spec:
  assumes "da_is a g f ds" "length ds < 2 ^ 31"
  shows "\<exists>a' n. DynArrayClean junk a s = Inr (a', destroy_all f ds s, n) \<and> da_is a' g f [] \<and>
    take g (da_alloc a) = take (length (da_alloc a)) (da_alloc a')"
proof (cases "da_capacity a = 0")
  case True
  note A = da_isD [OF assms(1)]
  have "ds = []" "da_alloc a = []" using True A(8,9) by auto
  then show ?thesis using True assms(1) by (simp add: DynArrayClean_def destroy_all_def split: option.split)
next
  case False
  note A = da_isD [OF assms(1)]
  obtain xs where xs: "da_data a = Some xs" using A(1) False by (auto simp: da_inv_def)
  obtain b where enter: "da_enter a = Inr (a\<lparr>da_held := da_thread_safe a, da_busy_flags := b\<rparr>)" using da_enter_leave A(6) by blast
  define a1 where "a1 = a\<lparr>da_held := da_thread_safe a, da_busy_flags := b\<rparr>"
  have "DynArrayGetDataByPos a1 = DynArrayGetDataByPos a"
    by (intro ext) (simp add: DynArrayGetDataByPos_def a1_def split: option.split)
  moreover have "da_itemdestroy a1 = da_itemdestroy a" "da_elements a1 = da_elements a" by (simp_all add: a1_def)
  ultimately have "da_destroy_items a1 s = da_destroy_items a s" by (simp add: da_destroy_items_def split: option.split)
  then have destroy: "da_destroy_items a1 s = Inr (destroy_all f ds s)" using da_destroy_items_spec [OF assms] by simp
  define ys where "ys = arr_realloc junk xs (uint (da_grow_rate a))"
  have len: "length ys = g" using A(2) by (simp add: ys_def)
  define a2 where "a2 = a1\<lparr>da_elements := 0, da_data := Some ys, da_capacity := da_grow_rate a\<rparr>"
  obtain b2 where leave: "da_leave a2 = a2\<lparr>da_held := False, da_busy_flags := b2\<rparr>"
    using da_leave_eq [of a2] by (cases a) (auto simp: a2_def a1_def split: if_splits)
  have "DynArrayClean junk a s = Inr (a2\<lparr>da_held := False, da_busy_flags := b2\<rparr>, destroy_all f ds s, sint (da_grow_rate a))"
    using False destroy leave by (simp add: DynArrayClean_def enter flip: a1_def) (simp add: a1_def a2_def xs ys_def Let_def)
  moreover have "da_is (a2\<lparr>da_held := False, da_busy_flags := b2\<rparr>) g f []"
    using A len by (intro da_isI [where xs = ys]) (simp_all add: a2_def a1_def)
  moreover have "take g xs = take (length xs) ys" using A(2) by (auto simp: ys_def arr_realloc_def min_def)
  ultimately show ?thesis using xs by (simp add: da_alloc_def a2_def)
qed

section \<open>Runs\<close>

datatype da_op = DaAdd addr | DaSetNull nat | DaClean

fun da_exec :: "addr \<Rightarrow> da_op \<Rightarrow> 's dyn_array \<times> 's \<Rightarrow> ('s dyn_array \<times> 's) result" where
  "da_exec junk (DaAdd d) (a, s) = and_then (DynArrayAdd junk a d) (\<lambda>(a, _). Inr (a, s))"
| "da_exec junk (DaSetNull i) (a, s) = and_then (DynArraySetNullByPos a (int i)) (\<lambda>(a, _). Inr (a, s))"
| "da_exec junk DaClean (a, s) = and_then (DynArrayClean junk a s) (\<lambda>(a, s, _). Inr (a, s))"

text \<open>The same operations on a list of pointers; a position beyond the list is not allowed.\<close>

fun da_spec :: "(addr \<Rightarrow> 's \<Rightarrow> 's) option \<Rightarrow> da_op list \<Rightarrow> addr list \<times> 's \<Rightarrow> (addr list \<times> 's) option" where
  "da_spec f [] st = Some st"
| "da_spec f (DaAdd d # ops) (ds, s) = da_spec f ops (ds @ [d], s)"
| "da_spec f (DaSetNull i # ops) (ds, s) = (if i < length ds then da_spec f ops (ds[i := NULL], s) else None)"
| "da_spec f (DaClean # ops) (ds, s) = da_spec f ops ([], destroy_all f ds s)"

lemma da_run_refines:
  assumes "da_is a g f ds" "da_spec f ops (ds, s) = Some (es, t)" "length ds + length ops + 2 * g < 2 ^ 31"
  shows "\<exists>a'. for_each (da_exec junk) ops (a, s) = Inr (a', t) \<and> da_is a' g f es \<and> length es + 2 * g < 2 ^ 31"
  using assms
proof (induction ops arbitrary: a ds s)
  case (Cons op ops)
  show ?case
  proof (cases op)
    case (DaAdd d)
    obtain a' where "DynArrayAdd junk a d = Inr (a', int (length ds))" "da_is a' g f (ds @ [d])"
      using DynArrayAdd_spec [OF Cons.prems(1), of junk d] Cons.prems(3) by auto
    then show ?thesis using Cons.IH [of a' "ds @ [d]" s] Cons.prems DaAdd by simp
  next
    case (DaSetNull i)
    then have i: "i < length ds" using Cons.prems(2) by (simp split: if_splits)
    obtain a' n where "DynArraySetNullByPos a (int i) = Inr (a', n)" "da_is a' g f (ds[i := NULL])"
      using DynArraySetNullByPos_spec [OF Cons.prems(1) i] by auto
    then show ?thesis using Cons.IH [of a' "ds[i := NULL]" s] Cons.prems DaSetNull i by simp
  next
    case DaClean
    obtain a' n where "DynArrayClean junk a s = Inr (a', destroy_all f ds s, n)" "da_is a' g f []"
      using DynArrayClean_spec [OF Cons.prems(1), of junk s] Cons.prems(3) by auto
    then show ?thesis using Cons.IH [of a' "[]" "destroy_all f ds s"] Cons.prems DaClean by simp
  qed
qed simp

text \<open>Additions only: the sizes in closed form.\<close>

lemma da_sizes_add:
  assumes "2 \<le> g"
  shows "da_sizes g n (if n = 0 then (0, 0) else (g * (n div g + 1) - (if n < g then 0 else 1), g * (n div g + 1))) =
    (g * (Suc n div g + 1) - (if Suc n < g then 0 else 1), g * (Suc n div g + 1))"
proof (cases "n = 0")
  case False
  define q r where "q = n div g" "r = n mod g"
  have n: "n = g * q + r" "r < g" using assms by (simp_all add: q_r_def)
  show ?thesis
  proof (cases "Suc r = g")
    case True
    then have "Suc n = g * (q + 1)" using n by simp
    then have "Suc n div g = q + 1" using assms by (metis nonzero_mult_div_cancel_left not_numeral_le_zero)
    then show ?thesis using False True n \<open>Suc n = g * (q + 1)\<close> by (auto simp: da_sizes_def simp flip: q_r_def)
  next
    case less: False
    then have r: "Suc r < g" using n(2) by simp
    then have "Suc n div g = q" using n(1) by (metis add_Suc_right div_less div_mult_self4 add_0_right gr_implies_not0)
    moreover have "n < g \<longleftrightarrow> q = 0" "Suc n < g \<longleftrightarrow> q = 0" using n r by (cases q; simp)+
    ultimately show ?thesis using False r n(1) by (auto simp: da_sizes_def simp flip: q_r_def)
  qed
qed (use assms in \<open>simp add: da_sizes_def\<close>)

lemma da_adds:
  assumes "2 \<le> g" "g < 2 ^ 28" "length ds < 2 ^ 28" "g' = int g"
  shows "\<exists>a. for_each (da_exec junk) (map DaAdd ds) (DynArrayNew ts g' f, s) = Inr (a, s) \<and> da_is a g f ds \<and>
    set (drop (length ds) (da_alloc a)) \<subseteq> {NULL} \<and>
    (length (da_alloc a), unat (da_capacity a)) = (if ds = [] then (0, 0) else
      (g * (length ds div g + 1) - (if length ds < g then 0 else 1), g * (length ds div g + 1)))"
  using assms(3)
proof (induction ds rule: rev_induct)
  case Nil
  show ?case using DynArrayNew_is [of g' ts f] assms by (simp add: DynArrayNew_def da_alloc_def)
next
  case (snoc d ds)
  then obtain a where a: "for_each (da_exec junk) (map DaAdd ds) (DynArrayNew ts g' f, s) = Inr (a, s)" "da_is a g f ds"
    "set (drop (length ds) (da_alloc a)) \<subseteq> {NULL}"
    "(length (da_alloc a), unat (da_capacity a)) = (if ds = [] then (0, 0) else
      (g * (length ds div g + 1) - (if length ds < g then 0 else 1), g * (length ds div g + 1)))" by auto
  obtain a' where a': "DynArrayAdd junk a d = Inr (a', int (length ds))" "da_is a' g f (ds @ [d])"
    "(length (da_alloc a'), unat (da_capacity a')) = da_sizes g (length ds) (length (da_alloc a), unat (da_capacity a))"
    "set (drop (Suc (length ds)) (da_alloc a')) \<subseteq> {NULL}"
    using DynArrayAdd_spec [OF a(2), of junk d] snoc.prems assms(2) a(3) by auto
  have step: "da_sizes g (length ds) (if ds = [] then (0, 0) else
      (g * (length ds div g + 1) - (if length ds < g then 0 else 1), g * (length ds div g + 1))) =
      (g * (Suc (length ds) div g + 1) - (if Suc (length ds) < g then 0 else 1), g * (Suc (length ds) div g + 1))"
    using da_sizes_add [OF assms(1), of "length ds"] by simp
  show ?case using a(1) a' step unfolding a(4) by (simp add: for_each_append)
qed


section \<open>Claims\<close>

text \<open>C23: every sequence of fewer than 2 ^ 28 additions, erasures by position inside the array and cleanings runs
  without a fault on a new array, for each growth rate from 0 (the default rate) up to 2 ^ 28, and is the sequence on a list: afterwards a lookup at each
  position gives the element of the list, the counter is its length, the destructor has run on the elements
  that were cleaned, in order, and \<open>DynArrayDestroy\<close> runs it on the remaining ones. The mutex is released.\<close>

theorem dyn_array_refines:
  assumes "0 \<le> g" "g < 2 ^ 28" "da_spec f ops ([], s) = Some (ds, t)" "length ops < 2 ^ 28"
  shows "\<exists>a. for_each (da_exec junk) ops (DynArrayNew ts g f, s) = Inr (a, t) \<and>
    (\<forall>i < length ds. DynArrayGetDataByPos a (int i) = Inr (ds ! i)) \<and> unat (da_elements a) = length ds \<and> \<not> da_held a \<and>
    DynArrayDestroy a t = Inr (destroy_all f ds t)"
proof -
  have new: "da_is (DynArrayNew ts g f) (if g = 0 then 64 else nat g) f []" by (rule DynArrayNew_is) (use assms(1,2) in simp_all)
  have "length ([] :: addr list) + length ops + 2 * (if g = 0 then 64 else nat g) < 2 ^ 31"
    using assms(1,2,4) by (simp, linarith)
  from da_run_refines [OF new assms(3) this, of junk] obtain a where
    a: "for_each (da_exec junk) ops (DynArrayNew ts g f, s) = Inr (a, t)" "da_is a (if g = 0 then 64 else nat g) f ds"
    "length ds + 2 * (if g = 0 then 64 else nat g) < 2 ^ 31" by metis
  then have "length ds < 2 ^ 31" by (metis add_lessD1)
  note a = a(1,2) this
  then show ?thesis
    using DynArrayGetDataByPos_spec(1) [OF a(2,3)] da_destroy_items_spec [OF a(2,3)] da_isD [OF a(2)]
    by (auto simp: DynArrayDestroy_def)
qed

lemma dyn_array_refines_witness:
  "\<exists>a. for_each (da_exec 0) [DaAdd 5, DaAdd 6, DaClean, DaAdd 7, DaAdd 8, DaSetNull 0] (DynArrayNew True 1 (Some (#)), []) = Inr (a, [6, 5]) \<and>
    DynArrayGetDataByPos a 1 = Inr 8 \<and> DynArrayDestroy a [6, 5] = Inr [8, 6, 5]"
  using dyn_array_refines [of 1 "Some (#)" "[DaAdd 5, DaAdd 6, DaClean, DaAdd 7, DaAdd 8, DaSetNull 0]" "[]" "[NULL, 8]" "[6, 5]" 0 True]
  by (auto simp: destroy_all_def NULL_def)

text \<open>A lookup one past the last element is not rejected. After additions only it reads outside the
  allocation when the number of elements is at least the growth rate and one less than a multiple of it, and
  returns null otherwise; after \<open>DynArrayClean\<close> position 0 still gives the first of the elements that were
  destroyed.\<close>

theorem dyn_array_lookup_end:
  assumes "2 \<le> g" "g < 2 ^ 28" "ds \<noteq> []" "length ds < 2 ^ 28"
  shows "\<exists>a. for_each (da_exec junk) (map DaAdd ds) (DynArrayNew ts (int g) f, s) = Inr (a, s) \<and>
    DynArrayGetDataByPos a (int (length ds)) = (if g \<le> length ds \<and> g dvd Suc (length ds) then Inl OutOfBounds else Inr NULL) \<and>
    (\<exists>a' n. DynArrayClean junk a s = Inr (a', destroy_all f ds s, n) \<and> DynArrayGetDataByPos a' 0 = Inr (hd ds))"
proof -
  obtain a where a: "for_each (da_exec junk) (map DaAdd ds) (DynArrayNew ts (int g) f, s) = Inr (a, s)" "da_is a g f ds"
    "set (drop (length ds) (da_alloc a)) \<subseteq> {NULL}"
    "length (da_alloc a) = g * (length ds div g + 1) - (if length ds < g then 0 else 1)"
    using da_adds [OF assms(1,2,4) refl, of junk ts f s] assms(3) by auto
  note A = da_isD [OF a(2)]
  define q r where "q = length ds div g" "r = length ds mod g"
  have n: "length ds = g * q + r" "r < g" using assms(1) by (simp_all add: q_r_def)
  have full: "length ds = length (da_alloc a) \<longleftrightarrow> g \<le> length ds \<and> g dvd Suc (length ds)"
  proof -
    have "g dvd Suc (length ds) \<longleftrightarrow> Suc r = g"
      using n assms(1) by (metis One_nat_def Suc_leI add_Suc_right dvd_add_right_iff dvd_imp_le dvd_refl dvd_triv_left le_antisym zero_less_Suc)
    moreover have "length ds < g \<longleftrightarrow> q = 0" using n by (cases q) simp_all
    ultimately show ?thesis using a(4) n assms(1) by (auto simp flip: q_r_def)
  qed
  have "da_data a \<noteq> None" using A(8) assms(3) by (auto simp: da_alloc_def split: option.splits)
  moreover have "da_alloc a ! length ds = NULL" if "length ds \<noteq> length (da_alloc a)"
    using a(3) A(8) that by (metis Cons_nth_drop_Suc insert_subset le_neq_implies_less list.simps(15) singletonD)
  ultimately have look: "DynArrayGetDataByPos a (int (length ds)) = (if g \<le> length ds \<and> g dvd Suc (length ds) then Inl OutOfBounds else Inr NULL)"
    using DynArrayGetDataByPos_spec(3) [OF a(2)] assms(3,4) full by auto
  obtain a' n where c: "DynArrayClean junk a s = Inr (a', destroy_all f ds s, n)" "da_is a' g f []"
    "take g (da_alloc a) = take (length (da_alloc a)) (da_alloc a')"
    using DynArrayClean_spec [OF a(2), of junk s] assms(4) by auto
  have "take 1 (da_alloc a') = take 1 (take (length (da_alloc a)) (da_alloc a'))" using A(8) assms(3) by (cases ds) (auto simp: min_def)
  also have "\<dots> = take 1 (take g (da_alloc a))" using c(3) by simp
  also have "\<dots> = take 1 ds"
  proof -
    have "ds = take (length ds) (da_alloc a)" using A(4,5) by (simp add: da_items_def)
    then have "take 1 ds = take 1 (take (length ds) (da_alloc a))" by simp
    then show ?thesis using assms(1,3) by (cases ds) (auto simp: min_def)
  qed
  finally have "da_alloc a' \<noteq> [] \<and> da_alloc a' ! 0 = hd ds" using assms(3) by (cases ds; cases "da_alloc a'") auto
  then have "DynArrayGetDataByPos a' 0 = Inr (hd ds)"
    using DynArrayGetDataByPos_spec(3) [OF c(2)] by (auto simp: da_alloc_def)
  then show ?thesis using a(1) look c(1) by blast
qed

lemma dyn_array_lookup_end_witness:
  "(\<exists>a. for_each (da_exec 0) (map DaAdd (replicate 127 5)) (DynArrayNew False (int 64) None, ()) = Inr (a, ()) \<and>
     DynArrayGetDataByPos a 127 = Inl OutOfBounds) \<and>
   (\<exists>a a' n. for_each (da_exec 0) (map DaAdd [5, 6]) (DynArrayNew False (int 64) None, ()) = Inr (a, ()) \<and>
     DynArrayClean 0 a () = Inr (a', (), n) \<and> DynArrayGetDataByPos a' 0 = Inr 5)"
proof
  have "g \<le> 127 \<and> g dvd 128" if "g = 64" for g :: nat using that by simp
  then show "\<exists>a. for_each (da_exec 0) (map DaAdd (replicate 127 5)) (DynArrayNew False (int 64) None, ()) = Inr (a, ()) \<and>
      DynArrayGetDataByPos a 127 = Inl OutOfBounds"
    using dyn_array_lookup_end [of 64 "replicate 127 5" 0 False None "()"] by auto
  show "\<exists>a a' n. for_each (da_exec 0) (map DaAdd [5, 6]) (DynArrayNew False (int 64) None, ()) = Inr (a, ()) \<and>
      DynArrayClean 0 a () = Inr (a', (), n) \<and> DynArrayGetDataByPos a' 0 = Inr 5"
    using dyn_array_lookup_end [of 64 "[5, 6]" 0 False None "()"] by (auto simp: destroy_all_def)
qed

end
