(* ===== verification/MemBuffer.thy ===== *)
theory MemBuffer
  imports BrbPrelude
begin

text \<open>
  The growing byte buffer of libbrb_core/data/core/mem_buf.c: creation, growth, appending, cutting, copying
  and reading from descriptors. Sizes are 64-bit words and wrap as the code's \<open>unsigned long\<close> does. The
  memory of a buffer is the list of its bytes, empty for the null pointer; a pointer into it is an index, and
  a pointer to other memory is the list of the bytes that can be read there. What the system calls return
  (\<open>mlock\<close>, \<open>madvise\<close>, \<open>read\<close>), the text that \<open>vsnprintf\<close> makes, and the bytes that \<open>realloc\<close> adds are arguments.
\<close>

type_synonym byte = "8 word"

type_synonym ulong = "64 word"

section \<open>Data\<close>

record mem_buffer =
  mb_thread_safe :: bool
  mb_held :: bool
  mb_grow_rate :: "32 word"
  mb_busy_flags :: "32 word"
  mb_size :: ulong
  mb_capacity :: ulong
  mb_offset :: ulong
  mb_ref_count :: int
  mb_data :: "byte list"
  mb_destroyed :: bool
  mb_readonly :: bool
  mb_mmaped :: bool
  mb_wired :: bool
  mb_no_core :: bool

text \<open>The operating system: the status of \<open>mlock\<close> and of \<open>madvise\<close> for a length, and a fresh byte.\<close>

record mem_os =
  os_mlock :: "ulong \<Rightarrow> int"
  os_madvise :: "ulong \<Rightarrow> int"
  os_junk :: byte

definition MEMBUFFER_BUSY :: nat where "MEMBUFFER_BUSY = 1"

definition MEMBUFFER_FREE :: nat where "MEMBUFFER_FREE = 2"

definition MemBufferEnterCritical :: "mem_buffer \<Rightarrow> mem_buffer result" where
  "MemBufferEnterCritical m = and_then (mutex_lock True (mb_held m)) (\<lambda>held.
     Inr (m\<lparr>mb_held := held, mb_busy_flags := EBIT_SET (EBIT_CLR (mb_busy_flags m) MEMBUFFER_FREE) MEMBUFFER_BUSY\<rparr>))"

definition MemBufferLeaveCritical :: "mem_buffer \<Rightarrow> mem_buffer" where
  "MemBufferLeaveCritical m = m\<lparr>mb_held := mutex_unlock True (mb_held m),
     mb_busy_flags := EBIT_SET (EBIT_CLR (mb_busy_flags m) MEMBUFFER_BUSY) MEMBUFFER_FREE\<rparr>"

definition mb_enter :: "mem_buffer \<Rightarrow> mem_buffer result" where
  "mb_enter m = (if mb_thread_safe m then MemBufferEnterCritical m else Inr m)"

definition mb_leave :: "mem_buffer \<Rightarrow> mem_buffer" where
  "mb_leave m = (if mb_thread_safe m then MemBufferLeaveCritical m else m)"

section \<open>Pages\<close>

definition MemBufferNoCoreOnCrash :: "mem_os \<Rightarrow> mem_buffer \<Rightarrow> mem_buffer \<times> int" where
  "MemBufferNoCoreOnCrash os m = (m\<lparr>mb_no_core := True\<rparr>,
     if 0 < mb_capacity m then c_bool (os_madvise os (mb_capacity m) = 0) else 1)"

definition MemBufferUnwirePages :: "mem_buffer \<Rightarrow> mem_buffer \<times> int" where
  "MemBufferUnwirePages m = (if \<not> mb_wired m then (m, 0) else (m\<lparr>mb_wired := False\<rparr>, 1))"

definition MemBufferWirePages :: "mem_os \<Rightarrow> mem_buffer \<Rightarrow> mem_buffer \<times> int" where
  "MemBufferWirePages os m =
     (if mb_wired m then (m, 1)
      else if mb_capacity m = 0 then (m\<lparr>mb_wired := True\<rparr>, 1)
      else let w = (os_mlock os (mb_capacity m) = 0) in (m\<lparr>mb_wired := w\<rparr>, c_bool w))"

definition mb_rewire :: "mem_os \<Rightarrow> mem_buffer \<Rightarrow> mem_buffer" where
  "mb_rewire os m = (if mb_wired m then fst (MemBufferWirePages os (fst (MemBufferUnwirePages m))) else m)"

definition mb_hide :: "mem_os \<Rightarrow> mem_buffer \<Rightarrow> mem_buffer" where
  "mb_hide os m = (if mb_no_core m then fst (MemBufferNoCoreOnCrash os m) else m)"

section \<open>Creation and growth\<close>

definition MemBufferNew :: "bool \<Rightarrow> int \<Rightarrow> mem_buffer" where
  "MemBufferNew ts grow_rate =
     \<lparr>mb_thread_safe = ts, mb_held = False, mb_grow_rate = (if grow_rate = 0 then 64 else word_of_int grow_rate),
      mb_busy_flags = (if ts then EBIT_SET 0 MEMBUFFER_FREE else 0), mb_size = 0, mb_capacity = 0, mb_offset = 0,
      mb_ref_count = 0, mb_data = [], mb_destroyed = False, mb_readonly = False, mb_mmaped = False,
      mb_wired = False, mb_no_core = False\<rparr>"

definition MemBufferCheckForGrow :: "mem_os \<Rightarrow> mem_buffer \<Rightarrow> ulong \<Rightarrow> mem_buffer result" where
  "MemBufferCheckForGrow os m new_data_sz =
     (let need_mem = ucast (mb_grow_rate m) + new_data_sz in
      if mb_capacity m = 0 then
        let m = m\<lparr>mb_data := replicate (unat need_mem) 0, mb_capacity := mb_capacity m + need_mem\<rparr>;
            m = (if mb_wired m then fst (MemBufferWirePages os (m\<lparr>mb_wired := False\<rparr>)) else m)
        in Inr (mb_hide os m)
      else if mb_capacity m \<le> mb_size m + new_data_sz then
        let m = m\<lparr>mb_data := arr_realloc (os_junk os) (mb_data m) (uint (mb_capacity m + need_mem))\<rparr>;
            m = mb_hide os (mb_rewire os m)
        in and_then (arr_fill (mb_data m) (uint (mb_capacity m)) (uint need_mem) 0) (\<lambda>xs.
             Inr (m\<lparr>mb_data := xs, mb_capacity := mb_capacity m + need_mem\<rparr>))
      else Inr m)"

section \<open>Appending\<close>

definition MemBufferAdd :: "mem_os \<Rightarrow> mem_buffer \<Rightarrow> byte list \<Rightarrow> ulong \<Rightarrow> (mem_buffer \<times> ulong) result" where
  "MemBufferAdd os m new_data new_data_sz =
     (if mb_readonly m then Inr (m, 0)
      else and_then (mb_enter m) (\<lambda>m. and_then (MemBufferCheckForGrow os m (new_data_sz + 1)) (\<lambda>m.
        and_then (mem_copy (mb_data m) (uint (mb_size m)) new_data (uint new_data_sz)) (\<lambda>xs.
        let m = mb_leave (m\<lparr>mb_data := xs, mb_size := mb_size m + new_data_sz\<rparr>) in Inr (m, mb_size m)))))"

definition MemBufferPutNULLTerminator :: "mem_os \<Rightarrow> mem_buffer \<Rightarrow> mem_buffer result" where
  "MemBufferPutNULLTerminator os m = and_then (MemBufferAdd os m [0] 1) (\<lambda>(m, _). Inr (m\<lparr>mb_size := mb_size m - 1\<rparr>))"

definition MemBufferAppendNULL :: "mem_os \<Rightarrow> mem_buffer \<Rightarrow> (mem_buffer \<times> int) result" where
  "MemBufferAppendNULL os m = and_then (MemBufferAdd os m [0] 1) (\<lambda>(m, _). Inr (m, 1))"

text \<open>\<open>MemBufferPrintf\<close>: \<open>vsnprintf\<close> makes the text, or fails and returns -1, which the code uses as an index.\<close>

definition MemBufferPrintf :: "mem_os \<Rightarrow> mem_buffer \<Rightarrow> byte list option \<Rightarrow> (mem_buffer \<times> int) result" where
  "MemBufferPrintf os m msg = (case msg of
       None \<Rightarrow> Inl OutOfBounds
     | Some bs \<Rightarrow> and_then (MemBufferAdd os m (bs @ [0]) (of_nat (length bs))) (\<lambda>(m, _). Inr (m, 1)))"

section \<open>Reading positions\<close>

definition MemBufferGetSize :: "mem_buffer \<Rightarrow> ulong" where
  "MemBufferGetSize m = mb_size m - mb_offset m"

definition MemBufferGetCapacity :: "mem_buffer \<Rightarrow> ulong" where
  "MemBufferGetCapacity m = mb_capacity m"

definition MemBufferIsInit :: "mem_buffer \<Rightarrow> int" where
  "MemBufferIsInit m = c_bool (0 < mb_capacity m)"

text \<open>Pointers are indices into the buffer; \<open>None\<close> is the null pointer.\<close>

definition MemBufferDeref :: "mem_buffer \<Rightarrow> ulong" where
  "MemBufferDeref m = mb_offset m"

definition MemBufferOffsetDeref :: "mem_buffer \<Rightarrow> ulong \<Rightarrow> ulong option" where
  "MemBufferOffsetDeref m offset =
     (if offset > MemBufferGetCapacity m then None else Some (MemBufferDeref m + offset))"

definition mb_from :: "mem_buffer \<Rightarrow> ulong option \<Rightarrow> byte list" where
  "mb_from m p = (case p of None \<Rightarrow> [] | Some i \<Rightarrow> drop (unat i) (mb_data m))"

definition MemBufferOffsetGet :: "mem_buffer \<Rightarrow> ulong" where
  "MemBufferOffsetGet m = mb_offset m"

definition MemBufferOffsetSet :: "mem_buffer \<Rightarrow> ulong \<Rightarrow> mem_buffer \<times> ulong" where
  "MemBufferOffsetSet m offset = (m\<lparr>mb_offset := offset\<rparr>, offset)"

definition MemBufferOffsetReset :: "mem_buffer \<Rightarrow> mem_buffer \<times> ulong" where
  "MemBufferOffsetReset m = (m\<lparr>mb_offset := 0\<rparr>, 1)"

definition MemBufferOffsetIncrement :: "mem_buffer \<Rightarrow> ulong \<Rightarrow> mem_buffer \<times> ulong" where
  "MemBufferOffsetIncrement m offset = (m\<lparr>mb_offset := mb_offset m + offset\<rparr>, mb_offset m + offset)"

section \<open>Cutting\<close>

definition MemBufferClean :: "mem_buffer \<Rightarrow> (mem_buffer \<times> int) result" where
  "MemBufferClean m = and_then (mb_enter m) (\<lambda>m.
     and_then (arr_fill (mb_data m) 0 (uint (mb_size m)) 0) (\<lambda>xs.
     let m = fst (MemBufferUnwirePages (m\<lparr>mb_data := xs, mb_size := 0, mb_offset := 0\<rparr>)) in
     Inr (mb_leave m, 1)))"

definition MemBufferShrink :: "mem_os \<Rightarrow> mem_buffer \<Rightarrow> (mem_buffer \<times> int) result" where
  "MemBufferShrink os m = and_then (MemBufferPutNULLTerminator os m) (\<lambda>m.
     if mb_size m \<le> 1 then Inr (m, 0)
     else let m = m\<lparr>mb_data := arr_realloc (os_junk os) (mb_data m) (uint (mb_size m + 1)), mb_capacity := mb_size m\<rparr> in
       Inr (mb_rewire os (mb_hide os m), 1))"

text \<open>The loop runs from the byte after the last one down to the second one.\<close>

fun mb_find_token :: "mem_buffer \<Rightarrow> byte \<Rightarrow> int \<Rightarrow> nat \<Rightarrow> int option result" where
  "mb_find_token m token j 0 = Inr None"
| "mb_find_token m token j (Suc i) =
     and_then (arr_get (mb_data m) (uint (MemBufferDeref m) + int (Suc i))) (\<lambda>x.
       if token = x then Inr (Some (j - 1)) else mb_find_token m token (j + 1) i)"

definition MemBufferShrinkToToken :: "mem_buffer \<Rightarrow> byte \<Rightarrow> (mem_buffer \<times> int) result" where
  "MemBufferShrinkToToken m token =
     (let data_sz = sint (ucast (MemBufferGetSize m) :: 32 word) in
      and_then (mb_find_token m token 0 (nat data_sz)) (\<lambda>found. case found of
          None \<Rightarrow> Inr (m, 0)
        | Some j \<Rightarrow> Inr (m\<lparr>mb_size := mb_size m - word_of_int j\<rparr>, j)))"

definition MemBufferLastCharGrab :: "mem_buffer \<Rightarrow> ulong option" where
  "MemBufferLastCharGrab m = (if mb_size m = 0 then None else Some (mb_size m - 1))"

definition MemBufferRemoveLastChar :: "mem_buffer \<Rightarrow> mem_buffer result" where
  "MemBufferRemoveLastChar m =
     (if mb_size m = 0 then Inr m
      else if mb_size m = 1 then and_then (MemBufferClean m) (\<lambda>(m, _). Inr m)
      else and_then (arr_set (mb_data m) (uint (mb_size m - 1)) 0) (\<lambda>xs.
        Inr (m\<lparr>mb_data := xs, mb_size := mb_size m - 1\<rparr>)))"

section \<open>Copying and overwriting\<close>

definition MemBufferDup :: "mem_os \<Rightarrow> mem_buffer \<Rightarrow> mem_buffer result" where
  "MemBufferDup os m =
     (let data_ptr = mb_from m (Some (MemBufferDeref m)); data_sz = MemBufferGetSize m;
          new_mb = MemBufferNew (mb_thread_safe m) (sint (ucast (data_sz + 1) :: 32 word)) in
      and_then (MemBufferAdd os new_mb data_ptr data_sz) (\<lambda>(new_mb, _). Inr (new_mb\<lparr>mb_offset := mb_offset m\<rparr>)))"

definition MemBufferDupOffset :: "mem_os \<Rightarrow> mem_buffer \<Rightarrow> ulong \<Rightarrow> mem_buffer option result" where
  "MemBufferDupOffset os m offset =
     (let data_ptr = mb_from m (MemBufferOffsetDeref m offset); data_sz = MemBufferGetSize m - offset in
      if data_sz = 0 then Inr None
      else let new_mb = MemBufferNew (mb_thread_safe m) (sint (ucast (data_sz + 1) :: 32 word)) in
        and_then (MemBufferAdd os new_mb data_ptr data_sz) (\<lambda>(new_mb, _). Inr (Some new_mb)))"

definition MemBufferMerge :: "mem_os \<Rightarrow> mem_buffer \<Rightarrow> mem_buffer \<Rightarrow> mem_buffer result" where
  "MemBufferMerge os mb1 mb2 =
     (let mb1_sz = MemBufferGetSize mb1; mb2_sz = MemBufferGetSize mb2;
          merged = MemBufferNew True (sint (ucast (mb1_sz + mb2_sz) :: 32 word)) in
      and_then (MemBufferAdd os merged (mb_from mb1 (Some (MemBufferDeref mb1))) mb1_sz) (\<lambda>(merged, _).
      and_then (MemBufferAdd os merged (mb_from mb2 (Some (MemBufferDeref mb2))) mb2_sz) (\<lambda>(merged, _). Inr merged)))"

definition MemBufferOverwrite :: "mem_os \<Rightarrow> mem_buffer \<Rightarrow> byte list \<Rightarrow> ulong \<Rightarrow> ulong \<Rightarrow> (mem_buffer \<times> ulong) result" where
  "MemBufferOverwrite os m new_data new_data_offset new_data_sz =
     (let needed_size = new_data_offset + new_data_sz in
      if mb_readonly m then Inr (m, 0)
      else and_then (mb_enter m) (\<lambda>m. and_then (MemBufferCheckForGrow os m (needed_size + 1)) (\<lambda>m.
        and_then (mem_copy (mb_data m) (uint new_data_offset) new_data (uint new_data_sz)) (\<lambda>xs.
        let m = mb_leave (m\<lparr>mb_data := xs, mb_size := mb_size m + needed_size\<rparr>) in Inr (m, mb_size m)))))"

definition MemBufferOffsetWrite :: "mem_os \<Rightarrow> mem_buffer \<Rightarrow> ulong \<Rightarrow> byte list \<Rightarrow> ulong \<Rightarrow> (mem_buffer \<times> int) result" where
  "MemBufferOffsetWrite os m offset src data_sz =
     (let write_end = offset + data_sz in
      and_then (MemBufferCheckForGrow os m (write_end + 1)) (\<lambda>m. case MemBufferOffsetDeref m offset of
          None \<Rightarrow> if data_sz = 0 then Inr (m\<lparr>mb_size := (if write_end < mb_size m then mb_size m else write_end)\<rparr>, 1) else Inl NullDeref
        | Some p \<Rightarrow> and_then (mem_copy (mb_data m) (uint p) src (uint data_sz)) (\<lambda>xs.
            Inr (m\<lparr>mb_data := xs, mb_size := (if write_end < mb_size m then mb_size m else write_end)\<rparr>, 1))))"

section \<open>References\<close>

text \<open>A released buffer is \<open>None\<close>.\<close>

definition MemBufferLock :: "mem_buffer \<Rightarrow> mem_buffer \<times> int" where
  "MemBufferLock m = (m\<lparr>mb_ref_count := mb_ref_count m + 1\<rparr>, mb_ref_count m + 1)"

definition MemBufferDoDestroy :: "mem_buffer \<Rightarrow> mem_buffer option" where
  "MemBufferDoDestroy m = None"

definition MemBufferUnlock :: "mem_buffer \<Rightarrow> mem_buffer option \<times> int" where
  "MemBufferUnlock m = (let n = mb_ref_count m; m = m\<lparr>mb_ref_count := n - 1\<rparr> in
     if n > 0 then (Some m, mb_ref_count m) else (MemBufferDoDestroy m, - 1))"

definition MemBufferDestroy :: "mem_buffer \<Rightarrow> mem_buffer option \<times> int" where
  "MemBufferDestroy m = (let m = m\<lparr>mb_destroyed := True\<rparr>; n = mb_ref_count m; m = m\<lparr>mb_ref_count := n - 1\<rparr> in
     if n > 0 then (Some m, mb_ref_count m) else (MemBufferDoDestroy m, - 1))"

section \<open>Descriptors\<close>

text \<open>The outcome of \<open>read\<close>, \<open>pread\<close> and \<open>recv\<close> is the bytes read, or \<open>None\<close> for an error.\<close>

definition mb_add_read :: "mem_os \<Rightarrow> mem_buffer \<Rightarrow> ulong \<Rightarrow> byte list \<Rightarrow> mem_buffer result" where
  "mb_add_read os m data_sz bs = and_then (arr_copy (replicate (unat (data_sz + 1)) 0) 0 bs) (\<lambda>read_buffer.
     and_then (MemBufferAdd os m read_buffer (of_nat (length bs))) (\<lambda>(m, _). Inr m))"

definition MemBufferPReadFromFD :: "mem_os \<Rightarrow> mem_buffer \<Rightarrow> ulong \<Rightarrow> int \<Rightarrow> byte list option \<Rightarrow> (mem_buffer \<times> int) result" where
  "MemBufferPReadFromFD os m data_sz fd outcome =
     (if fd < 0 then Inr (m, 0)
      else case outcome of
          None \<Rightarrow> Inr (m, 0)
        | Some bs \<Rightarrow> and_then (mb_add_read os m data_sz bs) (\<lambda>m. Inr (m, int (length bs))))"

definition MemBufferReadFromFD :: "mem_os \<Rightarrow> mem_buffer \<Rightarrow> ulong \<Rightarrow> byte list option \<Rightarrow> (mem_buffer \<times> int) result" where
  "MemBufferReadFromFD os m data_sz outcome = (case outcome of
       None \<Rightarrow> Inr (m, 0)
     | Some bs \<Rightarrow> and_then (mb_add_read os m data_sz bs) (\<lambda>m. Inr (m, int (length bs))))"

definition MemBufferAppendFromFD :: "mem_os \<Rightarrow> mem_buffer \<Rightarrow> ulong \<Rightarrow> byte list option \<Rightarrow> (mem_buffer \<times> int) result" where
  "MemBufferAppendFromFD os m data_sz outcome = (case outcome of
       None \<Rightarrow> Inr (m, - 1)
     | Some bs \<Rightarrow> if bs = [] then Inr (m, 0)
         else and_then (mb_add_read os m data_sz bs) (\<lambda>m. Inr (m, int (length bs))))"

text \<open>Whole files: \<open>None\<close> for a file that cannot be opened, else its size and the outcome of the read.\<close>

definition MemBufferReadFromFile :: "mem_os \<Rightarrow> (ulong \<times> byte list option) option \<Rightarrow> mem_buffer option result" where
  "MemBufferReadFromFile os file = (case file of
       None \<Rightarrow> Inr None
     | Some (file_sz, outcome) \<Rightarrow> (case outcome of
           None \<Rightarrow> Inr None
         | Some bs \<Rightarrow> if of_nat (length bs) \<noteq> file_sz then Inr None
             else and_then (mb_add_read os (MemBufferNew False (sint (ucast file_sz :: 32 word))) file_sz bs) (\<lambda>m. Inr (Some m))))"

definition MemBufferAppendFromFile :: "mem_os \<Rightarrow> mem_buffer \<Rightarrow> (int \<times> byte list option) option \<Rightarrow> (mem_buffer \<times> int) result" where
  "MemBufferAppendFromFile os m file = (case file of
       None \<Rightarrow> Inr (m, 0)
     | Some (file_sz, outcome) \<Rightarrow> (case outcome of
           None \<Rightarrow> Inr (m, 0)
         | Some bs \<Rightarrow> if int (length bs) \<noteq> file_sz then Inr (m, 0)
             else and_then (mb_add_read os m (word_of_int file_sz) bs) (\<lambda>m. Inr (m, 1))))"

text \<open>\<open>MemBufferReadFromBigFile\<close> reads blocks of 2 MiB until it has the size of the file; the outcomes of the
  reads are a list, and a read beyond the list fails.\<close>

definition mb_block :: ulong where "mb_block = 1048576 * 2"

fun mb_read_blocks :: "mem_os \<Rightarrow> ulong \<Rightarrow> ulong \<Rightarrow> byte list \<Rightarrow> byte list option list \<Rightarrow> mem_buffer \<Rightarrow> mem_buffer option result" where
  "mb_read_blocks os file_sz bytes_offset read_buffer outcomes m =
     (if \<not> bytes_offset < file_sz then Inr (Some m)
      else case outcomes of
          Some bs # outcomes \<Rightarrow>
            if bs = [] then Inr (fst (MemBufferDestroy m))
            else and_then (arr_copy read_buffer 0 bs) (\<lambda>read_buffer.
              and_then (MemBufferAdd os m read_buffer (of_nat (length bs))) (\<lambda>(m, _).
              mb_read_blocks os file_sz (bytes_offset + of_nat (length bs)) read_buffer outcomes m))
        | _ \<Rightarrow> Inr (fst (MemBufferDestroy m)))"

definition MemBufferReadFromBigFile :: "mem_os \<Rightarrow> (ulong \<times> byte list option list) option \<Rightarrow> mem_buffer option result" where
  "MemBufferReadFromBigFile os file = (case file of
       None \<Rightarrow> Inr None
     | Some (file_sz, outcomes) \<Rightarrow>
         mb_read_blocks os file_sz 0 (replicate (unat (mb_block + 1)) 0) outcomes
           (MemBufferNew False (sint (ucast file_sz :: 32 word))))"

text \<open>\<open>write\<close> is a function from the bytes it is given to its result.\<close>

definition MemBufferAppendToFD :: "mem_buffer \<Rightarrow> int \<Rightarrow> (byte list \<Rightarrow> int) \<Rightarrow> int result" where
  "MemBufferAppendToFD m fd write =
     (if fd < 1 then Inr 0
      else let n = unat (MemBufferGetSize m); bs = mb_from m (Some (MemBufferDeref m)) in
        if length bs < n then Inl OutOfBounds else Inr (if write (take n bs) < 0 then 0 else write (take n bs)))"

definition MemBufferPWriteToFD :: "mem_buffer \<Rightarrow> ulong \<Rightarrow> int \<Rightarrow> (byte list \<Rightarrow> int) \<Rightarrow> int result" where
  "MemBufferPWriteToFD m offset file_fd write =
     (if file_fd < 0 then Inr 0
      else if offset > MemBufferGetSize m then Inr 0
      else let n = unat (MemBufferGetSize m - offset); bs = mb_from m (Some (MemBufferDeref m + offset)) in
        if length bs < n then Inl OutOfBounds else Inr (if write (take n bs) < 0 then 0 else write (take n bs)))"


section \<open>What the operations do\<close>

text \<open>The bytes a buffer holds, and when its sizes fit its memory.\<close>

definition mb_sized :: "mem_buffer \<Rightarrow> bool" where
  "mb_sized m \<longleftrightarrow> mb_size m \<le> mb_capacity m \<and> unat (mb_capacity m) \<le> length (mb_data m) \<and> (mb_capacity m = 0 \<longrightarrow> mb_data m = [])"

definition mb_bytes :: "mem_buffer \<Rightarrow> byte list" where
  "mb_bytes m = take (unat (mb_size m)) (mb_data m)"

text \<open>\<open>mb_is m bs\<close>: a well-formed buffer that nobody has locked holds \<open>bs\<close>.\<close>

definition mb_is :: "mem_buffer \<Rightarrow> byte list \<Rightarrow> bool" where
  "mb_is m bs \<longleftrightarrow> mb_sized m \<and> \<not> mb_held m \<and> \<not> mb_readonly m \<and> mb_bytes m = bs"

lemma unat_ucast_32_64: "unat (ucast (g :: 32 word) :: 64 word) = unat g"
proof -
  have "unat g < 2 ^ 64" by (rule order.strict_trans [OF unsigned_less]) simp
  then show ?thesis by (simp add: unsigned_ucast_eq take_bit_nat_eq_self)
qed

lemma unat_64: "unat (c :: 64 word) < 2 ^ 64"
  by (rule order_less_le_trans [OF unsigned_less]) simp

lemma uint_of_unat: "unat w = k \<Longrightarrow> uint w = int k"
  by (drule sym) simp

lemma mb_sized_length: "mb_sized m \<Longrightarrow> length (mb_bytes m) = unat (mb_size m)"
  by (auto simp: mb_sized_def mb_bytes_def word_le_nat_alt)

lemma mb_isD:
  assumes "mb_is m bs"
  shows "mb_sized m" "\<not> mb_held m" "\<not> mb_readonly m" "mb_bytes m = bs" "unat (mb_size m) = length bs"
    "length bs \<le> unat (mb_capacity m)" "unat (mb_capacity m) \<le> length (mb_data m)" "take (length bs) (mb_data m) = bs"
  using assms mb_sized_length [of m] by (auto simp: mb_is_def mb_sized_def mb_bytes_def word_le_nat_alt)

lemma MemBufferNew_is: "mb_is (MemBufferNew ts g) []"
  by (simp add: mb_is_def mb_sized_def mb_bytes_def MemBufferNew_def)

lemma mb_hide_id [simp]: "mb_hide os m = m"
  by (cases m) (simp add: mb_hide_def MemBufferNoCoreOnCrash_def)

lemma mb_wire: "\<exists>w. fst (MemBufferWirePages os m) = m\<lparr>mb_wired := w\<rparr>"
  by (cases m) (auto simp: MemBufferWirePages_def Let_def)

lemma mb_rewire_eq: "\<exists>w. mb_rewire os m = m\<lparr>mb_wired := w\<rparr>"
proof -
  obtain w where "fst (MemBufferWirePages os (m\<lparr>mb_wired := False\<rparr>)) = m\<lparr>mb_wired := w\<rparr>" using mb_wire [of os "m\<lparr>mb_wired := False\<rparr>"] by auto
  then show ?thesis by (cases m) (auto simp: mb_rewire_def MemBufferUnwirePages_def)
qed

text \<open>The memory after a growth: the bytes within the capacity stay, the new ones are zero.\<close>

definition mb_full :: "mem_buffer \<Rightarrow> ulong \<Rightarrow> bool" where
  "mb_full m n \<longleftrightarrow> mb_capacity m = 0 \<or> unat (mb_capacity m) \<le> unat (mb_size m) + unat n"

definition mb_fits :: "mem_buffer \<Rightarrow> ulong \<Rightarrow> bool" where
  "mb_fits m n \<longleftrightarrow> unat (mb_capacity m) + unat (mb_grow_rate m) + unat n < 2 ^ 64"

lemma MemBufferCheckForGrow_spec:
  assumes "mb_sized m" "mb_fits m n"
  shows "\<exists>w c. MemBufferCheckForGrow os m n =
      Inr (m\<lparr>mb_data := (if mb_full m n then take (unat (mb_capacity m)) (mb_data m) @ replicate (unat (mb_grow_rate m) + unat n) 0 else mb_data m),
             mb_capacity := c, mb_wired := w\<rparr>) \<and>
    unat c = (if mb_full m n then unat (mb_capacity m) + unat (mb_grow_rate m) + unat n else unat (mb_capacity m)) \<and>
    unat (mb_size m) + unat n \<le> unat c"
proof -
  define need :: ulong where "need = ucast (mb_grow_rate m) + n"
  have g: "unat (ucast (mb_grow_rate m) :: ulong) = unat (mb_grow_rate m)" by (rule unat_ucast_32_64)
  have need: "unat need = unat (mb_grow_rate m) + unat n"
    using assms(2) by (simp add: need_def unat_add_small g mb_fits_def)
  have c: "unat (mb_capacity m + need) = unat (mb_capacity m) + unat (mb_grow_rate m) + unat n"
    using assms(2) need by (simp add: unat_add_small mb_fits_def)
  have le: "unat (mb_size m) \<le> unat (mb_capacity m)" "unat (mb_capacity m) \<le> length (mb_data m)"
    using assms(1) by (simp_all add: mb_sized_def word_le_nat_alt)
  have sz: "unat (mb_size m + n) = unat (mb_size m) + unat n"
    using assms(2) le(1) by (intro unat_add_small) (simp add: mb_fits_def)
  show ?thesis
  proof (cases "mb_capacity m = 0")
    case True
    define m1 where "m1 = m\<lparr>mb_data := replicate (unat need) 0, mb_capacity := need\<rparr>"
    obtain w where w: "fst (MemBufferWirePages os (m1\<lparr>mb_wired := False\<rparr>)) = m1\<lparr>mb_wired := w\<rparr>"
      using mb_wire [of os "m1\<lparr>mb_wired := False\<rparr>"] by auto
    have "MemBufferCheckForGrow os m n = Inr (m1\<lparr>mb_wired := (if mb_wired m then w else mb_wired m)\<rparr>)"
      using True w by (cases m) (auto simp: MemBufferCheckForGrow_def Let_def m1_def need_def)
    then show ?thesis using True assms(1) c need le(1)
      by (intro exI [of _ "if mb_wired m then w else mb_wired m"] exI [of _ need]) (simp add: m1_def mb_full_def mb_sized_def)
  next
    case False
    show ?thesis
    proof (cases "mb_full m n")
      case True
      then have le2: "mb_capacity m \<le> mb_size m + n" using False sz by (simp add: mb_full_def word_le_nat_alt)
      define xs where "xs = arr_realloc (os_junk os) (mb_data m) (uint (mb_capacity m + need))"
      obtain w where w: "mb_rewire os (m\<lparr>mb_data := xs\<rparr>) = m\<lparr>mb_data := xs, mb_wired := w\<rparr>" using mb_rewire_eq [of os "m\<lparr>mb_data := xs\<rparr>"] by auto
      have fill: "arr_fill xs (uint (mb_capacity m)) (uint need) 0 = Inr (take (unat (mb_capacity m)) (mb_data m) @ replicate (unat need) 0)"
        using le(2) c need by (simp add: arr_fill_def xs_def) (simp add: arr_realloc_def)
      have "MemBufferCheckForGrow os m n = Inr (m\<lparr>mb_data := take (unat (mb_capacity m)) (mb_data m) @ replicate (unat need) 0,
          mb_capacity := mb_capacity m + need, mb_wired := w\<rparr>)"
        using False le2 w fill by (simp add: MemBufferCheckForGrow_def Let_def flip: need_def xs_def)
      then show ?thesis using True c need le(1) by (intro exI [of _ w] exI [of _ "mb_capacity m + need"]) simp
    next
      case full: False
      then have "\<not> mb_capacity m \<le> mb_size m + n" using False sz by (simp add: mb_full_def word_le_nat_alt)
      then have "MemBufferCheckForGrow os m n = Inr m" using False by (simp add: MemBufferCheckForGrow_def Let_def)
      then show ?thesis using full False
        by (intro exI [of _ "mb_wired m"] exI [of _ "mb_capacity m"]) (cases m, auto simp: mb_full_def)
    qed
  qed
qed


lemma mb_enter_free: "\<not> mb_held m \<Longrightarrow> \<exists>b. mb_enter m = Inr (m\<lparr>mb_held := mb_thread_safe m, mb_busy_flags := b\<rparr>)"
  by (cases m) (auto simp: mb_enter_def MemBufferEnterCritical_def)

lemma mb_leave_eq: "mb_held m = mb_thread_safe m \<Longrightarrow> \<exists>b. mb_leave m = m\<lparr>mb_held := False, mb_busy_flags := b\<rparr>"
  by (cases m) (auto simp: mb_leave_def MemBufferLeaveCritical_def mutex_unlock_def)

text \<open>What every operation keeps: the kind of buffer, its growth rate, and the reading position.\<close>

definition mb_kept :: "mem_buffer \<Rightarrow> mem_buffer \<Rightarrow> bool" where
  "mb_kept m m' \<longleftrightarrow> mb_thread_safe m' = mb_thread_safe m \<and> mb_grow_rate m' = mb_grow_rate m \<and> mb_offset m' = mb_offset m \<and>
     mb_ref_count m' = mb_ref_count m"

lemma mb_kept_refl [simp]: "mb_kept m m"
  by (simp add: mb_kept_def)

text \<open>The bytes after the contents, up to what a growth leaves.\<close>

definition mb_grown :: "mem_buffer \<Rightarrow> ulong \<Rightarrow> byte list" where
  "mb_grown m n = (if mb_full m n then take (unat (mb_capacity m)) (mb_data m) @ replicate (unat (mb_grow_rate m) + unat n) 0 else mb_data m)"

lemma MemBufferAdd_spec:
  assumes "mb_is m bs" "n = of_nat (length ds)" "unat (mb_capacity m) + unat (mb_grow_rate m) + length ds + 1 < 2 ^ 64"
  shows "\<exists>m'. MemBufferAdd os m (ds @ es) n = Inr (m', mb_size m') \<and> mb_is m' (bs @ ds) \<and> mb_kept m m' \<and>
    mb_data m' = bs @ ds @ drop (length bs + length ds) (mb_grown m (n + 1)) \<and> length bs + length ds < unat (mb_capacity m') \<and>
    unat (mb_capacity m') \<le> unat (mb_capacity m) + unat (mb_grow_rate m) + length ds + 1"
proof -
  note I = mb_isD [OF assms(1)]
  have n: "unat n = length ds" using assms(2,3) by (simp add: unat_of_nat)
  have n1: "unat (n + 1) = Suc (length ds)" using assms(3) n by (simp add: unat_add_small)
  obtain b where enter: "mb_enter m = Inr (m\<lparr>mb_held := mb_thread_safe m, mb_busy_flags := b\<rparr>)" using mb_enter_free [OF I(2)] by blast
  define m1 where "m1 = m\<lparr>mb_held := mb_thread_safe m, mb_busy_flags := b\<rparr>"
  have m1: "mb_sized m1" "mb_fits m1 (n + 1)" "mb_full m1 (n + 1) = mb_full m (n + 1)"
    using I(1) assms(3) n1 by (simp_all add: m1_def mb_sized_def mb_fits_def mb_full_def)
  obtain w c where grow: "MemBufferCheckForGrow os m1 (n + 1) = Inr (m1\<lparr>mb_data := mb_grown m (n + 1), mb_capacity := c, mb_wired := w\<rparr>)"
    and c: "unat c = (if mb_full m (n + 1) then unat (mb_capacity m) + unat (mb_grow_rate m) + Suc (length ds) else unat (mb_capacity m))"
      "length bs + Suc (length ds) \<le> unat c"
    using MemBufferCheckForGrow_spec [OF m1(1,2), of os] n1 m1(3) I(5) unfolding mb_grown_def by (auto simp: m1_def)
  have len: "unat c \<le> length (mb_grown m (n + 1))" "take (length bs) (mb_grown m (n + 1)) = bs"
    using c(1) I(6-8) n1 by (auto simp: mb_grown_def min_def)
  define xs where "xs = bs @ ds @ drop (length bs + length ds) (mb_grown m (n + 1))"
  have copy: "mem_copy (mb_grown m (n + 1)) (uint (mb_size m)) (ds @ es) (uint n) = Inr xs"
  proof -
    have "uint n = int (length ds)" "uint (mb_size m) = int (length bs)" using uint_of_unat [OF n] uint_of_unat [OF I(5)] .
    then show ?thesis using len c(2) by (simp add: mem_copy_def arr_copy_def xs_def)
  qed
  have size: "unat (mb_size m + n) = length bs + length ds"
  proof -
    have "unat (mb_size m) + unat n < 2 ^ 64" using c(2) I(5) n unat_64 [of c] by simp
    then show ?thesis using I(5) n by (simp add: unat_add_small)
  qed
  define m2 where "m2 = m1\<lparr>mb_capacity := c, mb_wired := w, mb_data := xs, mb_size := mb_size m + n\<rparr>"
  have "mb_held m2 = mb_thread_safe m2" by (simp add: m2_def m1_def)
  then obtain b2 where leave: "mb_leave m2 = m2\<lparr>mb_held := False, mb_busy_flags := b2\<rparr>" using mb_leave_eq by blast
  define m' where "m' = m2\<lparr>mb_held := False, mb_busy_flags := b2\<rparr>"
  have "MemBufferAdd os m (ds @ es) n = Inr (m', mb_size m')"
    using I(3) grow copy leave by (simp add: MemBufferAdd_def enter Let_def flip: m1_def) (simp add: m1_def m2_def m'_def)
  moreover have "mb_is m' (bs @ ds)"
    using I(3) size c(2) len by (auto simp: mb_is_def mb_sized_def mb_bytes_def m'_def m2_def m1_def xs_def word_le_nat_alt)
  moreover have "mb_kept m m'" "mb_data m' = xs" "mb_capacity m' = c" by (simp_all add: mb_kept_def m'_def m2_def m1_def)
  ultimately show ?thesis using c by (auto simp: xs_def)
qed

end
