(* ===== verification/MemBufferProps.thy ===== *)
theory MemBufferProps
  imports MemBuffer
begin

text \<open>
  MemBuffer: what the operations do to the bytes of a buffer, runs of operations as functions on byte lists,
  and copies, overwriting and cutting where the reading position or the size goes astray.
\<close>

section \<open>Operations on the contents\<close>

lemma mb_isI:
  assumes "\<not> mb_held m" "\<not> mb_readonly m" "unat (mb_size m) = length bs" "length bs \<le> unat (mb_capacity m)"
    "unat (mb_capacity m) \<le> length (mb_data m)" "take (length bs) (mb_data m) = bs" "mb_capacity m = 0 \<Longrightarrow> mb_data m = []"
  shows "mb_is m bs"
  using assms by (simp add: mb_is_def mb_sized_def mb_bytes_def word_le_nat_alt)

text \<open>\<open>mb_roomy m k\<close>: the capacity may still grow by \<open>k\<close> bytes.\<close>

definition mb_roomy :: "mem_buffer \<Rightarrow> nat \<Rightarrow> bool" where
  "mb_roomy m k \<longleftrightarrow> unat (mb_capacity m) + k < 2 ^ 64"

lemma unat_32: "unat (g :: 32 word) < 2 ^ 32"
  by (rule order_less_le_trans [OF unsigned_less]) simp

lemma mb_roomy_room: "mb_roomy m (2 ^ 32 + k) \<Longrightarrow> unat (mb_capacity m) + unat (mb_grow_rate m) + k < 2 ^ 64"
  using unat_32 [of "mb_grow_rate m"] by (simp add: mb_roomy_def)

lemma MemBufferPutNULLTerminator_spec:
  assumes "mb_is m bs" "mb_roomy m (2 ^ 32 + 2)"
  shows "\<exists>m'. MemBufferPutNULLTerminator os m = Inr m' \<and> mb_is m' bs \<and> mb_kept m m' \<and>
    length bs < unat (mb_capacity m') \<and> mb_data m' ! length bs = 0 \<and>
    unat (mb_capacity m') \<le> unat (mb_capacity m) + (2 ^ 32 + 2)"
proof -
  note I = mb_isD [OF assms(1)]
  have room: "unat (mb_capacity m) + unat (mb_grow_rate m) + length [0 :: byte] + 1 < 2 ^ 64"
    using mb_roomy_room [OF assms(2)] by simp
  obtain m1 where m1: "MemBufferAdd os m ([0] @ []) 1 = Inr (m1, mb_size m1)" "mb_is m1 (bs @ [0])" "mb_kept m m1"
    "length bs + 1 < unat (mb_capacity m1)" "unat (mb_capacity m1) \<le> unat (mb_capacity m) + unat (mb_grow_rate m) + 2"
    "mb_data m1 = bs @ [0] @ drop (length bs + 1) (mb_grown m 2)"
    using MemBufferAdd_spec [OF assms(1) _ room, of 1 os "[]"] by auto
  note J = mb_isD [OF m1(2)]
  have size: "unat (mb_size m1 - 1) = length bs"
  proof -
    have "mb_size m1 \<noteq> 0" using J(5) by auto
    then show ?thesis using J(5) by (simp add: unat_minus_one)
  qed
  have "mb_is (m1\<lparr>mb_size := mb_size m1 - 1\<rparr>) bs"
    using J size m1(4,6) by (intro mb_isI) auto
  moreover have "MemBufferPutNULLTerminator os m = Inr (m1\<lparr>mb_size := mb_size m1 - 1\<rparr>)"
    using m1(1) by (simp add: MemBufferPutNULLTerminator_def)
  ultimately show ?thesis using m1(3-6) unat_32 [of "mb_grow_rate m"] by (auto simp: mb_kept_def)
qed

lemma MemBufferClean_spec:
  assumes "mb_is m bs"
  shows "\<exists>m'. MemBufferClean m = Inr (m', 1) \<and> mb_is m' [] \<and> mb_thread_safe m' = mb_thread_safe m \<and>
    mb_grow_rate m' = mb_grow_rate m \<and> mb_offset m' = 0 \<and> mb_capacity m' = mb_capacity m"
proof -
  note I = mb_isD [OF assms]
  obtain b where enter: "mb_enter m = Inr (m\<lparr>mb_held := mb_thread_safe m, mb_busy_flags := b\<rparr>)" using mb_enter_free [OF I(2)] by blast
  define xs where "xs = replicate (length bs) 0 @ drop (length bs) (mb_data m)"
  have fill: "arr_fill (mb_data m) 0 (uint (mb_size m)) 0 = Inr xs"
    using I(5-7) uint_of_unat [OF I(5)] by (simp add: arr_fill_def xs_def)
  define m1 where "m1 = m\<lparr>mb_held := mb_thread_safe m, mb_busy_flags := b, mb_data := xs, mb_size := 0, mb_offset := 0, mb_wired := False\<rparr>"
  have unwire: "fst (MemBufferUnwirePages (m\<lparr>mb_held := mb_thread_safe m, mb_busy_flags := b, mb_data := xs, mb_size := 0, mb_offset := 0\<rparr>)) = m1"
    by (cases m) (simp add: MemBufferUnwirePages_def m1_def)
  have "mb_held m1 = mb_thread_safe m1" by (simp add: m1_def)
  then obtain b2 where leave: "mb_leave m1 = m1\<lparr>mb_held := False, mb_busy_flags := b2\<rparr>" using mb_leave_eq by blast
  have "MemBufferClean m = Inr (m1\<lparr>mb_held := False, mb_busy_flags := b2\<rparr>, 1)"
    using fill leave unwire by (simp add: MemBufferClean_def enter Let_def)
  moreover have "mb_is (m1\<lparr>mb_held := False, mb_busy_flags := b2\<rparr>) []"
    using I by (intro mb_isI) (auto simp: m1_def xs_def mb_sized_def)
  ultimately show ?thesis by (auto simp: m1_def)
qed

lemma MemBufferRemoveLastChar_spec:
  assumes "mb_is m bs" "mb_offset m = 0"
  shows "\<exists>m'. MemBufferRemoveLastChar m = Inr m' \<and> mb_is m' (butlast bs) \<and> mb_thread_safe m' = mb_thread_safe m \<and>
    mb_grow_rate m' = mb_grow_rate m \<and> mb_offset m' = 0 \<and> mb_capacity m' = mb_capacity m"
proof -
  note I = mb_isD [OF assms(1)]
  consider "mb_size m = 0" | "mb_size m = 1" | "mb_size m \<noteq> 0" "mb_size m \<noteq> 1" by blast
  then show ?thesis
  proof cases
    case 1
    then show ?thesis using assms I(5) by (simp add: MemBufferRemoveLastChar_def)
  next
    case 2
    then have "butlast bs = []" using I(5) by (cases bs) auto
    then show ?thesis using 2 MemBufferClean_spec [OF assms(1)] by (auto simp: MemBufferRemoveLastChar_def)
  next
    case 3
    have size: "unat (mb_size m - 1) = length bs - 1" using 3(1) I(5) by (simp add: unat_minus_one)
    have ne: "bs \<noteq> []" using 3(1) I(5) by (auto simp: unat_eq_zero)
    have u: "uint (mb_size m - 1) = int (length bs - 1)" by (rule uint_of_unat [OF size])
    have "length bs - 1 < length (mb_data m)" using ne I(6,7) by (cases bs) auto
    then have "MemBufferRemoveLastChar m = Inr (m\<lparr>mb_data := (mb_data m)[length bs - 1 := 0], mb_size := mb_size m - 1\<rparr>)"
      using 3 u by (simp add: MemBufferRemoveLastChar_def)
    moreover have "take (length bs - 1) (mb_data m) = butlast bs"
      using I(8) by (metis butlast_conv_take length_take min.absorb1 diff_le_self take_take)
    then have "mb_is (m\<lparr>mb_data := (mb_data m)[length bs - 1 := 0], mb_size := mb_size m - 1\<rparr>) (butlast bs)"
      using I size ne by (intro mb_isI) (auto simp: mb_sized_def)
    ultimately show ?thesis using assms(2) by auto
  qed
qed

lemma MemBufferShrink_spec:
  assumes "mb_is m bs" "mb_roomy m (2 ^ 32 + 2)"
  shows "\<exists>m'. MemBufferShrink os m = Inr (m', c_bool (1 < length bs)) \<and> mb_is m' bs \<and> mb_kept m m' \<and>
    unat (mb_capacity m') \<le> unat (mb_capacity m) + (2 ^ 32 + 2)"
proof -
  obtain m1 where m1: "MemBufferPutNULLTerminator os m = Inr m1" "mb_is m1 bs" "mb_kept m m1"
    "length bs < unat (mb_capacity m1)" "unat (mb_capacity m1) \<le> unat (mb_capacity m) + (2 ^ 32 + 2)"
    using MemBufferPutNULLTerminator_spec [OF assms, of os] by blast
  note I = mb_isD [OF m1(2)]
  show ?thesis
  proof (cases "mb_size m1 \<le> 1")
    case True
    then have "\<not> 1 < length bs" using I(5) by (simp add: word_le_nat_alt)
    then show ?thesis using True m1 by (simp add: MemBufferShrink_def)
  next
    case False
    then have big: "1 < length bs" using I(5) by (simp add: word_le_nat_alt)
    have "unat (mb_size m1 + 1) = Suc (length bs)"
      using I(5) m1(4) unat_64 [of "mb_capacity m1"] by (simp add: unat_add_small)
    then have "arr_realloc (os_junk os) (mb_data m1) (uint (mb_size m1 + 1)) = take (Suc (length bs)) (mb_data m1)"
      using m1(4) I(7) by (simp add: arr_realloc_def)
    moreover obtain w where "mb_rewire os (m1\<lparr>mb_data := take (Suc (length bs)) (mb_data m1), mb_capacity := mb_size m1\<rparr>) =
        m1\<lparr>mb_data := take (Suc (length bs)) (mb_data m1), mb_capacity := mb_size m1, mb_wired := w\<rparr>"
      using mb_rewire_eq [of os "m1\<lparr>mb_data := take (Suc (length bs)) (mb_data m1), mb_capacity := mb_size m1\<rparr>"] by auto
    ultimately have "MemBufferShrink os m = Inr (m1\<lparr>mb_data := take (Suc (length bs)) (mb_data m1), mb_capacity := mb_size m1, mb_wired := w\<rparr>, 1)"
      using m1(1) False by (simp add: MemBufferShrink_def)
    moreover have "mb_is (m1\<lparr>mb_data := take (Suc (length bs)) (mb_data m1), mb_capacity := mb_size m1, mb_wired := w\<rparr>) bs"
      using I m1(4) big by (intro mb_isI) (auto simp flip: unat_eq_zero)
    ultimately show ?thesis using m1(3-5) I(5) big by (auto simp: mb_kept_def)
  qed
qed

section \<open>Runs\<close>

datatype mb_op = MbAdd "byte list" | MbAppendNULL | MbTerminate | MbRemoveLast | MbClean | MbShrink

fun mb_exec :: "mem_os \<Rightarrow> mb_op \<Rightarrow> mem_buffer \<Rightarrow> mem_buffer result" where
  "mb_exec os (MbAdd ds) m = and_then (MemBufferAdd os m ds (of_nat (length ds))) (\<lambda>(m, _). Inr m)"
| "mb_exec os MbAppendNULL m = and_then (MemBufferAppendNULL os m) (\<lambda>(m, _). Inr m)"
| "mb_exec os MbTerminate m = MemBufferPutNULLTerminator os m"
| "mb_exec os MbRemoveLast m = MemBufferRemoveLastChar m"
| "mb_exec os MbClean m = and_then (MemBufferClean m) (\<lambda>(m, _). Inr m)"
| "mb_exec os MbShrink m = and_then (MemBufferShrink os m) (\<lambda>(m, _). Inr m)"

fun mb_spec :: "mb_op \<Rightarrow> byte list \<Rightarrow> byte list" where
  "mb_spec (MbAdd ds) bs = bs @ ds"
| "mb_spec MbAppendNULL bs = bs @ [0]"
| "mb_spec MbTerminate bs = bs"
| "mb_spec MbRemoveLast bs = butlast bs"
| "mb_spec MbClean bs = []"
| "mb_spec MbShrink bs = bs"

text \<open>A bound of what an operation adds to the capacity; the growth rate is below \<open>2 ^ 32\<close>.\<close>

fun mb_cost :: "mb_op \<Rightarrow> nat" where
  "mb_cost (MbAdd ds) = 2 ^ 32 + length ds + 1"
| "mb_cost _ = 2 ^ 32 + 2"

lemma mb_exec_spec:
  assumes "mb_is m bs" "mb_offset m = 0" "mb_roomy m (mb_cost op)"
  shows "\<exists>m'. mb_exec os op m = Inr m' \<and> mb_is m' (mb_spec op bs) \<and> mb_offset m' = 0 \<and>
    unat (mb_capacity m') \<le> unat (mb_capacity m) + mb_cost op"
proof (cases op)
  case (MbAdd ds)
  have "unat (mb_capacity m) + unat (mb_grow_rate m) + length ds + 1 < 2 ^ 64"
    using assms(3) mb_roomy_room [of m "length ds + 1"] MbAdd by simp
  from MemBufferAdd_spec [OF assms(1) refl this, of os "[]"] show ?thesis
    using MbAdd assms(2) unat_32 [of "mb_grow_rate m"] by (auto simp: mb_kept_def)
next
  case MbAppendNULL
  have "unat (mb_capacity m) + unat (mb_grow_rate m) + length [0 :: byte] + 1 < 2 ^ 64"
    using assms(3) mb_roomy_room [of m 2] MbAppendNULL by simp
  from MemBufferAdd_spec [OF assms(1) _ this, of 1 os "[]"] show ?thesis
    using MbAppendNULL assms(2) unat_32 [of "mb_grow_rate m"] by (auto simp: mb_kept_def MemBufferAppendNULL_def)
next
  case MbTerminate
  then show ?thesis using MemBufferPutNULLTerminator_spec [OF assms(1), of os] assms(2,3) by (auto simp: mb_kept_def)
next
  case MbRemoveLast
  then show ?thesis using MemBufferRemoveLastChar_spec [OF assms(1,2)] by auto
next
  case MbClean
  then show ?thesis using MemBufferClean_spec [OF assms(1)] by auto
next
  case MbShrink
  then show ?thesis using MemBufferShrink_spec [OF assms(1), of os] assms(2,3) by (auto simp: mb_kept_def)
qed

lemma mb_run_spec:
  assumes "mb_is m bs" "mb_offset m = 0" "mb_roomy m (sum_list (map mb_cost ops))"
  shows "\<exists>m'. for_each (mb_exec os) ops m = Inr m' \<and> mb_is m' (fold mb_spec ops bs) \<and> mb_offset m' = 0 \<and>
    unat (mb_capacity m') \<le> unat (mb_capacity m) + sum_list (map mb_cost ops)"
  using assms
proof (induction ops arbitrary: m bs)
  case (Cons op ops)
  have "mb_roomy m (mb_cost op)" using Cons.prems(3) by (simp add: mb_roomy_def)
  then obtain m1 where m1: "mb_exec os op m = Inr m1" "mb_is m1 (mb_spec op bs)" "mb_offset m1 = 0"
    "unat (mb_capacity m1) \<le> unat (mb_capacity m) + mb_cost op"
    using mb_exec_spec [OF Cons.prems(1,2)] by blast
  then have "mb_roomy m1 (sum_list (map mb_cost ops))" using Cons.prems(3) by (simp add: mb_roomy_def)
  from Cons.IH [OF m1(2,3) this] m1 show ?case by auto
qed simp


section \<open>Overwriting\<close>

text \<open>Growth by \<open>e + 1\<close>, then a copy that ends at \<open>e\<close> at the latest.\<close>

lemma mb_grow_copy:
  assumes "mb_is m bs" "unat off = i" "length ds = unat n" "i \<le> length bs"
    and room: "mb_roomy m (2 ^ 32 + (i + length ds + 1))"
  shows "\<exists>w c. MemBufferCheckForGrow os m (off + n + 1) = Inr (m\<lparr>mb_data := mb_grown m (off + n + 1), mb_capacity := c, mb_wired := w\<rparr>) \<and>
    length bs + i + length ds < unat c \<and> unat c \<le> length (mb_grown m (off + n + 1)) \<and>
    mem_copy (mb_grown m (off + n + 1)) (int i) ds (uint n) = Inr (take i bs @ ds @ drop (i + length ds) (mb_grown m (off + n + 1))) \<and>
    take (length bs) (mb_grown m (off + n + 1)) = bs \<and> unat (off + n) = i + length ds"
proof -
  note I = mb_isD [OF assms(1)]
  have e: "unat (off + n) = i + length ds" using assms(2,3) room by (simp add: unat_add_small mb_roomy_def)
  have e1: "unat (off + n + 1) = i + length ds + 1" using e room by (simp add: unat_add_small mb_roomy_def)
  have "mb_fits m (off + n + 1)"
    using mb_roomy_room [OF room] unfolding mb_fits_def e1 by simp
  from MemBufferCheckForGrow_spec [OF I(1) this, of os] obtain w c where
    grow: "MemBufferCheckForGrow os m (off + n + 1) = Inr (m\<lparr>mb_data := mb_grown m (off + n + 1), mb_capacity := c, mb_wired := w\<rparr>)"
    and c: "unat c = (if mb_full m (off + n + 1) then unat (mb_capacity m) + unat (mb_grow_rate m) + unat (off + n + 1) else unat (mb_capacity m))"
      "length bs + (i + length ds + 1) \<le> unat c"
    unfolding mb_grown_def e1 I(5) by blast
  define D where "D = mb_grown m (off + n + 1)"
  have D: "unat c \<le> length D" "take (length bs) D = bs"
    using c(1) I(6-8) by (auto simp: D_def mb_grown_def min_def)
  have "take i D = take i bs" using D(2) assms(4) by (metis min.absorb1 take_take)
  then have "mem_copy D (int i) ds (uint n) = Inr (take i bs @ ds @ drop (i + length ds) D)"
    using D(1) c(2) uint_of_unat [OF assms(3) [symmetric]] by (simp add: mem_copy_def arr_copy_def)
  then show ?thesis using grow c(2) D e unfolding D_def by (intro exI [of _ w] exI [of _ c]) simp
qed

lemma take_written:
  assumes "take (length bs) D = bs" "i \<le> length bs" "length bs + i + length ds < length D"
  shows "take (max (length bs) (i + length ds)) (take i bs @ ds @ drop (i + length ds) D) = take i bs @ ds @ drop (i + length ds) bs"
proof -
  have "take (length bs - (i + length ds)) (drop (i + length ds) D) = drop (i + length ds) bs"
    using assms(1) by (metis drop_take)
  then show ?thesis using assms(2) by (cases "length bs \<le> i + length ds") (simp_all add: max_def min_def)
qed

lemma MemBufferOffsetWrite_spec:
  assumes "mb_is m bs" "mb_offset m = 0" "unat off = i" "length ds = unat n" "i \<le> length bs"
    and room: "mb_roomy m (2 ^ 32 + (i + length ds + 1))"
  shows "\<exists>m'. MemBufferOffsetWrite os m off ds n = Inr (m', 1) \<and> mb_is m' (take i bs @ ds @ drop (i + length ds) bs)"
proof -
  note I = mb_isD [OF assms(1)]
  define D where "D = mb_grown m (off + n + 1)"
  obtain w c where G: "MemBufferCheckForGrow os m (off + n + 1) = Inr (m\<lparr>mb_data := D, mb_capacity := c, mb_wired := w\<rparr>)"
    "length bs + i + length ds < unat c" "unat c \<le> length D" "mem_copy D (int i) ds (uint n) = Inr (take i bs @ ds @ drop (i + length ds) D)"
    "take (length bs) D = bs" "unat (off + n) = i + length ds"
    using mb_grow_copy [OF assms(1,3,4,5) room, of os] unfolding D_def by blast
  have "\<not> off > c" using G(2) assms(3) by (simp add: word_less_nat_alt)
  then have ptr: "MemBufferOffsetDeref (m\<lparr>mb_data := D, mb_capacity := c, mb_wired := w\<rparr>) off = Some off"
    using assms(2) by (simp add: MemBufferOffsetDeref_def MemBufferGetCapacity_def MemBufferDeref_def)
  define sz where "sz = (if off + n < mb_size m then mb_size m else off + n)"
  have sz: "unat sz = max (length bs) (i + length ds)" using G(6) I(5) by (auto simp: sz_def word_less_nat_alt)
  define m' where "m' = m\<lparr>mb_capacity := c, mb_wired := w, mb_data := take i bs @ ds @ drop (i + length ds) D, mb_size := sz\<rparr>"
  have "MemBufferOffsetWrite os m off ds n = Inr (m', 1)"
    using G(1,4) ptr uint_of_unat [OF assms(3)] by (simp add: MemBufferOffsetWrite_def Let_def m'_def sz_def)
  moreover have "mb_is m' (take i bs @ ds @ drop (i + length ds) bs)"
  proof (rule mb_isI)
    have len: "length (take i bs @ ds @ drop (i + length ds) bs) = max (length bs) (i + length ds)" using assms(5) by auto
    show "unat (mb_size m') = length (take i bs @ ds @ drop (i + length ds) bs)" using sz len by (simp add: m'_def)
    show "take (length (take i bs @ ds @ drop (i + length ds) bs)) (mb_data m') = take i bs @ ds @ drop (i + length ds) bs"
      using take_written [OF G(5) assms(5), of ds] G(2,3) unfolding len by (simp add: m'_def)
    show "length (take i bs @ ds @ drop (i + length ds) bs) \<le> unat (mb_capacity m')" using G(2) len by (simp add: m'_def)
    show "unat (mb_capacity m') \<le> length (mb_data m')" using G(2,3) assms(5) by (simp add: m'_def)
    show "mb_capacity m' = 0 \<Longrightarrow> mb_data m' = []" using G(2) by (simp add: m'_def)
  qed (use I in \<open>simp_all add: m'_def\<close>)
  ultimately show ?thesis by blast
qed

lemma MemBufferOverwrite_spec:
  assumes "mb_is m bs" "unat off = i" "length ds = unat n" "i \<le> length bs"
    and room: "mb_roomy m (2 ^ 32 + (i + length ds + 1))"
  shows "\<exists>m'. MemBufferOverwrite os m ds off n = Inr (m', mb_size m') \<and> unat (mb_size m') = length bs + (i + length ds) \<and>
    take (max (length bs) (i + length ds)) (mb_data m') = take i bs @ ds @ drop (i + length ds) bs"
proof -
  note I = mb_isD [OF assms(1)]
  obtain b where enter: "mb_enter m = Inr (m\<lparr>mb_held := mb_thread_safe m, mb_busy_flags := b\<rparr>)" using mb_enter_free [OF I(2)] by blast
  define m0 where "m0 = m\<lparr>mb_busy_flags := b\<rparr>"
  have m0: "mb_is m0 bs" "mb_roomy m0 (2 ^ 32 + (i + length ds + 1))"
    using assms(1) room by (simp_all add: m0_def mb_is_def mb_sized_def mb_bytes_def mb_roomy_def)
  define m1 where "m1 = m\<lparr>mb_held := mb_thread_safe m, mb_busy_flags := b\<rparr>"
  define D where "D = mb_grown m0 (off + n + 1)"
  obtain w c where G: "MemBufferCheckForGrow os m0 (off + n + 1) = Inr (m0\<lparr>mb_data := D, mb_capacity := c, mb_wired := w\<rparr>)"
    "length bs + i + length ds < unat c" "unat c \<le> length D" "mem_copy D (int i) ds (uint n) = Inr (take i bs @ ds @ drop (i + length ds) D)"
    "take (length bs) D = bs" "unat (off + n) = i + length ds"
    using mb_grow_copy [OF m0(1) assms(2-4) m0(2), of os] unfolding D_def by blast
  have m1s: "mb_sized m1" "mb_fits m1 (off + n + 1)"
  proof -
    show "mb_sized m1" using I(1) by (simp add: m1_def mb_sized_def)
    have "unat (off + n + 1) = i + length ds + 1" using G(6) room by (simp add: unat_add_small mb_roomy_def)
    then show "mb_fits m1 (off + n + 1)" using mb_roomy_room [OF room] by (simp add: mb_fits_def m1_def)
  qed
  have "mb_grown m1 (off + n + 1) = D" by (simp add: mb_grown_def D_def m1_def m0_def mb_full_def)
  then obtain w2 c2 where H: "MemBufferCheckForGrow os m1 (off + n + 1) = Inr (m1\<lparr>mb_data := D, mb_capacity := c2, mb_wired := w2\<rparr>)"
    using MemBufferCheckForGrow_spec [OF m1s, of os] unfolding mb_grown_def by auto
  define m2 where "m2 = m1\<lparr>mb_capacity := c2, mb_wired := w2, mb_data := take i bs @ ds @ drop (i + length ds) D, mb_size := mb_size m + (off + n)\<rparr>"
  have "mb_held m2 = mb_thread_safe m2" by (simp add: m2_def m1_def)
  then obtain b2 where leave: "mb_leave m2 = m2\<lparr>mb_held := False, mb_busy_flags := b2\<rparr>" using mb_leave_eq by blast
  have size: "unat (mb_size m + (off + n)) = length bs + (i + length ds)"
    using G(2,6) I(5) unat_64 [of c] by (simp add: unat_add_small)
  have "MemBufferOverwrite os m ds off n = Inr (m2\<lparr>mb_held := False, mb_busy_flags := b2\<rparr>, mb_size m2)"
    using I(3) H G(4) leave uint_of_unat [OF assms(2)]
    by (simp add: MemBufferOverwrite_def enter Let_def flip: m1_def) (simp add: m1_def m2_def)
  then show ?thesis using size take_written [OF G(5) assms(4), of ds] G(2,3) by (auto simp: m2_def)
qed


section \<open>Copies\<close>

lemma mb_from_bytes:
  assumes "mb_is m bs" "unat (mb_offset m) \<le> length bs"
  shows "\<exists>es. mb_from m (Some (mb_offset m)) = drop (unat (mb_offset m)) bs @ es"
proof -
  note I = mb_isD [OF assms(1)]
  have "mb_data m = bs @ drop (length bs) (mb_data m)" using I(8) by (metis append_take_drop_id)
  then have "drop (unat (mb_offset m)) (mb_data m) = drop (unat (mb_offset m)) bs @ drop (length bs) (mb_data m)"
    using assms(2) by (metis drop_append diff_is_0_eq drop0)
  then show ?thesis by (auto simp: mb_from_def)
qed

lemma mb_readable:
  assumes "mb_is m bs" "unat (mb_offset m) \<le> length bs"
  shows "MemBufferGetSize m = of_nat (length (drop (unat (mb_offset m)) bs))" "unat (MemBufferGetSize m) = length bs - unat (mb_offset m)"
proof -
  note I = mb_isD [OF assms(1)]
  have "unat (mb_size m - mb_offset m) = length bs - unat (mb_offset m)"
    using assms(2) I(5) by (simp add: unat_sub word_le_nat_alt)
  then show "unat (MemBufferGetSize m) = length bs - unat (mb_offset m)" by (simp add: MemBufferGetSize_def)
  then show "MemBufferGetSize m = of_nat (length (drop (unat (mb_offset m)) bs))"
    by (metis length_drop of_nat_unat ucast_id)
qed

lemma mb_roomy_new: "k < 2 ^ 64 \<Longrightarrow> unat (mb_capacity (MemBufferNew ts g)) + k < 2 ^ 64"
  by (simp add: MemBufferNew_def)

lemma mb_add_part:
  assumes "mb_is m bs" "unat (mb_offset m) \<le> length bs" "mb_is x xs" "unat (mb_capacity x) + 2 ^ 32 + length bs + 1 < 2 ^ 64"
  shows "\<exists>x'. MemBufferAdd os x (mb_from m (Some (MemBufferDeref m))) (MemBufferGetSize m) = Inr (x', mb_size x') \<and>
    mb_is x' (xs @ drop (unat (mb_offset m)) bs) \<and> mb_kept x x' \<and> unat (mb_capacity x') \<le> unat (mb_capacity x) + 2 ^ 32 + length bs + 1"
proof -
  obtain es where es: "mb_from m (Some (mb_offset m)) = drop (unat (mb_offset m)) bs @ es" using mb_from_bytes [OF assms(1,2)] by blast
  have "unat (mb_capacity x) + unat (mb_grow_rate x) + length (drop (unat (mb_offset m)) bs) + 1 < 2 ^ 64"
    using assms(4) unat_32 [of "mb_grow_rate x"] by simp
  from MemBufferAdd_spec [OF assms(3) mb_readable(1) [OF assms(1,2)] this, of os es] show ?thesis
    using es unat_32 [of "mb_grow_rate x"] by (auto simp: MemBufferDeref_def)
qed

lemma MemBufferDup_spec:
  assumes "mb_is m bs" "unat (mb_offset m) \<le> length bs" "2 ^ 32 + length bs + 1 < 2 ^ 64"
  shows "\<exists>m'. MemBufferDup os m = Inr m' \<and> mb_is m' (drop (unat (mb_offset m)) bs) \<and> mb_offset m' = mb_offset m"
proof -
  define new where "new = MemBufferNew (mb_thread_safe m) (sint (ucast (MemBufferGetSize m + 1) :: 32 word))"
  have "unat (mb_capacity new) + 2 ^ 32 + length bs + 1 < 2 ^ 64" using assms(3) by (simp add: new_def MemBufferNew_def)
  from mb_add_part [OF assms(1,2) _ this, of "[]" os] obtain x where
    x: "MemBufferAdd os new (mb_from m (Some (MemBufferDeref m))) (MemBufferGetSize m) = Inr (x, mb_size x)" "mb_is x (drop (unat (mb_offset m)) bs)"
    using MemBufferNew_is by (auto simp: new_def)
  have "mb_is (x\<lparr>mb_offset := mb_offset m\<rparr>) (drop (unat (mb_offset m)) bs)"
    using x(2) by (simp add: mb_is_def mb_sized_def mb_bytes_def)
  then show ?thesis using x(1) by (auto simp: MemBufferDup_def Let_def simp flip: new_def)
qed

lemma MemBufferMerge_spec:
  assumes "mb_is m bs" "unat (mb_offset m) \<le> length bs" "mb_is k cs" "unat (mb_offset k) \<le> length cs"
    "2 ^ 33 + length bs + length cs + 2 < 2 ^ 64"
  shows "\<exists>m'. MemBufferMerge os m k = Inr m' \<and> mb_is m' (drop (unat (mb_offset m)) bs @ drop (unat (mb_offset k)) cs) \<and>
    mb_offset m' = 0 \<and> mb_thread_safe m'"
proof -
  define new where "new = MemBufferNew True (sint (ucast (MemBufferGetSize m + MemBufferGetSize k) :: 32 word))"
  have "mb_is new []" unfolding new_def by (rule MemBufferNew_is)
  moreover have "unat (mb_capacity new) + 2 ^ 32 + length bs + 1 < 2 ^ 64" "unat (mb_capacity new) = 0"
    using assms(5) by (simp_all add: new_def MemBufferNew_def)
  ultimately have "mb_is new []" "unat (mb_capacity new) + 2 ^ 32 + length bs + 1 < 2 ^ 64" "unat (mb_capacity new) = 0" by simp_all
  from mb_add_part [OF assms(1,2) this(1,2), of os] this(3) obtain x where
    x: "MemBufferAdd os new (mb_from m (Some (MemBufferDeref m))) (MemBufferGetSize m) = Inr (x, mb_size x)"
      "mb_is x (drop (unat (mb_offset m)) bs)" "mb_kept new x" "unat (mb_capacity x) \<le> 2 ^ 32 + length bs + 1" by auto
  have "unat (mb_capacity x) + 2 ^ 32 + length cs + 1 < 2 ^ 64" using x(4) assms(5) by simp
  from mb_add_part [OF assms(3,4) x(2) this, of os] obtain y where
    y: "MemBufferAdd os x (mb_from k (Some (MemBufferDeref k))) (MemBufferGetSize k) = Inr (y, mb_size y)"
      "mb_is y (drop (unat (mb_offset m)) bs @ drop (unat (mb_offset k)) cs)" "mb_kept x y" by auto
  have "MemBufferMerge os m k = Inr y" using x(1) y(1) by (simp add: MemBufferMerge_def Let_def flip: new_def)
  moreover have "mb_offset y = 0 \<and> mb_thread_safe y" using x(3) y(3) by (simp add: mb_kept_def new_def MemBufferNew_def)
  ultimately show ?thesis using y(2) by blast
qed

section \<open>Cutting at a token\<close>

lemma mb_find_token_spec:
  assumes "\<And>k. k \<le> i \<Longrightarrow> 0 < k \<Longrightarrow> arr_get (mb_data m) (uint (MemBufferDeref m) + int k) = Inr (xs ! k)"
  shows "mb_find_token m tok j i = Inr (if \<exists>k. 0 < k \<and> k \<le> i \<and> xs ! k = tok
      then Some (j + int i - int (GREATEST k. 0 < k \<and> k \<le> i \<and> xs ! k = tok) - 1) else None)"
  using assms
proof (induction i arbitrary: j)
  case (Suc i)
  let ?P = "\<lambda>i k. 0 < k \<and> k \<le> i \<and> xs ! k = tok"
  have get: "arr_get (mb_data m) (uint (MemBufferDeref m) + int (Suc i)) = Inr (xs ! Suc i)" using Suc.prems [of "Suc i"] by simp
  show ?case
  proof (cases "xs ! Suc i = tok")
    case True
    then have "(GREATEST k. ?P (Suc i) k) = Suc i" by (intro Greatest_equality) auto
    then show ?thesis using True get by auto
  next
    case False
    then have "?P (Suc i) = ?P i" by (auto simp: fun_eq_iff le_Suc_eq)
    then show ?thesis using False get Suc.IH [of "j + 1"] Suc.prems by auto
  qed
qed simp

lemma MemBufferShrinkToToken_spec:
  assumes "mb_is m bs" "mb_offset m = 0" "length bs < 2 ^ 31" "length bs < length (mb_data m)"
  defines "xs \<equiv> take (Suc (length bs)) (mb_data m)"
  shows "tok \<notin> set (tl xs) \<Longrightarrow> MemBufferShrinkToToken m tok = Inr (m, 0)"
    "xs = as @ tok # cs \<Longrightarrow> as \<noteq> [] \<Longrightarrow> tok \<notin> set cs \<Longrightarrow>
      \<exists>m'. MemBufferShrinkToToken m tok = Inr (m', int (length cs) - 1) \<and> take (unat (mb_size m')) (mb_data m') = as @ [tok] \<and>
        unat (mb_size m') = Suc (length as)"
proof -
  note I = mb_isD [OF assms(1)]
  have len: "length xs = Suc (length bs)" using assms(4) by (simp add: xs_def)
  have sz: "sint (ucast (MemBufferGetSize m) :: 32 word) = int (length bs)"
  proof -
    have "unat (ucast (mb_size m) :: 32 word) = length bs"
      using I(5) assms(3) by (simp add: unsigned_ucast_eq unsigned_take_bit_eq take_bit_nat_eq_self)
    then have "uint (ucast (mb_size m) :: 32 word) = int (length bs)" by (rule uint_of_unat)
    then have "sint (ucast (mb_size m) :: 32 word) = signed_take_bit 31 (int (length bs))" by (simp add: sint_uint)
    also have "\<dots> = int (length bs)" by (rule signed_take_bit_int_eq_self) (use assms(3) in simp_all)
    finally show ?thesis using assms(2) by (simp add: MemBufferGetSize_def)
  qed
  have "arr_get (mb_data m) (uint (MemBufferDeref m) + int k) = Inr (xs ! k)" if "k \<le> length bs" "0 < k" for k
    using that assms(2,4) by (simp add: MemBufferDeref_def xs_def)
  note F = mb_find_token_spec [OF this, of "length bs" tok 0]
  have mem: "(\<exists>k. 0 < k \<and> k \<le> length bs \<and> xs ! k = tok) \<longleftrightarrow> tok \<in> set (tl xs)"
  proof -
    have "tok \<in> set (tl xs) \<longleftrightarrow> (\<exists>k < length bs. tl xs ! k = tok)" using len by (auto simp: in_set_conv_nth)
    also have "\<dots> \<longleftrightarrow> (\<exists>k < length bs. xs ! Suc k = tok)" using len by (intro ex_cong conj_cong refl) (simp add: nth_tl)
    also have "\<dots> \<longleftrightarrow> (\<exists>k. 0 < k \<and> k \<le> length bs \<and> xs ! k = tok)" by (metis Suc_le_eq gr0_implies_Suc zero_less_Suc)
    finally show ?thesis by simp
  qed
  show "MemBufferShrinkToToken m tok = Inr (m, 0)" if "tok \<notin> set (tl xs)"
    using that F mem sz by (simp add: MemBufferShrinkToToken_def Let_def)
  show "\<exists>m'. MemBufferShrinkToToken m tok = Inr (m', int (length cs) - 1) \<and> take (unat (mb_size m')) (mb_data m') = as @ [tok] \<and>
        unat (mb_size m') = Suc (length as)" if x: "xs = as @ tok # cs" "as \<noteq> []" "tok \<notin> set cs"
  proof -
    have n: "length bs = length as + length cs" using len x(1) by simp
    have "(GREATEST k. 0 < k \<and> k \<le> length bs \<and> xs ! k = tok) = length as"
    proof (rule Greatest_equality)
      show "0 < length as \<and> length as \<le> length bs \<and> xs ! length as = tok" using x(1,2) n by simp
      fix k assume k: "0 < k \<and> k \<le> length bs \<and> xs ! k = tok"
      show "k \<le> length as"
      proof (rule ccontr)
        assume "\<not> k \<le> length as"
        then have "xs ! k = cs ! (k - Suc (length as))" "k - Suc (length as) < length cs" using x(1) k n by (auto simp: nth_append nth_Cons')
        then show False using k x(3) by (metis nth_mem)
      qed
    qed
    moreover have "tok \<in> set (tl xs)" using x(1,2) by (cases as) auto
    ultimately have "mb_find_token m tok 0 (length bs) = Inr (Some (int (length cs) - 1))" using F mem n by simp
    then have run: "MemBufferShrinkToToken m tok = Inr (m\<lparr>mb_size := mb_size m - word_of_int (int (length cs) - 1)\<rparr>, int (length cs) - 1)"
      unfolding MemBufferShrinkToToken_def Let_def sz nat_int by simp
    have sum: "mb_size m - word_of_int (int (length cs) - 1) = of_nat (Suc (length as))"
    proof -
      have "mb_size m = of_nat (length bs)" using I(5) by (metis of_nat_unat ucast_id)
      then show ?thesis using n by (simp add: algebra_simps)
    qed
    have "unat (mb_size m - word_of_int (int (length cs) - 1)) = Suc (length as)"
      unfolding sum using n assms(3) by (simp add: unat_of_nat del: of_nat_Suc)
    moreover have "take (Suc (length as)) (mb_data m) = as @ [tok]"
    proof -
      have "take (Suc (length as)) (mb_data m) = take (Suc (length as)) xs" using n by (simp add: xs_def min_def)
      then show ?thesis using x(1) by simp
    qed
    ultimately show ?thesis using run by simp
  qed
qed


section \<open>Reading a file in blocks\<close>

lemma mb_read_blocks_spec:
  assumes "mb_is m bs" "bytes_offset = of_nat (length bs)" "length read_buffer = 2097153"
    "\<forall>c \<in> set chunks. c \<noteq> [] \<and> length c \<le> 2097152"
    "file_sz = of_nat N" "length bs + length (concat chunks) \<le> N" "N < 2 ^ 62"
    "unat (mb_capacity m) + (2 ^ 32 + 2) * length chunks + length (concat chunks) < 2 ^ 64"
  shows "\<exists>m' rb. mb_read_blocks os file_sz bytes_offset read_buffer (map Some chunks @ rest) m =
      mb_read_blocks os file_sz (of_nat (length bs + length (concat chunks))) rb rest m' \<and>
    mb_is m' (bs @ concat chunks) \<and> mb_kept m m'"
  using assms
proof (induction chunks arbitrary: m bs bytes_offset read_buffer)
  case Nil
  then show ?case by (auto simp del: mb_read_blocks.simps intro!: exI [of _ m])
next
  case (Cons c chunks)
  have c: "c \<noteq> []" "length c \<le> 2097152" using Cons.prems(4) by simp_all
  have "length bs < N" using Cons.prems(6) c by (cases c) auto
  then have less: "bytes_offset < file_sz"
    using Cons.prems(2,5,7) by (simp add: word_less_nat_alt unat_of_nat)
  have copy: "arr_copy read_buffer 0 c = Inr (c @ drop (length c) read_buffer)"
    using arr_copy_nat [of 0 c read_buffer] Cons.prems(3) c by simp
  have room: "unat (mb_capacity m) + unat (mb_grow_rate m) + length c + 1 < 2 ^ 64"
    using Cons.prems(8) unat_32 [of "mb_grow_rate m"] by simp
  obtain m1 where m1: "MemBufferAdd os m (c @ drop (length c) read_buffer) (of_nat (length c)) = Inr (m1, mb_size m1)"
    "mb_is m1 (bs @ c)" "mb_kept m m1" "unat (mb_capacity m1) \<le> unat (mb_capacity m) + unat (mb_grow_rate m) + length c + 1"
    using MemBufferAdd_spec [OF Cons.prems(1) refl room, of os] by blast
  have step: "mb_read_blocks os file_sz bytes_offset read_buffer (map Some (c # chunks) @ rest) m =
      mb_read_blocks os file_sz (bytes_offset + of_nat (length c)) (c @ drop (length c) read_buffer) (map Some chunks @ rest) m1"
    using less c(1) copy m1(1) by simp
  have "\<exists>m' rb. mb_read_blocks os file_sz (bytes_offset + of_nat (length c)) (c @ drop (length c) read_buffer) (map Some chunks @ rest) m1 =
      mb_read_blocks os file_sz (of_nat (length (bs @ c) + length (concat chunks))) rb rest m' \<and>
      mb_is m' ((bs @ c) @ concat chunks) \<and> mb_kept m1 m'"
  proof (rule Cons.IH [OF m1(2)])
    show "unat (mb_capacity m1) + (2 ^ 32 + 2) * length chunks + length (concat chunks) < 2 ^ 64"
      using Cons.prems(8) m1(4) unat_32 [of "mb_grow_rate m"] by simp
  qed (use Cons.prems c in \<open>simp_all add: add.assoc\<close>)
  then show ?case using step m1(3) by (auto simp: mb_kept_def add.assoc simp del: mb_read_blocks.simps)
qed

end
