(* ===== verification/MemBufferClaims.thy ===== *)
theory MemBufferClaims
  imports MemBufferProps
begin

text \<open>
  The properties of MemBuffer: runs of operations, overwriting, copies, cutting at a token and reading files.
\<close>

text \<open>C24: every sequence of additions, terminations, removals of the last byte, cleanings and shrinkings of a
  new buffer runs without a fault, for every growth rate and whatever the system calls answer, and is the
  sequence on a list of bytes: the readable bytes are the list and the mutex is released. Terminating then
  leaves the bytes alone and puts a zero after them.\<close>

theorem membuf_refines:
  assumes "sum_list (map mb_cost ops) + 2 ^ 32 + 2 < 2 ^ 64"
  shows "\<exists>m m'. for_each (mb_exec os) ops (MemBufferNew ts g) = Inr m \<and> \<not> mb_held m \<and>
    unat (MemBufferGetSize m) = length (fold mb_spec ops []) \<and>
    take (length (fold mb_spec ops [])) (mb_from m (Some (MemBufferDeref m))) = fold mb_spec ops [] \<and>
    MemBufferPutNULLTerminator os m = Inr m' \<and>
    take (Suc (length (fold mb_spec ops []))) (mb_from m' (Some (MemBufferDeref m'))) = fold mb_spec ops [] @ [0]"
proof -
  define bs where "bs = fold mb_spec ops []"
  have new: "mb_offset (MemBufferNew ts g) = 0" "unat (mb_capacity (MemBufferNew ts g)) = 0" by (simp_all add: MemBufferNew_def)
  obtain m where m: "for_each (mb_exec os) ops (MemBufferNew ts g) = Inr m" "mb_is m bs" "mb_offset m = 0"
    "unat (mb_capacity m) \<le> sum_list (map mb_cost ops)"
    using mb_run_spec [OF MemBufferNew_is new(1), of ops os] assms new(2) by (auto simp: mb_roomy_def bs_def)
  obtain m' where m': "MemBufferPutNULLTerminator os m = Inr m'" "mb_is m' bs" "mb_kept m m'" "length bs < unat (mb_capacity m')"
    "mb_data m' ! length bs = 0"
    using MemBufferPutNULLTerminator_spec [OF m(2), of os] assms m(4) by (auto simp: mb_roomy_def)
  have "take (Suc (length bs)) (mb_data m') = bs @ [0]"
    using mb_isD(7,8) [OF m'(2)] m'(4,5) by (simp add: take_Suc_conv_app_nth)
  then show ?thesis
    using m m' mb_isD [OF m(2)] unfolding bs_def [symmetric]
    by (intro exI [of _ m] exI [of _ m']) (simp add: MemBufferGetSize_def MemBufferDeref_def mb_from_def mb_kept_def)
qed

definition quiet_os :: mem_os where
  "quiet_os = \<lparr>os_mlock = (\<lambda>_. 0), os_madvise = (\<lambda>_. 0), os_junk = 165\<rparr>"

lemma membuf_refines_witness:
  "\<exists>m. for_each (mb_exec quiet_os) [MbAdd [104, 105, 33], MbRemoveLast, MbShrink, MbAdd [32]] (MemBufferNew True 0) = Inr m \<and>
    unat (MemBufferGetSize m) = 3 \<and> take 3 (mb_from m (Some (MemBufferDeref m))) = [104, 105, 32]"
  using membuf_refines [of "[MbAdd [104, 105, 33], MbRemoveLast, MbShrink, MbAdd [32]]" quiet_os True 0]
  by (auto simp: numeral_3_eq_3 simp del: for_each.simps)

text \<open>C25: on a buffer whose read offset is 0, with room below 2 ^ 64, writing \<open>ds\<close> at a position inside the contents
  or at their end replaces the bytes there and extends the contents when \<open>ds\<close> passes their end. \<open>MemBufferOffsetWrite\<close> sets the size to the end of the contents;
  \<open>MemBufferOverwrite\<close> writes the same bytes but adds position and length to the size, so the buffer claims
  bytes after the contents that nobody wrote.\<close>

theorem membuf_writes:
  assumes "mb_is m bs" "mb_offset m = 0" "unat off = i" "length ds = unat n" "i \<le> length bs"
    "unat (mb_capacity m) + (2 ^ 32 + (i + length ds + 1)) < 2 ^ 64"
  shows "(\<exists>m'. MemBufferOffsetWrite os m off ds n = Inr (m', 1) \<and> mb_is m' (take i bs @ ds @ drop (i + length ds) bs)) \<and>
    (\<exists>m'. MemBufferOverwrite os m ds off n = Inr (m', mb_size m') \<and> unat (mb_size m') = length bs + (i + length ds) \<and>
      take (max (length bs) (i + length ds)) (mb_data m') = take i bs @ ds @ drop (i + length ds) bs)"
  using MemBufferOffsetWrite_spec [OF assms(1-5)] MemBufferOverwrite_spec [OF assms(1,3-5)] assms(6) by (simp add: mb_roomy_def)

text \<open>A buffer of four bytes.\<close>

definition four_bytes :: mem_buffer where
  "four_bytes = (MemBufferNew True 8)\<lparr>mb_size := 4, mb_capacity := 13, mb_data := [1, 2, 3, 4] @ replicate 9 0\<rparr>"

lemma four_bytes: "mb_is four_bytes [1, 2, 3, 4]" "mb_offset four_bytes = 0" "mb_capacity four_bytes = 13"
  by (simp_all add: four_bytes_def MemBufferNew_def mb_is_def mb_sized_def mb_bytes_def)

lemma membuf_writes_witness:
  "(\<exists>m'. MemBufferOffsetWrite quiet_os four_bytes 1 [9, 9] 2 = Inr (m', 1) \<and> mb_is m' [1, 9, 9, 4]) \<and>
   (\<exists>m'. MemBufferOverwrite quiet_os four_bytes [9, 9] 1 2 = Inr (m', mb_size m') \<and> unat (mb_size m') = 7)"
proof -
  have "length [1, 2, 3, 4 :: byte] + (1 + length [9, 9 :: byte]) = 7" by simp
  then show ?thesis
    using membuf_writes [OF four_bytes(1,2), of 1 1 "[9, 9]" 2 quiet_os] four_bytes(3) by fastforce
qed

text \<open>C26: a copy of a buffer that is read from position \<open>o\<close> holds the bytes from there on and is read from \<open>o\<close>
  again, so the bytes up to \<open>2 * o\<close> of the original are lost, and when fewer than \<open>o\<close> bytes were left its
  size wraps around. \<open>MemBufferMerge\<close> holds the readable bytes of both buffers and is read from their start.\<close>

theorem membuf_copies:
  assumes "mb_is m bs" "unat (mb_offset m) \<le> length bs" "mb_is k cs" "unat (mb_offset k) \<le> length cs"
    "2 ^ 33 + length bs + length cs + 2 < 2 ^ 64"
  shows "(\<exists>m'. MemBufferDup os m = Inr m' \<and> mb_is m' (drop (unat (mb_offset m)) bs) \<and> mb_offset m' = mb_offset m \<and>
      MemBufferGetSize m' = MemBufferGetSize m - mb_offset m) \<and>
    (\<exists>m'. MemBufferMerge os m k = Inr m' \<and> mb_is m' (drop (unat (mb_offset m)) bs @ drop (unat (mb_offset k)) cs) \<and> mb_offset m' = 0)"
proof
  have "2 ^ 32 + length bs + 1 < 2 ^ 64" using assms(5) by simp
  from MemBufferDup_spec [OF assms(1,2) this, of os] obtain m' where
    m': "MemBufferDup os m = Inr m'" "mb_is m' (drop (unat (mb_offset m)) bs)" "mb_offset m' = mb_offset m" by blast
  have "mb_size m' = MemBufferGetSize m"
    using mb_readable [OF assms(1,2)] mb_isD(5) [OF m'(2)] by (metis of_nat_unat ucast_id)
  then have "MemBufferGetSize m' = MemBufferGetSize m - mb_offset m" using m'(3) by (simp add: MemBufferGetSize_def)
  then show "\<exists>m'. MemBufferDup os m = Inr m' \<and> mb_is m' (drop (unat (mb_offset m)) bs) \<and> mb_offset m' = mb_offset m \<and>
      MemBufferGetSize m' = MemBufferGetSize m - mb_offset m" using m' by blast
qed (use MemBufferMerge_spec [OF assms] in blast)

lemma membuf_copies_witness:
  "(\<exists>m'. MemBufferDup quiet_os (four_bytes\<lparr>mb_offset := 3\<rparr>) = Inr m' \<and> mb_is m' [4] \<and> MemBufferGetSize m' = - 2) \<and>
   (\<exists>m'. MemBufferMerge quiet_os (four_bytes\<lparr>mb_offset := 3\<rparr>) four_bytes = Inr m' \<and> mb_is m' [4, 1, 2, 3, 4])"
proof -
  have "mb_is (four_bytes\<lparr>mb_offset := 3\<rparr>) [1, 2, 3, 4]" using four_bytes(1) by (simp add: mb_is_def mb_sized_def mb_bytes_def)
  from membuf_copies [OF this _ four_bytes(1), of quiet_os] show ?thesis
    using four_bytes(2) by (auto simp: MemBufferGetSize_def four_bytes_def)
qed

text \<open>\<open>MemBufferShrinkToToken\<close> searches the contents from the byte after their end down to the second byte.
  Without the token there it changes nothing and returns 0; else the contents end with the last token found.
  So a token at the very start is not seen, and one that happens to lie after the end makes the buffer longer
  by a byte and the result -1.\<close>

theorem membuf_cut:
  assumes "mb_is m bs" "mb_offset m = 0" "length bs < 2 ^ 31" "take (Suc (length bs)) (mb_data m) = bs @ [x]" "bs \<noteq> []"
  shows "(tok \<in> set (tl bs @ [x]) \<or> MemBufferShrinkToToken m tok = Inr (m, 0)) \<and>
    (\<forall>as cs. bs @ [x] = as @ tok # cs \<and> as \<noteq> [] \<and> tok \<notin> set cs \<longrightarrow>
      (\<exists>m'. MemBufferShrinkToToken m tok = Inr (m', int (length cs) - 1) \<and>
        take (unat (mb_size m')) (mb_data m') = as @ [tok] \<and> unat (mb_size m') = Suc (length as)))"
proof -
  have "length (take (Suc (length bs)) (mb_data m)) = Suc (length bs)" using assms(4) by simp
  then have len: "length bs < length (mb_data m)" by simp
  note S = MemBufferShrinkToToken_spec [OF assms(1-3) len, where tok = tok, unfolded assms(4)]
  have "tl (bs @ [x]) = tl bs @ [x]" using assms(5) by simp
  then show ?thesis using S by metis
qed

lemma membuf_cut_witness:
  "MemBufferShrinkToToken four_bytes 1 = Inr (four_bytes, 0) \<and>
   (\<exists>m'. MemBufferShrinkToToken four_bytes 2 = Inr (m', 2) \<and> take (unat (mb_size m')) (mb_data m') = [1, 2]) \<and>
   (\<exists>m'. MemBufferShrinkToToken four_bytes 0 = Inr (m', - 1) \<and> unat (mb_size m') = 5)"
proof -
  have x: "take (Suc (length [1, 2, 3, 4 :: byte])) (mb_data four_bytes) = [1, 2, 3, 4] @ [0]" by (simp add: four_bytes_def)
  note C = membuf_cut [OF four_bytes(1,2) _ x]
  have "\<exists>m'. MemBufferShrinkToToken four_bytes 2 = Inr (m', 2) \<and> take (unat (mb_size m')) (mb_data m') = [1, 2]"
    using C [of 2, THEN conjunct2, rule_format, of "[1]" "[3, 4, 0]"] by auto
  moreover have "\<exists>m'. MemBufferShrinkToToken four_bytes 0 = Inr (m', - 1) \<and> unat (mb_size m') = 5"
    using C [of 0, THEN conjunct2, rule_format, of "[1, 2, 3, 4]" "[]"] by auto
  ultimately show ?thesis using C [of 1, THEN conjunct1] by auto
qed

text \<open>C27: \<open>MemBufferReadFromBigFile\<close> reads a file whose size is that of the blocks read, each of 1 byte to 2 MiB, into
  a buffer that holds the whole file. When the blocks read are shorter than the size the file had and the next read
  fails or is at the end of the file, it releases the buffer and returns null. The file is below 2 ^ 62 bytes and there
  are fewer than 2 ^ 30 reads.\<close>

theorem membuf_read_big_file:
  assumes "\<forall>c \<in> set chunks. c \<noteq> [] \<and> length c \<le> 2097152" "length (concat chunks) < n" "n < 2 ^ 62" "length chunks < 2 ^ 30"
  shows "(\<exists>m. MemBufferReadFromBigFile os (Some (of_nat (length (concat chunks)), map Some chunks)) = Inr (Some m) \<and> mb_is m (concat chunks)) \<and>
    MemBufferReadFromBigFile os (Some (of_nat n, map Some chunks @ None # rest)) = Inr None \<and>
    MemBufferReadFromBigFile os (Some (of_nat n, map Some chunks @ Some [] # rest)) = Inr None"
proof -
  let ?n = "length (concat chunks)"
  define new :: "ulong \<Rightarrow> mem_buffer" where "new = (\<lambda>n. MemBufferNew False (sint (ucast n :: 32 word)))"
  have new: "mb_is (new n) []" "mb_ref_count (new n) = 0" "unat (mb_capacity (new n)) = 0" for n
    unfolding new_def by (rule MemBufferNew_is, simp_all add: MemBufferNew_def)
  have "(2 ^ 32 + 2) * length chunks \<le> (2 ^ 32 + 2) * 2 ^ 30" using assms(4) by (intro mult_le_mono2) simp
  then have room: "unat (mb_capacity (new n)) + (2 ^ 32 + 2) * length chunks + ?n < 2 ^ 64" for n
    using assms(2,3) new(3) by simp
  have block: "length (replicate (unat (mb_block + 1)) (0 :: byte)) = 2097153" by (simp add: mb_block_def)
  note run = mb_read_blocks_spec [OF new(1) _ block assms(1) refl _ _ room, unfolded list.size(3) add_0]
  obtain m where m: "mb_read_blocks os (of_nat ?n) 0 (replicate (unat (mb_block + 1)) 0) (map Some chunks @ []) (new (of_nat ?n)) = Inr (Some m)"
    "mb_is m (concat chunks)"
    using run [of 0 ?n os "[]" "of_nat ?n"] assms(2,3) by auto
  then have 1: "\<exists>m. MemBufferReadFromBigFile os (Some (of_nat ?n, map Some chunks)) = Inr (Some m) \<and> mb_is m (concat chunks)"
    by (auto simp: MemBufferReadFromBigFile_def new_def simp del: mb_read_blocks.simps)
  have less: "of_nat ?n < (of_nat n :: ulong)" using assms(2,3) by (simp add: word_less_nat_alt unat_of_nat)
  have stop: "MemBufferReadFromBigFile os (Some (of_nat n, map Some chunks @ x # rest)) = Inr None" if x: "x = None \<or> x = Some []" for x
  proof -
    obtain m' rb where m': "mb_read_blocks os (of_nat n) 0 (replicate (unat (mb_block + 1)) 0) (map Some chunks @ x # rest) (new (of_nat n)) =
        mb_read_blocks os (of_nat n) (of_nat ?n) rb (x # rest) m'" "mb_kept (new (of_nat n)) m'"
      using run [of 0 n os "x # rest" "of_nat n"] assms(2,3) by (auto simp del: mb_read_blocks.simps)
    have "mb_ref_count m' = 0" using m'(2) new(2) by (simp add: mb_kept_def)
    then have "mb_read_blocks os (of_nat n) (of_nat ?n) rb (x # rest) m' = Inr None"
      using less x by (auto simp: MemBufferDestroy_def MemBufferDoDestroy_def Let_def)
    then show ?thesis using m'(1) by (simp add: MemBufferReadFromBigFile_def new_def del: mb_read_blocks.simps)
  qed
  show ?thesis using 1 stop by blast
qed

lemma membuf_read_big_file_witness:
  "(\<exists>m. MemBufferReadFromBigFile quiet_os (Some (5, [Some [1, 2, 3], Some [4, 5]])) = Inr (Some m) \<and> mb_is m [1, 2, 3, 4, 5]) \<and>
   MemBufferReadFromBigFile quiet_os (Some (9, [Some [1, 2, 3], Some [4, 5], Some [], Some [6]])) = Inr None"
  using membuf_read_big_file [of "[[1, 2, 3], [4, 5]]" 9 quiet_os "[Some [6]]"] by simp

end
