(* ===== verification/MemBufferCrypt.thy ===== *)
theory MemBufferCrypt
  imports MemBufferProps Blowfish HashAbsorb
begin

text \<open>
  Encryption of a buffer in place: \<open>MemBufferEncryptData\<close> and \<open>MemBufferDecryptData\<close> of
  libbrb_core/data/core/mem_buf.c over the model of the cipher. Pairs of longs are read from the bytes of the
  buffer in little-endian order.
\<close>

section \<open>Keys and longs\<close>

text \<open>The key: the products are computed as \<open>unsigned long\<close> and stored as \<open>unsigned int\<close>, which is arithmetic
  modulo \<open>2 ^ 32\<close>.\<close>

fun mb_key_words :: "nat list \<Rightarrow> 32 word \<Rightarrow> 32 word list" where
  "mb_key_words [] seed = []"
| "mb_key_words (i # is) seed =
     (let k = (of_nat i + seed) * seed + 13 * of_nat i in k # mb_key_words is (k * seed))"

definition mb_enc_key :: "32 word \<Rightarrow> byte list" where
  "mb_enc_key seed = bytes_of (mb_key_words [0..<16] seed)"

definition get_long :: "byte list \<Rightarrow> int \<Rightarrow> ulong result" where
  "get_long xs p = (if 0 \<le> p \<and> nat p + 8 \<le> length xs
     then Inr (foldr (\<lambda>b w. push_bit 8 w OR ucast b) (take 8 (drop (nat p) xs)) 0) else Inl OutOfBounds)"

definition set_long :: "byte list \<Rightarrow> int \<Rightarrow> ulong \<Rightarrow> byte list result" where
  "set_long xs p w = arr_copy xs p (le64 w)"

section \<open>The loops\<close>

definition mb_crypt_pair ::
  "(blowfish_ctx \<Rightarrow> ulong \<times> ulong \<Rightarrow> (ulong \<times> ulong) result) \<Rightarrow> blowfish_ctx \<Rightarrow> int \<Rightarrow> int \<Rightarrow> ulong \<times> ulong \<Rightarrow> byte list \<Rightarrow> byte list result" where
  "mb_crypt_pair crypt ctx p i lr xs = and_then (crypt ctx lr) (\<lambda>(l, r).
     and_then (set_long xs (p + 8 * i) l) (\<lambda>xs. set_long xs (p + 8 * (i + 1)) r))"

definition mb_encrypt_step :: "blowfish_ctx \<Rightarrow> int \<Rightarrow> nat \<Rightarrow> byte list \<Rightarrow> byte list result" where
  "mb_encrypt_step ctx p i xs = and_then (get_long xs (p + 8 * int i)) (\<lambda>l.
     and_then (get_long xs (p + 8 * (int i + 1))) (\<lambda>r. mb_crypt_pair BRB_Blowfish_Encrypt ctx p (int i) (l, r) xs))"

text \<open>Decryption stops at a pair with a zero long. The result includes the index at the end.\<close>

fun mb_decrypt_loop :: "blowfish_ctx \<Rightarrow> int \<Rightarrow> nat list \<Rightarrow> nat \<Rightarrow> byte list \<Rightarrow> (byte list \<times> nat) result" where
  "mb_decrypt_loop ctx p [] stop xs = Inr (xs, stop)"
| "mb_decrypt_loop ctx p (i # is) stop xs =
     and_then (get_long xs (p + 8 * int i)) (\<lambda>l. and_then (get_long xs (p + 8 * (int i + 1))) (\<lambda>r.
     if l = 0 \<or> r = 0 then Inr (xs, i)
     else and_then (mb_crypt_pair BRB_Blowfish_Decrypt ctx p (int i) (l, r) xs) (mb_decrypt_loop ctx p is stop)))"

definition mb_pairs :: "ulong \<Rightarrow> nat" where
  "mb_pairs blocks = (unat blocks + 1) div 2"

definition mb_raw_ptr :: "mem_buffer \<Rightarrow> ulong \<Rightarrow> ulong result" where
  "mb_raw_ptr m offset =
     (if offset \<noteq> 0 then case MemBufferOffsetDeref m offset of None \<Rightarrow> Inl NullDeref | Some p \<Rightarrow> Inr p
      else Inr (MemBufferDeref m))"

text \<open>\<open>sizeof(enc_key[16])\<close> is the size of one element: the encryption uses four bytes of the key.\<close>

definition MemBufferEncryptData :: "mem_os \<Rightarrow> mem_buffer \<Rightarrow> 32 word \<Rightarrow> ulong \<Rightarrow> mem_buffer result" where
  "MemBufferEncryptData os m seed offset =
     (let blocks = (MemBufferGetSize m + offset) div 8 + 2 in
      and_then (mb_enter m) (\<lambda>m. and_then (MemBufferCheckForGrow os m ((blocks + 1) * 8)) (\<lambda>m.
      and_then (BRB_Blowfish_Init (mb_enc_key seed) 4) (\<lambda>ctx. and_then (mb_raw_ptr m offset) (\<lambda>p.
      and_then (for_each (mb_encrypt_step ctx (uint p)) (map (\<lambda>k. 2 * k) [0..<mb_pairs blocks]) (mb_data m)) (\<lambda>xs.
      Inr (mb_leave (m\<lparr>mb_data := xs, mb_size := of_nat (2 * mb_pairs blocks) * 8 + offset\<rparr>))))))))"

definition MemBufferDecryptData :: "mem_os \<Rightarrow> mem_buffer \<Rightarrow> 32 word \<Rightarrow> ulong \<Rightarrow> mem_buffer result" where
  "MemBufferDecryptData os m seed offset =
     (let blocks = (MemBufferGetSize m - offset) div 8 + 2 in
      and_then (mb_enter m) (\<lambda>m. and_then (MemBufferCheckForGrow os m ((blocks + 1) * 8)) (\<lambda>m.
      and_then (BRB_Blowfish_Init (mb_enc_key seed) 64) (\<lambda>ctx. and_then (mb_raw_ptr m offset) (\<lambda>p.
      and_then (mb_decrypt_loop ctx (uint p) (map (\<lambda>k. 2 * k) [0..<mb_pairs blocks]) (2 * mb_pairs blocks) (mb_data m)) (\<lambda>(xs, i).
      Inr (mb_leave (m\<lparr>mb_data := xs, mb_size := of_nat i * 8 + offset\<rparr>))))))))"

section \<open>The key the encryption uses\<close>

lemma for_each_cong_inv:
  assumes "\<And>i s. i \<in> set is \<Longrightarrow> I s \<Longrightarrow> f i s = g i s" "\<And>i s s'. i \<in> set is \<Longrightarrow> I s \<Longrightarrow> g i s = Inr s' \<Longrightarrow> I s'" "I s"
  shows "for_each f is s = for_each g is s"
  using assms
proof (induction "is" arbitrary: s)
  case (Cons i "is")
  have "f i s = g i s" using Cons.prems(1,3) by simp
  then show ?case
  proof (cases "g i s")
    case (Inr t)
    have "I t" using Cons.prems(2,3) Inr by auto
    have "for_each f is t = for_each g is t"
      by (rule Cons.IH) (fact Cons.prems(1) [OF list.set_intros(2)], fact Cons.prems(2) [OF list.set_intros(2)], fact \<open>I t\<close>)
    then show ?thesis using \<open>f i s = g i s\<close> Inr by simp
  qed simp
qed simp

lemma for_each_preserves:
  assumes "\<And>i s s'. I s \<Longrightarrow> f i s = Inr s' \<Longrightarrow> I s'"
  shows "I s \<Longrightarrow> for_each f is s = Inr s' \<Longrightarrow> I s'"
proof (induction "is" arbitrary: s)
  case (Cons i "is")
  then obtain t where t: "f i s = Inr t" "for_each f is t = Inr s'" by (auto simp: and_then_eq_Inr)
  show ?case using Cons.IH [OF assms [OF Cons.prems(1) t(1)] t(2)] .
qed simp

lemma bf_init_prefix:
  assumes "0 < n" "n \<le> int (length key)" "n \<le> int (length key')" "take (nat n) key = take (nat n) key'"
  shows "BRB_Blowfish_Init key n = BRB_Blowfish_Init key' n"
proof -
  define J where "J = (\<lambda>s :: 64 word \<times> int. 0 \<le> snd s \<and> snd s < n)"
  have byte: "bf_key_byte key n s = bf_key_byte key' n s" if "J s" for s
  proof -
    have "nat (snd s) < nat n" "0 \<le> snd s" using that by (simp_all add: J_def)
    then have "key ! nat (snd s) = key' ! nat (snd s)" by (metis assms(4) nth_take)
    moreover have "nat (snd s) < length key" "nat (snd s) < length key'" using that assms(2,3) by (auto simp: J_def)
    ultimately have "arr_get key (snd s) = arr_get key' (snd s)" by (simp add: arr_get_def)
    then show ?thesis by (simp add: bf_key_byte_def split_def)
  qed
  have step: "J s'" if "J s" "bf_key_byte key' n s = Inr s'" for s s'
    using that assms(1) by (auto simp: bf_key_byte_def and_then_eq_Inr J_def Let_def split: if_splits prod.splits)
  have bytes: "for_each (\<lambda>k. bf_key_byte key n) ks s = for_each (\<lambda>k. bf_key_byte key' n) ks s" if "J s" for ks :: "int list" and s
    by (rule for_each_cong_inv [where I = J]) (use byte step that in auto)
  have mix: "bf_mix_key key n i s = bf_mix_key key' n i s" if "J (0, snd s)" for i s
    using bytes [OF that] by (simp add: bf_mix_key_def split_def)
  have bytes_J: "J s'" if "J s" "for_each (\<lambda>k. bf_key_byte key' n) ks s = Inr s'" for ks :: "int list" and s s'
    by (rule for_each_preserves [where I = J, OF step that])
  have mix_J: "J (0, snd s')" if "J (0, snd s)" "bf_mix_key key' n i s = Inr s'" for i s s'
    using that bytes_J [OF that(1)] by (auto simp: bf_mix_key_def and_then_eq_Inr J_def split: prod.splits)
  have "for_each (bf_mix_key key n) is s = for_each (bf_mix_key key' n) is s" if "J (0, snd s)" for "is" s
    by (rule for_each_cong_inv [where I = "\<lambda>s. J (0, snd s)"]) (use mix mix_J that in auto)
  then show ?thesis using assms(1) by (simp add: BRB_Blowfish_Init_def J_def)
qed

lemma mb_enc_key_prefix: "take 4 (mb_enc_key seed) = le_bytes (seed * seed)"
proof -
  obtain ks where "mb_key_words [0..<16] seed = seed * seed # ks"
    by (simp add: upt_rec [of 0 16] Let_def)
  then show ?thesis by (simp add: mb_enc_key_def bytes_of_def)
qed

lemma length_mb_enc_key [simp]: "length (mb_enc_key seed) = 64"
proof -
  have "length (mb_key_words is s) = length is" for "is" s by (induction "is" arbitrary: s) (simp_all add: Let_def)
  then show ?thesis by (simp add: mb_enc_key_def)
qed

lemma MemBufferEncryptData_key:
  assumes "s * s = t * t"
  shows "MemBufferEncryptData os m s offset = MemBufferEncryptData os m t offset"
proof -
  have "BRB_Blowfish_Init (mb_enc_key s) 4 = BRB_Blowfish_Init (mb_enc_key t) 4"
    by (rule bf_init_prefix) (simp_all add: mb_enc_key_prefix assms)
  then show ?thesis by (simp add: MemBufferEncryptData_def)
qed

section \<open>The encryption stays in bounds\<close>

lemma mb_encrypt_step_ok:
  assumes "bf_ok ctx" "0 \<le> p" "nat p + 8 * i + 16 \<le> length xs"
  shows "\<exists>ys. mb_encrypt_step ctx p i xs = Inr ys \<and> length ys = length xs"
proof -
  have l: "\<exists>w. get_long xs (p + 8 * int i) = Inr w" "\<exists>w. get_long xs (p + 8 * (int i + 1)) = Inr w"
    using assms(2,3) by (auto simp: get_long_def nat_add_distrib nat_mult_distrib)
  have s: "\<exists>ys. set_long zs (p + 8 * int k) w = Inr ys \<and> length ys = length xs" if "length zs = length xs" "k \<le> Suc i" for zs k w
  proof -
    have "nat (p + 8 * int k) + 8 \<le> length zs" using that assms(2,3) by (simp add: nat_add_distrib nat_mult_distrib)
    then show ?thesis using assms(2) that(1) by (simp add: set_long_def arr_copy_def le64_def)
  qed
  obtain a b where ab: "get_long xs (p + 8 * int i) = Inr a" "get_long xs (p + 8 * (int i + 1)) = Inr b" using l by blast
  obtain c d where cd: "BRB_Blowfish_Encrypt ctx (a, b) = Inr (c, d)" using bf_encrypt_total [OF assms(1), of "(a, b)"] by auto
  obtain ys where ys: "set_long xs (p + 8 * int i) c = Inr ys" "length ys = length xs" using s [of xs i c] by auto
  obtain zs where zs: "set_long ys (p + 8 * int (Suc i)) d = Inr zs" "length zs = length xs" using s [OF ys(2), of "Suc i" d] by auto
  have "p + 8 * int (Suc i) = p + 8 * (int i + 1)" by simp
  then show ?thesis using ab cd ys zs by (simp only: mb_encrypt_step_def mb_crypt_pair_def and_then_Inr prod.case) auto
qed

lemma MemBufferEncryptData_ok:
  assumes "mb_is m bs" "mb_offset m = 0" "unat (mb_capacity m) + 2 ^ 32 + length bs + 32 < 2 ^ 63"
  shows "\<exists>m'. MemBufferEncryptData os m seed 0 = Inr m' \<and> \<not> mb_held m' \<and> unat (mb_size m') = 16 * ((length bs div 8 + 3) div 2) \<and>
    unat (mb_size m') \<le> length (mb_data m')"
proof -
  note I = mb_isD [OF assms(1)]
  define blocks where "blocks = mb_size m div 8 + 2"
  have n: "length bs < 2 ^ 63" using assms(3) by simp
  have q: "unat (mb_size m div 8) = length bs div 8" using I(5) by (simp add: unat_div)
  have blocks: "unat blocks = length bs div 8 + 2"
    using q n by (simp add: blocks_def unat_add_small)
  have pairs: "mb_pairs blocks = (length bs div 8 + 3) div 2" by (simp add: mb_pairs_def blocks)
  have b1: "unat (blocks + 1) = length bs div 8 + 3" using blocks n by (simp add: unat_add_small)
  have need: "unat ((blocks + 1) * 8) = 8 * (length bs div 8 + 3)"
  proof -
    have "unat (blocks + 1) * unat (8 :: ulong) < 2 ^ 64" using b1 n by simp
    then have "unat ((blocks + 1) * 8) = unat (blocks + 1) * unat (8 :: ulong)" by (intro unat_mult_lem [THEN iffD1]) simp
    then show ?thesis using b1 by simp
  qed
  have le: "8 * (length bs div 8 + 3) \<le> length bs + 24" by simp
  obtain b where enter: "mb_enter m = Inr (m\<lparr>mb_held := mb_thread_safe m, mb_busy_flags := b\<rparr>)" using mb_enter_free [OF I(2)] by blast
  define m1 where "m1 = m\<lparr>mb_held := mb_thread_safe m, mb_busy_flags := b\<rparr>"
  have s1: "mb_sized m1" "mb_fits m1 ((blocks + 1) * 8)"
    using I(1) assms(3) need le unat_32 [of "mb_grow_rate m"] by (simp_all add: m1_def mb_sized_def mb_fits_def)
  obtain D w c where G: "MemBufferCheckForGrow os m1 ((blocks + 1) * 8) = Inr (m1\<lparr>mb_data := D, mb_capacity := c, mb_wired := w\<rparr>)"
    "length bs + 8 * (length bs div 8 + 3) \<le> unat c" "unat c \<le> length D"
  proof -
    obtain w c where "MemBufferCheckForGrow os m1 ((blocks + 1) * 8) = Inr (m1\<lparr>mb_data := mb_grown m1 ((blocks + 1) * 8), mb_capacity := c, mb_wired := w\<rparr>)"
      "unat c = (if mb_full m1 ((blocks + 1) * 8) then unat (mb_capacity m1) + unat (mb_grow_rate m1) + unat ((blocks + 1) * 8) else unat (mb_capacity m1))"
      "unat (mb_size m1) + unat ((blocks + 1) * 8) \<le> unat c"
      using MemBufferCheckForGrow_spec [OF s1, of os] unfolding mb_grown_def by blast
    moreover from this have "unat c \<le> length (mb_grown m1 ((blocks + 1) * 8))"
      using I(7) by (auto simp: mb_grown_def m1_def min_def)
    ultimately show ?thesis using that I(5) need by (simp add: m1_def)
  qed
  obtain ctx where ctx: "BRB_Blowfish_Init (mb_enc_key seed) 4 = Inr ctx" "bf_ok ctx"
    using BRB_Blowfish_Init_ok [of 4 "mb_enc_key seed"] by auto
  have bound: "8 * (2 * k) + 16 \<le> length D" if "k < mb_pairs blocks" for k
    using that G(2,3) unfolding pairs by simp
  obtain xs where xs: "for_each (mb_encrypt_step ctx 0) (map (\<lambda>k. 2 * k) [0..<mb_pairs blocks]) D = Inr xs" "length xs = length D"
  proof -
    have "\<exists>ys. mb_encrypt_step ctx 0 i zs = Inr ys \<and> length ys = length D"
      if "i \<in> set (map (\<lambda>k. 2 * k) [0..<mb_pairs blocks])" "length zs = length D" for i zs
      using mb_encrypt_step_ok [OF ctx(2), of 0 i zs] bound that by auto
    note step = this
    have "\<exists>xs. for_each (mb_encrypt_step ctx 0) (map (\<lambda>k. 2 * k) [0..<mb_pairs blocks]) D = Inr xs \<and> length xs = length D"
      by (rule for_each_inv [where I = "\<lambda>xs. length xs = length D"]) (use step in simp_all)
    then show ?thesis using that by blast
  qed
  define m2 where "m2 = m1\<lparr>mb_capacity := c, mb_wired := w, mb_data := xs, mb_size := of_nat (2 * mb_pairs blocks) * 8\<rparr>"
  have "mb_held m2 = mb_thread_safe m2" by (simp add: m2_def m1_def)
  then obtain b2 where leave: "mb_leave m2 = m2\<lparr>mb_held := False, mb_busy_flags := b2\<rparr>" using mb_leave_eq by blast
  have "MemBufferGetSize m + 0 = mb_size m" using assms(2) by (simp add: MemBufferGetSize_def)
  then have run: "MemBufferEncryptData os m seed 0 = Inr (m2\<lparr>mb_held := False, mb_busy_flags := b2\<rparr>)"
    using G(1) ctx(1) xs(1) leave assms(2)
    by (simp add: MemBufferEncryptData_def enter Let_def mb_raw_ptr_def MemBufferDeref_def flip: m1_def blocks_def)
      (simp add: m1_def m2_def MemBufferDeref_def)
  have "unat (of_nat (2 * mb_pairs blocks) * 8 :: ulong) = 16 * ((length bs div 8 + 3) div 2)"
  proof -
    have e: "of_nat (2 * mb_pairs blocks) * 8 = (of_nat (16 * ((length bs div 8 + 3) div 2)) :: ulong)" by (simp add: pairs)
    have "16 * ((length bs div 8 + 3) div 2) < 2 ^ 64" using n by simp
    then show ?thesis unfolding e by (subst unat_of_nat) simp
  qed
  moreover have "16 * ((length bs div 8 + 3) div 2) \<le> length D" using G(2,3) by simp
  ultimately show ?thesis using run xs(2) by (auto simp: m2_def)
qed

text \<open>C28: \<open>MemBufferEncryptData\<close> of a buffer that has not been read from (read offset 0, less than 2 ^ 63 bytes)
  from its start runs without a fault and without leaving the memory of the buffer, and ends with a whole number of
  pairs of longs and the mutex released. Its key is only the four bytes of the square of the seed: on every buffer and
  from every position, two seeds with the same square modulo 2 ^ 32 encrypt alike, such as \<open>s\<close> and \<open>- s\<close>.
  (\<open>MemBufferDecryptData\<close> sets up the cipher with all 64 bytes of the key.)\<close>

theorem membuf_encrypt_key:
  assumes "mb_is m bs" "mb_offset m = 0" "unat (mb_capacity m) + 2 ^ 32 + length bs + 32 < 2 ^ 63" "seed * seed = seed' * seed'"
  shows "(\<exists>m'. MemBufferEncryptData os m seed 0 = Inr m' \<and>
      unat (mb_size m') = 16 * ((length bs div 8 + 3) div 2) \<and> unat (mb_size m') \<le> length (mb_data m') \<and> \<not> mb_held m') \<and>
    MemBufferEncryptData os b seed offset = MemBufferEncryptData os b seed' offset"
  using MemBufferEncryptData_ok [OF assms(1-3), of os seed] MemBufferEncryptData_key [OF assms(4), of os b offset] by auto

lemma membuf_encrypt_key_witness:
  "\<exists>m'. MemBufferEncryptData \<lparr>os_mlock = (\<lambda>_. 0), os_madvise = (\<lambda>_. 0), os_junk = 0\<rparr> (MemBufferNew False 8) 3 0 = Inr m' \<and>
    MemBufferEncryptData \<lparr>os_mlock = (\<lambda>_. 0), os_madvise = (\<lambda>_. 0), os_junk = 0\<rparr> (MemBufferNew False 8) (- 3) 0 = Inr m' \<and>
    unat (mb_size m') = 16"
proof -
  let ?os = "\<lparr>os_mlock = (\<lambda>_. 0), os_madvise = (\<lambda>_. 0), os_junk = 0\<rparr>" and ?m = "MemBufferNew False 8"
  have m: "mb_is ?m []" "mb_offset ?m = 0" "unat (mb_capacity ?m) + 2 ^ 32 + length ([] :: byte list) + 32 < 2 ^ 63"
    by (rule MemBufferNew_is, simp_all add: MemBufferNew_def)
  have "(3 :: 32 word) * 3 = - 3 * - 3" by simp
  note C = membuf_encrypt_key [OF m this, of ?os ?m 0]
  obtain m' where "MemBufferEncryptData ?os ?m 3 0 = Inr m'" "unat (mb_size m') = 16" using C [THEN conjunct1] by auto
  then show ?thesis using C [THEN conjunct2] by (intro exI [of _ m']) simp
qed

end
