(* ===== verification/BrbStrings.thy ===== *)
theory BrbStrings
  imports BrbPrelude
begin

text \<open>
  The string functions of libbrb_core/data/utils/str.c. Characters are bytes, written by their ASCII codes,
  and the C library's character classes are those of the C locale. A pointer to characters is the list of
  the bytes from there to the end of the object, and reading or writing beyond it is a fault. Loops that
  edit a string in place work on the whole list with a read and a write index, as the code does.
\<close>

type_synonym chars = "8 word list"

section \<open>The C library\<close>

definition c_isspace :: "8 word \<Rightarrow> bool" where
  "c_isspace c \<longleftrightarrow> c = 32 \<or> (9 \<le> c \<and> c \<le> 13)"

definition c_isdigit :: "8 word \<Rightarrow> bool" where
  "c_isdigit c \<longleftrightarrow> 48 \<le> c \<and> c \<le> 57"

definition c_isalnum :: "8 word \<Rightarrow> bool" where
  "c_isalnum c \<longleftrightarrow> c_isdigit c \<or> (65 \<le> c \<and> c \<le> 90) \<or> (97 \<le> c \<and> c \<le> 122)"

definition c_tolower :: "8 word \<Rightarrow> 8 word" where
  "c_tolower c = (if 65 \<le> c \<and> c \<le> 90 then c + 32 else c)"

fun c_strlen :: "chars \<Rightarrow> nat result" where
  "c_strlen [] = Inl OutOfBounds"
| "c_strlen (c # s) = (if c = 0 then Inr 0 else and_then (c_strlen s) (\<lambda>n. Inr (Suc n)))"

text \<open>\<open>strncmp\<close> and \<open>memcmp\<close> promise the sign of their result, which the model returns.\<close>

fun c_strncmp :: "chars \<Rightarrow> chars \<Rightarrow> nat \<Rightarrow> int result" where
  "c_strncmp s t 0 = Inr 0"
| "c_strncmp (c # s) (d # t) (Suc n) =
     (if c \<noteq> d then Inr (sgn (uint c - uint d)) else if c = 0 then Inr 0 else c_strncmp s t n)"
| "c_strncmp s t (Suc n) = Inl OutOfBounds"

definition c_memeq :: "chars \<Rightarrow> chars \<Rightarrow> nat \<Rightarrow> bool result" where
  "c_memeq s t n = (if n \<le> length s \<and> n \<le> length t then Inr (take n s = take n t) else Inl OutOfBounds)"

text \<open>\<open>atoi\<close>: white space, a sign, and the digits that follow. C defines it for the numbers in the range of \<open>int\<close>.\<close>

definition c_digits :: "chars \<Rightarrow> int" where
  "c_digits s = foldl (\<lambda>n c. 10 * n + (uint c - 48)) 0 (takeWhile c_isdigit s)"

definition c_atoi :: "chars \<Rightarrow> int" where
  "c_atoi s = (case dropWhile c_isspace s of
       [] \<Rightarrow> 0
     | c # t \<Rightarrow> if c = 45 then - c_digits t else if c = 43 then c_digits t else c_digits (c # t))"

section \<open>Strings with a length\<close>

record brb_str =
  bs_ptr :: chars
  bs_len :: nat

definition BrbStrNew :: "chars option \<Rightarrow> brb_str result" where
  "BrbStrNew buf_str = (case buf_str of
       None \<Rightarrow> Inr \<lparr>bs_ptr = [], bs_len = 0\<rparr>
     | Some s \<Rightarrow> and_then (c_strlen s) (\<lambda>n. Inr \<lparr>bs_ptr = s, bs_len = n\<rparr>))"

definition BrbStrNewN :: "chars \<Rightarrow> nat \<Rightarrow> brb_str" where
  "BrbStrNewN buf_str buf_sz = \<lparr>bs_ptr = buf_str, bs_len = buf_sz\<rparr>"

definition BrbStrdup :: "brb_str \<Rightarrow> brb_str result" where
  "BrbStrdup s = (if 0 < bs_len s then
       and_then (mem_copy (replicate (bs_len s + 1) 0) 0 (bs_ptr s) (int (bs_len s))) (\<lambda>sc.
       and_then (arr_set sc (int (bs_len s)) 0) (\<lambda>sc. Inr \<lparr>bs_ptr = sc, bs_len = bs_len s\<rparr>))
     else Inr \<lparr>bs_ptr = [], bs_len = 0\<rparr>)"

fun bs_skip_front :: "chars \<Rightarrow> nat \<Rightarrow> (chars \<times> nat) result" where
  "bs_skip_front s 0 = Inr (s, 0)"
| "bs_skip_front s (Suc n) = (case s of [] \<Rightarrow> Inl OutOfBounds
     | c # t \<Rightarrow> if c_isspace c then bs_skip_front t n else Inr (s, Suc n))"

fun bs_skip_back :: "chars \<Rightarrow> nat \<Rightarrow> nat result" where
  "bs_skip_back s 0 = Inr 0"
| "bs_skip_back s (Suc n) = and_then (arr_get s (int n)) (\<lambda>c. if c_isspace c then bs_skip_back s n else Inr (Suc n))"

definition BrbStrstrip :: "brb_str \<Rightarrow> brb_str result" where
  "BrbStrstrip s = and_then (bs_skip_front (bs_ptr s) (bs_len s)) (\<lambda>(p, n).
     and_then (bs_skip_back p n) (\<lambda>n. Inr \<lparr>bs_ptr = p, bs_len = n\<rparr>))"

section \<open>Comparison\<close>

definition BrbStr_tolower :: "8 word \<Rightarrow> int" where
  "BrbStr_tolower c = uint (c_tolower c)"

text \<open>The loop of \<open>BrbStr_ncasecmp\<close>, entered with a length of at least 1.\<close>

fun bs_ncasecmp :: "chars \<Rightarrow> chars \<Rightarrow> nat \<Rightarrow> int result" where
  "bs_ncasecmp (c # s) (d # t) n =
     (let diff = BrbStr_tolower c - BrbStr_tolower d in
      if diff = 0 \<and> c \<noteq> 0 \<and> n - 1 > 0 then bs_ncasecmp s t (n - 1) else Inr diff)"
| "bs_ncasecmp s t n = Inl OutOfBounds"

definition BrbStr_ncasecmp :: "chars \<Rightarrow> chars \<Rightarrow> nat \<Rightarrow> int result" where
  "BrbStr_ncasecmp s1 s2 n = (if n > 0 then bs_ncasecmp s1 s2 n else Inr 0)"

definition BrbStr_casecmp :: "chars \<Rightarrow> chars \<Rightarrow> int result" where
  "BrbStr_casecmp s1 s2 = BrbStr_ncasecmp s1 s2 (2 ^ 64 - 1)"

definition BrbStr_vcmp :: "brb_str \<Rightarrow> chars \<Rightarrow> int result" where
  "BrbStr_vcmp s1 s2 = and_then (c_strlen s2) (\<lambda>n2. let n1 = bs_len s1 in
     and_then (c_strncmp (bs_ptr s1) s2 (if n1 < n2 then n1 else n2)) (\<lambda>r.
     Inr (if r = 0 then c_int (int n1 - int n2) else r)))"

definition BrbStr_vcasecmp :: "brb_str \<Rightarrow> chars \<Rightarrow> int result" where
  "BrbStr_vcasecmp s1 s2 = and_then (c_strlen s2) (\<lambda>n2. let n1 = bs_len s1 in
     and_then (BrbStr_ncasecmp (bs_ptr s1) s2 (if n1 < n2 then n1 else n2)) (\<lambda>r.
     Inr (if r = 0 then c_int (int n1 - int n2) else r)))"

text \<open>\<open>BrbStr_cmp\<close>: the loop from index \<open>i\<close>; \<open>char\<close> is signed. The loop runs while \<open>i\<close> is below both lengths.\<close>

fun bs_cmp :: "chars \<Rightarrow> nat \<Rightarrow> chars \<Rightarrow> nat \<Rightarrow> int result" where
  "bs_cmp (c # s) (Suc m) (d # t) (Suc n) =
     (if sint c < sint d then Inr (- 1) else if sint c > sint d then Inr 1 else bs_cmp s m t n)"
| "bs_cmp s (Suc m) t (Suc n) = Inl OutOfBounds"
| "bs_cmp s (Suc m) t 0 = Inr 1"
| "bs_cmp s 0 t (Suc n) = Inr (- 1)"
| "bs_cmp s 0 t 0 = Inr 0"

definition BrbStr_cmp :: "brb_str \<Rightarrow> brb_str \<Rightarrow> int result" where
  "BrbStr_cmp str1 str2 = bs_cmp (bs_ptr str1) (bs_len str1) (bs_ptr str2) (bs_len str2)"

section \<open>Searching\<close>

text \<open>The pointer found is given by its index; \<open>k\<close> tries are left.\<close>

fun bs_search :: "chars \<Rightarrow> chars \<Rightarrow> nat \<Rightarrow> nat \<Rightarrow> nat \<Rightarrow> nat option result" where
  "bs_search s t n i 0 = Inr None"
| "bs_search s t n i (Suc k) =
     and_then (c_memeq (drop i s) t n) (\<lambda>e. if e then Inr (Some i) else bs_search s t n (i + 1) k)"

definition BrbStrstr :: "brb_str \<Rightarrow> brb_str \<Rightarrow> nat option result" where
  "BrbStrstr haystack needle =
     (if bs_len needle > bs_len haystack then Inr None
      else bs_search (bs_ptr haystack) (bs_ptr needle) (bs_len needle) 0 (bs_len haystack - bs_len needle + 1))"

fun bs_skip_no_numeric :: "chars \<Rightarrow> nat \<Rightarrow> nat \<Rightarrow> nat option result" where
  "bs_skip_no_numeric s i 0 = Inr None"
| "bs_skip_no_numeric s i (Suc n) = and_then (arr_get s (int i)) (\<lambda>c.
     if c \<noteq> 0 \<and> (sint c < 48 \<or> sint c > 57) then bs_skip_no_numeric s (i + 1) n else Inr (Some i))"

definition BrbStrSkipNoNumeric :: "chars option \<Rightarrow> int \<Rightarrow> nat option result" where
  "BrbStrSkipNoNumeric buf_str buf_sz =
     and_then (if buf_sz < 0 then (case buf_str of None \<Rightarrow> Inr 0 | Some s \<Rightarrow> and_then (c_strlen s) (\<lambda>n. Inr (c_int (int n)))) else Inr buf_sz) (\<lambda>buf_sz.
     if buf_sz \<le> 0 then Inr None
     else case buf_str of None \<Rightarrow> Inl NullDeref | Some s \<Rightarrow> bs_skip_no_numeric s 0 (nat buf_sz))"

section \<open>Editing in place\<close>

text \<open>\<open>BrbStrReplaceAllNonAlpha\<close>: \<open>n\<close> characters are left to read at \<open>i\<close>, the next one is written to \<open>j\<close>.\<close>

fun bs_keep_alpha :: "chars \<Rightarrow> nat \<Rightarrow> nat \<Rightarrow> nat \<Rightarrow> (chars \<times> nat) result" where
  "bs_keep_alpha s j i 0 = Inr (s, j)"
| "bs_keep_alpha s j i (Suc n) = and_then (arr_get s (int i)) (\<lambda>c.
     if c = 0 then Inr (s, j)
     else if c_isalnum c \<or> c = 95 then and_then (arr_set s (int j) c) (\<lambda>s. bs_keep_alpha s (j + 1) (i + 1) n)
     else bs_keep_alpha s j (i + 1) n)"

definition BrbStrReplaceAllNonAlpha :: "chars \<Rightarrow> int \<Rightarrow> (chars \<times> int) result" where
  "BrbStrReplaceAllNonAlpha buf_str buf_sz =
     and_then (bs_keep_alpha buf_str 0 0 (unat (word_of_int buf_sz :: 64 word))) (\<lambda>(s, j).
     and_then (arr_set s (int j) 0) (\<lambda>s. Inr (s, 1)))"

fun bs_skip_quotes :: "chars \<Rightarrow> nat \<Rightarrow> nat \<Rightarrow> nat \<Rightarrow> (chars \<times> nat) result" where
  "bs_skip_quotes s j i 0 = Inr (s, j)"
| "bs_skip_quotes s j i (Suc n) = and_then (arr_get s (int i)) (\<lambda>c.
     if c \<noteq> 34 then and_then (arr_set s (int j) c) (\<lambda>s. bs_skip_quotes s (j + 1) (i + 1) n)
     else bs_skip_quotes s j (i + 1) n)"

definition BrbStrSkipQuotes :: "chars \<Rightarrow> int \<Rightarrow> (chars \<times> int) result" where
  "BrbStrSkipQuotes buf_str buf_sz = and_then (bs_skip_quotes buf_str 0 0 (nat buf_sz)) (\<lambda>(s, j).
     and_then (arr_set s (int j) 0) (\<lambda>s. Inr (s, 1)))"

section \<open>Escaping\<close>

text \<open>The case labels: \<open>\0 \a \b \f \n \r \t \v\<close>, backslash and the quotes.\<close>

definition bs_slashed :: "8 word \<Rightarrow> bool" where
  "bs_slashed c \<longleftrightarrow> c \<in> {0, 7, 8, 12, 10, 13, 9, 11, 92, 39, 34}"

fun bs_add_slashes :: "chars \<Rightarrow> nat \<Rightarrow> nat \<Rightarrow> nat \<Rightarrow> chars \<Rightarrow> (chars \<times> nat) result" where
  "bs_add_slashes s i 0 j dst = Inr (dst, j)"
| "bs_add_slashes s i (Suc n) j dst = and_then (arr_get s (int i)) (\<lambda>c.
     and_then (if bs_slashed c then and_then (arr_set dst (int j) 92) (\<lambda>dst. Inr (dst, j + 1)) else Inr (dst, j)) (\<lambda>(dst, j).
     and_then (arr_set dst (int j) c) (\<lambda>dst. bs_add_slashes s (i + 1) n (j + 1) dst)))"

text \<open>
  \<open>calloc(1, ((buf_sz * 2) + 1))\<close> with an \<open>int\<close> size. A negative size is converted to more bytes than there can be,
  \<open>calloc\<close> returns null, and the terminator is written through the null pointer. The indices of the loops stay below
  the size that was computed.
\<close>

definition bs_esc_alloc :: "int \<Rightarrow> chars result" where
  "bs_esc_alloc buf_sz = and_then (in_int (buf_sz * 2)) (\<lambda>n. and_then (in_int (n + 1)) (\<lambda>n.
     if n < 0 then Inl NullDeref else Inr (replicate (nat n) 0)))"

definition BrbStrAddSlashes :: "chars option \<Rightarrow> int \<Rightarrow> chars option result" where
  "BrbStrAddSlashes buf_str buf_sz = (case buf_str of
       None \<Rightarrow> Inr None
     | Some s \<Rightarrow> and_then (bs_esc_alloc buf_sz) (\<lambda>dst. and_then (bs_add_slashes s 0 (nat buf_sz) 0 dst) (\<lambda>(dst, j).
         and_then (arr_set dst (int j) 0) (\<lambda>dst. Inr (Some dst)))))"

text \<open>The JSON escapes: the letter that follows the backslash.\<close>

definition bs_json_letter :: "8 word \<Rightarrow> 8 word option" where
  "bs_json_letter c = map_of [(0, 48), (7, 97), (8, 98), (12, 102), (10, 110), (13, 114), (9, 116), (11, 118), (92, 92), (34, 34)] c"

fun bs_add_json :: "chars \<Rightarrow> nat \<Rightarrow> nat \<Rightarrow> nat \<Rightarrow> chars \<Rightarrow> (chars \<times> nat) result" where
  "bs_add_json s i 0 j dst = Inr (dst, j)"
| "bs_add_json s i (Suc n) j dst = and_then (arr_get s (int i)) (\<lambda>c.
     and_then (case bs_json_letter c of
         Some l \<Rightarrow> and_then (arr_set dst (int j) 92) (\<lambda>dst. and_then (arr_set dst (int (j + 1)) l) (\<lambda>dst. Inr (dst, j + 1)))
       | None \<Rightarrow> and_then (arr_set dst (int j) c) (\<lambda>dst. Inr (dst, j))) (\<lambda>(dst, j).
     bs_add_json s (i + 1) n (j + 1) dst))"

definition BrbStrAddJSONSlashes :: "chars option \<Rightarrow> int \<Rightarrow> chars option result" where
  "BrbStrAddJSONSlashes buf_str buf_sz = (case buf_str of
       None \<Rightarrow> Inr None
     | Some s \<Rightarrow> and_then (bs_esc_alloc buf_sz) (\<lambda>dst. and_then (bs_add_json s 0 (nat buf_sz) 0 dst) (\<lambda>(dst, j).
         and_then (arr_set dst (int j) 0) (\<lambda>dst. Inr (Some dst)))))"

text \<open>\<open>strlcpy\<close> copies at most \<open>out_sz - 1\<close> characters, terminates them, and returns the length of the source.\<close>

definition c_strlcpy :: "chars \<Rightarrow> chars \<Rightarrow> nat \<Rightarrow> (chars \<times> nat) result" where
  "c_strlcpy dst src out_sz = and_then (c_strlen src) (\<lambda>n.
     if out_sz = 0 then Inr (dst, n)
     else and_then (arr_copy dst 0 (take (out_sz - 1) (take n src) @ [0])) (\<lambda>dst. Inr (dst, n)))"

definition BrbStrlcpySlashed :: "chars \<Rightarrow> chars option \<Rightarrow> int \<Rightarrow> (chars \<times> int) result" where
  "BrbStrlcpySlashed out_ptr in_ptr out_sz =
     and_then (case in_ptr of None \<Rightarrow> Inr True | Some s \<Rightarrow> and_then (arr_get s 0) (\<lambda>c. Inr (c = 0))) (\<lambda>empty.
     if empty then and_then (arr_set out_ptr 0 0) (\<lambda>out_ptr. Inr (out_ptr, 0))
     else and_then (c_strlen (case in_ptr of None \<Rightarrow> [] | Some s \<Rightarrow> s)) (\<lambda>in_sz.
       and_then (BrbStrAddSlashes in_ptr (c_int (int in_sz))) (\<lambda>in_sld.
       and_then (c_strlcpy out_ptr (case in_sld of None \<Rightarrow> [0] | Some t \<Rightarrow> t) (nat (c_size out_sz))) (\<lambda>(out_ptr, n).
       Inr (out_ptr, c_int (int n))))))"


text \<open>
  \<open>BrbStrFindSubStr\<close>. The inner loop compares on from a matching first character; it compares the
  character after the last one too before it looks at its counter. Its outcome is the index returned, or
  the index and the counter with which the outer loop goes on. Every round of the inner loop moves the
  counter, every round of the outer loop the index.
\<close>

function bs_find_inner :: "chars \<Rightarrow> nat \<Rightarrow> chars \<Rightarrow> nat \<Rightarrow> nat \<Rightarrow> nat \<Rightarrow> (nat + nat \<times> nat) result" where
  "bs_find_inner s n t m idx tok =
     (if tok < m \<and> idx < n then
        let tok = tok + 1; idx = idx + 1 in
        and_then (arr_get s (int idx)) (\<lambda>c. and_then (arr_get t (int tok)) (\<lambda>d.
          if c \<noteq> d then (if tok = m then Inr (Inl (idx - 1)) else Inr (Inr (idx - tok, tok)))
          else bs_find_inner s n t m idx tok))
      else Inr (Inr (idx, tok)))"
  by pat_completeness auto
termination by (relation "measure (\<lambda>(s, n, t, m, idx, tok). m - tok)") auto

declare bs_find_inner.simps [simp del]

text \<open>The outer loop; \<open>k\<close> bounds the rounds left, and the caller passes the size of the buffer, which each round uses up by one.\<close>

fun bs_find :: "chars \<Rightarrow> nat \<Rightarrow> chars \<Rightarrow> nat \<Rightarrow> nat \<Rightarrow> nat \<Rightarrow> nat \<Rightarrow> int result" where
  "bs_find s n t m idx tok 0 = (if idx < n \<and> tok < m then Inl FuelOut else Inr (- 1))"
| "bs_find s n t m idx tok (Suc k) =
     (if idx < n \<and> tok < m then
        and_then (arr_get s (int idx)) (\<lambda>c. and_then (arr_get t 0) (\<lambda>d.
          if c \<noteq> d then bs_find s n t m (idx + 1) 0 k
          else and_then (bs_find_inner s n t m idx 0) (\<lambda>r. case r of
              Inl i \<Rightarrow> Inr (int i)
            | Inr (idx, tok) \<Rightarrow> if tok = m then Inr (int idx - 1) else bs_find s n t m (idx + 1) tok k)))
      else Inr (- 1))"

definition BrbStrFindSubStr :: "chars \<Rightarrow> int \<Rightarrow> chars \<Rightarrow> int \<Rightarrow> int result" where
  "BrbStrFindSubStr buf_str buf_sz substring_str substring_sz =
     bs_find buf_str (nat buf_sz) substring_str (nat substring_sz) 0 0 (nat buf_sz)"

section \<open>Percent decoding\<close>

definition c_hexval :: "8 word \<Rightarrow> nat option" where
  "c_hexval c = (if c_isdigit c then Some (unat c - 48)
     else if 65 \<le> c \<and> c \<le> 70 then Some (unat c - 55)
     else if 97 \<le> c \<and> c \<le> 102 then Some (unat c - 87) else None)"

text \<open>
  \<open>sscanf\<close> with \<open>%x\<close> of a string of two characters other than 0: leading white space, a sign and a
  prefix \<open>0x\<close> are part of the format. The result is the number read, \<open>None\<close> when nothing matches.
\<close>

definition c_sscanf_x :: "8 word \<Rightarrow> 8 word \<Rightarrow> 32 word option" where
  "c_sscanf_x a b = (case c_hexval a of
       Some x \<Rightarrow> (case c_hexval b of Some y \<Rightarrow> Some (of_nat (16 * x + y)) | None \<Rightarrow> Some (of_nat x))
     | None \<Rightarrow> if c_isspace a \<or> a = 43 then map_option of_nat (c_hexval b)
               else if a = 45 then map_option (\<lambda>y. - of_nat y) (c_hexval b) else None)"

text \<open>
  \<open>n\<close> counts the bytes of the object from \<open>j\<close> on, so that it is 0 only beyond its end. The index \<open>j\<close>, which \<open>i\<close> never
  passes, is an \<open>int\<close>: it is checked where it is used, as are the indices of the two characters behind it.
\<close>

fun bs_url_decode :: "chars \<Rightarrow> nat \<Rightarrow> nat \<Rightarrow> nat \<Rightarrow> (chars \<times> nat) result" where
  "bs_url_decode s i j 0 = Inl OutOfBounds"
| "bs_url_decode s i j (Suc n) = and_then (in_int (int j)) (\<lambda>p. and_then (arr_get s p) (\<lambda>c.
     if c = 0 then Inr (s, i)
     else and_then (arr_set s (int i) c) (\<lambda>s.
       if c \<noteq> 37 then bs_url_decode s (i + 1) (j + 1) n
       else and_then (in_int (int j + 1)) (\<lambda>p. and_then (arr_get s p) (\<lambda>c1.
         if c1 = 37 then bs_url_decode s (i + 1) (j + 2) (n - 1)
         else if c1 = 0 then bs_url_decode s (i + 1) (j + 1) n
         else and_then (in_int (int j + 2)) (\<lambda>p. and_then (arr_get s p) (\<lambda>c2.
           if c2 = 0 then bs_url_decode s (i + 1) (j + 1) n
           else if c1 = 48 \<and> c2 = 48 then bs_url_decode s (i + 1) (j + 3) (n - 2)
           else case c_sscanf_x c1 c2 of
               Some x \<Rightarrow> and_then (arr_set s (int i) (ucast (and 255 x)))
                 (\<lambda>s. bs_url_decode s (i + 1) (j + 3) (n - 2))
             | None \<Rightarrow> bs_url_decode s (i + 1) (j + 1) n)))))))"

definition BrbStrUrlDecode :: "chars \<Rightarrow> (chars \<times> int) result" where
  "BrbStrUrlDecode buf_str = and_then (bs_url_decode buf_str 0 0 (length buf_str)) (\<lambda>(s, i).
     and_then (arr_set s (int i) 0) (\<lambda>s. and_then (c_strlen s) (\<lambda>n. Inr (s, c_int (int n)))))"

section \<open>Dates\<close>

record brb_tm =
  tm_year :: int
  tm_mon :: int
  tm_mday :: int
  tm_hour :: int
  tm_min :: int
  tm_sec :: int
  tm_isdst :: int

definition tm_zero :: brb_tm where
  "tm_zero = \<lparr>tm_year = 0, tm_mon = 0, tm_mday = 0, tm_hour = 0, tm_min = 0, tm_sec = 0, tm_isdst = 0\<rparr>"

text \<open>\<open>strncpy\<close> of \<open>n\<close> characters from index \<open>i\<close> into the front of a cleared array that is one longer.\<close>

definition c_strncpy :: "chars \<Rightarrow> nat \<Rightarrow> nat \<Rightarrow> chars result" where
  "c_strncpy s i n = (let t = takeWhile (\<lambda>c. c \<noteq> 0) (take n (drop i s)) in
     if length t = n \<or> i + length t < length s then Inr (t @ replicate (n + 1 - length t) 0) else Inl OutOfBounds)"

definition bs_month_names :: "(chars \<times> int) list" where
  "bs_month_names = [([74, 97, 110], 1), ([70, 101, 98], 2), ([77, 97, 114], 3), ([65, 112, 114], 4),
     ([77, 97, 121], 5), ([74, 117, 110], 6), ([74, 117, 108], 7), ([65, 117, 103], 8),
     ([83, 101, 112], 9), ([79, 99, 116], 10), ([78, 111, 118], 11), ([68, 101, 99], 12)]"

fun bs_month_lookup :: "chars \<Rightarrow> (chars \<times> int) list \<Rightarrow> int result" where
  "bs_month_lookup s [] = Inr 1"
| "bs_month_lookup s ((m, k) # ms) =
     and_then (c_strncmp s (m @ [0]) 3) (\<lambda>r. if r = 0 then Inr k else bs_month_lookup s ms)"

definition BrbStrDateMonthToNumber :: "chars option \<Rightarrow> int result" where
  "BrbStrDateMonthToNumber date_str = (case date_str of
       None \<Rightarrow> Inr 1 | Some s \<Rightarrow> bs_month_lookup s bs_month_names)"

text \<open>
  The cascade of formats. A format is recognised by the length and by the separators, which lie within it.
  The parts found are year, month, day, hour, minute and second, each a terminated string, and the
  number of a month given by name (0 otherwise).
\<close>

record date_parts =
  dp_year :: chars
  dp_month :: chars
  dp_day :: chars
  dp_hour :: chars
  dp_minute :: chars
  dp_second :: chars
  dp_named :: int

definition dp_none :: date_parts where
  "dp_none = \<lparr>dp_year = replicate 5 0, dp_month = replicate 3 0, dp_day = replicate 3 0,
     dp_hour = replicate 3 0, dp_minute = replicate 3 0, dp_second = replicate 3 0, dp_named = 0\<rparr>"

definition dp_ymd :: "chars \<Rightarrow> nat \<Rightarrow> nat \<Rightarrow> nat \<Rightarrow> date_parts result" where
  "dp_ymd s y m d = and_then (c_strncpy s y 4) (\<lambda>a. and_then (c_strncpy s m 2) (\<lambda>b. and_then (c_strncpy s d 2) (\<lambda>c.
     Inr (dp_none\<lparr>dp_year := a, dp_month := b, dp_day := c\<rparr>))))"

definition bs_is_iso :: "chars \<Rightarrow> int \<Rightarrow> bool" where
  "bs_is_iso s n \<longleftrightarrow> n \<ge> 19 \<and> s ! 4 = 45 \<and> s ! 7 = 45 \<and> (s ! 10 = 32 \<or> s ! 10 = 84) \<and> s ! 13 = 58 \<and> s ! 16 = 58"

definition dp_iso :: "chars \<Rightarrow> date_parts result" where
  "dp_iso s = and_then (dp_ymd s 0 5 8) (\<lambda>p. and_then (c_strncpy s 11 2) (\<lambda>h. and_then (c_strncpy s 14 2) (\<lambda>i.
     and_then (c_strncpy s 17 2) (\<lambda>x. Inr (p\<lparr>dp_hour := h, dp_minute := i, dp_second := x\<rparr>)))))"

text \<open>The three formats of a plain date; \<open>None\<close> when there is no match.\<close>

definition dp_date :: "chars \<Rightarrow> int \<Rightarrow> date_parts option result" where
  "dp_date s n =
     (if n = 10 \<and> s ! 4 = 45 \<and> s ! 7 = 45 then and_then (dp_ymd s 0 5 8) (\<lambda>p. Inr (Some p))
      else if n = 10 \<and> s ! 2 = 47 \<and> s ! 5 = 47 then and_then (dp_ymd s 6 3 0) (\<lambda>p. Inr (Some p))
      else if n = 10 \<and> s ! 2 = 46 \<and> s ! 5 = 46 then and_then (dp_ymd s 6 3 0) (\<lambda>p. Inr (Some p))
      else Inr None)"

text \<open>The two formats with the name of the month; the day takes \<open>w\<close> characters.\<close>

definition dp_named_month :: "chars \<Rightarrow> nat \<Rightarrow> date_parts result" where
  "dp_named_month s w = and_then (c_strncpy s (w + 5) 4) (\<lambda>y. and_then (c_strncpy s 0 w) (\<lambda>d.
     and_then (c_strncpy s (w + 10) 2) (\<lambda>h. and_then (c_strncpy s (w + 13) 2) (\<lambda>i.
     and_then (BrbStrDateMonthToNumber (Some (drop (w + 1) s))) (\<lambda>m.
     Inr (dp_none\<lparr>dp_year := y, dp_day := d @ replicate (2 - w) 0, dp_hour := h, dp_minute := i, dp_named := m\<rparr>))))))"

definition dp_to_tm :: "date_parts \<Rightarrow> int \<Rightarrow> brb_tm" where
  "dp_to_tm p isdst = \<lparr>tm_year = c_atoi (dp_year p) - 1900,
     tm_mon = (if dp_named p > 0 then dp_named p else c_atoi (dp_month p)) - 1,
     tm_mday = c_atoi (dp_day p), tm_hour = c_atoi (dp_hour p), tm_min = c_atoi (dp_minute p),
     tm_sec = c_atoi (dp_second p), tm_isdst = isdst\<rparr>"

text \<open>\<open>isdst\<close> is the flag of the local time at the moment of the call. The length is converted to \<open>int\<close>.\<close>

definition BrbStrDateToTm :: "int \<Rightarrow> chars option \<Rightarrow> (int \<times> brb_tm) result" where
  "BrbStrDateToTm isdst date_str = (case date_str of
       None \<Rightarrow> Inr (- 1, tm_zero)
     | Some s \<Rightarrow> and_then (c_strlen s) (\<lambda>n. let n = c_int (int n) in
         and_then (if bs_is_iso s n then and_then (dp_iso s) (\<lambda>p. Inr (Some p))
           else and_then (dp_date s n) (\<lambda>r. case r of
               Some p \<Rightarrow> Inr (Some p)
             | None \<Rightarrow> if n \<ge> 17 \<and> s ! 2 = 32 \<and> s ! 6 = 32 \<and> s ! 11 = 32 \<and> s ! 14 = 58 then and_then (dp_named_month s 2) (\<lambda>p. Inr (Some p))
                 else if n \<ge> 16 \<and> s ! 1 = 32 \<and> s ! 5 = 32 \<and> s ! 10 = 32 \<and> s ! 13 = 58 then and_then (dp_named_month s 1) (\<lambda>p. Inr (Some p))
                 else Inr None)) (\<lambda>r. case r of
             None \<Rightarrow> Inr (- 1, tm_zero)
           | Some p \<Rightarrow> Inr (0, dp_to_tm p isdst))))"

text \<open>
  \<open>mktime\<close> normalises the fields and gives the seconds since the epoch. The result is the code and what is
  written to the two structures, the fields, the seconds and the microseconds; \<open>None\<close> when they are left alone.
\<close>

definition BrbStrDateToStructTimeVal ::
    "int \<Rightarrow> (brb_tm \<Rightarrow> brb_tm \<times> int) \<Rightarrow> chars option \<Rightarrow> (int \<times> (brb_tm \<times> int \<times> int) option) result" where
  "BrbStrDateToStructTimeVal isdst mktime date_str = (case date_str of
       None \<Rightarrow> Inr (- 1, None)
     | Some s \<Rightarrow> and_then (c_strlen s) (\<lambda>n. let n = c_int (int n) in
         and_then (if bs_is_iso s n then and_then (dp_iso s) (\<lambda>p. and_then (arr_get s 19) (\<lambda>c.
               Inr (Some (p, if c = 46 then c_atoi (drop 20 s) else 0))))
           else and_then (dp_date s n) (\<lambda>r. Inr (map_option (\<lambda>p. (p, 0)) r))) (\<lambda>r. case r of
             None \<Rightarrow> Inr (- 1, Some (tm_zero, 0, 0))
           | Some (p, usec) \<Rightarrow> (let (tm, sec) = mktime (dp_to_tm p isdst) in Inr (0, Some (tm, sec, usec))))))"

end
