(* ===== verification/BrbStringsProps.thy ===== *)
theory BrbStringsProps
  imports BrbStrings
begin

text \<open>
  Lemmas on the string functions: what the loops that edit in place compute, the searches against the
  first occurrence, the escapes against their inverses, and percent decoding against an encoder.
\<close>

section \<open>Strings and their terminators\<close>

lemma c_strlen_app: "0 \<notin> set s \<Longrightarrow> c_strlen (s @ 0 # r) = Inr (length s)"
  by (induction s) auto

lemma c_strlen_Inr: "c_strlen s = Inr n \<Longrightarrow> n < length s \<and> s ! n = 0 \<and> 0 \<notin> set (take n s)"
proof (induction s arbitrary: n)
  case (Cons c s)
  show ?case
  proof (cases "c = 0")
    case False
    with Cons.prems obtain m where "c_strlen s = Inr m" "n = Suc m" by (auto simp: and_then_eq_Inr)
    with Cons.IH False show ?thesis by auto
  qed (use Cons.prems in simp)
qed simp

section \<open>Editing in place\<close>

lemma take_drop_step: "i < length s \<Longrightarrow> take (Suc n) (drop i s) = s ! i # take n (drop (Suc i) s)"
  by (metis Cons_nth_drop_Suc take_Suc_Cons)

lemma put_splice:
  assumes "j < length s"
  shows "take (Suc j) (s[j := c]) @ f @ drop (Suc j + k) (s[j := c]) = take j s @ (c # f) @ drop (j + Suc k) s"
  using assms by (simp add: take_Suc_conv_app_nth)

lemma bs_skip_quotes_eq:
  "j \<le> i \<Longrightarrow> i + n \<le> length s \<Longrightarrow> f = filter (\<lambda>c. c \<noteq> 34) (take n (drop i s)) \<Longrightarrow>
   bs_skip_quotes s j i n = Inr (take j s @ f @ drop (j + length f) s, j + length f)"
proof (induction n arbitrary: s j i f)
  case (Suc n)
  then have i: "i < length s" by simp
  define g where "g = filter (\<lambda>c. c \<noteq> 34) (take n (drop (i + 1) s))"
  show ?case
  proof (cases "s ! i = 34")
    case True
    have "bs_skip_quotes s j (i + 1) n = Inr (take j s @ g @ drop (j + length g) s, j + length g)"
      by (rule Suc.IH) (use Suc.prems in \<open>auto simp: g_def\<close>)
    with True i Suc.prems(3) show ?thesis by (simp add: arr_get_nat take_drop_step g_def)
  next
    case False
    have "bs_skip_quotes (s[j := s ! i]) (j + 1) (i + 1) n =
        Inr (take (j + 1) (s[j := s ! i]) @ g @ drop (j + 1 + length g) (s[j := s ! i]), j + 1 + length g)"
      by (rule Suc.IH) (use Suc.prems in \<open>auto simp: g_def\<close>)
    with False i Suc.prems show ?thesis
      using put_splice [of j s "s ! i" g "length g"]
      by (simp add: arr_get_nat arr_set_nat take_drop_step g_def)
  qed
qed simp

lemma bs_keep_alpha_eq:
  "j \<le> i \<Longrightarrow> i + n \<le> length s \<Longrightarrow>
   f = filter (\<lambda>c. c_isalnum c \<or> c = 95) (takeWhile (\<lambda>c. c \<noteq> 0) (take n (drop i s))) \<Longrightarrow>
   bs_keep_alpha s j i n = Inr (take j s @ f @ drop (j + length f) s, j + length f)"
proof (induction n arbitrary: s j i f)
  case (Suc n)
  then have i: "i < length s" by simp
  define g where "g = filter (\<lambda>c. c_isalnum c \<or> c = 95) (takeWhile (\<lambda>c. c \<noteq> 0) (take n (drop (i + 1) s)))"
  consider "s ! i = 0" | "s ! i \<noteq> 0" "c_isalnum (s ! i) \<or> s ! i = 95" | "s ! i \<noteq> 0" "\<not> (c_isalnum (s ! i) \<or> s ! i = 95)"
    by blast
  then show ?case
  proof cases
    case 1
    with i Suc.prems(3) show ?thesis by (simp add: arr_get_nat take_drop_step)
  next
    case 2
    have "bs_keep_alpha (s[j := s ! i]) (j + 1) (i + 1) n =
        Inr (take (j + 1) (s[j := s ! i]) @ g @ drop (j + 1 + length g) (s[j := s ! i]), j + 1 + length g)"
      by (rule Suc.IH) (use Suc.prems in \<open>auto simp: g_def\<close>)
    with 2 i Suc.prems show ?thesis
      using put_splice [of j s "s ! i" g "length g"]
      by (simp add: arr_get_nat arr_set_nat take_drop_step g_def)
  next
    case 3
    have "bs_keep_alpha s j (i + 1) n = Inr (take j s @ g @ drop (j + length g) s, j + length g)"
      by (rule Suc.IH) (use Suc.prems in \<open>auto simp: g_def\<close>)
    with 3 i Suc.prems(3) show ?thesis by (simp add: arr_get_nat take_drop_step g_def)
  qed
qed simp

text \<open>The terminator goes behind what is kept.\<close>

lemma put_end: "length f < length s \<Longrightarrow> (f @ drop (length f) s)[length f := v] = f @ v # drop (Suc (length f)) s"
  by (simp add: upd_conv_take_nth_drop)

lemma skip_quotes_result:
  assumes "n \<le> length s"
  defines "f \<equiv> filter (\<lambda>c. c \<noteq> 34) (take n s)"
  shows "BrbStrSkipQuotes s (int n) =
    (if length f < length s then Inr (f @ 0 # drop (length f + 1) s, 1) else Inl OutOfBounds)"
proof -
  have l: "length f \<le> length s"
    using length_filter_le [of "\<lambda>c. c \<noteq> 34" "take n s"] assms by simp
  have "bs_skip_quotes s 0 0 n = Inr (f @ drop (length f) s, length f)"
    using bs_skip_quotes_eq [of 0 0 n s f] assms by simp
  with l show ?thesis by (auto simp: BrbStrSkipQuotes_def put_end arr_set_def)
qed

lemma keep_alpha_result:
  assumes "n \<le> length s" "n < 2 ^ 31"
  defines "f \<equiv> filter (\<lambda>c. c_isalnum c \<or> c = 95) (takeWhile (\<lambda>c. c \<noteq> 0) (take n s))"
  shows "BrbStrReplaceAllNonAlpha s (int n) =
    (if length f < length s then Inr (f @ 0 # drop (length f + 1) s, 1) else Inl OutOfBounds)"
proof -
  have "length f \<le> length (takeWhile (\<lambda>c. c \<noteq> 0) (take n s))" by (simp add: f_def)
  also have "\<dots> \<le> length s" using length_takeWhile_le [of "\<lambda>c. c \<noteq> 0" "take n s"] by simp
  finally have l: "length f \<le> length s" .
  have n: "unat (word_of_int (int n) :: 64 word) = n" using assms(2) by (simp add: unat_of_nat)
  have "bs_keep_alpha s 0 0 n = Inr (f @ drop (length f) s, length f)"
    using bs_keep_alpha_eq [of 0 0 n s f] assms by simp
  with l n show ?thesis by (auto simp: BrbStrReplaceAllNonAlpha_def put_end arr_set_def)
qed


section \<open>Escaping\<close>

definition slash_esc :: "8 word \<Rightarrow> chars" where
  "slash_esc c = (if bs_slashed c then [92, c] else [c])"

definition json_esc :: "8 word \<Rightarrow> chars" where
  "json_esc c = (case bs_json_letter c of Some l \<Rightarrow> [92, l] | None \<Rightarrow> [c])"

lemma nat_1_int [simp]: "nat (1 + int n) = Suc n" "nat (2 + int n) = Suc (Suc n)"
  by simp_all

lemma zeros_upd: "0 < k \<Longrightarrow> (out @ replicate k 0)[length out := c] = out @ c # replicate (k - 1) (0 :: 8 word)"
  by (cases k) (simp_all add: list_update_append)

lemma zeros_upd1: "0 < k \<Longrightarrow> (out @ b # replicate k 0)[Suc (length out) := c] = out @ b # c # replicate (k - 1) (0 :: 8 word)"
  using zeros_upd [of k "out @ [b]" c] by simp

lemma esc_short: "(\<And>c. length (f c) \<le> 2) \<Longrightarrow> length (concat (map f xs)) \<le> 2 * length xs"
proof (induction xs)
  case (Cons x xs)
  have "length (concat (map f xs)) \<le> 2 * length xs" by (rule Cons.IH [OF Cons.prems])
  with Cons.prems [of x] show ?case by simp
qed simp

lemma slash_esc_length: "length (slash_esc c) \<le> 2" by (simp add: slash_esc_def)
lemma json_esc_length: "length (json_esc c) \<le> 2" by (simp add: json_esc_def split: option.split)

lemma bs_add_slashes_eq:
  "i + n \<le> length s \<Longrightarrow> 2 * n \<le> k \<Longrightarrow> j = length out \<Longrightarrow> e = concat (map slash_esc (take n (drop i s))) \<Longrightarrow>
   bs_add_slashes s i n j (out @ replicate k 0) = Inr (out @ e @ replicate (k - length e) 0, j + length e)"
proof (induction n arbitrary: i k j out e)
  case (Suc n)
  define d where "d = slash_esc (s ! i)"
  define g where "g = concat (map slash_esc (take n (drop (i + 1) s)))"
  have i: "i < length s" using Suc.prems by simp
  have "bs_add_slashes s (i + 1) n (j + length d) ((out @ d) @ replicate (k - length d) 0) =
      Inr ((out @ d) @ g @ replicate (k - length d - length g) 0, j + length d + length g)"
    by (rule Suc.IH) (use Suc.prems slash_esc_length [of "s ! i"] in \<open>auto simp: g_def d_def\<close>)
  moreover have "e = d @ g" using Suc.prems(4) i by (simp add: take_drop_step d_def g_def)
  ultimately show ?case using i Suc.prems(2,3)
    by (cases "bs_slashed (s ! i)") (simp_all add: zeros_upd zeros_upd1 d_def slash_esc_def numeral_2_eq_2)
qed simp

lemma bs_add_json_eq:
  "i + n \<le> length s \<Longrightarrow> 2 * n \<le> k \<Longrightarrow> j = length out \<Longrightarrow> e = concat (map json_esc (take n (drop i s))) \<Longrightarrow>
   bs_add_json s i n j (out @ replicate k 0) = Inr (out @ e @ replicate (k - length e) 0, j + length e)"
proof (induction n arbitrary: i k j out e)
  case (Suc n)
  define d where "d = json_esc (s ! i)"
  define g where "g = concat (map json_esc (take n (drop (i + 1) s)))"
  have i: "i < length s" using Suc.prems by simp
  have "bs_add_json s (i + 1) n (j + length d) ((out @ d) @ replicate (k - length d) 0) =
      Inr ((out @ d) @ g @ replicate (k - length d - length g) 0, j + length d + length g)"
    by (rule Suc.IH) (use Suc.prems json_esc_length [of "s ! i"] in \<open>auto simp: g_def d_def\<close>)
  moreover have "e = d @ g" using Suc.prems(4) i by (simp add: take_drop_step d_def g_def)
  ultimately show ?case using i Suc.prems(2,3)
    by (cases "bs_json_letter (s ! i)") (simp_all add: zeros_upd zeros_upd1 d_def json_esc_def numeral_2_eq_2)
qed simp

lemma put_zero: "k \<noteq> 0 \<Longrightarrow> (e @ replicate k 0)[length e := 0] = e @ replicate k (0 :: 8 word)"
  by (cases k) (simp_all add: zeros_upd)

lemma esc_alloc: "n < 2 ^ 30 \<Longrightarrow> bs_esc_alloc (int n) = Inr (replicate (n * 2 + 1) 0)"
proof -
  assume "n < 2 ^ 30"
  moreover have "nat (int n * 2 + 1) = n * 2 + 1" by simp
  ultimately show ?thesis by (simp add: bs_esc_alloc_def del: replicate_Suc)
qed

lemma add_slashes_result:
  assumes "n \<le> length s" "n < 2 ^ 30"
  defines "e \<equiv> concat (map slash_esc (take n s))"
  shows "BrbStrAddSlashes (Some s) (int n) = Inr (Some (e @ replicate (2 * n + 1 - length e) 0))"
proof -
  have "length e \<le> 2 * n" using esc_short [of slash_esc "take n s"] slash_esc_length assms by simp
  then show ?thesis using bs_add_slashes_eq [of 0 n s "n * 2 + 1" 0 "[]" e] assms
    by (simp add: BrbStrAddSlashes_def esc_alloc put_zero mult.commute del: replicate_Suc)
qed

lemma add_json_result:
  assumes "n \<le> length s" "n < 2 ^ 30"
  defines "e \<equiv> concat (map json_esc (take n s))"
  shows "BrbStrAddJSONSlashes (Some s) (int n) = Inr (Some (e @ replicate (2 * n + 1 - length e) 0))"
proof -
  have "length e \<le> 2 * n" using esc_short [of json_esc "take n s"] json_esc_length assms by simp
  then show ?thesis using bs_add_json_eq [of 0 n s "n * 2 + 1" 0 "[]" e] assms
    by (simp add: BrbStrAddJSONSlashes_def esc_alloc put_zero mult.commute del: replicate_Suc)
qed

text \<open>Readers of the two escapes.\<close>

fun unslash :: "chars \<Rightarrow> chars" where
  "unslash [] = []"
| "unslash [c] = [c]"
| "unslash (c # d # s) = (if c = 92 then d # unslash s else c # unslash (d # s))"

definition json_char :: "8 word \<Rightarrow> 8 word" where
  "json_char l = (case map_of [(48, 0), (97, 7), (98, 8), (102, 12), (110, 10), (114, 13), (116, 9), (118, 11)] l of
       Some c \<Rightarrow> c | None \<Rightarrow> l)"

fun unjson :: "chars \<Rightarrow> chars" where
  "unjson [] = []"
| "unjson [c] = [c]"
| "unjson (c # d # s) = (if c = 92 then json_char d # unjson s else c # unjson (d # s))"

lemma unslash_Cons: "c \<noteq> 92 \<Longrightarrow> unslash (c # s) = c # unslash s"
  by (cases s) simp_all

lemma unjson_Cons: "c \<noteq> 92 \<Longrightarrow> unjson (c # s) = c # unjson s"
  by (cases s) simp_all

lemma unslash_esc: "unslash (concat (map slash_esc s)) = s"
  by (induction s) (auto simp: slash_esc_def bs_slashed_def unslash_Cons)

lemma json_letter_char: "bs_json_letter c = Some l \<Longrightarrow> json_char l = c"
  by (auto simp: bs_json_letter_def json_char_def split: if_splits)

lemma unjson_esc: "unjson (concat (map json_esc s)) = s"
  by (induction s) (auto simp: json_esc_def bs_json_letter_def json_letter_char unjson_Cons split: option.split if_splits)


section \<open>Searching\<close>

text \<open>The first place where \<open>t\<close> occurs in \<open>s\<close>.\<close>

definition first_occ :: "chars \<Rightarrow> chars \<Rightarrow> nat option" where
  "first_occ s t = find (\<lambda>i. take (length t) (drop i s) = t) [0..<Suc (length s) - length t]"

lemma bs_search_eq:
  "n \<le> length t \<Longrightarrow> i + k + n \<le> Suc (length s) \<Longrightarrow>
   bs_search s t n i k = Inr (find (\<lambda>i. take n (drop i s) = take n t) [i..<i + k])"
proof (induction k arbitrary: i)
  case (Suc k)
  have "[i..<i + Suc k] = i # [i + 1..<i + 1 + k]" by (simp add: upt_rec)
  with Suc show ?case by (simp add: c_memeq_def)
qed simp

lemma find_app: "find P (xs @ ys) = (case find P xs of None \<Rightarrow> find P ys | Some x \<Rightarrow> Some x)"
  by (induction xs) simp_all

lemma strstr_result:
  assumes "bs_len h \<le> length (bs_ptr h)" "bs_len n \<le> length (bs_ptr n)"
  shows "BrbStrstr h n = Inr (first_occ (take (bs_len h) (bs_ptr h)) (take (bs_len n) (bs_ptr n)))"
proof (cases "bs_len n > bs_len h")
  case False
  have "find (\<lambda>i. take (bs_len n) (drop i (bs_ptr h)) = take (bs_len n) (bs_ptr n)) [0..<0 + (bs_len h - bs_len n + 1)] =
      first_occ (take (bs_len h) (bs_ptr h)) (take (bs_len n) (bs_ptr n))"
    unfolding first_occ_def by (rule find_cong) (use False assms in \<open>auto simp: min_absorb1 min_absorb2 drop_take Suc_diff_le\<close>)
  then show ?thesis
    using False bs_search_eq [of "bs_len n" "bs_ptr n" 0 "bs_len h - bs_len n + 1" "bs_ptr h"] assms
    by (simp add: BrbStrstr_def)
qed (use assms in \<open>auto simp: BrbStrstr_def first_occ_def\<close>)

definition occ_at :: "chars \<Rightarrow> nat \<Rightarrow> chars \<Rightarrow> nat \<Rightarrow> nat \<Rightarrow> bool" where
  "occ_at s n t m p \<longleftrightarrow> p + m \<le> n \<and> (\<forall>q<m. s ! (p + q) = t ! q)"

lemma bs_find_inner_eq:
  assumes "m < length t" "n < length s"
  shows "tok < m \<Longrightarrow> p + tok < n \<Longrightarrow> (\<forall>q\<le>tok. s ! (p + q) = t ! q) \<Longrightarrow>
    (\<exists>i. bs_find_inner s n t m (p + tok) tok = Inr (Inl i) \<and> occ_at s n t m p \<and> Suc i = p + m) \<or>
    (bs_find_inner s n t m (p + tok) tok = Inr (Inr (p + m, m)) \<and> occ_at s n t m p) \<or>
    (\<exists>i k. bs_find_inner s n t m (p + tok) tok = Inr (Inr (i, k)) \<and> k < m \<and> \<not> occ_at s n t m p \<and> (i = p \<or> i = n \<and> n < p + m))"
proof (induction "m - tok" arbitrary: tok)
  case (Suc d)
  let ?k = "Suc tok"
  have step: "bs_find_inner s n t m (p + tok) tok =
      (if s ! (p + ?k) \<noteq> t ! ?k then (if ?k = m then Inr (Inl (p + tok)) else Inr (Inr (p, ?k)))
       else bs_find_inner s n t m (p + ?k) ?k)"
    using Suc.prems assms by (subst bs_find_inner.simps) (simp add: arr_get_nat Let_def del: of_nat_Suc of_nat_add)
  consider "s ! (p + ?k) \<noteq> t ! ?k" "?k = m" | "s ! (p + ?k) \<noteq> t ! ?k" "?k < m"
    | "s ! (p + ?k) = t ! ?k" "?k = m" | "s ! (p + ?k) = t ! ?k" "?k < m" "p + ?k = n"
    | "s ! (p + ?k) = t ! ?k" "?k < m" "p + ?k < n"
    using Suc.prems by linarith
  then show ?case
  proof cases
    case 1
    with step Suc.prems show ?thesis by (auto simp: occ_at_def less_Suc_eq_le)
  next
    case 2
    then have "\<not> occ_at s n t m p" by (auto simp: occ_at_def)
    with 2 step show ?thesis by auto
  next
    case 3
    with Suc.prems have "occ_at s n t m p" by (auto simp: occ_at_def less_Suc_eq_le)
    with 3 step show ?thesis by (simp add: bs_find_inner.simps [of s n t m _ m])
  next
    case 4
    then have "\<not> occ_at s n t m p" by (auto simp: occ_at_def)
    with 4 step show ?thesis by (simp add: bs_find_inner.simps [of s n t m n])
  next
    case 5
    have "\<forall>q\<le>?k. s ! (p + q) = t ! q" using Suc.prems(3) 5 by (auto simp: le_Suc_eq)
    moreover have "d = m - ?k" using Suc.hyps(2) by simp
    ultimately show ?thesis using Suc.hyps(1) [of ?k] 5 step by simp
  qed
qed simp

lemma bs_find_eq:
  assumes "0 < m" "m < length t" "n < length s"
  shows "tok < m \<Longrightarrow> n \<le> p + k \<Longrightarrow> bs_find s n t m p tok k =
    Inr (case find (occ_at s n t m) [p..<n] of None \<Rightarrow> - 1 | Some i \<Rightarrow> int (i + m) - 1)"
proof (induction k arbitrary: p tok)
  case (Suc k)
  show ?case
  proof (cases "p < n")
    case True
    then have upt: "[p..<n] = p # [Suc p..<n]" by (simp add: upt_conv_Cons)
    show ?thesis
    proof (cases "s ! p = t ! 0")
      case False
      then have "\<not> occ_at s n t m p" using assms(1) by (auto simp: occ_at_def)
      moreover have "t \<noteq> []" using assms by auto
      ultimately show ?thesis using False True Suc assms by (simp add: upt arr_get_def)
    next
      case eq: True
      have late: "n < p + m \<Longrightarrow> find (occ_at s n t m) [Suc p..<n] = None"
        by (auto simp: find_None_iff occ_at_def)
      have stop: "bs_find s n t m (Suc n) k' k = Inr (- 1)" for k' by (cases k) simp_all
      have t: "t \<noteq> []" using assms by auto
      consider i where "bs_find_inner s n t m p 0 = Inr (Inl i)" "occ_at s n t m p" "Suc i = p + m"
        | "bs_find_inner s n t m p 0 = Inr (Inr (p + m, m))" "occ_at s n t m p"
        | i k' where "bs_find_inner s n t m p 0 = Inr (Inr (i, k'))" "k' < m" "\<not> occ_at s n t m p" "i = p \<or> i = n \<and> n < p + m"
        using bs_find_inner_eq [OF assms(2,3,1), of p] eq True by auto
      then show ?thesis
      proof cases
        case 1
        with t eq True Suc.prems assms show ?thesis by (simp add: upt arr_get_def)
      next
        case 2
        with t eq True Suc.prems assms show ?thesis by (simp add: upt arr_get_def)
      next
        case 3
        with t eq True Suc late stop assms show ?thesis by (auto simp: upt arr_get_def)
      qed
    qed
  qed simp
qed simp

lemma occ_at_take: "n \<le> length s \<Longrightarrow> m \<le> length t \<Longrightarrow>
  occ_at s n t m p \<longleftrightarrow> p + m \<le> n \<and> take m (drop p (take n s)) = take m t"
  by (auto simp: occ_at_def list_eq_iff_nth_eq)

lemma find_sub_str_result:
  assumes "n < length s" "m < length t" "0 < m"
  shows "BrbStrFindSubStr s (int n) t (int m) =
    Inr (case first_occ (take n s) (take m t) of None \<Rightarrow> - 1 | Some i \<Rightarrow> int (i + m) - 1)"
proof -
  have "find (occ_at s n t m) [Suc n - m..<n] = None"
    by (auto simp: find_None_iff occ_at_def)
  then have tail: "find (occ_at s n t m) ([0..<Suc n - m] @ [Suc n - m..<n]) = find (occ_at s n t m) [0..<Suc n - m]"
    by (simp add: find_app split: option.split)
  have "find (occ_at s n t m) [0..<n] = find (occ_at s n t m) ([0..<Suc n - m] @ [Suc n - m..<n])"
    using assms(3) upt_add_eq_append [of 0 "Suc n - m" "n - (Suc n - m)"] by (cases "m \<le> n") simp_all
  also note tail
  also have "find (occ_at s n t m) [0..<Suc n - m] = first_occ (take n s) (take m t)"
    unfolding first_occ_def by (rule find_cong) (use assms in \<open>auto simp: occ_at_take min_def\<close>)
  finally show ?thesis using bs_find_eq [of m t n s 0 0 n] assms
    by (simp add: BrbStrFindSubStr_def)
qed


section \<open>Percent decoding\<close>

text \<open>An encoder: the characters that \<open>lit\<close> allows stand for themselves, the others and the percent sign become two hexadecimal digits.\<close>

definition hex_digit :: "bool \<Rightarrow> nat \<Rightarrow> 8 word" where
  "hex_digit upper n = of_nat (if n < 10 then 48 + n else if upper then 55 + n else 87 + n)"

definition url_char :: "(8 word \<Rightarrow> bool) \<Rightarrow> bool \<Rightarrow> 8 word \<Rightarrow> chars" where
  "url_char lit upper c = (if lit c \<and> c \<noteq> 37 then [c]
     else [37, hex_digit upper (unat c div 16), hex_digit upper (unat c mod 16)])"

definition hex_digit_ok :: "nat \<Rightarrow> bool" where
  "hex_digit_ok n \<longleftrightarrow> list_all (\<lambda>u. c_hexval (hex_digit u n) = Some n \<and> hex_digit u n \<noteq> 37 \<and>
     hex_digit u n \<noteq> 0 \<and> (hex_digit u n = 48 \<longleftrightarrow> n = 0)) [True, False]"

lemma hex_digit_cases:
  assumes "n < 16"
  shows "c_hexval (hex_digit u n) = Some n" "hex_digit u n \<noteq> 37" "hex_digit u n \<noteq> 0" "hex_digit u n = 48 \<longleftrightarrow> n = 0"
proof -
  have "list_all hex_digit_ok [0..<16]" by code_simp
  then have "hex_digit_ok n" using assms by (simp add: list_all_iff)
  then show "c_hexval (hex_digit u n) = Some n" "hex_digit u n \<noteq> 37" "hex_digit u n \<noteq> 0" "hex_digit u n = 48 \<longleftrightarrow> n = 0"
    by (cases u; simp add: hex_digit_ok_def)+
qed

lemma byte_lt: "unat c < 256" for c :: "8 word"
  by (rule order.strict_trans2 [OF unsigned_less]) simp

lemma sscanf_hex_pair:
  "c_sscanf_x (hex_digit u (unat c div 16)) (hex_digit u (unat c mod 16)) = Some (ucast c)" for c :: "8 word"
proof -
  have b: "unat c div 16 < 16" "unat c mod 16 < 16" using byte_lt [of c] by auto
  have "16 * (unat c div 16) + unat c mod 16 = unat c" by simp
  then show ?thesis using hex_digit_cases [OF b(1)] hex_digit_cases [OF b(2)]
    by (simp add: c_sscanf_x_def of_nat_unat)
qed

lemma hex_byte: "ucast (and 255 (ucast c :: 32 word)) = c" for c :: "8 word"
proof -
  have "and 255 (ucast c) = take_bit 8 (ucast c :: 32 word)" by (simp add: take_bit_eq_mask and.commute mask_eq_exp_minus_1)
  then show ?thesis by (intro bit_word_eqI) (auto simp: bit_simps)
qed

lemma drop_ConsD: "drop j s = a # t \<Longrightarrow> j < length s \<and> s ! j = a \<and> drop (Suc j) s = t"
  by (metis Cons_nth_drop_Suc drop_all linorder_not_less list.discI list.inject)

lemma bs_url_decode_eq:
  "i \<le> j \<Longrightarrow> n = length s - j \<Longrightarrow> drop j s = concat (map (url_char lit u) xs) @ 0 # r \<Longrightarrow> 0 \<notin> set xs \<Longrightarrow>
   length (concat (map (url_char lit u) xs)) + j < 2 ^ 31 \<Longrightarrow> bs_url_decode s i j n = Inr (take i s @ xs @ drop (i + length xs) s, i + length xs)"
proof (induction xs arbitrary: s i j n)
  case Nil
  then have "j < length s" "s ! j = 0" "n = Suc (length s - Suc j)" using drop_ConsD [of j s 0 r] by auto
  moreover have "in_int (int j) = Inr (int j)" using Nil.prems(5) by simp
  ultimately show ?case using \<open>i \<le> j\<close> by (simp only: bs_url_decode.simps and_then_Inr arr_get_nat) simp
next
  case (Cons c xs)
  have splice: "i < length s \<Longrightarrow> take (Suc i) (s[i := c]) @ xs @ drop (Suc i + length xs) (s[i := c]) =
      take i s @ (c # xs) @ drop (i + length (c # xs)) s"
    using put_splice [of i s c xs "length xs"] by simp
  have c: "c \<noteq> 0" using Cons.prems(4) by auto
  show ?case
  proof (cases "lit c \<and> c \<noteq> 37")
    case True
    then have j: "j < length s" "s ! j = c" "drop (Suc j) s = concat (map (url_char lit u) xs) @ 0 # r"
      using drop_ConsD [of j s c] Cons.prems(3) True by (simp_all add: url_char_def [of lit u c])
    have lim: "length (concat (map (url_char lit u) xs)) + Suc j < 2 ^ 31" using Cons.prems(5) True by (simp add: url_char_def [of lit u c])
    have "bs_url_decode (s[i := c]) (Suc i) (Suc j) (length s - Suc j) =
        Inr (take (Suc i) (s[i := c]) @ xs @ drop (Suc i + length xs) (s[i := c]), Suc i + length xs)"
      by (rule Cons.IH) (use Cons.prems j lim in auto)
    moreover have "n = Suc (length s - Suc j)" using j Cons.prems(2) by simp
    ultimately show ?thesis using j True Cons.prems(1) c splice lim by (simp add: arr_get_nat arr_set_nat)
  next
    case False
    define a b where "a = hex_digit u (unat c div 16)" and "b = hex_digit u (unat c mod 16)"
    have l: "unat c div 16 < 16" "unat c mod 16 < 16" using byte_lt [of c] by auto
    have nz: "\<not> (a = 48 \<and> b = 48)"
    proof
      assume "a = 48 \<and> b = 48"
      then have "unat c = 16 * 0 + 0" using hex_digit_cases(4) [OF l(1)] hex_digit_cases(4) [OF l(2)] div_mult_mod_eq [of "unat c" 16]
        by (simp add: a_def b_def)
      with c show False by (simp add: unsigned_eq_0_iff)
    qed
    have "url_char lit u c = [37, a, b]" using False by (auto simp: url_char_def a_def b_def)
    then have lim: "length (concat (map (url_char lit u) xs)) + (j + 3) < 2 ^ 31" using Cons.prems(5) by simp
    have d: "drop j s = 37 # a # b # concat (map (url_char lit u) xs) @ 0 # r"
      using Cons.prems(3) \<open>url_char lit u c = [37, a, b]\<close> by simp
    note j = drop_ConsD [OF d]
    note j1 = drop_ConsD [OF j [THEN conjunct2, THEN conjunct2]]
    note j2 = drop_ConsD [OF j1 [THEN conjunct2, THEN conjunct2]]
    have dig: "a \<noteq> 37" "a \<noteq> 0" "b \<noteq> 0"
      using hex_digit_cases [OF l(1)] hex_digit_cases [OF l(2)] by (auto simp: a_def b_def)
    have "bs_url_decode (s[i := c]) (Suc i) (j + 3) (length s - (j + 3)) =
        Inr (take (Suc i) (s[i := c]) @ xs @ drop (Suc i + length xs) (s[i := c]), Suc i + length xs)"
      by (rule Cons.IH) (use Cons.prems j2 lim in \<open>auto simp: numeral_3_eq_3\<close>)
    moreover have "n = Suc (length s - Suc j)" "length s - Suc j - 2 = length s - (j + 3)" using j Cons.prems(2) by (simp_all add: Suc_diff_Suc)
    moreover have "c_sscanf_x a b = Some (ucast c)" by (simp add: a_def b_def sscanf_hex_pair)
    moreover have "in_int (int j) = Inr (int j)" "in_int (int j + 1) = Inr (int (Suc j))" "in_int (int j + 2) = Inr (int (Suc (Suc j)))"
      using lim by simp_all
    ultimately show ?thesis using j j1 j2 Cons.prems(1) c splice dig nz
      by (auto simp: arr_get_nat arr_set_nat hex_byte add_2_eq_Suc' simp del: of_nat_Suc)
  qed
qed

lemma url_char_length: "0 < length (url_char lit u c)"
  by (simp add: url_char_def)

lemma url_decode_result:
  fixes u lit
  assumes "0 \<notin> set xs" "length (concat (map (url_char lit u) xs)) < 2 ^ 31"
  defines "e \<equiv> concat (map (url_char lit u) xs)"
  shows "BrbStrUrlDecode (e @ 0 # r) = Inr (xs @ 0 # drop (length xs + 1) (e @ 0 # r), int (length xs))"
proof -
  have l: "length xs \<le> length e" unfolding e_def
  proof (induction xs)
    case (Cons x xs)
    then show ?case using url_char_length [of lit u x]
      by (simp only: list.map concat.simps length_append list.size)
  qed simp
  have "bs_url_decode (e @ 0 # r) 0 0 (length (e @ 0 # r)) =
      Inr (xs @ drop (length xs) (e @ 0 # r), length xs)"
    using bs_url_decode_eq [of 0 0 _ "e @ 0 # r" lit u xs r] assms(1,2) by (simp add: e_def)
  moreover have "(xs @ drop (length xs) (e @ 0 # r))[length xs := 0] = xs @ 0 # drop (Suc (length xs)) (e @ 0 # r)"
    by (rule put_end) (use l in simp)
  moreover have "c_int (int (length xs)) = int (length xs)" by (rule c_int_nat) (use l assms(2) in \<open>simp add: e_def\<close>)
  ultimately show ?thesis using l assms(1)
    by (simp add: BrbStrUrlDecode_def arr_set_nat c_strlen_app)
qed


section \<open>Dates\<close>

text \<open>Decimal numbers of a fixed width.\<close>

primrec dec :: "nat \<Rightarrow> nat \<Rightarrow> chars" where
  "dec 0 n = []"
| "dec (Suc w) n = dec w (n div 10) @ [of_nat (48 + n mod 10)]"

lemma digit_char:
  assumes "n < 10"
  shows "c_isdigit (of_nat (48 + n))" "uint (of_nat (48 + n) :: 8 word) = 48 + int n" "(of_nat (48 + n) :: 8 word) \<noteq> 0"
proof -
  have "unat (of_nat (48 + n) :: 8 word) = 48 + n" using assms by (simp add: unat_of_nat del: of_nat_add)
  then show "uint (of_nat (48 + n) :: 8 word) = 48 + int n" by (simp add: uint_nat del: of_nat_add)
  then show "c_isdigit (of_nat (48 + n))" "(of_nat (48 + n) :: 8 word) \<noteq> 0"
    using assms by (auto simp: c_isdigit_def word_le_def simp del: of_nat_add)
qed

lemma dec_digits: "c \<in> set (dec w n) \<Longrightarrow> c_isdigit c"
  by (induction w arbitrary: n) (auto simp del: of_nat_add intro: digit_char)

lemma dec_length [simp]: "length (dec w n) = w"
  by (induction w arbitrary: n) simp_all

lemma dec_value: "foldl (\<lambda>n c. 10 * n + (uint c - 48)) 0 (dec w n) = int (n mod 10 ^ w)"
proof (induction w arbitrary: n)
  case (Suc w)
  have "n mod 10 ^ Suc w = 10 * (n div 10 mod 10 ^ w) + n mod 10"
    by (simp add: mod_mult2_eq)
  with Suc show ?case using digit_char(2) [of "n mod 10"] by (simp del: of_nat_add)
qed simp

lemma digit_not: "c_isdigit c \<Longrightarrow> \<not> c_isspace c \<and> c \<noteq> 45 \<and> c \<noteq> 43 \<and> c \<noteq> 0 \<and> c \<noteq> 46 \<and> c \<noteq> 47 \<and> c \<noteq> 32 \<and> c \<noteq> 58"
  by (auto simp: c_isdigit_def c_isspace_def word_le_def)

lemma atoi_dec:
  assumes "0 < w" "n < 10 ^ w"
  shows "c_atoi (dec w n @ 0 # r) = int n"
proof -
  obtain a t where at: "dec w n = a # t" using assms(1) dec_length [of w n] by (cases "dec w n") auto
  have "c_isdigit a" using dec_digits [of a w n] at by simp
  moreover have "takeWhile c_isdigit (dec w n @ 0 # r) = dec w n"
    using dec_digits [of _ w n] by (subst takeWhile_append2) (auto simp: c_isdigit_def)
  ultimately show ?thesis using at dec_value [of w n] assms(2) digit_not [of a]
    by (simp add: c_atoi_def c_digits_def)
qed

lemma list_1: "length xs = 1 \<Longrightarrow> \<exists>a. xs = [a]"
  by (auto simp: length_Suc_conv)

lemma list_2: "length xs = 2 \<Longrightarrow> \<exists>a b. xs = [a, b]"
  by (auto simp: length_Suc_conv numeral_2_eq_2)

lemma list_4: "length xs = 4 \<Longrightarrow> \<exists>a b c d. xs = [a, b, c, d]"
  by (auto simp: length_Suc_conv eval_nat_numeral)

lemma dec_1: obtains a where "dec 1 n = [a]" "c_isdigit a"
  using list_1 [OF dec_length [of 1 n]] dec_digits [of _ 1 n] by auto

lemma dec_2: obtains a b where "dec 2 n = [a, b]" "c_isdigit a" "c_isdigit b"
  using list_2 [OF dec_length [of 2 n]] dec_digits [of _ 2 n] by auto

lemma dec_4: obtains a b c d where "dec 4 n = [a, b, c, d]" "c_isdigit a" "c_isdigit b" "c_isdigit c" "c_isdigit d"
  using list_4 [OF dec_length [of 4 n]] dec_digits [of _ 4 n] by auto


definition tm_of :: "nat \<Rightarrow> nat \<Rightarrow> nat \<Rightarrow> nat \<Rightarrow> nat \<Rightarrow> nat \<Rightarrow> int \<Rightarrow> brb_tm" where
  "tm_of y m d h i x dst = \<lparr>tm_year = int y - 1900, tm_mon = int m - 1, tm_mday = int d, tm_hour = int h,
     tm_min = int i, tm_sec = int x, tm_isdst = dst\<rparr>"

definition fmt_iso :: "8 word \<Rightarrow> nat \<Rightarrow> nat \<Rightarrow> nat \<Rightarrow> nat \<Rightarrow> nat \<Rightarrow> nat \<Rightarrow> chars" where
  "fmt_iso sep y m d h i x = dec 4 y @ 45 # dec 2 m @ 45 # dec 2 d @ sep # dec 2 h @ 58 # dec 2 i @ 58 # dec 2 x"

definition fmt_ymd :: "nat \<Rightarrow> nat \<Rightarrow> nat \<Rightarrow> chars" where
  "fmt_ymd y m d = dec 4 y @ 45 # dec 2 m @ 45 # dec 2 d"

definition fmt_dmy :: "8 word \<Rightarrow> nat \<Rightarrow> nat \<Rightarrow> nat \<Rightarrow> chars" where
  "fmt_dmy sep y m d = dec 2 d @ sep # dec 2 m @ sep # dec 4 y"

definition fmt_named :: "nat \<Rightarrow> nat \<Rightarrow> nat \<Rightarrow> nat \<Rightarrow> nat \<Rightarrow> nat \<Rightarrow> chars" where
  "fmt_named w y m d h i = dec w d @ 32 # fst (bs_month_names ! (m - 1)) @ 32 # dec 4 y @ 32 # dec 2 h @ 58 # dec 2 i"

lemma strncpy_at: "i = length p \<Longrightarrow> n = length t \<Longrightarrow> 0 \<notin> set t \<Longrightarrow> c_strncpy (p @ t @ r) i n = Inr (t @ [0])"
proof -
  assume a: "i = length p" "n = length t" "0 \<notin> set t"
  then have tw: "takeWhile (\<lambda>c. c \<noteq> 0) t = t" by (metis (mono_tags, lifting) takeWhile_eq_all_conv)
  show ?thesis by (simp add: c_strncpy_def Let_def tw a)
qed

lemma dec_no_zero: "0 \<notin> set (dec w n)"
  using dec_digits digit_not by blast

lemma dp_ymd_dec:
  assumes "s = pa @ dec 4 y @ qa" "length pa = i" "s = pb @ dec 2 m @ qb" "length pb = j" "s = pc @ dec 2 d @ qc" "length pc = k"
  shows "dp_ymd s i j k = Inr (dp_none\<lparr>dp_year := dec 4 y @ [0], dp_month := dec 2 m @ [0], dp_day := dec 2 d @ [0]\<rparr>)"
proof -
  have "c_strncpy s i 4 = Inr (dec 4 y @ [0])" "c_strncpy s j 2 = Inr (dec 2 m @ [0])" "c_strncpy s k 2 = Inr (dec 2 d @ [0])"
    using assms strncpy_at [of i pa 4 "dec 4 y" qa] strncpy_at [of j pb 2 "dec 2 m" qb] strncpy_at [of k pc 2 "dec 2 d" qc]
    by (simp_all add: dec_no_zero)
  then show ?thesis by (simp add: dp_ymd_def)
qed

lemma atoi_2: "n < 100 \<Longrightarrow> c_atoi (dec 2 n @ [0]) = int n"
  using atoi_dec [of 2 n "[]"] by simp

lemma atoi_4: "n < 10000 \<Longrightarrow> c_atoi (dec 4 n @ [0]) = int n"
  using atoi_dec [of 4 n "[]"] by simp

lemma atoi_0: "c_atoi (replicate 3 0) = 0"
  by (simp add: c_atoi_def c_digits_def c_isspace_def c_isdigit_def numeral_3_eq_3)

lemma iso_parts:
  "dp_iso (fmt_iso sep y m d h i x @ r) = Inr \<lparr>dp_year = dec 4 y @ [0], dp_month = dec 2 m @ [0], dp_day = dec 2 d @ [0],
     dp_hour = dec 2 h @ [0], dp_minute = dec 2 i @ [0], dp_second = dec 2 x @ [0], dp_named = 0\<rparr>"
proof -
  let ?s = "fmt_iso sep y m d h i x @ r"
  have "c_strncpy ?s 11 2 = Inr (dec 2 h @ [0])"
    using strncpy_at [of 11 "dec 4 y @ 45 # dec 2 m @ 45 # dec 2 d @ [sep]" 2 "dec 2 h" "58 # dec 2 i @ 58 # dec 2 x @ r"]
    by (simp add: fmt_iso_def dec_no_zero)
  moreover have "c_strncpy ?s 14 2 = Inr (dec 2 i @ [0])"
    using strncpy_at [of 14 "dec 4 y @ 45 # dec 2 m @ 45 # dec 2 d @ sep # dec 2 h @ [58]" 2 "dec 2 i" "58 # dec 2 x @ r"]
    by (simp add: fmt_iso_def dec_no_zero)
  moreover have "c_strncpy ?s 17 2 = Inr (dec 2 x @ [0])"
    using strncpy_at [of 17 "dec 4 y @ 45 # dec 2 m @ 45 # dec 2 d @ sep # dec 2 h @ 58 # dec 2 i @ [58]" 2 "dec 2 x" r]
    by (simp add: fmt_iso_def dec_no_zero)
  moreover have "dp_ymd ?s 0 5 8 = Inr (dp_none\<lparr>dp_year := dec 4 y @ [0], dp_month := dec 2 m @ [0], dp_day := dec 2 d @ [0]\<rparr>)"
    by (rule dp_ymd_dec [where pa = "[]" and pb = "dec 4 y @ [45]" and pc = "dec 4 y @ 45 # dec 2 m @ [45]"])
      (simp_all add: fmt_iso_def)
  ultimately show ?thesis by (simp add: dp_iso_def dp_none_def)
qed

lemma iso_shape: "bs_is_iso (fmt_iso sep y m d h i x @ r) n \<longleftrightarrow> 19 \<le> n \<and> (sep = 32 \<or> sep = 84)"
  by (rule dec_4 [of y]; rule dec_2 [of m]; rule dec_2 [of d]; rule dec_2 [of h]; rule dec_2 [of i]; rule dec_2 [of x])
    (auto simp: bs_is_iso_def fmt_iso_def)


lemma date_shapes:
  "dp_date (fmt_ymd y m d @ [0]) 10 = Inr (Some (dp_none\<lparr>dp_year := dec 4 y @ [0], dp_month := dec 2 m @ [0], dp_day := dec 2 d @ [0]\<rparr>))"
  "sep = 47 \<or> sep = 46 \<Longrightarrow>
   dp_date (fmt_dmy sep y m d @ [0]) 10 = Inr (Some (dp_none\<lparr>dp_year := dec 4 y @ [0], dp_month := dec 2 m @ [0], dp_day := dec 2 d @ [0]\<rparr>))"
proof -
  have p: "dp_ymd (fmt_ymd y m d @ [0]) 0 5 8 = Inr (dp_none\<lparr>dp_year := dec 4 y @ [0], dp_month := dec 2 m @ [0], dp_day := dec 2 d @ [0]\<rparr>)"
    by (rule dp_ymd_dec [where pa = "[]" and pb = "dec 4 y @ [45]" and pc = "dec 4 y @ 45 # dec 2 m @ [45]"])
      (simp_all add: fmt_ymd_def)
  have q: "dp_ymd (fmt_dmy sep y m d @ [0]) 6 3 0 = Inr (dp_none\<lparr>dp_year := dec 4 y @ [0], dp_month := dec 2 m @ [0], dp_day := dec 2 d @ [0]\<rparr>)"
    by (rule dp_ymd_dec [where pa = "dec 2 d @ sep # dec 2 m @ [sep]" and pb = "dec 2 d @ [sep]" and pc = "[]"])
      (simp_all add: fmt_dmy_def)
  have sy: "(fmt_ymd y m d @ [0]) ! 4 = 45" "(fmt_ymd y m d @ [0]) ! 7 = 45"
    by (rule dec_4 [of y]; rule dec_2 [of m]; simp add: fmt_ymd_def)+
  have sd: "(fmt_dmy sep y m d @ [0]) ! 2 = sep" "(fmt_dmy sep y m d @ [0]) ! 5 = sep" "(fmt_dmy sep y m d @ [0]) ! 4 \<noteq> 45"
    by (rule dec_2 [of d]; rule dec_2 [of m]; use digit_not in \<open>auto simp: fmt_dmy_def\<close>)+
  show "dp_date (fmt_ymd y m d @ [0]) 10 = Inr (Some (dp_none\<lparr>dp_year := dec 4 y @ [0], dp_month := dec 2 m @ [0], dp_day := dec 2 d @ [0]\<rparr>))"
    by (simp add: dp_date_def sy p)
  show "dp_date (fmt_dmy sep y m d @ [0]) 10 = Inr (Some (dp_none\<lparr>dp_year := dec 4 y @ [0], dp_month := dec 2 m @ [0], dp_day := dec 2 d @ [0]\<rparr>))"
    if "sep = 47 \<or> sep = 46" using that q sd by (auto simp: dp_date_def)
qed

lemma fmt_no_zero: "sep \<noteq> 0 \<Longrightarrow> 0 \<notin> set (fmt_iso sep y m d h i x)" "0 \<notin> set (fmt_ymd y m d)" "sep \<noteq> 0 \<Longrightarrow> 0 \<notin> set (fmt_dmy sep y m d)"
  by (auto simp: fmt_iso_def fmt_ymd_def fmt_dmy_def dec_no_zero)

lemma fmt_length: "length (fmt_iso sep y m d h i x) = 19" "length (fmt_ymd y m d) = 10" "length (fmt_dmy sep y m d) = 10"
  by (simp_all add: fmt_iso_def fmt_ymd_def fmt_dmy_def)

lemma iso_result:
  assumes "y < 10000" "m < 100" "d < 100" "h < 100" "i < 100" "x < 100" "sep = 32 \<or> sep = 84" "0 \<notin> set r" "length r + 19 < 2 ^ 31"
  shows "BrbStrDateToTm dst (Some (fmt_iso sep y m d h i x @ r @ [0])) = Inr (0, tm_of y m d h i x dst)"
proof -
  have "c_strlen (fmt_iso sep y m d h i x @ r @ [0]) = Inr (19 + length r)"
    using c_strlen_app [of "fmt_iso sep y m d h i x @ r" "[]"] assms by (auto simp: fmt_length fmt_no_zero)
  moreover have "c_int (int (19 + length r)) = int (19 + length r)" by (rule c_int_nat) (use assms(9) in simp)
  ultimately show ?thesis using assms(1-8)
    by (auto simp: BrbStrDateToTm_def Let_def iso_shape iso_parts dp_to_tm_def tm_of_def atoi_2 atoi_4)
qed

lemma date_tm: "y < 10000 \<Longrightarrow> m < 100 \<Longrightarrow> d < 100 \<Longrightarrow>
  dp_to_tm (dp_none\<lparr>dp_year := dec 4 y @ [0], dp_month := dec 2 m @ [0], dp_day := dec 2 d @ [0]\<rparr>) dst = tm_of y m d 0 0 0 dst"
  by (simp add: dp_to_tm_def dp_none_def tm_of_def atoi_2 atoi_4 atoi_0)

lemma date_result:
  assumes "y < 10000" "m < 100" "d < 100" "s = fmt_ymd y m d \<or> s = fmt_dmy 47 y m d \<or> s = fmt_dmy 46 y m d"
  shows "BrbStrDateToTm dst (Some (s @ [0])) = Inr (0, tm_of y m d 0 0 0 dst)"
proof -
  have "c_strlen (s @ [0]) = Inr 10" using assms(4) c_strlen_app [of s "[]"] by (auto simp: fmt_length fmt_no_zero)
  moreover have "\<not> bs_is_iso (s @ [0]) 10" by (simp add: bs_is_iso_def)
  ultimately show ?thesis using assms(4)
    using c_int_nat [of 10] by (elim disjE) (simp_all add: BrbStrDateToTm_def Let_def date_shapes date_tm assms(1,2,3))
qed

text \<open>The names of the months.\<close>

lemma month_numbers: "map snd bs_month_names = map int [1..<13]"
  by (simp add: bs_month_names_def upt_rec)

lemma month_lookups: "list_all (\<lambda>m. bs_month_lookup (fst m @ r) bs_month_names = Inr (snd m)) bs_month_names"
  by (simp add: bs_month_names_def numeral_3_eq_3)

lemma month_result:
  assumes "1 \<le> m" "m \<le> 12"
  shows "BrbStrDateMonthToNumber (Some (fst (bs_month_names ! (m - 1)) @ r)) = Inr (int m)"
proof -
  have l: "m - 1 < length bs_month_names" using assms by (simp add: bs_month_names_def)
  have "snd (bs_month_names ! (m - 1)) = map snd bs_month_names ! (m - 1)" using l by simp
  also have "\<dots> = int m" unfolding month_numbers using assms by simp
  finally show ?thesis using month_lookups [of r] l by (simp add: list_all_length BrbStrDateMonthToNumber_def)
qed

lemma month_letters:
  assumes "1 \<le> m" "m \<le> 12"
  obtains a b c where "fst (bs_month_names ! (m - 1)) = [a, b, c]" "{a, b, c} \<inter> {0, 32, 45} = {}"
proof -
  have "list_all (\<lambda>m. length (fst m) = 3 \<and> list_all (\<lambda>c. c \<noteq> 0 \<and> c \<noteq> 32 \<and> c \<noteq> 45) (fst m)) bs_month_names"
    by (simp add: bs_month_names_def)
  moreover have "m - 1 < length bs_month_names" using assms by (simp add: bs_month_names_def)
  ultimately have l: "length (fst (bs_month_names ! (m - 1))) = 3"
    and e: "list_all (\<lambda>c. c \<noteq> 0 \<and> c \<noteq> 32 \<and> c \<noteq> 45) (fst (bs_month_names ! (m - 1)))"
    by (simp_all add: list_all_length)
  from l obtain a b c where "fst (bs_month_names ! (m - 1)) = [a, b, c]"
    by (auto simp: length_Suc_conv numeral_3_eq_3)
  with that e show ?thesis by auto
qed

lemma named_parts:
  assumes "1 \<le> m" "m \<le> 12" "w \<le> 2"
  shows "dp_named_month (fmt_named w y m d h i @ r) w = Inr (dp_none\<lparr>dp_year := dec 4 y @ [0],
    dp_day := dec w d @ [0] @ replicate (2 - w) 0, dp_hour := dec 2 h @ [0], dp_minute := dec 2 i @ [0], dp_named := int m\<rparr>)"
proof -
  let ?n = "fst (bs_month_names ! (m - 1))"
  let ?s = "fmt_named w y m d h i @ r"
  obtain a b c where "?n = [a, b, c]" by (rule month_letters [OF assms(1,2)])
  note n = this [unfolded One_nat_def]
  have "c_strncpy ?s (w + 5) 4 = Inr (dec 4 y @ [0])"
    using strncpy_at [of "w + 5" "dec w d @ 32 # ?n @ [32]" 4 "dec 4 y" "32 # dec 2 h @ 58 # dec 2 i @ r"]
    by (simp add: fmt_named_def dec_no_zero n)
  moreover have "c_strncpy ?s 0 w = Inr (dec w d @ [0])"
    using strncpy_at [of 0 "[]" w "dec w d" "32 # ?n @ 32 # dec 4 y @ 32 # dec 2 h @ 58 # dec 2 i @ r"]
    by (simp add: fmt_named_def dec_no_zero n)
  moreover have "c_strncpy ?s (w + 10) 2 = Inr (dec 2 h @ [0])"
    using strncpy_at [of "w + 10" "dec w d @ 32 # ?n @ 32 # dec 4 y @ [32]" 2 "dec 2 h" "58 # dec 2 i @ r"]
    by (simp add: fmt_named_def dec_no_zero n)
  moreover have "c_strncpy ?s (w + 13) 2 = Inr (dec 2 i @ [0])"
    using strncpy_at [of "w + 13" "dec w d @ 32 # ?n @ 32 # dec 4 y @ 32 # dec 2 h @ [58]" 2 "dec 2 i" r]
    by (simp add: fmt_named_def dec_no_zero n)
  moreover have "drop (w + 1) ?s = ?n @ 32 # dec 4 y @ 32 # dec 2 h @ 58 # dec 2 i @ r"
    by (simp add: fmt_named_def)
  ultimately show ?thesis by (simp add: dp_named_month_def month_result [OF assms(1,2), unfolded One_nat_def])
qed

lemma named_shape:
  fixes y d h i :: nat
  assumes "1 \<le> m" "m \<le> 12"
  defines "s \<equiv> fmt_named 2 y m d h i" and "t \<equiv> fmt_named 1 y m d h i"
  shows "s ! 4 \<noteq> 45" "s ! 2 = 32" "s ! 6 = 32" "s ! 11 = 32" "s ! 14 = 58" "length s = 17" "0 \<notin> set s"
    "t ! 4 \<noteq> 45" "t ! 2 \<noteq> 32" "t ! 1 = 32" "t ! 5 = 32" "t ! 10 = 32" "t ! 13 = 58" "length t = 16" "0 \<notin> set t"
proof -
  obtain a b c where n: "fst (bs_month_names ! (m - 1)) = [a, b, c]" "{a, b, c} \<inter> {0, 32, 45} = {}"
    by (rule month_letters [OF assms(1,2)])
  show "s ! 4 \<noteq> 45" "s ! 2 = 32" "s ! 6 = 32" "s ! 11 = 32" "s ! 14 = 58" "length s = 17" "0 \<notin> set s"
    by (rule dec_2 [of d]; rule dec_4 [of y]; rule dec_2 [of h]; use n digit_not dec_no_zero in \<open>auto simp: s_def fmt_named_def\<close>)+
  show "t ! 4 \<noteq> 45" "t ! 2 \<noteq> 32" "t ! 1 = 32" "t ! 5 = 32" "t ! 10 = 32" "t ! 13 = 58" "length t = 16" "0 \<notin> set t"
    by (rule dec_1 [of d]; rule dec_4 [of y]; rule dec_2 [of h]; use n digit_not dec_no_zero in \<open>auto simp: t_def fmt_named_def\<close>)+
qed

lemma named_tm: "y < 10000 \<Longrightarrow> 1 \<le> m \<Longrightarrow> 0 < w \<Longrightarrow> d < 10 ^ w \<Longrightarrow> h < 100 \<Longrightarrow> i < 100 \<Longrightarrow>
  dp_to_tm (dp_none\<lparr>dp_year := dec 4 y @ [0], dp_day := dec w d @ [0] @ replicate k 0,
    dp_hour := dec 2 h @ [0], dp_minute := dec 2 i @ [0], dp_named := int m\<rparr>) dst = tm_of y m d h i 0 dst"
  using atoi_dec [of w d "replicate k 0"] by (simp add: dp_to_tm_def dp_none_def tm_of_def atoi_2 atoi_4 atoi_0)

lemma named_result:
  assumes "w = 1 \<or> w = 2" "y < 10000" "1 \<le> m" "m \<le> 12" "d < 10 ^ w" "h < 100" "i < 100" "0 \<notin> set r" "length r + 19 < 2 ^ 31"
  shows "BrbStrDateToTm dst (Some (fmt_named w y m d h i @ r @ [0])) = Inr (0, tm_of y m d h i 0 dst)"
proof -
  note sh = named_shape [OF assms(3,4), of y d h i]
  have n: "c_strlen (fmt_named w y m d h i @ r @ [0]) = Inr (15 + w + length r)"
    using c_strlen_app [of "fmt_named w y m d h i @ r" "[]"] assms(1,8) sh by auto
  have nth: "k < length (fmt_named w y m d h i) \<Longrightarrow> (fmt_named w y m d h i @ r @ [0]) ! k = fmt_named w y m d h i ! k" for k
    by (simp add: nth_append)
  have "(fmt_named w y m d h i @ r @ [0]) ! 4 \<noteq> 45" using assms(1) sh nth by auto
  then have iso: "\<not> bs_is_iso (fmt_named w y m d h i @ r @ [0]) k" for k by (simp add: bs_is_iso_def)
  have k: "c_int (int (15 + w + length r)) = int (15 + w + length r)" by (rule c_int_nat) (use assms(1,9) in auto)
  have date: "dp_date (fmt_named w y m d h i @ r @ [0]) (int (15 + w + length r)) = Inr None"
    using assms(1) by (auto simp: dp_date_def)
  have w: "w \<le> 2" "0 < w" using assms(1) by auto
  have parts: "dp_named_month (fmt_named w y m d h i @ r @ [0]) w = Inr (dp_none\<lparr>dp_year := dec 4 y @ [0],
      dp_day := dec w d @ [0] @ replicate (2 - w) 0, dp_hour := dec 2 h @ [0], dp_minute := dec 2 i @ [0], dp_named := int m\<rparr>)"
    by (rule named_parts [OF assms(3,4) w(1)])
  note tm = named_tm [OF assms(2,3) w(2) assms(5,6,7), of "2 - w" dst]
  have "and_then (dp_named_month (fmt_named w y m d h i @ r @ [0]) w) (\<lambda>p. Inr (0 :: int, dp_to_tm p dst)) =
      Inr (0, tm_of y m d h i 0 dst)" by (simp only: parts tm and_then_Inr)
  note fields = this
  show ?thesis
  proof (cases "w = 2")
    case True
    with n k iso date fields sh nth show ?thesis by (simp add: BrbStrDateToTm_def Let_def and_then_assoc)
  next
    case False
    with assms(1) have "w = 1" by simp
    with n k iso date fields sh nth show ?thesis by (simp add: BrbStrDateToTm_def Let_def and_then_assoc)
  qed
qed


text \<open>The fraction of a second is read as a number of microseconds, however many digits it has.\<close>

lemma fraction_result:
  assumes "y < 10000" "m < 100" "d < 100" "h < 100" "i < 100" "x < 100" "sep = 32 \<or> sep = 84" "0 < w" "n < 10 ^ w" "w + 20 < 2 ^ 31"
  shows "BrbStrDateToStructTimeVal dst mktime (Some (fmt_iso sep y m d h i x @ 46 # dec w n @ [0])) =
    Inr (0, Some (fst (mktime (tm_of y m d h i x dst)), snd (mktime (tm_of y m d h i x dst)), int n))"
proof -
  have "c_strlen (fmt_iso sep y m d h i x @ 46 # dec w n @ [0]) = Inr (20 + w)"
    using c_strlen_app [of "fmt_iso sep y m d h i x @ 46 # dec w n" "[]"] assms by (auto simp: fmt_length fmt_no_zero dec_no_zero)
  moreover have "dp_to_tm \<lparr>dp_year = dec 4 y @ [0], dp_month = dec 2 m @ [0], dp_day = dec 2 d @ [0],
      dp_hour = dec 2 h @ [0], dp_minute = dec 2 i @ [0], dp_second = dec 2 x @ [0], dp_named = 0\<rparr> dst = tm_of y m d h i x dst"
    using assms by (simp add: dp_to_tm_def tm_of_def atoi_2 atoi_4)
  moreover have "arr_get (fmt_iso sep y m d h i x @ 46 # dec w n @ [0]) 19 = Inr 46"
    by (simp add: arr_get_def nth_append fmt_length)
  moreover have "c_int (int (20 + w)) = int (20 + w)" by (rule c_int_nat) (use assms(10) in simp)
  ultimately show ?thesis using assms(7) atoi_dec [OF assms(8,9), of "[]"]
    by (simp add: BrbStrDateToStructTimeVal_def Let_def iso_shape iso_parts fmt_length split_beta)
qed

section \<open>Comparison and trimming\<close>

lemma bs_cmp_eq:
  "length s = m \<Longrightarrow> length t = n \<Longrightarrow> bs_cmp (s @ q) m (t @ r) n =
   Inr (if map sint s = map sint t then 0 else if ord_class.lexordp (map sint s) (map sint t) then - 1 else 1)"
proof (induction s arbitrary: t m n)
  case Nil
  then show ?case by (cases n) auto
next
  case (Cons c s)
  then show ?case by (cases t) (auto simp: not_less_iff_gr_or_eq)
qed

lemma cmp_result:
  assumes "bs_len a \<le> length (bs_ptr a)" "bs_len b \<le> length (bs_ptr b)"
  defines "s \<equiv> map sint (take (bs_len a) (bs_ptr a))" and "t \<equiv> map sint (take (bs_len b) (bs_ptr b))"
  shows "BrbStr_cmp a b = Inr (if s = t then 0 else if ord_class.lexordp s t then - 1 else 1)"
  using bs_cmp_eq [of "take (bs_len a) (bs_ptr a)" "bs_len a" "take (bs_len b) (bs_ptr b)" "bs_len b"
      "drop (bs_len a) (bs_ptr a)" "drop (bs_len b) (bs_ptr b)"] assms
  by (simp add: BrbStr_cmp_def)

lemma skip_front_eq:
  "n \<le> length s \<Longrightarrow> \<exists>p k. bs_skip_front s n = Inr (p, k) \<and> k \<le> length p \<and> take k p = dropWhile c_isspace (take n s)"
  by (induction n arbitrary: s) (auto split: list.split)

lemma skip_back_eq:
  "n \<le> length s \<Longrightarrow> \<exists>k\<le>n. bs_skip_back s n = Inr k \<and> take k s = rev (dropWhile c_isspace (rev (take n s)))"
proof (induction n)
  case (Suc n)
  then obtain k where "k \<le> n" "bs_skip_back s n = Inr k" "take k s = rev (dropWhile c_isspace (rev (take n s)))" by auto
  with Suc.prems show ?case by (auto simp: arr_get_nat take_Suc_conv_app_nth)
qed simp

lemma strip_result:
  assumes "bs_len s \<le> length (bs_ptr s)"
  obtains r where "BrbStrstrip s = Inr r" "bs_len r \<le> length (bs_ptr r)"
    "take (bs_len r) (bs_ptr r) = rev (dropWhile c_isspace (rev (dropWhile c_isspace (take (bs_len s) (bs_ptr s)))))"
proof -
  obtain p k where p: "bs_skip_front (bs_ptr s) (bs_len s) = Inr (p, k)" "k \<le> length p"
    "take k p = dropWhile c_isspace (take (bs_len s) (bs_ptr s))"
    using skip_front_eq [OF assms] by blast
  obtain j where "j \<le> k" "bs_skip_back p k = Inr j" "take j p = rev (dropWhile c_isspace (rev (take k p)))"
    using skip_back_eq [OF p(2)] by blast
  with p show ?thesis by (intro that [of "\<lparr>bs_ptr = p, bs_len = j\<rparr>"]) (simp_all add: BrbStrstrip_def)
qed


section \<open>Properties\<close>

text \<open>
  C29: searching. When the sizes are those of the objects, \<open>BrbStrstr\<close> returns the first place at which
  the needle occurs. \<open>BrbStrFindSubStr\<close>, whose arguments must have one more character than their sizes
  say, returns the index of the last character of the first occurrence, and -1 when there is none.
\<close>

theorem brbstr_search:
  assumes "bs_len h \<le> length (bs_ptr h)" "bs_len e \<le> length (bs_ptr e)"
    and "n < length s" "m < length t" "0 < m"
  shows "BrbStrstr h e = Inr (first_occ (take (bs_len h) (bs_ptr h)) (take (bs_len e) (bs_ptr e))) \<and>
    BrbStrFindSubStr s (int n) t (int m) =
      Inr (case first_occ (take n s) (take m t) of None \<Rightarrow> - 1 | Some i \<Rightarrow> int (i + m) - 1)"
  using strstr_result [OF assms(1,2)] find_sub_str_result [OF assms(3-5)] by simp

theorem brbstr_search_witness:
  "BrbStrstr \<lparr>bs_ptr = [97, 97, 98], bs_len = 3\<rparr> \<lparr>bs_ptr = [97, 98], bs_len = 2\<rparr> = Inr (Some 1) \<and>
   BrbStrFindSubStr [97, 97, 98, 0] 3 [97, 98, 0] 2 = Inr 2"
  using brbstr_search [of "\<lparr>bs_ptr = [97, 97, 98], bs_len = 3\<rparr>" "\<lparr>bs_ptr = [97, 98], bs_len = 2\<rparr>" 3 "[97, 97, 98, 0]" 2 "[97, 98, 0]"]
  by (simp add: first_occ_def upt_rec)

lemma first_occ_least: "first_occ s t = Some i \<Longrightarrow>
  take (length t) (drop i s) = t \<and> (\<forall>j<i. take (length t) (drop j s) \<noteq> t)"
  by (auto simp: first_occ_def find_Some_iff)

lemma find_sub_str_overrun: "BrbStrFindSubStr [97] 1 [97] 1 = Inl OutOfBounds"
  by (simp add: BrbStrFindSubStr_def bs_find_inner.simps arr_get_def)

text \<open>
  C30: escaping. Both escapes of \<open>n\<close> characters, \<open>n\<close> below 2 ^ 30 so that the \<open>int\<close> size does not overflow, stay within the \<open>2 * n + 1\<close> bytes they allocate, end with
  a zero byte, and can be read back: removing the escapes gives the characters again.
\<close>

theorem brbstr_escapes:
  assumes "n \<le> length s" "n < 2 ^ 30"
  shows "(\<exists>e. BrbStrAddSlashes (Some s) (int n) = Inr (Some (e @ replicate (2 * n + 1 - length e) 0)) \<and>
      length e \<le> 2 * n \<and> unslash e = take n s) \<and>
    (\<exists>e. BrbStrAddJSONSlashes (Some s) (int n) = Inr (Some (e @ replicate (2 * n + 1 - length e) 0)) \<and>
      length e \<le> 2 * n \<and> unjson e = take n s)"
  using add_slashes_result [OF assms] add_json_result [OF assms] assms(1) unslash_esc unjson_esc
    esc_short [of slash_esc "take n s"] esc_short [of json_esc "take n s"] slash_esc_length json_esc_length
  by auto

theorem brbstr_escapes_witness:
  "(\<exists>e. BrbStrAddSlashes (Some [34, 97]) 2 = Inr (Some (e @ replicate (5 - length e) 0)) \<and> length e \<le> 4 \<and> unslash e = [34, 97])"
  using brbstr_escapes [of 2 "[34, 97]"] by simp

text \<open>
  C31: percent decoding. Whatever characters an encoder writes as they are, and with either case of the
  hexadecimal digits, \<open>BrbStrUrlDecode\<close> turns the encoding of a string back into the string, in
  place, and returns its length, for encodings shorter than 2 ^ 31 bytes.
\<close>

theorem brbstr_url_roundtrip:
  assumes "0 \<notin> set xs" "length (concat (map (url_char lit u) xs)) < 2 ^ 31"
  shows "BrbStrUrlDecode (concat (map (url_char lit u) xs) @ 0 # r) =
    Inr (xs @ 0 # drop (length xs + 1) (concat (map (url_char lit u) xs) @ 0 # r), int (length xs))"
  by (rule url_decode_result [OF assms])

theorem brbstr_url_roundtrip_witness:
  "BrbStrUrlDecode [97, 37, 50, 53, 37, 48, 65, 0] = Inr ([97, 37, 10, 0, 37, 48, 65, 0], 3)"
  using brbstr_url_roundtrip [of "[97, 37, 10]" c_isalnum True "[]"]
  by (simp add: url_char_def hex_digit_def c_isalnum_def c_isdigit_def)

text \<open>
  C32: dates. \<open>BrbStrDateToTm\<close> reads the fields back from an ISO 8601 time with any tail, up to the length an \<open>int\<close> holds, from the three
  formats of a plain date, and from the two formats with the name of the month, whatever the values of the
  fields: nothing checks that the date exists.
\<close>

theorem brbstr_dates:
  assumes "y < 10000" "m < 100" "d < 100" "h < 100" "i < 100" "x < 100" "0 \<notin> set r"
    and "sep = 32 \<or> sep = 84" "s = fmt_ymd y m d \<or> s = fmt_dmy 47 y m d \<or> s = fmt_dmy 46 y m d"
    and "1 \<le> k" "k \<le> 12" "w = 1 \<or> w = 2" "e < 10 ^ w" "length r + 19 < 2 ^ 31"
  shows "BrbStrDateToTm dst (Some (fmt_iso sep y m d h i x @ r @ [0])) = Inr (0, tm_of y m d h i x dst) \<and>
    BrbStrDateToTm dst (Some (s @ [0])) = Inr (0, tm_of y m d 0 0 0 dst) \<and>
    BrbStrDateToTm dst (Some (fmt_named w y k e h i @ r @ [0])) = Inr (0, tm_of y k e h i 0 dst)"
  using iso_result [OF assms(1-6,8,7,14)] date_result [OF assms(1-3,9)] named_result [OF assms(12,1,10,11,13,4,5,7,14)]
  by simp

theorem brbstr_dates_witness:
  "BrbStrDateToTm 0 (Some (fmt_iso 84 2022 6 31 0 37 56 @ [90, 0])) = Inr (0, tm_of 2022 6 31 0 37 56 0)"
  using brbstr_dates [of 2022 6 31 0 37 56 "[90]" 84 "fmt_ymd 2022 6 31" 1 1 1 0] by simp

text \<open>
  Filters. \<open>BrbStrSkipQuotes\<close> keeps the characters other than double quotes and
  \<open>BrbStrReplaceAllNonAlpha\<close> the letters, digits and underscores before the terminator, and
  both put a terminator behind them. When every character of an object is kept the terminator is written
  beyond its end.
\<close>

theorem brbstr_filters:
  assumes "n \<le> length s" "n < 2 ^ 31"
    and "f = filter (\<lambda>c. c \<noteq> 34) (take n s)"
    and "g = filter (\<lambda>c. c_isalnum c \<or> c = 95) (takeWhile (\<lambda>c. c \<noteq> 0) (take n s))"
  shows "BrbStrSkipQuotes s (int n) =
      (if length f < length s then Inr (f @ 0 # drop (length f + 1) s, 1) else Inl OutOfBounds) \<and>
    BrbStrReplaceAllNonAlpha s (int n) =
      (if length g < length s then Inr (g @ 0 # drop (length g + 1) s, 1) else Inl OutOfBounds)"
  using skip_quotes_result [OF assms(1)] keep_alpha_result [OF assms(1,2)] assms(3,4) by simp

theorem brbstr_filters_witness:
  "BrbStrSkipQuotes [97, 34, 98] 3 = Inr ([97, 98, 0], 1) \<and> BrbStrReplaceAllNonAlpha [97, 98] 2 = Inl OutOfBounds"
  using brbstr_filters [of 3 "[97, 34, 98]"] brbstr_filters [of 2 "[97, 98]"]
  by (simp add: c_isalnum_def)

end
