(* ===== verification/BrbUtils.thy ===== *)
theory BrbUtils
  imports BrbStrings HashAbsorb
begin

text \<open>
  The utilities of libbrb_core/data/utils/utils.c: hexadecimal dumps, the check digits of the Brazilian
  registers of persons and companies, recognisers of numbers and domain names, the string hash, small
  searches, and times. Strings are as in \<open>BrbStrings\<close>.
\<close>

unbundle bit_operations_syntax

section \<open>Hexadecimal dumps\<close>

text \<open>What \<open>sprintf\<close> writes for \<open>"%02X "\<close>: two digits, a space and the terminator.\<close>

definition hex_upper :: "nat \<Rightarrow> 8 word" where
  "hex_upper n = of_nat (if n < 10 then 48 + n else 55 + n)"

definition hex_triple :: "8 word \<Rightarrow> chars" where
  "hex_triple c = [hex_upper (unat c div 16), hex_upper (unat c mod 16), 32]"

fun bu_hex_loop :: "chars \<Rightarrow> nat \<Rightarrow> nat \<Rightarrow> int \<Rightarrow> chars \<Rightarrow> (chars \<times> nat) result" where
  "bu_hex_loop hex i 0 sz dst = Inr (dst, 3 * i)"
| "bu_hex_loop hex i (Suc n) sz dst =
     (if int (3 * i) < sz then
        and_then (arr_get hex (int i)) (\<lambda>c. and_then (arr_copy dst (int (3 * i)) (hex_triple c @ [0])) (\<lambda>dst.
          bu_hex_loop hex (i + 1) n sz dst))
      else Inr (dst, 3 * i))"

text \<open>The result is the buffer and the offset, three for each byte written.\<close>

definition BrbHexToStr :: "chars \<Rightarrow> int \<Rightarrow> chars \<Rightarrow> int \<Rightarrow> (chars \<times> nat) result" where
  "BrbHexToStr hex hex_sz dst_buf dst_buf_sz = bu_hex_loop hex 0 (nat hex_sz) dst_buf_sz dst_buf"

text \<open>A negative size asks \<open>calloc\<close> for more than there can be, and nothing is written through the null pointer.\<close>

definition BrbHexToStrAlloc :: "chars \<Rightarrow> int \<Rightarrow> chars option result" where
  "BrbHexToStrAlloc hex hex_sz = and_then (in_int (hex_sz * 3)) (\<lambda>size. and_then (in_int (size + 3)) (\<lambda>n.
     if n < 0 then Inr None
     else and_then (BrbHexToStr hex hex_sz (replicate (nat n) 0) size) (\<lambda>(ret_ptr, _). Inr (Some ret_ptr))))"

section \<open>Recognisers of numbers\<close>

fun bu_numeric :: "chars \<Rightarrow> int \<Rightarrow> int result" where
  "bu_numeric [] status = Inl OutOfBounds"
| "bu_numeric (c # s) status = (if c = 0 then Inr status else if \<not> c_isdigit c then Inr 0 else bu_numeric s (status + 1))"

definition BrbIsNumeric :: "chars option \<Rightarrow> int result" where
  "BrbIsNumeric str = (case str of None \<Rightarrow> Inr 0
     | Some s \<Rightarrow> and_then (arr_get s 0) (\<lambda>c. bu_numeric (if c = 45 then tl s else s) 0))"

definition c_isxdigit :: "8 word \<Rightarrow> bool" where
  "c_isxdigit c \<longleftrightarrow> c_isdigit c \<or> (65 \<le> c \<and> c \<le> 70) \<or> (97 \<le> c \<and> c \<le> 102)"

fun bu_hex_digits :: "chars \<Rightarrow> int \<Rightarrow> int result" where
  "bu_hex_digits [] status = Inl OutOfBounds"
| "bu_hex_digits (c # s) status = (if c = 0 then Inr status else if \<not> c_isxdigit c then Inr 0 else bu_hex_digits s (status + 1))"

definition BrbIsHex :: "chars option \<Rightarrow> int result" where
  "BrbIsHex str = (case str of None \<Rightarrow> Inr 0
     | Some s \<Rightarrow> and_then (arr_get s 0) (\<lambda>c. if c \<noteq> 48 then Inr 0
         else and_then (arr_get s 1) (\<lambda>d. if d \<noteq> 120 \<and> d \<noteq> 88 then Inr 0 else bu_hex_digits (drop 2 s) 2)))"

text \<open>\<open>strchr\<close> also finds the terminator of \<open>"xX"\<close>, but no character before the length is zero.\<close>

definition BrbIsDecimal :: "chars option \<Rightarrow> int result" where
  "BrbIsDecimal str = (case str of None \<Rightarrow> Inr 0
     | Some s \<Rightarrow> and_then (c_strlen s) (\<lambda>n.
         if n > 1 \<and> s ! 0 = 48 \<and> s ! 1 \<noteq> 46 then Inr 0
         else if n > 2 \<and> s ! 0 = 45 \<and> s ! 1 = 48 \<and> s ! 2 \<noteq> 46 then Inr 0
         else Inr (c_bool (list_all (\<lambda>c. c \<noteq> 120 \<and> c \<noteq> 88 \<and> c \<noteq> 0) (take n s)))))"

fun bu_number_list :: "chars \<Rightarrow> 8 word \<Rightarrow> int \<Rightarrow> bool \<Rightarrow> int result" where
  "bu_number_list [] sep i parsing = Inl OutOfBounds"
| "bu_number_list (c # s) sep i parsing =
     (if c = 0 then Inr (if parsing then 0 else i + 1)
      else if sint c \<ge> 48 \<and> sint c \<le> 57 then bu_number_list s sep (i + 1) True
      else if c = sep then (if \<not> parsing then Inr (i + 1) else bu_number_list s sep (i + 1) False)
      else Inr (i + 1))"

definition BrbIsNumberList :: "chars option \<Rightarrow> 8 word \<Rightarrow> int result" where
  "BrbIsNumberList num_str sep = (case num_str of None \<Rightarrow> Inr (- 1) | Some s \<Rightarrow> bu_number_list s sep 0 False)"

section \<open>Check digits\<close>

definition INT_VALUE :: "8 word \<Rightarrow> int" where
  "INT_VALUE c = sint c - 48"

text \<open>
  The sum of \<open>n\<close> digits with falling weights from \<open>j\<close> on. \<open>n\<close> is the bound the loop compares its index
  with, a \<open>size_t\<close>; beyond the end of the object the read is a fault.
\<close>

fun bu_cpf_sum :: "chars \<Rightarrow> int \<Rightarrow> int \<Rightarrow> int \<Rightarrow> int result" where
  "bu_cpf_sum [] n j acc = (if n = 0 then Inr acc else Inl OutOfBounds)"
| "bu_cpf_sum (c # s) n j acc = (if n = 0 then Inr acc else bu_cpf_sum s (n - 1) (j - 1) (acc + INT_VALUE c * j))"

definition bu_cpf_digit :: "int \<Rightarrow> int" where
  "bu_cpf_digit acc = (let digit = acc smod 11 in if digit < 2 then 0 else 11 - digit)"

definition size_t_minus :: "nat \<Rightarrow> nat \<Rightarrow> int" where
  "size_t_minus n k = uint (of_nat n - of_nat k :: 64 word)"

definition bu_all_same :: "chars \<Rightarrow> nat \<Rightarrow> bool" where
  "bu_all_same s n \<longleftrightarrow> list_ex (\<lambda>c. take n s = replicate n c) [48, 49, 50, 51, 52, 53, 54, 55, 56, 57] \<and> s ! n = 0"

definition BrbIsValidCpf :: "chars option \<Rightarrow> int result" where
  "BrbIsValidCpf cpf_str = (case cpf_str of None \<Rightarrow> Inr 0
     | Some s \<Rightarrow> and_then (c_strlen s) (\<lambda>n. and_then (BrbIsNumeric (Some s)) (\<lambda>num.
         if n \<noteq> 11 \<and> num = 0 then Inr 0
         else if n = 11 \<and> bu_all_same s 11 then Inr 0
         else and_then (bu_cpf_sum s (size_t_minus n 2) 10 0) (\<lambda>sum1. and_then (arr_get s 9) (\<lambda>c9.
           if INT_VALUE c9 \<noteq> bu_cpf_digit sum1 then Inr 0
           else and_then (bu_cpf_sum s (size_t_minus n 1) 11 0) (\<lambda>sum2. and_then (arr_get s 10) (\<lambda>c10.
             Inr (c_bool (INT_VALUE c10 = bu_cpf_digit sum2)))))))))"

text \<open>The weights of the other register fall to 2 and start again at 9.\<close>

fun bu_cnpj_sum :: "chars \<Rightarrow> int \<Rightarrow> int \<Rightarrow> int \<Rightarrow> int result" where
  "bu_cnpj_sum [] n j acc = (if n = 0 then Inr acc else Inl OutOfBounds)"
| "bu_cnpj_sum (c # s) n j acc = (if n = 0 then Inr acc
     else bu_cnpj_sum s (n - 1) (if j = 2 then 9 else j - 1) (acc + INT_VALUE c * j))"

definition BrbIsValidCnpj :: "chars option \<Rightarrow> int result" where
  "BrbIsValidCnpj cnpj_str = (case cnpj_str of None \<Rightarrow> Inr 0
     | Some s \<Rightarrow> and_then (c_strlen s) (\<lambda>n. and_then (BrbIsNumeric (Some s)) (\<lambda>num.
         if n \<noteq> 14 \<and> num = 0 then Inr 0
         else if n = 14 \<and> take 14 s = replicate 14 48 then Inr 0
         else and_then (bu_cnpj_sum s 12 5 0) (\<lambda>sum1. and_then (arr_get s 12) (\<lambda>c12.
           if INT_VALUE c12 \<noteq> bu_cpf_digit sum1 then Inr 0
           else and_then (bu_cnpj_sum s 13 6 0) (\<lambda>sum2. and_then (arr_get s 13) (\<lambda>c13.
             Inr (c_bool (INT_VALUE c13 = bu_cpf_digit sum2)))))))))"

section \<open>The string hash\<close>

definition hash_scramble :: "32 word \<Rightarrow> 32 word" where
  "hash_scramble k = rol32 (k * 0xcc9e2d51) 15 * 0x1b873593"

definition hash_block :: "32 word \<Rightarrow> 32 word \<Rightarrow> 32 word" where
  "hash_block hash k = rol32 (hash XOR hash_scramble k) 13 * 5 + 0xe6546b64"

text \<open>Reading \<open>blocks[i]\<close> takes four bytes, the lowest first.\<close>

fun hash_blocks :: "chars \<Rightarrow> nat \<Rightarrow> nat \<Rightarrow> 32 word \<Rightarrow> 32 word result" where
  "hash_blocks key i 0 hash = Inr hash"
| "hash_blocks key i (Suc n) hash =
     (if 4 * i + 4 \<le> length key then hash_blocks key (i + 1) n (hash_block hash (le_word (take 4 (drop (4 * i) key))))
      else Inl OutOfBounds)"

text \<open>The pointer to the tail, \<open>key + nblocks * 4\<close> with \<open>int nblocks\<close>.\<close>

definition hash_tail :: "chars \<Rightarrow> nat \<Rightarrow> nat \<Rightarrow> 32 word \<Rightarrow> 32 word result" where
  "hash_tail key nblocks rest hash = and_then (in_int (int nblocks * 4)) (\<lambda>p. let pos = nat p in
     if pos + rest \<le> length key
     then Inr (if rest = 0 then hash else
       (let k1 = (if rest \<ge> 3 then push_bit 16 (ucast (key ! (pos + 2))) else 0) XOR
                 (if rest \<ge> 2 then push_bit 8 (ucast (key ! (pos + 1))) else 0) XOR ucast (key ! pos)
        in hash XOR hash_scramble k1))
     else Inl OutOfBounds)"

definition hash_final :: "32 word \<Rightarrow> 32 word" where
  "hash_final hash =
     (let hash = hash XOR drop_bit 16 hash; hash = hash * 0x85ebca6b; hash = hash XOR drop_bit 13 hash;
          hash = hash * 0xc2b2ae35 in hash XOR drop_bit 16 hash)"

definition BrbSimpleHashStr :: "chars \<Rightarrow> 32 word \<Rightarrow> 32 word \<Rightarrow> 32 word result" where
  "BrbSimpleHashStr key len seed =
     and_then (hash_blocks key 0 (unat len div 4) seed) (\<lambda>hash.
     and_then (hash_tail key (unat len div 4) (unat len mod 4) hash) (\<lambda>hash.
     Inr (hash_final (hash XOR len))))"

text \<open>
  \<open>BrbSimpleHashStrFmt\<close>: \<open>msg\<close> is the text \<open>vsnprintf\<close> makes of the format, \<open>None\<close> when it returns -1,
  which the code then uses as an index. A text that does not fit the local array is put on the heap.
\<close>

definition bu_fmt_alloc :: "nat \<Rightarrow> int result" where
  "bu_fmt_alloc msg_len = (if msg_len > 65535 - 16 then in_int (int msg_len + 16) else Inr 65535)"

definition BrbSimpleHashStrFmt :: "32 word \<Rightarrow> chars option \<Rightarrow> 32 word result" where
  "BrbSimpleHashStrFmt seed msg = (case msg of None \<Rightarrow> Inl OutOfBounds
     | Some m \<Rightarrow> and_then (bu_fmt_alloc (length m)) (\<lambda>alloc_sz.
         and_then (arr_copy (replicate (nat alloc_sz) 0) 0 (take (nat alloc_sz - 2) m @ [0])) (\<lambda>buf.
         and_then (arr_set buf (int (length m)) 0) (\<lambda>buf. BrbSimpleHashStr buf (of_nat (length m)) seed))))"

section \<open>Letter case, comparison and search\<close>

definition c_toupper :: "8 word \<Rightarrow> 8 word" where
  "c_toupper c = (if 97 \<le> c \<and> c \<le> 122 then c - 32 else c)"

text \<open>The length is an \<open>int\<close>.\<close>

definition BrbStrToLower :: "chars \<Rightarrow> (chars \<times> nat) result" where
  "BrbStrToLower s = and_then (c_strlen s) (\<lambda>n. let n = nat (c_int (int n)) in Inr (List.map c_tolower (take n s) @ drop n s, n))"

definition BrbStrToUpper :: "chars \<Rightarrow> (chars \<times> nat) result" where
  "BrbStrToUpper s = and_then (c_strlen s) (\<lambda>n. let n = nat (c_int (int n)) in Inr (List.map c_toupper (take n s) @ drop n s, n))"

fun bu_compare :: "chars \<Rightarrow> chars \<Rightarrow> int result" where
  "bu_compare (c # s) (d # t) = (if c \<noteq> 0 \<and> d \<noteq> 0
     then (if c = d then bu_compare s t else Inr (c_bool (sint c > sint d))) else Inr (c_bool (c \<noteq> 0)))"
| "bu_compare s t = Inl OutOfBounds"

definition BrbStrCompare :: "chars option \<Rightarrow> chars option \<Rightarrow> int result" where
  "BrbStrCompare s t = (case s of None \<Rightarrow> Inr 0 | Some s \<Rightarrow> (case t of None \<Rightarrow> Inr 0 | Some t \<Rightarrow> bu_compare s t))"

text \<open>The search from the end; \<open>k\<close> places are left, the last of them is looked at first.\<close>

fun bu_find_reverse :: "chars \<Rightarrow> chars \<Rightarrow> nat \<Rightarrow> nat \<Rightarrow> int result" where
  "bu_find_reverse s t n 0 = Inr (- 1)"
| "bu_find_reverse s t n (Suc i) = and_then (arr_get s (int i)) (\<lambda>c. and_then (arr_get t 0) (\<lambda>d.
     if c = d then and_then (c_memeq (drop i s) t n) (\<lambda>e. if e then Inr (int (i + n)) else bu_find_reverse s t n i)
     else bu_find_reverse s t n i))"

definition BrbStrFindSubStrReverse :: "chars \<Rightarrow> nat \<Rightarrow> chars \<Rightarrow> nat \<Rightarrow> int result" where
  "BrbStrFindSubStrReverse buffer_str buffer_sz substring_str substring_sz =
     (if buffer_sz < substring_sz then Inr (- 1)
      else bu_find_reverse buffer_str substring_str substring_sz (buffer_sz - substring_sz + 1))"

section \<open>Tables of names and values\<close>

record brb_key_value =
  kv_key :: "chars option"
  kv_key_sz :: int
  kv_value :: int

fun BrbStrGetKeyByValue :: "brb_key_value list \<Rightarrow> int \<Rightarrow> chars option result" where
  "BrbStrGetKeyByValue [] k_value = Inl OutOfBounds"
| "BrbStrGetKeyByValue (kv # kvs) k_value = (case kv_key kv of None \<Rightarrow> Inr None
     | Some k \<Rightarrow> if k_value \<noteq> kv_value kv then BrbStrGetKeyByValue kvs k_value else Inr (Some k))"

fun bu_value_by_key :: "brb_key_value list \<Rightarrow> chars \<Rightarrow> int \<Rightarrow> int result" where
  "bu_value_by_key [] key n = Inl OutOfBounds"
| "bu_value_by_key (kv # kvs) key n = (case kv_key kv of None \<Rightarrow> Inr 0
     | Some k \<Rightarrow> and_then (arr_get k 0) (\<lambda>c. if c = 0 then Inr 0
         else if n \<noteq> kv_key_sz kv then bu_value_by_key kvs key n
         else and_then (c_strncmp k key (nat (c_size (kv_key_sz kv)))) (\<lambda>r.
           if r = 0 then Inr (kv_value kv) else bu_value_by_key kvs key n)))"

definition BrbStrGetValueByKey :: "brb_key_value list \<Rightarrow> chars option \<Rightarrow> int result" where
  "BrbStrGetValueByKey val_key key_ptr = (case key_ptr of None \<Rightarrow> Inr 0
     | Some key \<Rightarrow> and_then (c_strlen key) (\<lambda>n. bu_value_by_key val_key key (c_int (int n))))"

section \<open>Times\<close>

record brb_timeval =
  tv_sec :: int
  tv_usec :: int

definition BrbTimeLt :: "brb_timeval \<Rightarrow> brb_timeval \<Rightarrow> bool" where
  "BrbTimeLt a b = (if tv_sec a = tv_sec b then tv_usec a < tv_usec b else tv_sec a < tv_sec b)"

definition BrbTimeSub :: "brb_timeval \<Rightarrow> brb_timeval \<Rightarrow> brb_timeval" where
  "BrbTimeSub a b = (let r = \<lparr>tv_sec = tv_sec a - tv_sec b, tv_usec = tv_usec a - tv_usec b\<rparr> in
     if tv_usec r < 0 then r\<lparr>tv_sec := tv_sec r - 1, tv_usec := tv_usec r + 1000000\<rparr> else r)"

definition BrbDateToTimestamp :: "int \<Rightarrow> (brb_tm \<Rightarrow> brb_tm \<times> int) \<Rightarrow> chars \<Rightarrow> int result" where
  "BrbDateToTimestamp isdst mktime date_str = and_then (c_strlen date_str) (\<lambda>n.
     if n < 19 then Inr 0
     else and_then (dp_iso date_str) (\<lambda>p. Inr (snd (mktime (dp_to_tm p isdst)))))"

section \<open>Domain names\<close>

text \<open>The loop: \<open>k\<close> characters are left, the next one is at \<open>i\<close>.\<close>

fun bu_domain_loop :: "chars \<Rightarrow> nat \<Rightarrow> nat \<Rightarrow> int \<Rightarrow> nat \<Rightarrow> int result" where
  "bu_domain_loop s n i dots 0 = Inr (if dots = 0 then - 5 else 0)"
| "bu_domain_loop s n i dots (Suc k) = and_then (arr_get s (int i)) (\<lambda>c.
     if \<not> (c_isalnum c \<or> c = 46 \<or> c = 45) then Inr (- 2)
     else if c = 46 \<and> (i = 0 \<or> i = n - 1 \<or> s ! (i - 1) = 45 \<or> s ! (i + 1) = 45 \<or> s ! (i + 1) = 46) then Inr (- 3)
     else if c = 45 \<and> (i = 0 \<or> i = n - 1 \<or> s ! (i - 1) = 46 \<or> s ! (i + 1) = 46) then Inr (- 4)
     else bu_domain_loop s n (i + 1) (if c = 46 then dots + 1 else dots) k)"

definition BrbStrValidateDomain :: "chars option \<Rightarrow> int \<Rightarrow> int result" where
  "BrbStrValidateDomain buf_ptr buf_len = (case buf_ptr of None \<Rightarrow> Inr (- 1)
     | Some s \<Rightarrow> and_then (c_strlen s) (\<lambda>n. if n = 0 then Inr (- 1)
         else (let buf_len = (if buf_len < 0 then c_int (int n) else buf_len) in
           if buf_len \<le> 0 then Inr (- 1)
           else and_then (arr_get s (buf_len - 1)) (\<lambda>e.
             if s ! 0 = 46 \<or> e = 46 \<or> s ! 0 = 45 \<or> e = 45 then Inr (- 1)
             else bu_domain_loop s (nat buf_len) 0 0 (nat buf_len)))))"

end
