(* ===== verification/BrbUtilsProps.thy ===== *)
theory BrbUtilsProps
  imports BrbUtils BrbStringsProps
begin

text \<open>
  Lemmas on the utilities: the string hash is injective in its seed and in every block of its key, the
  dump of bytes and the room it needs, the check digits, and the domain names accepted.
\<close>

unbundle bit_operations_syntax

section \<open>The string hash\<close>



























text \<open>The dump: three characters for each byte, and a terminator.\<close>

section \<open>Hexadecimal dumps\<close>

lemma hex_triple_length [simp]: "length (hex_triple c) = 3"
  by (simp add: hex_triple_def)

lemma triples_length [simp]: "length (concat (map hex_triple xs)) = 3 * length xs"
  by (induction xs) simp_all

lemma bu_hex_loop_eq:
  "i + n \<le> length hex \<Longrightarrow> sz = int (length dst) \<Longrightarrow> 0 < n \<Longrightarrow>
   bu_hex_loop hex i n sz dst = (if 3 * (i + n) < length dst
     then Inr (take (3 * i) dst @ concat (map hex_triple (take n (drop i hex))) @ 0 # drop (3 * (i + n) + 1) dst, 3 * (i + n))
     else if 3 * i < length dst then Inl OutOfBounds else Inr (dst, 3 * i))"
proof (induction n arbitrary: i dst)
  case (Suc n)
  have i: "i < length hex" using Suc.prems by simp
  define d where "d = take (3 * i) dst @ (hex_triple (hex ! i) @ [0]) @ drop (3 * i + 4) dst"
  show ?case
  proof (cases "3 * i + 3 < length dst")
    case True
    have copy: "arr_copy dst (int (3 * i)) (hex_triple (hex ! i) @ [0]) = Inr d"
      using True arr_copy_nat [of "3 * i" "hex_triple (hex ! i) @ [0]" dst] by (simp add: d_def)
    have ld: "length d = length dst" using True by (simp add: d_def)
    show ?thesis
    proof (cases "n = 0")
      case True
      then show ?thesis using i copy \<open>3 * i + 3 < length dst\<close> Suc.prems(2)
        by (simp add: arr_get_nat take_drop_step d_def add.commute [of 4 "3 * i"])
    next
      case False
      have "take (3 * (i + 1)) d = take (3 * i) dst @ hex_triple (hex ! i)" using True by (simp add: d_def)
      moreover have "drop (3 * (i + 1 + n) + 1) d = drop (3 * (i + 1 + n) + 1) dst" using True by (simp add: d_def ac_simps)
      ultimately show ?thesis using i copy True Suc.IH [of "i + 1" d] False Suc.prems ld
        by (auto simp: arr_get_nat take_drop_step)
    qed
  next
    case False
    then have "arr_copy dst (int (3 * i)) (hex_triple (hex ! i) @ [0]) = Inl OutOfBounds" by (simp add: arr_copy_def)
    with False i Suc.prems show ?thesis by (auto simp: arr_get_nat)
  qed
qed simp


lemma hex_result:
  assumes "n \<le> length hex"
  shows "BrbHexToStr hex (int n) dst (int (length dst)) =
    (if n = 0 \<or> dst = [] then Inr (dst, 0)
     else if 3 * n < length dst then Inr (concat (map hex_triple (take n hex)) @ 0 # drop (3 * n + 1) dst, 3 * n)
     else Inl OutOfBounds)"
  using bu_hex_loop_eq [of 0 n hex "int (length dst)" dst] assms by (cases n) (auto simp: BrbHexToStr_def)

section \<open>Domain names\<close>

text \<open>A name is a sequence of labels between dots; a label is made of letters, digits and inner hyphens.\<close>

fun labels :: "chars \<Rightarrow> chars list" where
  "labels [] = [[]]"
| "labels (c # s) = (if c = 46 then [] # labels s else (c # hd (labels s)) # tl (labels s))"

definition label_ok :: "chars \<Rightarrow> bool" where
  "label_ok l \<longleftrightarrow> l \<noteq> [] \<and> hd l \<noteq> 45 \<and> last l \<noteq> 45 \<and> list_all (\<lambda>c. c_isalnum c \<or> c = 45) l"

definition domain_ok :: "chars \<Rightarrow> bool" where
  "domain_ok s \<longleftrightarrow> 2 \<le> length (labels s) \<and> list_all label_ok (labels s)"

text \<open>The conditions of the loop, between neighbours.\<close>

definition dom_char :: "8 word \<Rightarrow> bool" where
  "dom_char c \<longleftrightarrow> c_isalnum c \<or> c = 46 \<or> c = 45"

definition dom_pair :: "8 word \<Rightarrow> 8 word \<Rightarrow> bool" where
  "dom_pair c d \<longleftrightarrow> \<not> (c = 46 \<and> (d = 46 \<or> d = 45)) \<and> \<not> (c = 45 \<and> d = 46)"

fun dom_chain :: "chars \<Rightarrow> bool" where
  "dom_chain [] \<longleftrightarrow> False"
| "dom_chain [c] \<longleftrightarrow> dom_char c \<and> c \<noteq> 46 \<and> c \<noteq> 45"
| "dom_chain (c # d # s) \<longleftrightarrow> dom_char c \<and> dom_pair c d \<and> dom_chain (d # s)"

lemma labels_nonempty [simp]: "labels s \<noteq> []"
  by (cases s) simp_all

lemma labels_hd_tl: "labels s = hd (labels s) # tl (labels s)"
  by simp

definition label_end :: "chars \<Rightarrow> bool" where
  "label_end l \<longleftrightarrow> last l \<noteq> 45 \<and> list_all (\<lambda>c. c_isalnum c \<or> c = 45) l"

lemma label_ok_Cons: "label_ok (c # l) \<longleftrightarrow> c \<noteq> 45 \<and> label_end (c # l)"
  by (auto simp: label_ok_def label_end_def)

lemma label_end_Cons: "label_end (c # d # l) \<longleftrightarrow> (c_isalnum c \<or> c = 45) \<and> label_end (d # l)"
  by (auto simp: label_end_def)

lemma not_alnum: "\<not> c_isalnum 46" "\<not> c_isalnum 45"
  by (simp_all add: c_isalnum_def c_isdigit_def)

lemma chain_labels: "c \<noteq> 46 \<Longrightarrow> dom_chain (c # s) \<longleftrightarrow> label_end (c # hd (labels s)) \<and> list_all label_ok (tl (labels s))"
proof (induction s arbitrary: c rule: induct_list012)
  case 1
  then show ?case by (auto simp: label_end_def dom_char_def)
next
  case (2 x)
  then show ?case
    by (cases "x = 46") (auto simp: label_end_def dom_char_def dom_pair_def label_ok_def)
next
  case (3 x y zs)
  show ?case
  proof (cases "x = 46")
    case False
    have "dom_chain (x # y # zs) \<longleftrightarrow> label_end (x # hd (labels (y # zs))) \<and> list_all label_ok (tl (labels (y # zs)))"
      by (rule "3.IH"(2) [OF False])
    with False "3.prems" show ?thesis by (auto simp: label_end_Cons dom_char_def dom_pair_def)
  next
    case x: True
    show ?thesis
    proof (cases "y = 46")
      case True
      with x "3.prems" show ?thesis by (auto simp: label_end_def label_ok_def dom_pair_def)
    next
      case False
      have "dom_chain (y # zs) \<longleftrightarrow> label_end (y # hd (labels zs)) \<and> list_all label_ok (tl (labels zs))"
        by (rule "3.IH"(1) [OF False])
      with False x "3.prems" show ?thesis
        by (auto simp: label_end_def [of "[c]"] label_ok_Cons dom_char_def dom_pair_def not_alnum)
    qed
  qed
qed

lemma labels_length: "length (labels s) = Suc (count_list s 46)"
proof (induction s)
  case (Cons c s)
  have "length (tl (labels s)) = length (labels s) - 1" by simp
  with Cons show ?case by (cases "c = 46") (simp_all only: labels.simps if_True if_False list.size length_Cons count_list.simps, simp_all)
qed simp

lemma labels_count: "2 \<le> length (labels s) \<longleftrightarrow> 46 \<in> set s"
  using count_list_0_iff [of s 46] by (auto simp: labels_length numeral_2_eq_2 Suc_le_eq)

lemma domain_chain: "domain_ok s \<longleftrightarrow> s \<noteq> [] \<and> hd s \<noteq> 46 \<and> hd s \<noteq> 45 \<and> dom_chain s \<and> 46 \<in> set s"
proof (cases s)
  case (Cons c t)
  show ?thesis
  proof (cases "c = 46")
    case True
    then show ?thesis by (simp add: domain_ok_def Cons label_ok_def)
  next
    case False
    then show ?thesis using chain_labels [OF False, of t] labels_count [of s]
      by (auto simp: domain_ok_def Cons label_ok_Cons)
  qed
qed (simp add: domain_ok_def label_ok_def)


lemma dom_loop:
  assumes "n \<le> length s" "s ! 0 \<noteq> 46 \<and> s ! 0 \<noteq> 45" "s ! (n - 1) \<noteq> 46 \<and> s ! (n - 1) \<noteq> 45"
  shows "0 < k \<Longrightarrow> i + k = n \<Longrightarrow> 0 \<le> dots \<Longrightarrow> (0 < i \<Longrightarrow> dom_pair (s ! (i - 1)) (s ! i)) \<Longrightarrow>
    \<exists>r. bu_domain_loop s n i dots k = Inr r \<and>
      (r = 0 \<longleftrightarrow> dom_chain (take k (drop i s)) \<and> (0 < dots \<or> 46 \<in> set (take k (drop i s))))"
proof (induction k arbitrary: i dots)
  case (Suc k)
  define c where "c = s ! i"
  have i: "i < length s" "arr_get s (int i) = Inr c" using Suc.prems assms(1) by (simp_all add: arr_get_nat c_def)
  have first: "i = 0 \<Longrightarrow> c \<noteq> 46 \<and> c \<noteq> 45" using assms(2) by (simp add: c_def)
  have prev: "i \<noteq> 0 \<Longrightarrow> \<not> (c = 46 \<and> s ! (i - 1) = 45) \<and> \<not> (c = 45 \<and> s ! (i - 1) = 46)"
    using Suc.prems(4) by (auto simp: dom_pair_def c_def)
  show ?case
  proof (cases "k = 0")
    case True
    then have "c \<noteq> 46 \<and> c \<noteq> 45" using Suc.prems(2) assms(3) by (auto simp: c_def)
    with True i show ?thesis using Suc.prems(3) by (auto simp: take_drop_step dom_char_def c_def [symmetric])
  next
    case False
    then have last: "i \<noteq> n - 1" "Suc i < length s" using Suc.prems(2) assms(1) by auto
    obtain k' where k: "k = Suc k'" using False by (cases k) auto
    have seq: "take (Suc k) (drop i s) = c # s ! Suc i # take k' (drop (Suc (Suc i)) s)"
      "take k (drop (Suc i) s) = s ! Suc i # take k' (drop (Suc (Suc i)) s)"
      using i(1) last(2) by (simp_all add: take_drop_step c_def k)
    show ?thesis
    proof (cases "dom_char c \<and> dom_pair c (s ! Suc i)")
      case True
      then have go: "bu_domain_loop s n i dots (Suc k) = bu_domain_loop s n (i + 1) (if c = 46 then dots + 1 else dots) k"
        using i first prev last by (auto simp: dom_char_def dom_pair_def)
      have "\<exists>r. bu_domain_loop s n (i + 1) (if c = 46 then dots + 1 else dots) k = Inr r \<and>
          (r = 0 \<longleftrightarrow> dom_chain (take k (drop (i + 1) s)) \<and>
            (0 < (if c = 46 then dots + 1 else dots) \<or> 46 \<in> set (take k (drop (i + 1) s))))"
        by (rule Suc.IH) (use True False Suc.prems in \<open>auto simp: c_def\<close>)
      with go True show ?thesis using seq Suc.prems(3) by auto
    next
      case no: False
      have "bu_domain_loop s n i dots (Suc k) \<in> {Inr (- 2), Inr (- 3), Inr (- 4)}"
        using i no first prev last(1) by (auto simp: dom_char_def dom_pair_def)
      with no seq show ?thesis by auto
    qed
  qed
qed simp

lemma domain_result:
  assumes "0 \<notin> set d" "k < 0 \<and> e = d \<or> 0 \<le> k \<and> nat k \<le> length d \<and> e = take (nat k) d" "length d < 2 ^ 31"
  shows "\<exists>r. BrbStrValidateDomain (Some (d @ 0 # q)) k = Inr r \<and> (r = 0 \<longleftrightarrow> domain_ok e)"
proof (cases "e = []")
  case True
  have "BrbStrValidateDomain (Some (d @ 0 # q)) k = Inr (- 1)"
    using assms True c_int_nat [OF assms(3)] by (auto simp: BrbStrValidateDomain_def c_strlen_app)
  with True show ?thesis by (simp add: domain_chain)
next
  case False
  define n where "n = length e"
  define s where "s = d @ 0 # q"
  have n: "0 < n" "n \<le> length d" "e = take n s" "e = take n d" using assms(2) False by (auto simp: n_def s_def)
  have len: "BrbStrValidateDomain (Some s) k = and_then (arr_get s (int n - 1)) (\<lambda>e.
      if s ! 0 = 46 \<or> e = 46 \<or> s ! 0 = 45 \<or> e = 45 then Inr (- 1) else bu_domain_loop s n 0 0 n)"
  proof -
    have "(if k < 0 then c_int (int (length d)) else k) = int n" using assms(2) c_int_nat [OF assms(3)] by (auto simp: n_def)
    moreover have "c_strlen s = Inr (length d)" unfolding s_def by (rule c_strlen_app [OF assms(1)])
    moreover have "length d \<noteq> 0" using n(1,2) by linarith
    ultimately show ?thesis using n(1) by (simp add: BrbStrValidateDomain_def Let_def cong: if_cong)
  qed
  have ends: "s ! 0 = hd e" "s ! (n - 1) = last e" "arr_get s (int n - 1) = Inr (last e)"
  proof -
    show 0: "s ! 0 = hd e" using n False by (simp add: hd_conv_nth s_def nth_append)
    have "last e = e ! (n - 1)" using False by (simp add: last_conv_nth n_def)
    also have "\<dots> = d ! (n - 1)" unfolding n(4) using n(1) by simp
    also have "\<dots> = s ! (n - 1)" unfolding s_def using n(1,2) by (intro nth_append_left [symmetric]) linarith
    finally show 1: "s ! (n - 1) = last e" by simp
    have "nat (int n - 1) = n - 1" using n(1) by simp
    with 1 n(1,2) show "arr_get s (int n - 1) = Inr (last e)" by (simp add: arr_get_def s_def)
  qed
  have chain: "dom_chain e \<Longrightarrow> last e \<noteq> 46 \<and> last e \<noteq> 45" by (induction e rule: dom_chain.induct) auto
  show ?thesis
  proof (cases "hd e = 46 \<or> last e = 46 \<or> hd e = 45 \<or> last e = 45")
    case True
    with len ends chain show ?thesis by (auto simp: domain_chain s_def)
  next
    case ok: False
    have "\<exists>r. bu_domain_loop s n 0 0 n = Inr r \<and> (r = 0 \<longleftrightarrow> dom_chain (take n (drop 0 s)) \<and> (0 < (0 :: int) \<or> 46 \<in> set (take n (drop 0 s))))"
      by (rule dom_loop) (use ok ends n in \<open>auto simp: s_def\<close>)
    with len ends ok n(3) False show ?thesis by (auto simp: domain_chain s_def)
  qed
qed


section \<open>Check digits\<close>

definition digits :: "nat list \<Rightarrow> chars" where
  "digits ds = map (\<lambda>d. of_nat (48 + d)) ds"

definition check_digit :: "int list \<Rightarrow> nat list \<Rightarrow> int" where
  "check_digit ws ds = (let r = sum_list (map2 (*) ws (map int ds)) mod 11 in if r < 2 then 0 else 11 - r)"

lemma INT_VALUE_digit: "d < 10 \<Longrightarrow> INT_VALUE (of_nat (48 + d)) = int d"
proof -
  assume d: "d < 10"
  then have "unat (of_nat (48 + d) :: 8 word) = 48 + d" by (simp add: unat_of_nat del: of_nat_add)
  then have "uint (of_nat (48 + d) :: 8 word) = 48 + int d" by (simp add: uint_nat del: of_nat_add)
  then have "sint (of_nat (48 + d) :: 8 word) = 48 + int d" using d
    by (simp add: sint_uint signed_take_bit_int_eq_self del: of_nat_add)
  then show ?thesis by (simp add: INT_VALUE_def del: of_nat_add)
qed

lemma bu_cpf_sum_eq: "length ws = length s \<Longrightarrow> ws = map (\<lambda>i. j - int i) [0..<length s] \<Longrightarrow>
  bu_cpf_sum (s @ r) (int (length s)) j acc = Inr (acc + sum_list (map2 (*) ws (map INT_VALUE s)))"
proof (induction s arbitrary: j acc ws)
  case (Cons c s)
  have "ws = j # map (\<lambda>i. (j - 1) - int i) [0..<length s]"
    using Cons.prems(2) by (simp add: upt_conv_Cons map_Suc_upt [symmetric] comp_def del: upt_Suc)
  with Cons.IH [of _ "j - 1" "acc + INT_VALUE c * j"] show ?case by (simp add: algebra_simps)
qed (cases r; simp)

lemma digits_value: "list_all (\<lambda>d. d < 10) ds \<Longrightarrow> map INT_VALUE (digits ds) = map int ds"
  by (auto simp: digits_def list_all_iff INT_VALUE_digit simp del: of_nat_add)


lemma digits_simps: "length (digits ds) = length ds" "digits (take n ds) = take n (digits ds)"
  by (simp_all add: digits_def take_map)

lemma digits_isdigit: "list_all (\<lambda>d. d < 10) ds \<Longrightarrow> c \<in> set (digits ds) \<Longrightarrow> c_isdigit c"
  by (auto simp: digits_def list_all_iff digit_char simp del: of_nat_add)

lemma digits_no_zero: "list_all (\<lambda>d. d < 10) ds \<Longrightarrow> 0 \<notin> set (digits ds)"
  using digits_isdigit [of ds 0] by (auto simp: c_isdigit_def)

lemma bu_numeric_eq: "(\<And>c. c \<in> set s \<Longrightarrow> c_isdigit c) \<Longrightarrow> bu_numeric (s @ 0 # r) k = Inr (k + int (length s))"
proof (induction s arbitrary: k)
  case (Cons c s)
  have "c_isdigit c" using Cons.prems by simp
  moreover from this have "c \<noteq> 0" using digit_not by blast
  ultimately show ?case using Cons by simp
qed simp

lemma is_numeric_result:
  assumes "list_all (\<lambda>d. d < 10) ds"
  shows "BrbIsNumeric (Some (digits ds @ 0 # r)) = Inr (int (length ds))"
proof -
  have "(digits ds @ 0 # r) ! 0 \<noteq> 45"
    using digits_isdigit [OF assms] digit_not by (cases "digits ds") auto
  then show ?thesis using bu_numeric_eq [of "digits ds" r 0] digits_isdigit [OF assms]
    by (simp add: BrbIsNumeric_def arr_get_def digits_simps)
qed

lemma bu_cpf_digit_eq: "list_all (\<lambda>d. d < 10) ds \<Longrightarrow> list_all (\<lambda>w. 0 \<le> w) ws \<Longrightarrow>
  bu_cpf_digit (sum_list (map2 (*) ws (map int ds))) = check_digit ws ds"
proof -
  assume "list_all (\<lambda>w. 0 \<le> w) ws"
  then have "0 \<le> sum_list (map2 (*) ws (map int ds))"
    by (intro sum_list_nonneg) (auto simp: list_all_iff set_zip)
  then show ?thesis by (simp add: bu_cpf_digit_def check_digit_def smod_nonneg)
qed

lemma cpf_sum_digits:
  assumes "list_all (\<lambda>d. d < 10) ds" "n \<le> length ds" "ws = map (\<lambda>i. j - int i) [0..<n]"
  shows "bu_cpf_sum (digits ds @ r) (int n) j 0 = Inr (sum_list (map2 (*) ws (map int (take n ds))))"
proof -
  have "list_all (\<lambda>d. d < 10) (take n ds)" using assms(1) by (auto simp: list_all_iff dest: in_set_takeD)
  then have v: "map INT_VALUE (take n (digits ds)) = map int (take n ds)"
    using digits_value [of "take n ds"] by (simp add: digits_simps)
  have e: "take n (digits ds) @ drop n (digits ds) @ r = digits ds @ r" by (simp flip: append_assoc)
  show ?thesis
    using bu_cpf_sum_eq [of ws "take n (digits ds)" j "drop n (digits ds) @ r" 0] assms unfolding e v
    by (simp add: digits_simps min_absorb2)
qed

lemma digit_at: "list_all (\<lambda>d. d < 10) ds \<Longrightarrow> k < length ds \<Longrightarrow>
  \<exists>c. arr_get (digits ds @ r) (int k) = Inr c \<and> INT_VALUE c = int (ds ! k)"
  by (auto simp: arr_get_nat digits_simps nth_append) (auto simp: digits_def list_all_length INT_VALUE_digit simp del: of_nat_add)

definition cpf_ok :: "nat list \<Rightarrow> bool" where
  "cpf_ok ds \<longleftrightarrow> (\<nexists>d. ds = replicate 11 d) \<and>
     int (ds ! 9) = check_digit [10, 9, 8, 7, 6, 5, 4, 3, 2] (take 9 ds) \<and>
     int (ds ! 10) = check_digit [11, 10, 9, 8, 7, 6, 5, 4, 3, 2] (take 10 ds)"

lemma digits_inj: "list_all (\<lambda>d. d < 10) ds \<Longrightarrow> list_all (\<lambda>d. d < 10) es \<Longrightarrow> digits ds = digits es \<longleftrightarrow> ds = es"
  by (metis digits_value inj_map_eq_map inj_of_nat)

lemma all_same_digits:
  assumes "list_all (\<lambda>d. d < 10) ds" "length ds = 11"
  shows "bu_all_same (digits ds @ 0 # r) 11 \<longleftrightarrow> (\<exists>d. ds = replicate 11 d)"
proof -
  have c: "digits (replicate 11 d) = replicate 11 (of_nat (48 + d))" for d by (simp add: digits_def)
  have l: "[48, 49, 50, 51, 52, 53, 54, 55, 56, 57] = map (\<lambda>d. of_nat (48 + d) :: 8 word) [0..<10]"
    by (simp add: upt_rec)
  have "bu_all_same (digits ds @ 0 # r) 11 \<longleftrightarrow> (\<exists>d<10. digits ds = digits (replicate 11 d))"
    unfolding bu_all_same_def l using assms(2)
    by (auto simp: list_ex_iff c digits_simps nth_append simp del: of_nat_add)
  also have "\<dots> \<longleftrightarrow> (\<exists>d<10. ds = replicate 11 d)"
  proof -
    have "digits ds = digits (replicate 11 d) \<longleftrightarrow> ds = replicate 11 d" if "d < 10" for d
      using digits_inj [OF assms(1), of "replicate 11 d"] that by (auto simp: list_all_iff)
    then show ?thesis by blast
  qed
  also have "\<dots> \<longleftrightarrow> (\<exists>d. ds = replicate 11 d)"
    using assms(1) by (auto simp: list_all_iff)
  finally show ?thesis .
qed

lemma cpf_result:
  assumes "list_all (\<lambda>d. d < 10) ds" "length ds = 11"
  shows "BrbIsValidCpf (Some (digits ds @ 0 # r)) = Inr (c_bool (cpf_ok ds))"
proof -
  let ?s = "digits ds @ 0 # r"
  have t: "list_all (\<lambda>d. d < 10) (take k ds)" for k using assms(1) by (auto simp: list_all_iff dest: in_set_takeD)
  have n: "c_strlen ?s = Inr 11" using c_strlen_app [OF digits_no_zero [OF assms(1)]] assms(2) by (simp add: digits_simps)
  have m: "size_t_minus 11 2 = 9" "size_t_minus 11 1 = 10" by (simp_all add: size_t_minus_def)
  have s1: "bu_cpf_sum ?s 9 10 0 = Inr (sum_list (map2 (*) [10, 9, 8, 7, 6, 5, 4, 3, 2] (map int (take 9 ds))))"
    using cpf_sum_digits [OF assms(1), of 9 "[10, 9, 8, 7, 6, 5, 4, 3, 2]" 10 "0 # r"] assms(2) by (simp add: upt_rec)
  have s2: "bu_cpf_sum ?s 10 11 0 = Inr (sum_list (map2 (*) [11, 10, 9, 8, 7, 6, 5, 4, 3, 2] (map int (take 10 ds))))"
    using cpf_sum_digits [OF assms(1), of 10 "[11, 10, 9, 8, 7, 6, 5, 4, 3, 2]" 11 "0 # r"] assms(2) by (simp add: upt_rec)
  obtain c9 c10 where "arr_get ?s 9 = Inr c9" "INT_VALUE c9 = int (ds ! 9)" "arr_get ?s 10 = Inr c10" "INT_VALUE c10 = int (ds ! 10)"
    using digit_at [OF assms(1), of 9 "0 # r"] digit_at [OF assms(1), of 10 "0 # r"] assms(2) by auto
  then show ?thesis
    using n m s1 s2 all_same_digits [OF assms] is_numeric_result [OF assms(1), of r] assms(2)
      bu_cpf_digit_eq [OF t, of "[10, 9, 8, 7, 6, 5, 4, 3, 2]" 9] bu_cpf_digit_eq [OF t, of "[11, 10, 9, 8, 7, 6, 5, 4, 3, 2]" 10]
    by (auto simp: BrbIsValidCpf_def cpf_ok_def)
qed

text \<open>Eleven characters are not required to be digits, and a shorter number is read beyond its end.\<close>

lemma replicate_11: "replicate 11 c = [c, c, c, c, c, c, c, c, c, c, c]"
  by (simp add: eval_nat_numeral)

lemma cpf_accepts_colon: "BrbIsValidCpf (Some [58, 48, 48, 48, 48, 48, 48, 48, 48, 48, 48, 0]) = Inr 1"
  by (simp add: BrbIsValidCpf_def BrbIsNumeric_def arr_get_def c_isdigit_def bu_all_same_def size_t_minus_def
      INT_VALUE_def bu_cpf_digit_def smod_nonneg replicate_11)

lemma cpf_short_number: "BrbIsValidCpf (Some [49, 0]) = Inl OutOfBounds"
  by (simp add: BrbIsValidCpf_def BrbIsNumeric_def arr_get_def c_isdigit_def size_t_minus_def)


fun cnpj_weights :: "int \<Rightarrow> nat \<Rightarrow> int list" where
  "cnpj_weights j 0 = []"
| "cnpj_weights j (Suc n) = j # cnpj_weights (if j = 2 then 9 else j - 1) n"

lemma bu_cnpj_sum_eq:
  "bu_cnpj_sum (s @ r) (int (length s)) j acc = Inr (acc + sum_list (map2 (*) (cnpj_weights j (length s)) (map INT_VALUE s)))"
proof (induction s arbitrary: j acc)
  case (Cons c s)
  then show ?case by (simp add: algebra_simps)
qed (cases r; simp)

lemma cnpj_sum_digits:
  assumes "list_all (\<lambda>d. d < 10) ds" "n \<le> length ds"
  shows "bu_cnpj_sum (digits ds @ r) (int n) j 0 = Inr (sum_list (map2 (*) (cnpj_weights j n) (map int (take n ds))))"
proof -
  have "list_all (\<lambda>d. d < 10) (take n ds)" using assms(1) by (auto simp: list_all_iff dest: in_set_takeD)
  then have v: "map INT_VALUE (take n (digits ds)) = map int (take n ds)"
    using digits_value [of "take n ds"] by (simp add: digits_simps)
  have e: "take n (digits ds) @ drop n (digits ds) @ r = digits ds @ r" by (simp flip: append_assoc)
  show ?thesis
    using bu_cnpj_sum_eq [of "take n (digits ds)" "drop n (digits ds) @ r" j 0] assms unfolding e v
    by (simp add: digits_simps min_absorb2)
qed

lemma cnpj_weights_eq:
  "cnpj_weights 5 12 = [5, 4, 3, 2, 9, 8, 7, 6, 5, 4, 3, 2]" "cnpj_weights 6 13 = [6, 5, 4, 3, 2, 9, 8, 7, 6, 5, 4, 3, 2]"
  by (simp_all add: numeral_eq_Suc [of "num.Bit0 n" for n] numeral_eq_Suc [of "num.Bit1 n" for n])

definition cnpj_ok :: "nat list \<Rightarrow> bool" where
  "cnpj_ok ds \<longleftrightarrow> ds \<noteq> replicate 14 0 \<and>
     int (ds ! 12) = check_digit [5, 4, 3, 2, 9, 8, 7, 6, 5, 4, 3, 2] (take 12 ds) \<and>
     int (ds ! 13) = check_digit [6, 5, 4, 3, 2, 9, 8, 7, 6, 5, 4, 3, 2] (take 13 ds)"

lemma cnpj_result:
  assumes "list_all (\<lambda>d. d < 10) ds" "length ds = 14"
  shows "BrbIsValidCnpj (Some (digits ds @ 0 # r)) = Inr (c_bool (cnpj_ok ds))"
proof -
  let ?s = "digits ds @ 0 # r"
  have t: "list_all (\<lambda>d. d < 10) (take k ds)" for k using assms(1) by (auto simp: list_all_iff dest: in_set_takeD)
  have n: "c_strlen ?s = Inr 14" using c_strlen_app [OF digits_no_zero [OF assms(1)]] assms(2) by (simp add: digits_simps)
  have z: "take 14 ?s = replicate 14 48 \<longleftrightarrow> ds = replicate 14 0"
    using digits_inj [OF assms(1), of "replicate 14 0"] assms(2) by (simp add: digits_simps list_all_iff) (simp add: digits_def)
  have s1: "bu_cnpj_sum ?s 12 5 0 = Inr (sum_list (map2 (*) [5, 4, 3, 2, 9, 8, 7, 6, 5, 4, 3, 2] (map int (take 12 ds))))"
    using cnpj_sum_digits [OF assms(1), of 12 "0 # r" 5] assms(2) by (simp add: cnpj_weights_eq)
  have s2: "bu_cnpj_sum ?s 13 6 0 = Inr (sum_list (map2 (*) [6, 5, 4, 3, 2, 9, 8, 7, 6, 5, 4, 3, 2] (map int (take 13 ds))))"
    using cnpj_sum_digits [OF assms(1), of 13 "0 # r" 6] assms(2) by (simp add: cnpj_weights_eq)
  obtain c12 c13 where "arr_get ?s 12 = Inr c12" "INT_VALUE c12 = int (ds ! 12)" "arr_get ?s 13 = Inr c13" "INT_VALUE c13 = int (ds ! 13)"
    using digit_at [OF assms(1), of 12 "0 # r"] digit_at [OF assms(1), of 13 "0 # r"] assms(2) by auto
  then show ?thesis
    using n z s1 s2 is_numeric_result [OF assms(1), of r] assms(2)
      bu_cpf_digit_eq [OF t, of "[5, 4, 3, 2, 9, 8, 7, 6, 5, 4, 3, 2]" 12] bu_cpf_digit_eq [OF t, of "[6, 5, 4, 3, 2, 9, 8, 7, 6, 5, 4, 3, 2]" 13]
    by (auto simp: BrbIsValidCnpj_def cnpj_ok_def)
qed


section \<open>Times\<close>

definition in_usec :: "brb_timeval \<Rightarrow> int" where
  "in_usec t = tv_sec t * 1000000 + tv_usec t"

definition tv_ok :: "brb_timeval \<Rightarrow> bool" where
  "tv_ok t \<longleftrightarrow> 0 \<le> tv_usec t \<and> tv_usec t < 1000000"

lemma time_sub: "tv_ok a \<Longrightarrow> tv_ok b \<Longrightarrow> tv_ok (BrbTimeSub a b) \<and> in_usec (BrbTimeSub a b) = in_usec a - in_usec b"
  by (auto simp: tv_ok_def BrbTimeSub_def in_usec_def Let_def)

lemma time_lt: "tv_ok a \<Longrightarrow> tv_ok b \<Longrightarrow> BrbTimeLt a b \<longleftrightarrow> in_usec a < in_usec b"
  by (auto simp: tv_ok_def BrbTimeLt_def in_usec_def)

section \<open>Properties\<close>




text \<open>
  C34: domain names. \<open>BrbStrValidateDomain\<close>, given a length or -1 for the whole string, always returns on a
  string of fewer than 2 ^ 31 characters, and accepts exactly the names of two or more labels between single dots, each of letters, digits and
  hyphens, neither starting nor ending with a hyphen.
\<close>

theorem utils_domain:
  assumes "0 \<notin> set d" "k < 0 \<and> e = d \<or> 0 \<le> k \<and> nat k \<le> length d \<and> e = take (nat k) d" "length d < 2 ^ 31"
  shows "\<exists>r. BrbStrValidateDomain (Some (d @ 0 # q)) k = Inr r \<and> (r = 0 \<longleftrightarrow> domain_ok e)"
  by (rule domain_result [OF assms])

theorem utils_domain_witness:
  "\<exists>r. BrbStrValidateDomain (Some [97, 45, 98, 46, 99, 0]) (- 1) = Inr r \<and> (r = 0 \<longleftrightarrow> domain_ok [97, 45, 98, 46, 99])"
  using utils_domain [of "[97, 45, 98, 46, 99]" "- 1" "[97, 45, 98, 46, 99]" "[]"] by simp

text \<open>
  C35: check digits. Of eleven digits \<open>BrbIsValidCpf\<close> accepts exactly those that are not all the same and
  whose last two are the check digits modulo 11 of the others, and of fourteen digits \<open>BrbIsValidCnpj\<close>
  exactly those that are not all zero and end with the check digits of that register.
\<close>

theorem utils_check_digits:
  assumes "list_all (\<lambda>d. d < 10) ds" "length ds = 11" "list_all (\<lambda>d. d < 10) es" "length es = 14"
  shows "BrbIsValidCpf (Some (digits ds @ 0 # r)) = Inr (c_bool (cpf_ok ds)) \<and>
    BrbIsValidCnpj (Some (digits es @ 0 # r)) = Inr (c_bool (cnpj_ok es))"
  using cpf_result [OF assms(1,2)] cnpj_result [OF assms(3,4)] by simp

theorem utils_check_digits_witness:
  "BrbIsValidCpf (Some (digits [1, 1, 1, 4, 4, 4, 7, 7, 7, 3, 5] @ [0])) = Inr 1 \<and>
   BrbIsValidCnpj (Some (digits [1, 1, 4, 4, 4, 7, 7, 7, 0, 0, 0, 1, 6, 1] @ [0])) = Inr 1"
proof -
  have "\<nexists>d. [1, 1, 1, 4, 4, 4, 7, 7, 7, 3, 5] = replicate 11 (d :: nat)" by (simp add: replicate_11)
  moreover have "[1, 1, 4, 4, 4, 7, 7, 7, 0, 0, 0, 1, 6, 1] \<noteq> replicate 14 (0 :: nat)" by (metis in_set_replicate list.set_intros(1) one_neq_zero)
  ultimately show ?thesis
    using utils_check_digits [of "[1, 1, 1, 4, 4, 4, 7, 7, 7, 3, 5]" "[1, 1, 4, 4, 4, 7, 7, 7, 0, 0, 0, 1, 6, 1]" "[]"]
    by (simp add: cpf_ok_def cnpj_ok_def check_digit_def)
qed

text \<open>
  Hexadecimal dumps. Into a buffer whose whole size it is given \<open>BrbHexToStr\<close> writes two digits and a
  space for each byte and a terminator when the buffer has more than three bytes for each of them; otherwise
  it writes beyond the end, because the terminator of the last group is not counted.
\<close>

theorem utils_hex_dump:
  assumes "n \<le> length hex" "0 < n" "dst \<noteq> []"
  shows "BrbHexToStr hex (int n) dst (int (length dst)) =
      (if 3 * n < length dst then Inr (concat (map hex_triple (take n hex)) @ 0 # drop (3 * n + 1) dst, 3 * n)
       else Inl OutOfBounds)"
  using hex_result [OF assms(1), of dst] assms(2,3) by simp

theorem utils_hex_dump_witness:
  "BrbHexToStr [1, 255] 2 [0, 0, 0, 0, 0, 0, 0] 7 = Inr ([48, 49, 32, 70, 70, 32, 0], 6) \<and>
   BrbHexToStr [1, 255] 2 [0, 0, 0, 0, 0, 0] 6 = Inl OutOfBounds"
  using utils_hex_dump [of 2 "[1, 255]" "[0, 0, 0, 0, 0, 0, 0]"] utils_hex_dump [of 2 "[1, 255]" "[0, 0, 0, 0, 0, 0]"]
  by (simp add: hex_triple_def hex_upper_def)

end
