(* ===== verification/BrbNetwork.thy ===== *)
theory BrbNetwork
  imports BrbStrings HashAbsorb
begin

text \<open>
  Network addresses of libbrb_core/data/utils/utils_nw.c, as compiled on Linux: masks of both families,
  comparison under a mask, and the textual form of an address with the width of its mask. Addresses are
  kept as the code keeps them, 32-bit words of a little-endian machine whose bytes are in network order.
  \<open>inet_pton\<close> and \<open>inet_ntop\<close> are arguments.
\<close>

unbundle bit_operations_syntax

section \<open>Socket addresses\<close>

text \<open>The two kinds of address lie at different places of a \<open>sockaddr_storage\<close>, the port at the same one.\<close>

record brb_sockaddr =
  ss_family :: nat
  ss_port :: "16 word"
  ss_in4 :: "32 word"
  ss_in6 :: "32 word list"

definition AF_UNSPEC :: nat where "AF_UNSPEC = 0"
definition AF_INET :: nat where "AF_INET = 2"
definition AF_INET6 :: nat where "AF_INET6 = 10"

definition ss_zero :: brb_sockaddr where
  "ss_zero = \<lparr>ss_family = AF_UNSPEC, ss_port = 0, ss_in4 = 0, ss_in6 = replicate 4 0\<rparr>"

definition htonl :: "32 word \<Rightarrow> 32 word" where
  "htonl w = push_bit 24 (take_bit 8 w) OR push_bit 16 (take_bit 8 (drop_bit 8 w)) OR
     push_bit 8 (take_bit 8 (drop_bit 16 w)) OR take_bit 8 (drop_bit 24 w)"

definition htons :: "16 word \<Rightarrow> 16 word" where
  "htons w = push_bit 8 w OR drop_bit 8 w"

text \<open>\<open>memcmp\<close> of the bytes of two addresses: the sign of the first difference.\<close>

fun c_memcmp :: "8 word list \<Rightarrow> 8 word list \<Rightarrow> int" where
  "c_memcmp (x # xs) (y # ys) = (if x = y then c_memcmp xs ys else sgn (uint x - uint y))"
| "c_memcmp xs ys = 0"

definition addr_bytes :: "32 word list \<Rightarrow> 8 word list" where
  "addr_bytes ws = concat (map le_bytes ws)"

section \<open>Masks\<close>

definition BrbNw_Ipv4Mask :: "32 word \<Rightarrow> 32 word \<Rightarrow> 32 word" where
  "BrbNw_Ipv4Mask addr msk = addr AND msk"

definition BrbNw_Ipv4BroadCast :: "32 word \<Rightarrow> 32 word \<Rightarrow> 32 word" where
  "BrbNw_Ipv4BroadCast addr msk = (addr AND msk) OR NOT msk"

definition BrbNw_Ipv6Mask :: "32 word list \<Rightarrow> 32 word list \<Rightarrow> 32 word list" where
  "BrbNw_Ipv6Mask addr msk = [addr ! 0 AND msk ! 0, addr ! 1 AND msk ! 1, addr ! 2 AND msk ! 2, addr ! 3 AND msk ! 3]"

definition BrbNw_Ipv6BroadCast :: "32 word list \<Rightarrow> 32 word list \<Rightarrow> 32 word list" where
  "BrbNw_Ipv6BroadCast addr msk = [addr ! 0 OR NOT (msk ! 0), addr ! 1 OR NOT (msk ! 1),
     addr ! 2 OR NOT (msk ! 2), addr ! 3 OR NOT (msk ! 3)]"

definition BrbNw_Ipv4CompareMasked :: "32 word \<Rightarrow> 32 word \<Rightarrow> 32 word \<Rightarrow> int" where
  "BrbNw_Ipv4CompareMasked addr1 addr2 msk = c_memcmp (addr_bytes [addr1]) (addr_bytes [addr2 AND msk])"

definition BrbNw_Ipv6CompareMasked :: "32 word list \<Rightarrow> 32 word list \<Rightarrow> 32 word list \<Rightarrow> int" where
  "BrbNw_Ipv6CompareMasked addr1 addr2 msk = c_memcmp (addr_bytes addr1) (addr_bytes (BrbNw_Ipv6Mask addr2 msk))"

definition BrbNw_IpMask :: "brb_sockaddr \<Rightarrow> brb_sockaddr \<Rightarrow> brb_sockaddr" where
  "BrbNw_IpMask addr msk = (if ss_family addr = AF_INET6
     then addr\<lparr>ss_in6 := BrbNw_Ipv6Mask (ss_in6 addr) (ss_in6 msk)\<rparr>
     else addr\<lparr>ss_in4 := BrbNw_Ipv4Mask (ss_in4 addr) (ss_in4 msk)\<rparr>)"

definition BrbNw_IpBroadCast :: "brb_sockaddr \<Rightarrow> brb_sockaddr \<Rightarrow> brb_sockaddr" where
  "BrbNw_IpBroadCast addr msk = (if ss_family addr = AF_INET6
     then addr\<lparr>ss_in6 := BrbNw_Ipv6BroadCast (ss_in6 addr) (ss_in6 msk)\<rparr>
     else addr\<lparr>ss_in4 := BrbNw_Ipv4BroadCast (ss_in4 addr) (ss_in4 msk)\<rparr>)"

definition BrbNw_IpCompareMasked :: "brb_sockaddr \<Rightarrow> brb_sockaddr \<Rightarrow> brb_sockaddr \<Rightarrow> int" where
  "BrbNw_IpCompareMasked addr1 addr2 msk = (if ss_family addr1 = AF_INET6
     then BrbNw_Ipv6CompareMasked (ss_in6 addr1) (ss_in6 addr2) (ss_in6 msk)
     else BrbNw_Ipv4CompareMasked (ss_in4 addr1) (ss_in4 addr2) (ss_in4 msk))"

definition BrbNw_IpCompare :: "brb_sockaddr \<Rightarrow> brb_sockaddr \<Rightarrow> int" where
  "BrbNw_IpCompare addr1 addr2 = (if ss_family addr1 = AF_INET6
     then c_memcmp (addr_bytes (ss_in6 addr1)) (addr_bytes (ss_in6 addr2))
     else c_memcmp (addr_bytes [ss_in4 addr1]) (addr_bytes [ss_in4 addr2]))"

text \<open>The shift \<open>0xFFFFFFFF << n\<close> is defined for amounts from 0 to 31.\<close>

definition shift_ones :: "int \<Rightarrow> 32 word result" where
  "shift_ones n = (if 0 \<le> n \<and> n < 32 then Inr (push_bit (nat n) 0xFFFFFFFF) else Inl BadShift)"

definition BrbNw_Ipv4Netmask :: "int \<Rightarrow> 32 word result" where
  "BrbNw_Ipv4Netmask msk = (if msk \<noteq> 0 then and_then (shift_ones (32 - msk)) (\<lambda>w. Inr (htonl w)) else Inr 0)"

function nw6_fill :: "32 word list \<Rightarrow> nat \<Rightarrow> int \<Rightarrow> 32 word list result" where
  "nw6_fill p k msk = (if 32 < msk then and_then (arr_set p (int k) 0xFFFFFFFF) (\<lambda>p. nw6_fill p (k + 1) (msk - 32))
     else if msk \<noteq> 0 then and_then (shift_ones (32 - msk)) (\<lambda>w. arr_set p (int k) (htonl w))
     else Inr p)"
  by pat_completeness auto
termination by (relation "measure (\<lambda>(p, k, msk). nat msk)") auto

declare nw6_fill.simps [simp del]

definition BrbNw_Ipv6Netmask :: "int \<Rightarrow> 32 word list result" where
  "BrbNw_Ipv6Netmask msk =
     (let msk = (if msk < 0 then 0 else if msk > 128 then 128 else msk) in nw6_fill (replicate 4 0) 0 msk)"

section \<open>Text\<close>

type_synonym pton = "nat \<Rightarrow> chars \<Rightarrow> 32 word list option"

text \<open>
  \<open>inet_pton\<close> of a family and a string gives the words of the address, one or four, when the string is
  an address of the family; \<open>inet_ntop\<close> gives the string.
\<close>

definition BrbIsValidIpToSockAddr :: "pton \<Rightarrow> chars \<Rightarrow> brb_sockaddr \<Rightarrow> brb_sockaddr \<times> nat" where
  "BrbIsValidIpToSockAddr pton ip_addr_str target =
     (case pton AF_INET ip_addr_str of
        Some ws \<Rightarrow> (target\<lparr>ss_in4 := ws ! 0, ss_family := AF_INET\<rparr>, AF_INET)
      | None \<Rightarrow> (case pton AF_INET6 ip_addr_str of
          Some ws \<Rightarrow> (target\<lparr>ss_in6 := ws, ss_family := AF_INET6\<rparr>, AF_INET6)
        | None \<Rightarrow> (target\<lparr>ss_family := AF_UNSPEC\<rparr>, AF_UNSPEC)))"

definition BrbIsValidIp :: "pton \<Rightarrow> chars \<Rightarrow> nat" where
  "BrbIsValidIp pton ip_addr_str = snd (BrbIsValidIpToSockAddr pton ip_addr_str ss_zero)"

definition BrbIsValidIpV4 :: "pton \<Rightarrow> chars option \<Rightarrow> int" where
  "BrbIsValidIpV4 pton ip_addr_str = (case ip_addr_str of None \<Rightarrow> 0 | Some s \<Rightarrow> c_bool (pton AF_INET s \<noteq> None))"

definition BrbSockAddrSetPort :: "brb_sockaddr \<Rightarrow> 16 word \<Rightarrow> brb_sockaddr" where
  "BrbSockAddrSetPort sa port = sa\<lparr>ss_port := htons port\<rparr>"

text \<open>The code reads the width behind the slash, and cuts the string at the slash only while it looks at the address.\<close>

definition BrbIsValidIpCidr :: "pton \<Rightarrow> chars option \<Rightarrow> int result" where
  "BrbIsValidIpCidr pton ip_cidr_str = (case ip_cidr_str of
       None \<Rightarrow> Inr 0
     | Some s \<Rightarrow> and_then (c_strlen s) (\<lambda>n. let a = takeWhile (\<lambda>c. c \<noteq> 47) (take n s) in
         if length a = n then Inr (- 3)
         else let mask_value = c_atoi (drop (length a + 1) s); af_type = BrbIsValidIp pton (a @ [0]) in
           if af_type = AF_UNSPEC then Inr (- 1)
           else if mask_value < 0 \<or> (af_type = AF_INET \<and> mask_value > 32) \<or> (af_type = AF_INET6 \<and> mask_value > 128) then Inr (- 2)
           else Inr 1))"

definition BrbIpFamilyParse :: "pton \<Rightarrow> chars \<Rightarrow> bool \<Rightarrow> bool \<Rightarrow> (nat \<times> 32 word list) option result" where
  "BrbIpFamilyParse pton ip_str allow4 allow6 = and_then (c_strlen ip_str) (\<lambda>n.
     if 47 \<in> set (take n ip_str) then Inr None
     else Inr (case (if allow4 then pton AF_INET ip_str else None) of
         Some ws \<Rightarrow> Some (AF_INET, ws)
       | None \<Rightarrow> map_option (\<lambda>ws. (AF_INET6, ws)) (if allow6 then pton AF_INET6 ip_str else None)))"

text \<open>Splitting at the slash, within the first 127 characters: the address, and where the width starts.\<close>

fun nw_split :: "chars \<Rightarrow> nat \<Rightarrow> nat \<Rightarrow> chars \<Rightarrow> (chars \<times> nat option) result" where
  "nw_split s i 0 addr = and_then (arr_get s (int i)) (\<lambda>c. Inr (addr, None))"
| "nw_split s i (Suc k) addr = and_then (arr_get s (int i)) (\<lambda>c.
     if c = 0 then Inr (addr, None) else if c = 47 then Inr (addr, Some (i + 1)) else nw_split s (i + 1) k (addr @ [c]))"

definition BrbNw_IpMaskExplode :: "pton \<Rightarrow> chars option \<Rightarrow> (int \<times> (brb_sockaddr \<times> brb_sockaddr) option) result" where
  "BrbNw_IpMaskExplode pton network_ptr = (case network_ptr of
       None \<Rightarrow> Inr (- 1, None)
     | Some s \<Rightarrow> and_then (nw_split s 0 127 []) (\<lambda>(only_addr_str, ip_mask_ptr).
         let ip_mask = (case ip_mask_ptr of None \<Rightarrow> - 1 | Some i \<Rightarrow> c_atoi (drop i s));
             (prefix_addr, af_type) = BrbIsValidIpToSockAddr pton (only_addr_str @ [0]) ss_zero;
             prefix_mask = ss_zero in
         if af_type = AF_UNSPEC then Inr (- 3, Some (prefix_addr, prefix_mask))
         else if af_type = AF_INET then
           (let ip_mask = (if ip_mask < 0 \<or> ip_mask > 32 then 32 else ip_mask) in
            and_then (BrbNw_Ipv4Netmask ip_mask) (\<lambda>m.
              Inr (int af_type, Some (prefix_addr\<lparr>ss_in4 := BrbNw_Ipv4Mask (ss_in4 prefix_addr) m\<rparr>,
                prefix_mask\<lparr>ss_family := AF_INET, ss_in4 := m\<rparr>))))
         else
           (let ip_mask = (if ip_mask < 0 \<or> ip_mask > 128 then 128 else ip_mask) in
            and_then (BrbNw_Ipv6Netmask ip_mask) (\<lambda>m.
              Inr (int af_type, Some (prefix_addr\<lparr>ss_in6 := BrbNw_Ipv6Mask (ss_in6 prefix_addr) m\<rparr>,
                prefix_mask\<lparr>ss_family := AF_INET6, ss_in6 := m\<rparr>))))))"

text \<open>Decimal numbers as \<open>printf\<close> writes them, and \<open>snprintf\<close> of a text.\<close>

fun c_dec :: "nat \<Rightarrow> chars" where
  "c_dec n = (if n < 10 then [of_nat (48 + n)] else c_dec (n div 10) @ [of_nat (48 + n mod 10)])"

declare c_dec.simps [simp del]

definition c_snprintf :: "chars \<Rightarrow> nat \<Rightarrow> nat \<Rightarrow> chars \<Rightarrow> chars result" where
  "c_snprintf dst pos sz t = (if sz = 0 then Inr dst else arr_copy dst (int pos) (take (sz - 1) t @ [0]))"

lemma unat_half: "w \<noteq> 0 \<Longrightarrow> unat (drop_bit 1 w) < unat (w :: 32 word)"
proof -
  assume "w \<noteq> 0"
  then have "0 < unat w" using unat_gt_0 by blast
  then have "drop_bit 1 (unat w) < unat w" by (simp add: drop_bit_Suc)
  then show ?thesis by (simp only: unat_drop_bit_eq)
qed

text \<open>The width of a mask: the leading ones of an address of the first family, the bytes of one of the second.\<close>

function nw4_width :: "32 word \<Rightarrow> 32 word \<Rightarrow> nat \<Rightarrow> nat" where
  "nw4_width msk index new_mask = (if msk AND index \<noteq> 0 then nw4_width msk (drop_bit 1 index) (new_mask + 1) else new_mask)"
  by pat_completeness auto

termination
proof (relation "measure (\<lambda>(msk, index, n). unat index)", goal_cases)
  case (2 msk index n)
  then have "index \<noteq> 0" by auto
  then show ?case using unat_half by simp
qed simp

declare nw4_width.simps [simp del]

definition nw6_byte_width :: "8 word \<Rightarrow> nat option" where
  "nw6_byte_width b = map_of [(0xff, 8), (0xfe, 7), (0xfc, 6), (0xf8, 5), (0xf0, 4), (0xe0, 3), (0xc0, 2), (0x80, 1), (0, 0)] b"

fun nw6_width :: "8 word list \<Rightarrow> nat \<Rightarrow> nat" where
  "nw6_width [] masklen = masklen"
| "nw6_width (b # bs) masklen = (case nw6_byte_width b of Some w \<Rightarrow> nw6_width bs (masklen + w) | None \<Rightarrow> masklen)"

definition BrbNetworkSockMask :: "chars \<Rightarrow> nat \<Rightarrow> brb_sockaddr \<Rightarrow> (chars \<times> int) result" where
  "BrbNetworkSockMask ret_data_ptr ret_maxlen sa =
     (if ss_family sa = AF_UNSPEC \<or> ss_family sa = AF_INET then
        and_then (c_snprintf ret_data_ptr 0 ret_maxlen (47 # c_dec (nw4_width (htonl (ss_in4 sa)) (push_bit 31 1) 0))) (\<lambda>d. Inr (d, 1))
      else if ss_family sa = AF_INET6 then
        and_then (c_snprintf ret_data_ptr 0 ret_maxlen (47 # c_dec (nw6_width (addr_bytes (ss_in6 sa)) 0))) (\<lambda>d. Inr (d, 1))
      else and_then (arr_set ret_data_ptr 0 0) (\<lambda>d. Inr (d, 0)))"

type_synonym ntop = "nat \<Rightarrow> 32 word list \<Rightarrow> chars"

text \<open>An address and, when it has one, its port; the result is what \<open>snprintf\<close> would have written.\<close>

definition nw_ntop :: "chars \<Rightarrow> nat \<Rightarrow> chars \<Rightarrow> 16 word \<Rightarrow> (chars \<times> nat) result" where
  "nw_ntop ret_data_ptr ret_maxlen t port =
     and_then (c_snprintf ret_data_ptr 0 ret_maxlen t) (\<lambda>d.
       if htons port \<noteq> 0 then
         (let p = 46 # c_dec (unat (htons port)) in
          and_then (c_snprintf d (length t) ret_maxlen p) (\<lambda>d. Inr (d, length t + length p)))
       else Inr (d, length t))"

definition BrbNetworkSockNtop :: "ntop \<Rightarrow> chars \<Rightarrow> nat \<Rightarrow> brb_sockaddr \<Rightarrow> (chars \<times> nat) result" where
  "BrbNetworkSockNtop ntop ret_data_ptr ret_maxlen sa =
     (if ss_family sa = AF_UNSPEC \<or> ss_family sa = AF_INET then
        nw_ntop ret_data_ptr ret_maxlen (ntop AF_INET [ss_in4 sa]) (ss_port sa)
      else if ss_family sa = AF_INET6 then
        nw_ntop ret_data_ptr ret_maxlen (ntop AF_INET6 (ss_in6 sa)) (ss_port sa)
      else (let t = [117, 110, 107, 110, 111, 119, 110, 32] @ c_dec (ss_family sa) in
        and_then (c_snprintf ret_data_ptr 0 ret_maxlen t) (\<lambda>d. Inr (d, length t))))"

definition BrbNw_IpMaskImplode :: "ntop \<Rightarrow> chars \<Rightarrow> nat \<Rightarrow> brb_sockaddr \<Rightarrow> brb_sockaddr \<Rightarrow> (chars \<times> nat) result" where
  "BrbNw_IpMaskImplode ntop network_ptr network_sz prefix_addr prefix_mask =
     and_then (BrbNetworkSockNtop ntop (replicate 128 0) 127 prefix_addr) (\<lambda>(addr_str, _).
     and_then (BrbNetworkSockMask (replicate 128 0) 127 prefix_mask) (\<lambda>(mask_str, _).
     let t = takeWhile (\<lambda>c. c \<noteq> 0) addr_str @ takeWhile (\<lambda>c. c \<noteq> 0) mask_str in
     and_then (c_snprintf network_ptr 0 network_sz t) (\<lambda>d. Inr (d, length t))))"

end
