(* ===== verification/BrbNetworkProps.thy ===== *)
theory BrbNetworkProps
  imports BrbNetwork BrbStringsProps
begin

text \<open>
  Lemmas on network addresses: a mask of a width keeps that many leading bits, comparison under it is
  equality of prefixes, and a network printed after it has been read keeps its width.
\<close>

unbundle bit_operations_syntax

section \<open>Words in network order\<close>

lemma bit_htonl: "i < 32 \<Longrightarrow> bit (htonl w) i \<longleftrightarrow>
  bit w (if i < 8 then i + 24 else if i < 16 then i + 8 else if i < 24 then i - 8 else i - 24)"
  by (auto simp: htonl_def bit_simps add.commute)

lemma htonl_htonl [simp]: "htonl (htonl w) = w"
  by (rule bit_word_eqI) (auto simp: bit_htonl)

lemma htonl_inj: "htonl v = htonl w \<longleftrightarrow> v = w"
  by (metis htonl_htonl)

lemma htonl_and: "htonl (v AND w) = htonl v AND htonl w"
  by (rule bit_word_eqI) (auto simp: bit_htonl bit_and_iff)

lemma htonl_0 [simp]: "htonl 0 = 0"
  by (simp add: htonl_def)

definition ones :: "nat \<Rightarrow> 32 word" where
  "ones n = push_bit (32 - n) 0xFFFFFFFF"

lemma all_ones: "(0xFFFFFFFF :: 32 word) = - 1"
  by simp

lemma bit_ones: "n \<le> 32 \<Longrightarrow> i < 32 \<Longrightarrow> bit (ones n) i \<longleftrightarrow> 32 - n \<le> i"
  unfolding ones_def all_ones by (auto simp: bit_simps)

lemma netmask4: "n \<le> 32 \<Longrightarrow> BrbNw_Ipv4Netmask (int n) = Inr (htonl (ones n))"
proof (cases "n = 0")
  case True
  have "ones 0 = 0" by (rule bit_word_eqI) (simp add: bit_ones)
  with True show ?thesis by (simp add: BrbNw_Ipv4Netmask_def)
next
  case False
  assume "n \<le> 32"
  with False show ?thesis by (simp add: BrbNw_Ipv4Netmask_def shift_ones_def ones_def nat_diff_distrib)
qed

text \<open>The bits of an address, the first one first.\<close>

definition word_bits :: "32 word \<Rightarrow> bool list" where
  "word_bits w = map (\<lambda>i. bit (htonl w) (31 - i)) [0..<32]"

definition addr_bits :: "32 word list \<Rightarrow> bool list" where
  "addr_bits ws = concat (map word_bits ws)"

lemma word_bits_length [simp]: "length (word_bits w) = 32"
  by (simp add: word_bits_def)

lemma masked_prefix:
  assumes "n \<le> 32"
  shows "a AND htonl (ones n) = b AND htonl (ones n) \<longleftrightarrow> take n (word_bits a) = take n (word_bits b)"
proof -
  have "a AND htonl (ones n) = b AND htonl (ones n) \<longleftrightarrow> htonl a AND ones n = htonl b AND ones n"
    by (metis htonl_and htonl_htonl)
  also have "\<dots> \<longleftrightarrow> (\<forall>i<32. 32 - n \<le> i \<longrightarrow> bit (htonl a) i = bit (htonl b) i)"
    by (subst bit_eq_iff) (auto simp: bit_and_iff bit_ones assms dest: bit_imp_le_length)
  also have "\<dots> \<longleftrightarrow> (\<forall>k<n. bit (htonl a) (31 - k) = bit (htonl b) (31 - k))"
  proof (rule iffI; intro allI impI)
    fix k assume a: "\<forall>i<32. 32 - n \<le> i \<longrightarrow> bit (htonl a) i = bit (htonl b) i" "k < n"
    show "bit (htonl a) (31 - k) = bit (htonl b) (31 - k)" using a(1) [rule_format, of "31 - k"] a(2) assms by simp
  next
    fix i assume a: "\<forall>k<n. bit (htonl a) (31 - k) = bit (htonl b) (31 - k)" "i < 32" "32 - n \<le> i"
    show "bit (htonl a) i = bit (htonl b) i" using a(1) [rule_format, of "31 - i"] a(2,3) assms by simp
  qed
  also have "\<dots> \<longleftrightarrow> take n (word_bits a) = take n (word_bits b)"
    using assms by (auto simp: word_bits_def take_map list_eq_iff_nth_eq)
  finally show ?thesis .
qed

text \<open>Comparison of bytes is comparison of addresses.\<close>

lemma c_memcmp_eq_0: "length xs = length ys \<Longrightarrow> c_memcmp xs ys = 0 \<longleftrightarrow> xs = ys"
  by (induction xs ys rule: c_memcmp.induct) (auto simp: sgn_if word_uint_eq_iff)

lemma le_bytes_inj: "le_bytes v = le_bytes w \<longleftrightarrow> v = w"
proof
  assume e: "le_bytes v = le_bytes w"
  show "v = w"
  proof (rule bit_word_eqI)
    fix i assume i: "i < LENGTH(32)"
    then have "le_bytes v ! (i div 8) = le_bytes w ! (i div 8)" "i div 8 < 4" using e by auto
    then have "(ucast (drop_bit (8 * (i div 8)) v) :: 8 word) = ucast (drop_bit (8 * (i div 8)) w)" by (simp add: le_bytes_def)
    then have "bit (ucast (drop_bit (8 * (i div 8)) v) :: 8 word) (i mod 8) = bit (ucast (drop_bit (8 * (i div 8)) w) :: 8 word) (i mod 8)" by simp
    then show "bit v i = bit w i" by (simp add: bit_simps)
  qed
qed simp

lemma addr_bytes_inj: "length vs = length ws \<Longrightarrow> addr_bytes vs = addr_bytes ws \<longleftrightarrow> vs = ws"
  by (induction vs ws rule: list_induct2) (auto simp: addr_bytes_def le_bytes_inj)

lemma addr_bytes_length [simp]: "length (addr_bytes ws) = 4 * length ws"
  by (induction ws) (simp_all add: addr_bytes_def)

section \<open>Masks of the second family\<close>

definition mask6 :: "nat \<Rightarrow> 32 word list" where
  "mask6 n = [htonl (ones (min 32 n)), htonl (ones (min 32 (n - 32))), htonl (ones (min 32 (n - 64))), htonl (ones (min 32 (n - 96)))]"

lemma htonl_full: "htonl (ones 32) = - 1" "ones 0 = 0"
  by (rule bit_word_eqI; auto simp: bit_htonl bit_ones)+

lemma nw6_fill_last: "n \<le> 32 \<Longrightarrow> k < length p \<Longrightarrow> p ! k = 0 \<Longrightarrow> nw6_fill p k (int n) = Inr (p[k := htonl (ones n)])"
proof (cases "n = 0")
  case True
  assume "p ! k = 0"
  then have "p[k := 0] = p" by (metis list_update_id)
  with True show ?thesis by (subst nw6_fill.simps) (simp add: htonl_full)
next
  case False
  assume "n \<le> 32" "k < length p"
  with False show ?thesis by (subst nw6_fill.simps) (simp add: shift_ones_def ones_def nat_diff_distrib arr_set_nat)
qed

lemma nw6_fill_step: "0 < n \<Longrightarrow> k < length p \<Longrightarrow> nw6_fill p k (32 + int n) = nw6_fill (p[k := - 1]) (k + 1) (int n)"
  by (subst nw6_fill.simps) (auto simp: arr_set_nat all_ones)

lemma netmask6:
  assumes "n \<le> 128"
  shows "BrbNw_Ipv6Netmask (int n) = Inr (mask6 n)"
proof -
  have r: "replicate 4 (0 :: 32 word) = [0, 0, 0, 0]" by (simp add: eval_nat_numeral)
  have e: "64 + int m = 32 + int (32 + m)" "96 + int m = 32 + int (64 + m)" for m by simp_all
  consider "n \<le> 32" | m where "n = 32 + m" "0 < m" "m \<le> 32" | m where "n = 64 + m" "0 < m" "m \<le> 32" | m where "n = 96 + m" "0 < m" "m \<le> 32"
  proof -
    have "n \<le> 32 \<or> (32 < n \<and> n \<le> 64) \<or> (64 < n \<and> n \<le> 96) \<or> 96 < n" by linarith
    then show ?thesis using that assms
      by (elim disjE) (auto intro: that(2) [of "n - 32"] that(3) [of "n - 64"] that(4) [of "n - 96"])
  qed
  then have "nw6_fill [0, 0, 0, 0] 0 (int n) = Inr (mask6 n)"
  proof cases
    case 1
    then show ?thesis by (simp add: nw6_fill_last mask6_def htonl_full)
  next
    case 2
    then show ?thesis using nw6_fill_step [of m 0 "[0, 0, 0, 0]"] nw6_fill_last [of m 1 "[- 1, 0, 0, 0]"]
      by (simp add: mask6_def htonl_full)
  next
    case 3
    then show ?thesis using nw6_fill_step [of "32 + m" 0 "[0, 0, 0, 0]"] nw6_fill_step [of m 1 "[- 1, 0, 0, 0]"]
        nw6_fill_last [of m 2 "[- 1, - 1, 0, 0]"]
      by (simp add: mask6_def htonl_full numeral_2_eq_2)
  next
    case 4
    then show ?thesis using nw6_fill_step [of "64 + m" 0 "[0, 0, 0, 0]"] nw6_fill_step [of "32 + m" 1 "[- 1, 0, 0, 0]"]
        nw6_fill_step [of m 2 "[- 1, - 1, 0, 0]"] nw6_fill_last [of m 3 "[- 1, - 1, - 1, 0]"]
      by (simp add: mask6_def htonl_full numeral_2_eq_2 numeral_3_eq_3)
  qed
  then show ?thesis using assms by (simp add: BrbNw_Ipv6Netmask_def Let_def r)
qed

lemma masked_prefix6:
  assumes "length a = 4" "length b = 4" "n \<le> 128"
  shows "BrbNw_Ipv6Mask a (mask6 n) = BrbNw_Ipv6Mask b (mask6 n) \<longleftrightarrow> take n (addr_bits a) = take n (addr_bits b)"
proof -
  obtain a0 a1 a2 a3 b0 b1 b2 b3 where ab: "a = [a0, a1, a2, a3]" "b = [b0, b1, b2, b3]"
    using list_4 [OF assms(1)] list_4 [OF assms(2)] by blast
  have t: "take (min 32 k) (word_bits w) = take k (word_bits w)" for k w
    by (metis min.commute take_take word_bits_length take_all order_refl)
  have "BrbNw_Ipv6Mask a (mask6 n) = BrbNw_Ipv6Mask b (mask6 n) \<longleftrightarrow>
      take n (word_bits a0) = take n (word_bits b0) \<and> take (n - 32) (word_bits a1) = take (n - 32) (word_bits b1) \<and>
      take (n - 64) (word_bits a2) = take (n - 64) (word_bits b2) \<and> take (n - 96) (word_bits a3) = take (n - 96) (word_bits b3)"
    by (simp add: BrbNw_Ipv6Mask_def mask6_def ab masked_prefix t)
  also have "\<dots> \<longleftrightarrow> take n (addr_bits a) = take n (addr_bits b)"
    by (simp add: addr_bits_def ab append_eq_append_conv)
  finally show ?thesis .
qed


section \<open>Widths\<close>

lemma nw4_width_eq:
  assumes hi: "\<And>i. bit hi i \<longleftrightarrow> i = 31" and n: "n \<le> 32"
  shows "k \<le> n \<Longrightarrow> nw4_width (ones n) (drop_bit k hi) k = n"
proof (induction "n - k" arbitrary: k)
  case 0
  then have "ones n AND drop_bit k hi = 0"
    by (intro bit_word_eqI) (auto simp: bit_and_iff bit_drop_bit_eq bit_ones n hi)
  with 0 show ?case by (subst nw4_width.simps) simp
next
  case (Suc d)
  then have k: "k < n" by simp
  have "bit (ones n AND drop_bit k hi) (31 - k)"
    using k n by (auto simp: bit_and_iff bit_drop_bit_eq bit_ones hi)
  then have "ones n AND drop_bit k hi \<noteq> 0" by (metis bit_0_eq bot_apply bot_bool_def)
  then have "nw4_width (ones n) (drop_bit k hi) k = nw4_width (ones n) (drop_bit (Suc k) hi) (Suc k)"
    by (subst nw4_width.simps) (simp add: drop_bit_drop_bit)
  with Suc k show ?case by simp
qed

lemma width4:
  assumes "n \<le> 32"
  shows "nw4_width (htonl (htonl (ones n))) (push_bit 31 1) 0 = n"
proof -
  have "bit (push_bit 31 1 :: 32 word) i \<longleftrightarrow> i = 31" for i by (simp only: bit_push_bit_iff bit_1_iff) auto
  from nw4_width_eq [OF this assms le0] show ?thesis by (simp only: drop_bit_0 htonl_htonl id_apply)
qed

definition word_width_ok :: "nat \<Rightarrow> bool" where
  "word_width_ok m \<longleftrightarrow> list_all (\<lambda>b. nw6_byte_width b \<noteq> None) (le_bytes (htonl (ones m))) \<and>
     sum_list (map (\<lambda>b. the (nw6_byte_width b)) (le_bytes (htonl (ones m)))) = m"

text \<open>The bytes of such a word are ones, then one mixed byte, then zeros.\<close>

definition byte_ones :: "nat \<Rightarrow> 8 word" where
  "byte_ones j = push_bit (8 - j) 255"

lemma byte_ones_width: "j \<le> 8 \<Longrightarrow> nw6_byte_width (byte_ones j) = Some j"
proof -
  assume "j \<le> 8"
  then have "j \<in> set [0, 1, 2, 3, 4, 5, 6, 7, 8]" by (simp; linarith)
  moreover have "list_all (\<lambda>j. nw6_byte_width (byte_ones j) = Some j) [0, 1, 2, 3, 4, 5, 6, 7, 8]"
    by (simp add: byte_ones_def nw6_byte_width_def)
  ultimately show ?thesis by (simp only: list_all_iff)
qed

lemma bytes_of_ones:
  assumes "m \<le> 32"
  shows "le_bytes (htonl (ones m)) = [byte_ones (min 8 m), byte_ones (min 8 (m - 8)), byte_ones (min 8 (m - 16)), byte_ones (min 8 (m - 24))]"
proof -
  have "(255 :: 8 word) = - 1" by simp
  then have bb: "bit (byte_ones j) i \<longleftrightarrow> 8 - j \<le> i" if "i < 8" for i j
    using that unfolding byte_ones_def by (simp only:) (auto simp: bit_simps)
  have "ucast (htonl (ones m)) = byte_ones (min 8 m)"
    by (rule bit_word_eqI) (use assms in \<open>auto simp: bit_unsigned_iff bb bit_htonl bit_ones\<close>)
  moreover have "ucast (drop_bit 8 (htonl (ones m))) = byte_ones (min 8 (m - 8))"
    by (rule bit_word_eqI) (use assms in \<open>auto simp: bit_unsigned_iff bit_drop_bit_eq bb bit_htonl bit_ones\<close>)
  moreover have "ucast (drop_bit 16 (htonl (ones m))) = byte_ones (min 8 (m - 16))"
    by (rule bit_word_eqI) (use assms in \<open>auto simp: bit_unsigned_iff bit_drop_bit_eq bb bit_htonl bit_ones\<close>)
  moreover have "ucast (drop_bit 24 (htonl (ones m))) = byte_ones (min 8 (m - 24))"
    by (rule bit_word_eqI) (use assms in \<open>auto simp: bit_unsigned_iff bit_drop_bit_eq bb bit_htonl bit_ones\<close>)
  ultimately show ?thesis by (simp add: le_bytes_def upt_rec)
qed

lemma word_width: "m \<le> 32 \<Longrightarrow> word_width_ok m"
  by (simp add: word_width_ok_def bytes_of_ones byte_ones_width)

lemma nw6_width_app: "list_all (\<lambda>b. nw6_byte_width b \<noteq> None) bs \<Longrightarrow>
  nw6_width (bs @ cs) l = nw6_width cs (l + sum_list (map (\<lambda>b. the (nw6_byte_width b)) bs))"
  by (induction bs arbitrary: l) (auto simp: add.assoc)

lemma width6:
  assumes "n \<le> 128"
  shows "nw6_width (addr_bytes (mask6 n)) 0 = n"
proof -
  have s: "nw6_width (le_bytes (htonl (ones m)) @ cs) l = nw6_width cs (l + m)" if "m \<le> 32" for m cs l
    using word_width [OF that] nw6_width_app by (simp add: word_width_ok_def)
  have "nw6_width (addr_bytes (mask6 n)) 0 = min 32 n + min 32 (n - 32) + min 32 (n - 64) + min 32 (n - 96)"
    using s [of "min 32 (n - 96)" "[]"] by (simp add: addr_bytes_def mask6_def s)
  then show ?thesis using assms by (auto simp: min_def)
qed

section \<open>Printing numbers\<close>

lemma c_dec_ne: "c_dec n \<noteq> []"
  by (subst c_dec.simps) simp

lemma c_dec_digits: "c \<in> set (c_dec n) \<Longrightarrow> c_isdigit c"
proof (induction n rule: c_dec.induct)
  case (1 n)
  then show ?case by (subst (asm) c_dec.simps) (auto split: if_splits intro: digit_char simp del: of_nat_add)
qed

lemma c_dec_value: "foldl (\<lambda>n c. 10 * n + (uint c - 48)) 0 (c_dec n) = int n"
proof (induction n rule: c_dec.induct)
  case (1 n)
  have "10 * int (n div 10) + int (n mod 10) = int n" using mult_div_mod_eq [of 10 n] by linarith
  with 1 show ?case
    by (subst c_dec.simps) (auto simp: digit_char(2) simp del: of_nat_add)
qed

lemma atoi_c_dec:
  assumes "\<not> c_isdigit c"
  shows "c_atoi (c_dec n @ c # r) = int n"
proof -
  obtain a t where at: "c_dec n = a # t" using c_dec_ne [of n] by (cases "c_dec n") auto
  have "c_isdigit a" using c_dec_digits [of a n] at by simp
  moreover have "takeWhile c_isdigit (c_dec n @ c # r) = c_dec n"
    using c_dec_digits [of _ n] assms by (subst takeWhile_append2) auto
  ultimately show ?thesis using at c_dec_value [of n] digit_not [of a]
    by (simp add: c_atoi_def c_digits_def)
qed

lemma c_dec_length: "n < 10 ^ Suc k \<Longrightarrow> length (c_dec n) \<le> Suc k"
proof (induction k arbitrary: n)
  case 0
  then show ?case by (subst c_dec.simps) simp
next
  case (Suc k)
  then have "n div 10 < 10 ^ Suc k" by (simp add: less_mult_imp_div_less)
  with Suc.IH show ?case by (subst c_dec.simps) simp
qed


section \<open>Reading and printing networks\<close>

lemma nw_split_eq: "47 \<notin> set a \<Longrightarrow> 0 \<notin> set a \<Longrightarrow> length a < k \<Longrightarrow>
  nw_split (p @ a @ 47 # r) (length p) k q = Inr (q @ a, Some (length p + length a + 1))"
proof (induction a arbitrary: p k q)
  case Nil
  then show ?case by (cases k) (auto simp: arr_get_nat)
next
  case (Cons c a)
  obtain k' where "k = Suc k'" using Cons.prems(3) by (cases k) auto
  with Cons.IH [of k' "p @ [c]" "q @ [c]"] Cons.prems show ?case by (auto simp: arr_get_def nth_append)
qed

lemma snprintf_zeros: "length t < sz \<Longrightarrow> sz \<le> n \<Longrightarrow> c_snprintf (replicate n 0) 0 sz t = Inr (t @ replicate (n - length t) 0)"
  using replicate_Suc [of "n - length t - 1" 0]
  by (simp add: c_snprintf_def arr_copy_def Suc_diff_Suc del: replicate_Suc) (simp add: Suc_diff_Suc flip: replicate_Suc)

lemma takeWhile_zeros: "0 \<notin> set t \<Longrightarrow> takeWhile (\<lambda>c. c \<noteq> 0) (t @ replicate n 0) = t"
  by (subst takeWhile_append2) (auto simp: takeWhile_replicate)

lemma c_dec_no: "0 \<notin> set (c_dec n)" "47 \<notin> set (c_dec n)"
  using c_dec_digits digit_not by blast+

definition nw_text :: "chars \<Rightarrow> nat \<Rightarrow> chars" where
  "nw_text t n = t @ 47 # c_dec n"

lemma nw_text_length: "n \<le> 128 \<Longrightarrow> length (nw_text t n) \<le> length t + 4"
  using c_dec_length [of n 2] by (simp add: nw_text_def numeral_2_eq_2)

lemma explode_split:
  assumes "47 \<notin> set a" "0 \<notin> set a" "length a < 127"
  shows "nw_split (nw_text a n @ 0 # r) 0 127 [] = Inr (a, Some (length a + 1))"
    and "c_atoi (drop (length a + 1) (nw_text a n @ 0 # r)) = int n"
  using nw_split_eq [of a 127 "[]" "c_dec n @ 0 # r" "[]"] assms atoi_c_dec [of 0 n r]
  by (simp_all add: nw_text_def c_isdigit_def)

lemma implode_eq:
  assumes "BrbNetworkSockNtop ntop (replicate 128 0) 127 pa = Inr (t @ replicate (128 - length t) 0, length t)"
    and "BrbNetworkSockMask (replicate 128 0) 127 pm = Inr ((47 # c_dec n) @ replicate k 0, 1)"
    and "0 \<notin> set t" "length t + 4 < sz" "sz \<le> length buf" "n \<le> 128"
  shows "BrbNw_IpMaskImplode ntop buf sz pa pm =
    Inr (nw_text t n @ 0 # drop (length (nw_text t n) + 1) buf, length (nw_text t n))"
proof -
  have "takeWhile (\<lambda>c. c \<noteq> 0) (t @ replicate (128 - length t) 0) = t" using assms(3) by (rule takeWhile_zeros)
  moreover have "takeWhile (\<lambda>c. c \<noteq> 0) ((47 # c_dec n) @ replicate k 0) = 47 # c_dec n"
    by (rule takeWhile_zeros) (simp add: c_dec_no)
  moreover have "length (nw_text t n) < sz" using nw_text_length [OF assms(6), of t] assms(4) by simp
  ultimately show ?thesis using assms(1,2,5)
    by (simp add: BrbNw_IpMaskImplode_def nw_text_def c_snprintf_def arr_copy_def)
qed

lemma sock_mask_eq:
  assumes "(ss_family pm = AF_INET \<and> nw4_width (htonl (ss_in4 pm)) (push_bit 31 1) 0 = n) \<or>
      (ss_family pm = AF_INET6 \<and> nw6_width (addr_bytes (ss_in6 pm)) 0 = n)" "n \<le> 128"
  shows "BrbNetworkSockMask (replicate 128 0) 127 pm = Inr ((47 # c_dec n) @ replicate (128 - length (47 # c_dec n)) 0, 1)"
proof -
  have "length (47 # c_dec n) < 127" using c_dec_length [of n 2] assms(2) by (simp add: numeral_2_eq_2)
  then show ?thesis using assms(1) snprintf_zeros [of "47 # c_dec n" 127 128]
    by (auto simp: BrbNetworkSockMask_def AF_INET_def AF_INET6_def AF_UNSPEC_def simp del: replicate_Suc)
qed

lemma sock_ntop_eq:
  assumes "ss_port pa = 0" "length t < 127"
    and "(ss_family pa = AF_INET \<and> ntop AF_INET [ss_in4 pa] = t) \<or> (ss_family pa = AF_INET6 \<and> ntop AF_INET6 (ss_in6 pa) = t)"
  shows "BrbNetworkSockNtop ntop (replicate 128 0) 127 pa = Inr (t @ replicate (128 - length t) 0, length t)"
  using assms snprintf_zeros [of t 127 128]
  by (auto simp: BrbNetworkSockNtop_def nw_ntop_def htons_def AF_INET_def AF_INET6_def AF_UNSPEC_def)


section \<open>Properties\<close>

text \<open>
  C36: masks. For every width of either family the mask is computed, an address compares equal to a network
  masked with it exactly when their first bits agree for that width, and the broadcast address is in the network.
\<close>

theorem nw_prefix:
  assumes "n \<le> 32" "k \<le> 128" "length b = 4" "length c = 4"
  shows "BrbNw_Ipv4Netmask (int n) = Inr (htonl (ones n)) \<and>
    (BrbNw_Ipv4CompareMasked (BrbNw_Ipv4Mask v (htonl (ones n))) w (htonl (ones n)) = 0 \<longleftrightarrow>
      take n (addr_bits [v]) = take n (addr_bits [w])) \<and>
    take n (addr_bits [BrbNw_Ipv4BroadCast v (htonl (ones n))]) = take n (addr_bits [v]) \<and>
    BrbNw_Ipv6Netmask (int k) = Inr (mask6 k) \<and>
    (BrbNw_Ipv6CompareMasked (BrbNw_Ipv6Mask b (mask6 k)) c (mask6 k) = 0 \<longleftrightarrow>
      take k (addr_bits b) = take k (addr_bits c)) \<and>
    take k (addr_bits (BrbNw_Ipv6BroadCast b (mask6 k))) = take k (addr_bits b)"
proof -
  have "(v AND htonl (ones n) OR NOT (htonl (ones n))) AND htonl (ones n) = v AND htonl (ones n)"
    by (rule bit_word_eqI) (auto simp: bit_simps)
  then have bc4: "take n (word_bits (BrbNw_Ipv4BroadCast v (htonl (ones n)))) = take n (word_bits v)"
    using masked_prefix [OF assms(1)] by (simp add: BrbNw_Ipv4BroadCast_def)
  have "(x OR NOT m) AND m = x AND m" for x m :: "32 word" by (rule bit_word_eqI) (auto simp: bit_simps)
  then have "BrbNw_Ipv6Mask (BrbNw_Ipv6BroadCast b (mask6 k)) (mask6 k) = BrbNw_Ipv6Mask b (mask6 k)"
    by (simp add: BrbNw_Ipv6Mask_def BrbNw_Ipv6BroadCast_def)
  then have bc6: "take k (addr_bits (BrbNw_Ipv6BroadCast b (mask6 k))) = take k (addr_bits b)"
    using masked_prefix6 [OF _ assms(3,2)] by (simp add: BrbNw_Ipv6BroadCast_def)
  show ?thesis
    using masked_prefix [OF assms(1), of v w] masked_prefix6 [OF assms(3,4,2)] bc4 bc6 addr_bytes_inj [of "[v AND htonl (ones n)]" "[w AND htonl (ones n)]"]
      addr_bytes_inj [of "BrbNw_Ipv6Mask b (mask6 k)" "BrbNw_Ipv6Mask c (mask6 k)"] netmask4 [OF assms(1)] netmask6 [OF assms(2)]
    by (simp add: BrbNw_Ipv4CompareMasked_def BrbNw_Ipv6CompareMasked_def c_memcmp_eq_0 BrbNw_Ipv4Mask_def addr_bits_def
        BrbNw_Ipv6Mask_def)
qed

theorem nw_prefix_witness:
  "BrbNw_Ipv4CompareMasked (BrbNw_Ipv4Mask 0x0100000A (htonl (ones 8))) 0x0200000A (htonl (ones 8)) = 0"
  using nw_prefix [of 8 64 "[0, 0, 0, 0]" "[0, 0, 0, 1]" "0x0100000A" "0x0200000A"]
  by (simp add: addr_bits_def word_bits_def bit_htonl upt_rec [of 0] upt_rec [of "Suc n" for n])

text \<open>
  C37: networks as text. An address with a slash and a width is read as the masked address and the mask, and
  printing them gives the text of the masked address with the same width, for both families.
\<close>

theorem nw_text_roundtrip:
  assumes "47 \<notin> set a" "0 \<notin> set a" "length a < 127" "0 \<notin> set t" "length t + 4 < sz" "length t < 127" "sz \<le> length buf"
    and "(n \<le> 32 \<and> pton AF_INET (a @ [0]) = Some [w] \<and> ntop AF_INET [w AND htonl (ones n)] = t) \<or>
      (n \<le> 128 \<and> pton AF_INET (a @ [0]) = None \<and> pton AF_INET6 (a @ [0]) = Some ws \<and>
        ntop AF_INET6 (BrbNw_Ipv6Mask ws (mask6 n)) = t)"
  shows "\<exists>c pa pm. BrbNw_IpMaskExplode pton (Some (nw_text a n @ 0 # r)) = Inr (c, Some (pa, pm)) \<and> 0 < c \<and>
    BrbNw_IpMaskImplode ntop buf sz pa pm =
      Inr (nw_text t n @ 0 # drop (length (nw_text t n) + 1) buf, length (nw_text t n))"
  using assms(8)
proof (elim disjE conjE)
  assume a: "n \<le> 32" "pton AF_INET (a @ [0]) = Some [w]" "ntop AF_INET [w AND htonl (ones n)] = t"
  define pa where "pa = ss_zero\<lparr>ss_in4 := w AND htonl (ones n), ss_family := AF_INET\<rparr>"
  define pm where "pm = ss_zero\<lparr>ss_family := AF_INET, ss_in4 := htonl (ones n)\<rparr>"
  have "BrbNw_IpMaskExplode pton (Some (nw_text a n @ 0 # r)) = Inr (int AF_INET, Some (pa, pm))"
    using a explode_split [OF assms(1-3), of n r] netmask4 [OF a(1)]
    by (simp add: BrbNw_IpMaskExplode_def BrbIsValidIpToSockAddr_def Let_def pa_def pm_def BrbNw_Ipv4Mask_def ss_zero_def
        AF_INET_def AF_UNSPEC_def)
  moreover have "BrbNw_IpMaskImplode ntop buf sz pa pm = Inr (nw_text t n @ 0 # drop (length (nw_text t n) + 1) buf, length (nw_text t n))"
    by (rule implode_eq [OF sock_ntop_eq sock_mask_eq])
      (use a assms(4-7) width4 [OF a(1)] in \<open>auto simp: pa_def pm_def ss_zero_def\<close>)
  ultimately show ?thesis by (auto simp: AF_INET_def)
next
  assume a: "n \<le> 128" "pton AF_INET (a @ [0]) = None" "pton AF_INET6 (a @ [0]) = Some ws" "ntop AF_INET6 (BrbNw_Ipv6Mask ws (mask6 n)) = t"
  define pa where "pa = ss_zero\<lparr>ss_in6 := BrbNw_Ipv6Mask ws (mask6 n), ss_family := AF_INET6\<rparr>"
  define pm where "pm = ss_zero\<lparr>ss_family := AF_INET6, ss_in6 := mask6 n\<rparr>"
  have "BrbNw_IpMaskExplode pton (Some (nw_text a n @ 0 # r)) = Inr (int AF_INET6, Some (pa, pm))"
    using a explode_split [OF assms(1-3), of n r] netmask6 [OF a(1)]
    by (simp add: BrbNw_IpMaskExplode_def BrbIsValidIpToSockAddr_def Let_def pa_def pm_def ss_zero_def
        AF_INET_def AF_INET6_def AF_UNSPEC_def)
  moreover have "BrbNw_IpMaskImplode ntop buf sz pa pm = Inr (nw_text t n @ 0 # drop (length (nw_text t n) + 1) buf, length (nw_text t n))"
    by (rule implode_eq [OF sock_ntop_eq sock_mask_eq])
      (use a assms(4-7) width6 [OF a(1)] in \<open>auto simp: pa_def pm_def ss_zero_def\<close>)
  ultimately show ?thesis by (auto simp: AF_INET6_def)
qed

theorem nw_text_roundtrip_witness:
  "\<exists>c pa pm. BrbNw_IpMaskExplode (\<lambda>f s. if f = AF_INET then Some [0x0000000A] else None) (Some (nw_text [49, 48] 8 @ [0])) = Inr (c, Some (pa, pm)) \<and> 0 < c \<and>
    BrbNw_IpMaskImplode (\<lambda>f ws. [49, 48]) (replicate 20 0) 20 pa pm = Inr (nw_text [49, 48] 8 @ 0 # drop 5 (replicate 20 0), length (nw_text [49, 48] 8))"
  using nw_text_roundtrip [of "[49, 48]" "[49, 48]" 20 "replicate 20 0" 8 "\<lambda>f s. if f = AF_INET then Some [0x0000000A] else None"
      "0x0000000A" "\<lambda>f ws. [49, 48]" "[]" "[]"]
  by (simp add: nw_text_def c_dec.simps)

text \<open>A width that is not a number is the width 0, and one that is out of range the largest.\<close>

lemma width_not_a_number: "BrbNw_IpMaskExplode (\<lambda>f s. if f = AF_INET then Some [w] else None) (Some [49, 47, 120, 0]) =
  Inr (2, Some (ss_zero\<lparr>ss_family := AF_INET\<rparr>, ss_zero\<lparr>ss_family := AF_INET\<rparr>))"
proof -
  have "nw_split [49, 47, 120, 0] 0 127 [] = Inr ([49], Some 2)"
    using nw_split_eq [of "[49]" 127 "[]" "[120, 0]" "[]"] by simp
  then show ?thesis
    by (simp add: BrbNw_IpMaskExplode_def BrbIsValidIpToSockAddr_def Let_def AF_INET_def AF_UNSPEC_def BrbNw_Ipv4Netmask_def
        BrbNw_Ipv4Mask_def ss_zero_def c_atoi_def c_digits_def c_isdigit_def c_isspace_def)
qed

end
