(* ===== verification/MemStream.thy ===== *)
theory MemStream
  imports BrbPrelude
begin

text \<open>
  The chunked stream of libbrb_core/data/core/mem_stream.c: a doubly linked list of nodes with a buffer
  each, to which data is appended. A node and its buffer are one cell of a heap. Allocation succeeds, at
  the address a function of the heap gives; what \<open>read\<close> delivers is an argument. The fields the code
  only initialises (the parent of a node, the offset, the state flags of the stream) are left out.
\<close>

type_synonym bytes = "8 word list"
type_synonym ulong = "64 word"

record stream_node =
  sn_next :: addr
  sn_prev :: addr
  sn_refcount :: "32 word"
  sn_sz :: ulong
  sn_cap :: ulong
  sn_off :: ulong
  sn_data :: bytes

type_synonym sheap = "addr \<rightharpoonup> stream_node"

record mem_stream =
  st_data_size :: ulong
  st_data_off :: ulong
  st_min_node_sz :: int
  st_node_count :: ulong
  st_head :: addr
  st_tail :: addr
  st_cur :: addr
  st_safe :: bool
  st_held :: bool

definition sn_load :: "sheap \<Rightarrow> addr \<Rightarrow> stream_node result" where
  "sn_load h p = (if p = NULL then Inl NullDeref else case h p of None \<Rightarrow> Inl BadPtr | Some n \<Rightarrow> Inr n)"

section \<open>Nodes\<close>

definition MemStreamNew :: "ulong \<Rightarrow> bool \<Rightarrow> mem_stream" where
  "MemStreamNew min_node_sz mt_safe = \<lparr>st_data_size = 0, st_data_off = 0, st_min_node_sz = sint min_node_sz, st_node_count = 0,
     st_head = NULL, st_tail = NULL, st_cur = NULL, st_safe = mt_safe, st_held = False\<rparr>"

definition st_lock :: "mem_stream \<Rightarrow> mem_stream result" where
  "st_lock s = and_then (mutex_lock (st_safe s) (st_held s)) (\<lambda>b. Inr (s\<lparr>st_held := b\<rparr>))"

definition st_unlock :: "mem_stream \<Rightarrow> mem_stream" where
  "st_unlock s = s\<lparr>st_held := mutex_unlock (st_safe s) (st_held s)\<rparr>"

definition MemStreamNodeNew :: "(sheap \<Rightarrow> addr) \<Rightarrow> sheap \<Rightarrow> mem_stream \<Rightarrow> ulong \<Rightarrow> sheap \<times> mem_stream \<times> addr" where
  "MemStreamNodeNew al h s node_sz =
     (let loc_node_sz = (if st_min_node_sz s > 0 \<and> node_sz < word_of_int (st_min_node_sz s)
          then word_of_int (st_min_node_sz s) else node_sz);
        p = al h in
      (h(p \<mapsto> \<lparr>sn_next = NULL, sn_prev = NULL, sn_refcount = 0, sn_sz = 0, sn_cap = loc_node_sz, sn_off = 0,
         sn_data = replicate (unat loc_node_sz) 0\<rparr>), s\<lparr>st_node_count := st_node_count s + 1\<rparr>, p))"

definition MemStreamNodeDestroy :: "sheap \<Rightarrow> mem_stream \<Rightarrow> addr \<Rightarrow> (sheap \<times> mem_stream \<times> int) result" where
  "MemStreamNodeDestroy h s p = (if p = NULL then Inr (h, s, 0)
     else and_then (sn_load h p) (\<lambda>n.
       if sn_refcount n > 0 then Inr (h(p \<mapsto> n\<lparr>sn_refcount := sn_refcount n - 1\<rparr>), s, 0)
       else Inr (h(p := None), s\<lparr>st_node_count := st_node_count s - 1\<rparr>, 1)))"

text \<open>The result is the number of nodes as an \<open>int\<close>, 0 when the node is the first.\<close>

definition MemStreamCreateNewNodeTail :: "(sheap \<Rightarrow> addr) \<Rightarrow> sheap \<Rightarrow> mem_stream \<Rightarrow> ulong \<Rightarrow> (sheap \<times> mem_stream \<times> int) result" where
  "MemStreamCreateNewNodeTail al h s data_sz = and_then (st_lock s) (\<lambda>s.
     if st_node_count s = 0 then
       (let (h, s, p) = MemStreamNodeNew al h s data_sz in
        Inr (h, st_unlock (s\<lparr>st_head := p, st_cur := p, st_tail := p\<rparr>), 0))
     else
       (let (h, s, new) = MemStreamNodeNew al h s data_sz; tail = st_tail s in
        and_then (sn_load h tail) (\<lambda>t. let h = h(tail \<mapsto> t\<lparr>sn_next := new\<rparr>) in
        and_then (sn_load h new) (\<lambda>n. let h = h(new \<mapsto> n\<lparr>sn_prev := tail\<rparr>); s = s\<lparr>st_tail := new\<rparr> in
        Inr (h, st_unlock s, c_int (uint (st_node_count s)))))))"

section \<open>Writing\<close>

text \<open>\<open>MEM_NODE_COPYINTO\<close> copies behind the data of the node, \<open>COUNTER_UPDATE_NODE_AND_STREAM\<close> counts it.\<close>

definition st_copyinto :: "sheap \<Rightarrow> addr \<Rightarrow> bytes \<Rightarrow> ulong \<Rightarrow> sheap result" where
  "st_copyinto h p d n = and_then (sn_load h p) (\<lambda>x.
     and_then (mem_copy (sn_data x) (uint (sn_sz x)) d (uint n)) (\<lambda>bs. Inr (h(p \<mapsto> x\<lparr>sn_data := bs\<rparr>))))"

definition st_count :: "sheap \<Rightarrow> mem_stream \<Rightarrow> addr \<Rightarrow> ulong \<Rightarrow> (sheap \<times> mem_stream) result" where
  "st_count h s p n = and_then (sn_load h p) (\<lambda>x.
     Inr (h(p \<mapsto> x\<lparr>sn_sz := sn_sz x + n\<rparr>), s\<lparr>st_data_size := st_data_size s + n\<rparr>))"

definition st_put :: "sheap \<Rightarrow> mem_stream \<Rightarrow> addr \<Rightarrow> bytes \<Rightarrow> ulong \<Rightarrow> (sheap \<times> mem_stream) result" where
  "st_put h s p d n = and_then (st_copyinto h p d n) (\<lambda>h. st_count h s p n)"

definition st_avail :: "stream_node \<Rightarrow> ulong" where
  "st_avail n = sn_cap n - sn_sz n"

definition MemStreamWrite :: "(sheap \<Rightarrow> addr) \<Rightarrow> sheap \<Rightarrow> mem_stream \<Rightarrow> bytes \<Rightarrow> ulong \<Rightarrow> (sheap \<times> mem_stream) result" where
  "MemStreamWrite al h s d data_sz = and_then (st_lock s) (\<lambda>s.
     and_then (if st_node_count s = 0 then
         and_then (MemStreamCreateNewNodeTail al h s data_sz) (\<lambda>(h, s, _). st_put h s (st_tail s) d data_sz)
       else and_then (sn_load h (st_tail s)) (\<lambda>x.
         if data_sz < st_avail x then st_put h s (st_tail s) d data_sz
         else (let orig_off = st_avail x; data_left = data_sz - orig_off in
           and_then (st_put h s (st_tail s) d orig_off) (\<lambda>(h, s).
           and_then (MemStreamCreateNewNodeTail al h s data_left) (\<lambda>(h, s, _).
           st_put h s (st_tail s) (drop (unat orig_off) d) data_left))))) (\<lambda>(h, s).
     Inr (h, st_unlock s)))"

text \<open>
  \<open>read\<close> stores what it delivers behind the data of the node and returns its length, or -1, which is
  added as an unsigned number; the sum is returned as an \<open>int\<close>. The two reads are \<open>r1\<close> and \<open>r2\<close>, \<open>None\<close> for an error; each is a
  function of the number of bytes asked for.
\<close>

definition st_read :: "sheap \<Rightarrow> addr \<Rightarrow> bytes option \<Rightarrow> (sheap \<times> ulong) result" where
  "st_read h p r = (case r of
       None \<Rightarrow> Inr (h, - 1)
     | Some bs \<Rightarrow> and_then (sn_load h p) (\<lambda>x.
         and_then (arr_copy (sn_data x) (uint (sn_sz x)) bs) (\<lambda>d. Inr (h(p \<mapsto> x\<lparr>sn_data := d\<rparr>), of_nat (length bs)))))"

definition MemStreamGrabDataFromFD :: "(sheap \<Rightarrow> addr) \<Rightarrow> (ulong \<Rightarrow> bytes option) \<Rightarrow> (ulong \<Rightarrow> bytes option) \<Rightarrow>
    sheap \<Rightarrow> mem_stream \<Rightarrow> ulong \<Rightarrow> (sheap \<times> mem_stream \<times> int) result" where
  "MemStreamGrabDataFromFD al r1 r2 h s data_sz = and_then (st_lock s) (\<lambda>s.
     and_then (if st_node_count s = 0 then
         and_then (MemStreamCreateNewNodeTail al h s data_sz) (\<lambda>(h, s, _).
         and_then (st_read h (st_tail s) (r1 data_sz)) (\<lambda>(h, read_bytes).
         and_then (st_count h s (st_tail s) read_bytes) (\<lambda>(h, s). Inr (h, s, read_bytes))))
       else and_then (sn_load h (st_tail s)) (\<lambda>x.
         if data_sz < st_avail x then
           and_then (st_read h (st_tail s) (r1 data_sz)) (\<lambda>(h, read_bytes).
           and_then (st_count h s (st_tail s) read_bytes) (\<lambda>(h, s). Inr (h, s, read_bytes)))
         else (let orig_off = st_avail x in
           and_then (st_read h (st_tail s) (r1 orig_off)) (\<lambda>(h, read_bytes).
           and_then (st_count h s (st_tail s) read_bytes) (\<lambda>(h, s).
           let data_left = data_sz - read_bytes in
           and_then (MemStreamCreateNewNodeTail al h s data_left) (\<lambda>(h, s, _).
           and_then (st_read h (st_tail s) (r2 data_left)) (\<lambda>(h, more).
           and_then (st_count h s (st_tail s) data_left) (\<lambda>(h, s). Inr (h, s, read_bytes + more))))))))) (\<lambda>(h, s, n).
     Inr (h, st_unlock s, c_int (uint n))))"

section \<open>Going through the nodes\<close>

text \<open>The loops end at a null pointer; their fuel is the number of nodes plus one.\<close>

fun st_destroy_from :: "nat \<Rightarrow> sheap \<Rightarrow> mem_stream \<Rightarrow> addr \<Rightarrow> (sheap \<times> mem_stream) result" where
  "st_destroy_from 0 h s p = Inl FuelOut"
| "st_destroy_from (Suc k) h s p = and_then (sn_load h p) (\<lambda>n.
     and_then (MemStreamNodeDestroy h s p) (\<lambda>(h, s, _).
     if sn_next n = NULL then Inr (h, s) else st_destroy_from k h s (sn_next n)))"

definition MemStreamClean :: "sheap \<Rightarrow> mem_stream \<Rightarrow> (sheap \<times> mem_stream) result" where
  "MemStreamClean h s = and_then (st_lock s) (\<lambda>s. let first = st_head s in
     and_then (sn_load h first) (\<lambda>f.
     if st_node_count s = 0 then Inr (h, st_unlock s)
     else
       and_then (if st_node_count s > 1 then st_destroy_from (unat (st_node_count s)) h s (sn_next f) else Inr (h, s)) (\<lambda>(h, s).
       let s = s\<lparr>st_node_count := 1, st_data_size := 0, st_data_off := 0\<rparr> in
       and_then (sn_load h first) (\<lambda>f.
       and_then (arr_fill (sn_data f) 0 (uint (sn_sz f)) 0) (\<lambda>d.
       Inr (h(first \<mapsto> f\<lparr>sn_data := d, sn_sz := 0, sn_off := 0\<rparr>),
         st_unlock (s\<lparr>st_head := first, st_cur := first, st_tail := first\<rparr>)))))))"

text \<open>On an empty stream the lock is released after the stream is freed.\<close>

definition MemStreamDestroy :: "sheap \<Rightarrow> mem_stream \<Rightarrow> sheap result" where
  "MemStreamDestroy h s = and_then (st_lock s) (\<lambda>s.
     if st_node_count s = 0 then Inl BadPtr
     else and_then (st_destroy_from (unat (st_node_count s) + 1) h s (st_head s)) (\<lambda>(h, s). Inr h))"

text \<open>\<open>MemStreamWriteToFD\<close>: the buffers handed to \<open>write\<close>, whose result the code does not use.\<close>

fun st_chunks :: "nat \<Rightarrow> sheap \<Rightarrow> addr \<Rightarrow> bytes list result" where
  "st_chunks k h p = (if p = NULL then Inr [] else case k of 0 \<Rightarrow> Inl FuelOut
     | Suc k \<Rightarrow> and_then (sn_load h p) (\<lambda>n.
         and_then (if unat (sn_sz n) \<le> length (sn_data n) then Inr (take (unat (sn_sz n)) (sn_data n)) else Inl OutOfBounds) (\<lambda>c.
         and_then (st_chunks k h (sn_next n)) (\<lambda>cs. Inr (c # cs)))))"

declare st_chunks.simps [simp del]

definition MemStreamWriteToFD :: "sheap \<Rightarrow> mem_stream \<Rightarrow> (bytes list \<times> mem_stream) result" where
  "MemStreamWriteToFD h s = and_then (st_lock s) (\<lambda>s.
     and_then (st_chunks (unat (st_node_count s) + 1) h (st_head s)) (\<lambda>cs. Inr (cs, st_unlock s)))"

text \<open>
  A reference is the index of a node (counted in \<open>int\<close>, stored as \<open>unsigned long\<close>), the node, whose buffer it points to, and its size. The step of the
  loop reads the next node before the loop tests it for null.
\<close>

record stream_ref =
  sr_idx :: ulong
  sr_node :: addr
  sr_sz :: ulong

fun st_find :: "nat \<Rightarrow> sheap \<Rightarrow> addr \<Rightarrow> int \<Rightarrow> ulong \<Rightarrow> ulong \<Rightarrow> stream_ref option result" where
  "st_find k h p i cur_off offset = (if p = NULL then Inr None
     else and_then (sn_load h p) (\<lambda>n.
       if cur_off \<ge> offset then Inr (Some \<lparr>sr_idx = word_of_int i, sr_node = p, sr_sz = sn_sz n\<rparr>)
       else case k of 0 \<Rightarrow> Inl FuelOut
         | Suc k \<Rightarrow> and_then (in_int (i + 1)) (\<lambda>i.
             and_then (sn_load h (sn_next n)) (\<lambda>x. st_find k h (sn_next n) i (cur_off + sn_sz x) offset))))"

declare st_find.simps [simp del]

definition MemStreamOffsetDeref :: "sheap \<Rightarrow> mem_stream \<Rightarrow> ulong \<Rightarrow> (stream_ref option \<times> mem_stream) result" where
  "MemStreamOffsetDeref h s offset = and_then (st_lock s) (\<lambda>s.
     and_then (sn_load h (st_head s)) (\<lambda>n.
     and_then (st_find (unat (st_node_count s)) h (st_head s) 0 (sn_sz n) offset) (\<lambda>r. Inr (r, st_unlock s))))"

definition MemStreamBaseDeref :: "sheap \<Rightarrow> mem_stream \<Rightarrow> (stream_ref \<times> mem_stream) result" where
  "MemStreamBaseDeref h s = and_then (st_lock s) (\<lambda>s.
     and_then (sn_load h (st_head s)) (\<lambda>n. Inr (\<lparr>sr_idx = 0, sr_node = st_head s, sr_sz = sn_sz n\<rparr>, st_unlock s)))"

text \<open>The two getters return before they unlock.\<close>

definition MemStreamGetDataSize :: "mem_stream \<Rightarrow> (ulong \<times> mem_stream) result" where
  "MemStreamGetDataSize s = and_then (st_lock s) (\<lambda>s. Inr (st_data_size s, s))"

definition MemStreamGetNodeCount :: "mem_stream \<Rightarrow> (ulong \<times> mem_stream) result" where
  "MemStreamGetNodeCount s = and_then (st_lock s) (\<lambda>s. Inr (st_node_count s, s))"

end
