(* ===== verification/MemStreamProps.thy ===== *)
theory MemStreamProps
  imports MemStream
begin

text \<open>
  What a stream keeps: a chain of nodes from the head to the tail whose counts add up, and the bytes it
  holds. Appending on a stream without a lock appends to them; a stream with a lock stops at its first write.
\<close>

section \<open>Chains of nodes\<close>

definition node_ok :: "stream_node \<Rightarrow> bool" where
  "node_ok n \<longleftrightarrow> sn_sz n \<le> sn_cap n \<and> length (sn_data n) = unat (sn_cap n)"

fun st_seg :: "sheap \<Rightarrow> addr \<Rightarrow> addr list \<Rightarrow> addr \<Rightarrow> bool" where
  "st_seg h p [] q \<longleftrightarrow> p = q"
| "st_seg h p (x # xs) q \<longleftrightarrow> p = x \<and> x \<noteq> NULL \<and> (\<exists>n. h x = Some n \<and> node_ok n \<and> st_seg h (sn_next n) xs q)"

definition sn_bytes :: "stream_node \<Rightarrow> bytes" where
  "sn_bytes n = take (unat (sn_sz n)) (sn_data n)"

definition st_content :: "sheap \<Rightarrow> addr list \<Rightarrow> bytes list" where
  "st_content h ps = map (\<lambda>p. case h p of Some n \<Rightarrow> sn_bytes n | None \<Rightarrow> []) ps"

definition st_inv :: "sheap \<Rightarrow> mem_stream \<Rightarrow> addr list \<Rightarrow> bool" where
  "st_inv h s ps \<longleftrightarrow> finite (dom h) \<and> st_seg h (st_head s) ps NULL \<and> distinct ps \<and> (ps \<noteq> [] \<longrightarrow> st_tail s = last ps) \<and>
     unat (st_node_count s) = length ps \<and> unat (st_data_size s) = length (concat (st_content h ps)) \<and>
     \<not> st_held s \<and> \<not> st_safe s"

definition st_allocates :: "(sheap \<Rightarrow> addr) \<Rightarrow> bool" where
  "st_allocates al \<longleftrightarrow> (\<forall>h. finite (dom h) \<longrightarrow> al h \<noteq> NULL \<and> h (al h) = None)"

lemma sn_load_in [simp]: "p \<noteq> NULL \<Longrightarrow> h p = Some n \<Longrightarrow> sn_load h p = Inr n"
  by (simp add: sn_load_def)

lemma st_seg_append: "st_seg h p (xs @ ys) r \<longleftrightarrow> (\<exists>q. st_seg h p xs q \<and> st_seg h q ys r)"
  by (induction xs arbitrary: p) auto

lemma st_seg_frame: "x \<notin> set ps \<Longrightarrow> st_seg (h(x := v)) p ps q = st_seg h p ps q"
  by (induction ps arbitrary: p) auto

lemma st_seg_dom: "st_seg h p ps q \<Longrightarrow> x \<in> set ps \<Longrightarrow> \<exists>n. h x = Some n \<and> node_ok n \<and> x \<noteq> NULL"
  by (induction ps arbitrary: p) auto

lemma content_frame: "x \<notin> set ps \<Longrightarrow> st_content (h(x := v)) ps = st_content h ps"
  by (auto simp: st_content_def)

lemma content_append: "st_content h (xs @ ys) = st_content h xs @ st_content h ys"
  by (simp add: st_content_def)

lemma content_one: "h p = Some n \<Longrightarrow> st_content h [p] = [sn_bytes n]"
  by (simp add: st_content_def)

lemma sn_bytes_length: "node_ok n \<Longrightarrow> length (sn_bytes n) = unat (sn_sz n)"
  by (simp add: node_ok_def sn_bytes_def word_le_nat_alt)

text \<open>The last node may be replaced by another one with no successor.\<close>

lemma seg_last:
  assumes "st_seg h p ps NULL" "ps \<noteq> []" "distinct ps"
  obtains xs t n where "ps = xs @ [t]" "t \<notin> set xs" "st_seg h p xs t" "t \<noteq> NULL" "h t = Some n" "node_ok n" "sn_next n = NULL"
proof -
  obtain xs t where ps: "ps = xs @ [t]" using assms(2) by (cases ps rule: rev_cases) auto
  with assms show ?thesis using that [of xs t] by (auto simp: st_seg_append)
qed

lemma seg_put_last: "st_seg h p xs t \<Longrightarrow> t \<notin> set xs \<Longrightarrow> t \<noteq> NULL \<Longrightarrow> node_ok n \<Longrightarrow> st_seg (h(t \<mapsto> n)) p (xs @ [t]) (sn_next n)"
  by (auto simp: st_seg_append st_seg_frame)

section \<open>Putting data into a node\<close>

definition sn_put :: "stream_node \<Rightarrow> bytes \<Rightarrow> stream_node" where
  "sn_put n d = n\<lparr>sn_data := take (unat (sn_sz n)) (sn_data n) @ d @ drop (unat (sn_sz n) + length d) (sn_data n),
     sn_sz := sn_sz n + of_nat (length d)\<rparr>"

lemma ulong_lt: "unat (w :: ulong) < 2 ^ 64"
  by (rule order.strict_trans2 [OF unsigned_less]) simp

lemma room_nat:
  assumes "node_ok n" "k \<le> unat (st_avail n)"
  shows "unat (sn_sz n) + k \<le> unat (sn_cap n)"
proof -
  have "unat (sn_cap n - sn_sz n) = unat (sn_cap n) - unat (sn_sz n)"
    using assms(1) by (intro unat_sub) (simp add: node_ok_def)
  with assms show ?thesis unfolding st_avail_def node_ok_def word_le_nat_alt by linarith
qed

lemma sn_put_ok:
  assumes "node_ok n" "length d \<le> unat (st_avail n)"
  shows "node_ok (sn_put n d)" "sn_bytes (sn_put n d) = sn_bytes n @ d" "unat (sn_sz (sn_put n d)) = unat (sn_sz n) + length d"
proof -
  note r = room_nat [OF assms]
  have l: "unat (of_nat (length d) :: 64 word) = length d"
    using r ulong_lt [of "sn_cap n"] by (simp add: unat_of_nat)
  show sz: "unat (sn_sz (sn_put n d)) = unat (sn_sz n) + length d"
    using r l ulong_lt [of "sn_cap n"] by (simp add: sn_put_def unat_add_small)
  with r assms(1) show "node_ok (sn_put n d)"
    by (auto simp: node_ok_def sn_put_def word_le_nat_alt)
  have "unat (sn_sz n) \<le> length (sn_data n)" using assms(1) by (simp add: node_ok_def word_le_nat_alt)
  with sz show "sn_bytes (sn_put n d) = sn_bytes n @ d" by (simp add: sn_bytes_def sn_put_def)
qed

lemma st_put_eq:
  assumes "p \<noteq> NULL" "h p = Some n" "node_ok n" "k \<le> st_avail n" "unat k \<le> length d"
  shows "st_put h s p d k = Inr (h(p \<mapsto> sn_put n (take (unat k) d)), s\<lparr>st_data_size := st_data_size s + k\<rparr>)"
proof -
  have r: "unat (sn_sz n) + unat k \<le> length (sn_data n)"
    using room_nat [OF assms(3), of "unat k"] assms(3,4) by (simp add: node_ok_def word_le_nat_alt)
  have "mem_copy (sn_data n) (uint (sn_sz n)) d (uint k) =
      Inr (take (unat (sn_sz n)) (sn_data n) @ take (unat k) d @ drop (unat (sn_sz n) + unat k) (sn_data n))"
  proof -
    have "uint k \<le> int (length d)" using assms(5) by (simp only: uint_nat of_nat_le_iff)
    then show ?thesis using r assms(5) by (simp add: mem_copy_def arr_copy_def nat_uint_eq min_absorb2)
  qed
  then show ?thesis using assms
    by (simp add: st_put_def st_copyinto_def st_count_def sn_put_def)
qed


lemma sn_put_next [simp]: "sn_next (sn_put n d) = sn_next n"
  by (simp add: sn_put_def)

section \<open>Appending keeps the invariant\<close>

lemma put_inv:
  assumes inv: "st_inv h s (xs @ [t])" and n: "h t = Some n" "k \<le> st_avail n" "unat k \<le> length d"
    and sum: "unat (st_data_size s) + unat k < 2 ^ 64"
  shows "\<exists>h' s'. st_put h s t d k = Inr (h', s') \<and> st_inv h' s' (xs @ [t]) \<and> st_node_count s' = st_node_count s \<and>
    concat (st_content h' (xs @ [t])) = concat (st_content h (xs @ [t])) @ take (unat k) d"
proof -
  have seg: "st_seg h (st_head s) (xs @ [t]) NULL" and dist: "distinct (xs @ [t])"
    using inv by (simp_all add: st_inv_def)
  have t: "t \<notin> set xs" "t \<noteq> NULL" "node_ok n" "sn_next n = NULL" "st_seg h (st_head s) xs t"
    using seg dist n(1) by (auto simp: st_seg_append)
  let ?n = "sn_put n (take (unat k) d)"
  let ?h = "h(t \<mapsto> ?n)"
  let ?s = "s\<lparr>st_data_size := st_data_size s + k\<rparr>"
  have len: "length (take (unat k) d) \<le> unat (st_avail n)" using n(2,3) by (simp add: word_le_nat_alt)
  note ok = sn_put_ok [OF t(3) len]
  have put: "st_put h s t d k = Inr (?h, ?s)" by (rule st_put_eq) (use t n in auto)
  have seg': "st_seg ?h (st_head s) (xs @ [t]) NULL"
    using seg_put_last [OF t(5,1,2) ok(1)] t(4) by simp
  have content: "concat (st_content ?h (xs @ [t])) = concat (st_content h (xs @ [t])) @ take (unat k) d"
    using t(1) n(1) ok(2) by (simp add: content_append content_frame content_one)
  have "st_inv ?h ?s (xs @ [t])"
    using inv seg' sum n(3) unfolding st_inv_def content
    by (simp add: unat_add_small)
  with put content show ?thesis by auto
qed

lemma new_inv:
  assumes inv: "st_inv h s ps" and al: "st_allocates al" and room: "length ps + 1 < 2 ^ 64"
  shows "\<exists>h' s' c n p. MemStreamCreateNewNodeTail al h s k = Inr (h', s', c) \<and> st_inv h' s' (ps @ [p]) \<and> st_tail s' = p \<and>
    h' p = Some n \<and> k \<le> st_avail n \<and> st_data_size s' = st_data_size s \<and>
    concat (st_content h' (ps @ [p])) = concat (st_content h ps)"
proof -
  define p where "p = al h"
  have fin: "finite (dom h)" and unsafe: "\<not> st_held s" "\<not> st_safe s" using inv by (simp_all add: st_inv_def)
  have p: "p \<noteq> NULL" "h p = None" using al fin by (simp_all add: st_allocates_def p_def)
  define cap where "cap = (if st_min_node_sz s > 0 \<and> k < word_of_int (st_min_node_sz s) then word_of_int (st_min_node_sz s) else k)"
  have cap: "k \<le> cap" by (auto simp: cap_def)
  define n where "n = \<lparr>sn_next = NULL, sn_prev = NULL, sn_refcount = 0, sn_sz = 0, sn_cap = cap, sn_off = 0,
    sn_data = replicate (unat cap) 0\<rparr>"
  have n: "node_ok n" "sn_bytes n = []" "k \<le> st_avail n" "sn_next n = NULL"
    using cap by (simp_all add: n_def node_ok_def sn_bytes_def st_avail_def)
  have count: "unat (st_node_count s + 1) = length ps + 1"
    using inv room unat_add_small [of "st_node_count s" 1] by (simp add: st_inv_def)
  have zero: "st_node_count s = 0 \<longleftrightarrow> ps = []"
    using inv unat_0_iff [of "st_node_count s"] by (simp add: st_inv_def)
  show ?thesis
  proof (cases "ps = []")
    case True
    let ?h = "h(p \<mapsto> n)"
    let ?s = "s\<lparr>st_node_count := st_node_count s + 1, st_head := p, st_cur := p, st_tail := p\<rparr>"
    have run: "MemStreamCreateNewNodeTail al h s k = Inr (?h, ?s, 0)"
      using unsafe zero True
      by (simp add: MemStreamCreateNewNodeTail_def st_lock_def st_unlock_def mutex_unlock_def mutex_lock_def
          MemStreamNodeNew_def Let_def p_def [symmetric] n_def cap_def)
    have "st_inv ?h ?s [p]"
      using inv True p n count fin unsafe by (simp add: st_inv_def st_content_def)
    with run p n True show ?thesis by (auto simp: st_content_def)
  next
    case False
    then obtain xs t m where ps: "ps = xs @ [t]" "t \<notin> set xs" "st_seg h (st_head s) xs t" "t \<noteq> NULL" "h t = Some m" "node_ok m"
      "sn_next m = NULL" using inv seg_last unfolding st_inv_def by metis
    have tail: "st_tail s = t" using inv ps(1) by (simp add: st_inv_def)
    have fresh: "p \<notin> set ps" using inv p(2) st_seg_dom unfolding st_inv_def by fastforce
    then have pt: "p \<noteq> t" "p \<notin> set xs" using ps(1) by auto
    let ?h = "h(p \<mapsto> n, t \<mapsto> m\<lparr>sn_next := p\<rparr>, p \<mapsto> n\<lparr>sn_prev := t\<rparr>)"
    let ?s = "s\<lparr>st_node_count := st_node_count s + 1, st_tail := p\<rparr>"
    have run: "MemStreamCreateNewNodeTail al h s k = Inr (?h, ?s, c_int (uint (st_node_count s + 1)))"
      using unsafe zero False pt tail ps(4,5) p
      by (simp add: MemStreamCreateNewNodeTail_def st_lock_def st_unlock_def mutex_unlock_def mutex_lock_def
          MemStreamNodeNew_def Let_def p_def [symmetric] n_def cap_def)
    have seg: "st_seg ?h (st_head s) (ps @ [p]) NULL"
      using ps pt p n by (auto simp: st_seg_append st_seg_frame node_ok_def)
    have content: "concat (st_content ?h (ps @ [p])) = concat (st_content h ps)"
    proof -
      have "st_content ?h xs = st_content h xs" using pt(2) ps(2) by (simp add: content_frame)
      moreover have "st_content ?h [t] = [sn_bytes m]" using pt(1) by (simp add: st_content_def sn_bytes_def)
      moreover have "st_content ?h [p] = [[]]" using n(2) by (simp add: st_content_def sn_bytes_def)
      moreover have "st_content h [t] = [sn_bytes m]" using ps(5) by (rule content_one)
      ultimately show ?thesis unfolding ps(1) content_append by simp
    qed
    have "st_inv ?h ?s (ps @ [p])"
      using inv seg fresh count unsafe unfolding st_inv_def content by simp
    with run content n(3) pt show ?thesis by (auto simp: st_avail_def)
  qed
qed

lemma write_inv:
  assumes inv: "st_inv h s ps" and al: "st_allocates al" and room: "length ps + 1 < 2 ^ 64"
    and d: "unat k = length d" and sum: "unat (st_data_size s) + length d < 2 ^ 64"
  shows "\<exists>h' s' qs. MemStreamWrite al h s d k = Inr (h', s') \<and> st_inv h' s' qs \<and> length qs \<le> length ps + 1 \<and>
    qs \<noteq> [] \<and> concat (st_content h' qs) = concat (st_content h ps) @ d"
proof -
  have unsafe: "\<not> st_held s" "\<not> st_safe s" using inv by (simp_all add: st_inv_def)
  then have lock: "st_lock s = Inr s" by (simp add: st_lock_def mutex_lock_def)
  have unlock: "st_inv h' s' qs \<Longrightarrow> st_unlock s' = s'" for h' s' qs
    by (simp add: st_inv_def st_unlock_def mutex_unlock_def)
  have zero: "st_node_count s = 0 \<longleftrightarrow> ps = []"
    using inv unat_0_iff [of "st_node_count s"] by (simp add: st_inv_def)
  show ?thesis
  proof (cases "ps = []")
    case True
    obtain h1 s1 c n p where new: "MemStreamCreateNewNodeTail al h s k = Inr (h1, s1, c)" "st_inv h1 s1 (ps @ [p])" "st_tail s1 = p"
      "h1 p = Some n" "k \<le> st_avail n" "st_data_size s1 = st_data_size s" "concat (st_content h1 (ps @ [p])) = concat (st_content h ps)"
      using new_inv [OF inv al room] by blast
    obtain h2 s2 where "st_put h1 s1 p d k = Inr (h2, s2)" "st_inv h2 s2 (ps @ [p])"
      "concat (st_content h2 (ps @ [p])) = concat (st_content h1 (ps @ [p])) @ take (unat k) d"
      using put_inv [OF new(2,4,5), of d] d sum new(6) by auto
    with new True zero lock unlock d show ?thesis
      by (intro exI [of _ h2] exI [of _ s2] exI [of _ "ps @ [p]"]) (simp add: MemStreamWrite_def)
  next
    case False
    then obtain xs t n where ps: "ps = xs @ [t]" "h t = Some n" "t \<noteq> NULL"
      using inv seg_last unfolding st_inv_def by metis
    have tail: "st_tail s = t" using inv ps(1) by (simp add: st_inv_def)
    show ?thesis
    proof (cases "k < st_avail n")
      case True
      obtain h1 s1 where "st_put h s t d k = Inr (h1, s1)" "st_inv h1 s1 ps" "concat (st_content h1 ps) = concat (st_content h ps) @ take (unat k) d"
        using put_inv [of h s xs t n k d] inv ps True [THEN less_imp_le] d sum by auto
      with False zero lock unlock d tail ps(2,3) True show ?thesis
        by (intro exI [of _ h1] exI [of _ s1] exI [of _ ps]) (simp add: MemStreamWrite_def)
    next
      case full: False
      define o1 where "o1 = st_avail n"
      have o1: "o1 \<le> k" "unat o1 \<le> length d" using full d by (auto simp: o1_def word_le_nat_alt word_less_nat_alt)
      have left: "unat (k - o1) = length d - unat o1" using o1(1) d by (simp add: unat_sub)
      obtain h1 s1 where put1: "st_put h s t d o1 = Inr (h1, s1)" "st_inv h1 s1 ps"
        "concat (st_content h1 ps) = concat (st_content h ps) @ take (unat o1) d"
        using put_inv [of h s xs t n o1 d] inv ps o1 sum by (auto simp: o1_def)
      obtain h2 s2 c m p where new: "MemStreamCreateNewNodeTail al h1 s1 (k - o1) = Inr (h2, s2, c)" "st_inv h2 s2 (ps @ [p])" "st_tail s2 = p"
        "h2 p = Some m" "k - o1 \<le> st_avail m" "st_data_size s2 = st_data_size s1" "concat (st_content h2 (ps @ [p])) = concat (st_content h1 ps)"
        using new_inv [OF put1(2) al room] by blast
      have "unat (st_data_size s1) = unat (st_data_size s) + unat o1"
        using put1(2,3) inv o1(2) by (simp add: st_inv_def)
      then obtain h3 s3 where put2: "st_put h2 s2 p (drop (unat o1) d) (k - o1) = Inr (h3, s3)" "st_inv h3 s3 (ps @ [p])"
        "concat (st_content h3 (ps @ [p])) = concat (st_content h2 (ps @ [p])) @ take (unat (k - o1)) (drop (unat o1) d)"
        using put_inv [OF new(2,4,5), of "drop (unat o1) d"] left sum new(6) o1(2) by auto
      have "concat (st_content h3 (ps @ [p])) = concat (st_content h ps) @ d"
        using put2(3) new(7) put1(3) left by simp
      with put1 new put2 False zero lock unlock tail ps(2,3) full show ?thesis
        by (intro exI [of _ h3] exI [of _ s3] exI [of _ "ps @ [p]"]) (simp add: MemStreamWrite_def o1_def [symmetric] Let_def)
    qed
  qed
qed


section \<open>Reading\<close>

lemma chunks_eq: "st_seg h p ps NULL \<Longrightarrow> length ps \<le> k \<Longrightarrow> st_chunks k h p = Inr (st_content h ps)"
proof (induction ps arbitrary: p k)
  case Nil
  then show ?case by (simp add: st_chunks.simps st_content_def)
next
  case (Cons x xs)
  then obtain n where n: "p = x" "x \<noteq> NULL" "h x = Some n" "node_ok n" "st_seg h (sn_next n) xs NULL" by auto
  obtain k' where k: "k = Suc k'" "length xs \<le> k'" using Cons.prems(2) by (cases k) auto
  have "unat (sn_sz n) \<le> length (sn_data n)" using n(4) by (simp add: node_ok_def word_le_nat_alt)
  then show ?case using n k Cons.IH [OF n(5) k(2)]
    by (subst st_chunks.simps) (simp add: st_content_def sn_bytes_def)
qed

text \<open>
  The node found for an offset: the first one that ends at or behind it. \<open>sizes\<close> are the sizes of the nodes.
\<close>

lemma find_eq:
  assumes "st_seg h p ps NULL" "ps \<noteq> []" "length ps \<le> k" "h p = Some n"
    and "unat cur = base + unat (sn_sz n)" "base + length (concat (st_content h ps)) < 2 ^ 64"
    and "0 < i \<Longrightarrow> base < unat off" "i + length ps < 2 ^ 31"
  shows "if unat off \<le> base + length (concat (st_content h ps))
    then \<exists>j<length ps. st_find k h p (int i) cur off = Inr (Some \<lparr>sr_idx = of_nat (i + j), sr_node = ps ! j, sr_sz = of_nat (length (st_content h ps ! j))\<rparr>) \<and>
      unat off \<le> base + length (concat (take (Suc j) (st_content h ps))) \<and>
      (i + j = 0 \<or> base + length (concat (take j (st_content h ps))) < unat off)
    else st_find k h p (int i) cur off = Inl NullDeref"
  using assms
proof (induction ps arbitrary: p k n cur base i)
  case (Cons x xs)
  then have n: "p = x" "x \<noteq> NULL" "h x = Some n" "node_ok n" "st_seg h (sn_next n) xs NULL" by auto
  have c: "st_content h (x # xs) = sn_bytes n # st_content h xs" using n(3) by (simp add: st_content_def)
  have sz: "length (sn_bytes n) = unat (sn_sz n)" using n(4) by (rule sn_bytes_length)
  show ?case
  proof (cases "off \<le> cur")
    case True
    then have "unat off \<le> base + unat (sn_sz n)" using Cons.prems(5) by (simp add: word_le_nat_alt)
    moreover have "st_find k h p (int i) cur off = Inr (Some \<lparr>sr_idx = of_nat i, sr_node = x, sr_sz = sn_sz n\<rparr>)"
      using True n by (subst st_find.simps) simp
    moreover have "i = 0 \<or> base < unat off" using Cons.prems(7) by (cases "i = 0") auto
    ultimately show ?thesis unfolding c using sz by (auto intro!: exI [of _ 0])
  next
    case False
    then have off: "base + unat (sn_sz n) < unat off" using Cons.prems(5) by (simp add: word_le_nat_alt)
    have idx: "in_int (int i + 1) = Inr (int (i + 1))" using Cons.prems(8) by simp
    obtain k' where k: "k = Suc k'" "length xs \<le> k'" using Cons.prems(3) by (cases k) auto
    show ?thesis
    proof (cases xs)
      case Nil
      then have "st_find k h p (int i) cur off = Inl NullDeref"
        using False n k(1) idx by (subst st_find.simps) (simp add: sn_load_def)
      with Nil off c sz show ?thesis by (simp add: st_content_def)
    next
      case (Cons y ys)
      then obtain m where m: "sn_next n = y" "y \<noteq> NULL" "h y = Some m" "node_ok m" using n(5) by auto
      have ms: "length (sn_bytes m) = unat (sn_sz m)" using m(4) by (rule sn_bytes_length)
      have cx: "st_content h xs = sn_bytes m # st_content h ys" using m(3) Cons by (simp add: st_content_def)
      have bound: "base + unat (sn_sz n) + length (concat (st_content h xs)) < 2 ^ 64"
        using Cons.prems(6) unfolding c using sz by simp
      have cur: "unat (cur + sn_sz m) = base + unat (sn_sz n) + unat (sn_sz m)"
        using bound Cons.prems(5) ms unfolding cx by (simp add: unat_add_small)
      have step: "st_find k h p (int i) cur off = st_find k' h y (int (i + 1)) (cur + sn_sz m) off"
        using False n m k(1) idx by (subst st_find.simps) simp
      have seg: "st_seg h y xs NULL" using n(5) m(1) by simp
      have ih: "if unat off \<le> base + unat (sn_sz n) + length (concat (st_content h xs))
        then \<exists>j<length xs. st_find k' h y (int (i + 1)) (cur + sn_sz m) off = Inr (Some \<lparr>sr_idx = of_nat (i + 1 + j), sr_node = xs ! j, sr_sz = of_nat (length (st_content h xs ! j))\<rparr>) \<and>
          unat off \<le> base + unat (sn_sz n) + length (concat (take (Suc j) (st_content h xs))) \<and>
          (i + 1 + j = 0 \<or> base + unat (sn_sz n) + length (concat (take j (st_content h xs))) < unat off)
        else st_find k' h y (int (i + 1)) (cur + sn_sz m) off = Inl NullDeref"
        by (rule Cons.IH [OF seg _ k(2) m(3) cur bound off]) (use Cons Cons.prems(8) in simp_all)
      show ?thesis
      proof (cases "unat off \<le> base + unat (sn_sz n) + length (concat (st_content h xs))")
        case True
        then obtain j where j: "j < length xs" "st_find k' h y (int (i + 1)) (cur + sn_sz m) off = Inr (Some \<lparr>sr_idx = of_nat (i + 1 + j), sr_node = xs ! j, sr_sz = of_nat (length (st_content h xs ! j))\<rparr>)"
          "unat off \<le> base + unat (sn_sz n) + length (concat (take (Suc j) (st_content h xs)))"
          "base + unat (sn_sz n) + length (concat (take j (st_content h xs))) < unat off"
          using ih by auto
        with True sz step show ?thesis unfolding c by (auto intro!: exI [of _ "Suc j"] simp: add.assoc)
      next
        case False
        with ih sz step show ?thesis unfolding c by (simp add: add.assoc)
      qed
    qed
  qed
qed simp


section \<open>Cleaning\<close>

definition unreferenced :: "sheap \<Rightarrow> addr list \<Rightarrow> bool" where
  "unreferenced h ps \<longleftrightarrow> (\<forall>p\<in>set ps. \<forall>n. h p = Some n \<longrightarrow> sn_refcount n = 0)"

lemma destroy_eq:
  assumes "st_seg h p ps NULL" "ps \<noteq> []" "distinct ps" "unreferenced h ps" "length ps \<le> k"
  shows "\<exists>h'. st_destroy_from k h s p = Inr (h', s\<lparr>st_node_count := st_node_count s - of_nat (length ps)\<rparr>) \<and>
    (\<forall>q. h' q = (if q \<in> set ps then None else h q))"
  using assms
proof (induction ps arbitrary: p k h s)
  case (Cons x xs)
  then obtain n where n: "p = x" "x \<noteq> NULL" "h x = Some n" "st_seg h (sn_next n) xs NULL" "sn_refcount n = 0"
    by (auto simp: unreferenced_def)
  obtain k' where k: "k = Suc k'" "length xs \<le> k'" using Cons.prems(5) by (cases k) auto
  have dest: "MemStreamNodeDestroy h s x = Inr (h(x := None), s\<lparr>st_node_count := st_node_count s - 1\<rparr>, 1)"
    using n by (simp add: MemStreamNodeDestroy_def)
  show ?case
  proof (cases xs)
    case Nil
    with n k dest show ?thesis by (auto intro!: exI [of _ "h(x := None)"])
  next
    case (Cons y ys)
    then have y: "sn_next n = y" "y \<noteq> NULL" using n(4) by auto
    let ?h = "h(x := None)"
    let ?s = "s\<lparr>st_node_count := st_node_count s - 1\<rparr>"
    have x: "x \<notin> set xs" using Cons.prems(3) by simp
    have "st_seg ?h y xs NULL" using n(4) y(1) x by (simp add: st_seg_frame)
    moreover have "unreferenced ?h xs" using Cons.prems(4) x by (auto simp: unreferenced_def)
    moreover have "xs \<noteq> []" "distinct xs" using Cons Cons.prems(3) by simp_all
    ultimately obtain h' where "st_destroy_from k' ?h ?s y = Inr (h', ?s\<lparr>st_node_count := st_node_count ?s - of_nat (length xs)\<rparr>)"
      "\<forall>q. h' q = (if q \<in> set xs then None else ?h q)"
      using Cons.IH [of ?h y k' ?s, OF _ _ _ _ k(2)] by metis
    with n k dest y show ?thesis by (auto intro!: exI [of _ h'] simp: algebra_simps)
  qed
qed simp

lemma clean_eq:
  assumes inv: "st_inv h s (x # y # ys)" and free: "unreferenced h (y # ys)"
  shows "\<exists>h' s' n. MemStreamClean h s = Inr (h', s') \<and> h' x = Some n \<and> node_ok n \<and> sn_next n = y \<and> h' y = None \<and>
    st_head s' = x \<and> st_node_count s' = 1 \<and> st_data_size s' = 0 \<and> \<not> st_held s' \<and> \<not> st_safe s'"
proof -
  have unsafe: "\<not> st_held s" "\<not> st_safe s" using inv by (simp_all add: st_inv_def)
  then have lock: "st_lock s = Inr s" by (simp add: st_lock_def mutex_lock_def)
  obtain n where n: "st_head s = x" "x \<noteq> NULL" "h x = Some n" "node_ok n" "sn_next n = y" "y \<noteq> NULL" "st_seg h y (y # ys) NULL"
    using inv by (auto simp: st_inv_def)
  have count: "unat (st_node_count s) = Suc (Suc (length ys))" using inv by (simp add: st_inv_def)
  then have c: "1 < st_node_count s" "st_node_count s \<noteq> 0" by (auto simp: word_less_nat_alt)
  obtain h1 where h1: "st_destroy_from (unat (st_node_count s)) h s y = Inr (h1, s\<lparr>st_node_count := st_node_count s - of_nat (length (y # ys))\<rparr>)"
    "\<forall>q. h1 q = (if q \<in> set (y # ys) then None else h q)"
    using destroy_eq [OF n(7) _ _ free, of "unat (st_node_count s)" s] inv count by (auto simp: st_inv_def)
  have hx: "h1 x = Some n" "h1 y = None" "x \<noteq> y" using h1(2) n(3) inv by (auto simp: st_inv_def)
  have "arr_fill (sn_data n) 0 (uint (sn_sz n)) 0 = Inr (replicate (unat (sn_sz n)) 0 @ drop (unat (sn_sz n)) (sn_data n))"
    using n(4) by (simp add: arr_fill_def node_ok_def word_le_nat_alt nat_uint_eq)
  moreover have "node_ok (n\<lparr>sn_data := replicate (unat (sn_sz n)) 0 @ drop (unat (sn_sz n)) (sn_data n), sn_sz := 0, sn_off := 0\<rparr>)"
    using n(4) by (simp add: node_ok_def word_le_nat_alt)
  ultimately show ?thesis using lock n h1(1) hx c unsafe
    by (simp add: MemStreamClean_def Let_def st_unlock_def mutex_unlock_def)
qed

section \<open>Properties\<close>

text \<open>One write of a run.\<close>

definition st_append :: "(sheap \<Rightarrow> addr) \<Rightarrow> bytes \<Rightarrow> sheap \<times> mem_stream \<Rightarrow> (sheap \<times> mem_stream) result" where
  "st_append al d = (\<lambda>(h, s). MemStreamWrite al h s d (of_nat (length d)))"

lemma append_run:
  assumes "st_allocates al"
  shows "st_inv h s ps \<Longrightarrow> length ps + length ds < 2 ^ 64 \<Longrightarrow> unat (st_data_size s) + length (concat ds) < 2 ^ 64 \<Longrightarrow>
    \<exists>h' s' qs. for_each (st_append al) ds (h, s) = Inr (h', s') \<and> st_inv h' s' qs \<and>
      (qs = [] \<longleftrightarrow> ps = [] \<and> ds = []) \<and> length qs \<le> length ps + length ds \<and> concat (st_content h' qs) = concat (st_content h ps) @ concat ds"
proof (induction ds arbitrary: h s ps)
  case (Cons d ds)
  have l: "unat (of_nat (length d) :: ulong) = length d" using Cons.prems(3) by (simp add: unat_of_nat)
  obtain h1 s1 qs where w: "MemStreamWrite al h s d (of_nat (length d)) = Inr (h1, s1)" "st_inv h1 s1 qs" "length qs \<le> length ps + 1" "qs \<noteq> []"
    "concat (st_content h1 qs) = concat (st_content h ps) @ d"
    using write_inv [OF Cons.prems(1) assms _ l] Cons.prems(2,3) by auto
  have "unat (st_data_size s1) = unat (st_data_size s) + length d"
    using w(2,5) Cons.prems(1) by (simp add: st_inv_def)
  then obtain h2 s2 rs where "for_each (st_append al) ds (h1, s1) = Inr (h2, s2)" "st_inv h2 s2 rs" "rs = [] \<longleftrightarrow> qs = [] \<and> ds = []"
    "length rs \<le> length qs + length ds" "concat (st_content h2 rs) = concat (st_content h1 qs) @ concat ds"
    using Cons.IH [OF w(2)] w(3) Cons.prems(2,3) by auto
  moreover have "st_append al d (h, s) = Inr (h1, s1)" using w(1) by (simp add: st_append_def)
  ultimately show ?case using w(3-5)
    by (intro exI [of _ h2] exI [of _ s2] exI [of _ rs]) simp
qed auto

lemma new_stream_inv: "st_inv Map.empty (MemStreamNew m False) []"
  by (simp add: st_inv_def MemStreamNew_def st_content_def)

lemma getters: "st_inv h s ps \<Longrightarrow> MemStreamGetDataSize s = Inr (st_data_size s, s) \<and> MemStreamGetNodeCount s = Inr (st_node_count s, s)"
  by (simp add: st_inv_def MemStreamGetDataSize_def MemStreamGetNodeCount_def st_lock_def mutex_lock_def)

text \<open>
  C38: any sequence of writes to a new stream without a lock, whatever the smallest size of a node, ends without
  a fault in a well-formed chain of nodes whose bytes are what was written, in order. The size is
  theirs, writing to a descriptor hands out all of them, and, for fewer than 2 ^ 31 writes, so that the \<open>int\<close> index of
  a node does not overflow, an offset within them gives the first node that
  ends at or behind it; an offset behind them makes \<open>MemStreamOffsetDeref\<close> read through a null pointer.
\<close>

theorem stream_appends:
  assumes "st_allocates al" "length ds < 2 ^ 64" "length (concat ds) < 2 ^ 64"
  shows "\<exists>h s ps cs. for_each (st_append al) ds (Map.empty, MemStreamNew m False) = Inr (h, s) \<and> st_inv h s ps \<and>
    concat cs = concat ds \<and> MemStreamWriteToFD h s = Inr (cs, s) \<and>
    MemStreamGetDataSize s = Inr (of_nat (length (concat ds)), s) \<and>
    (length ds < 2 ^ 31 \<longrightarrow> (if ds = [] then MemStreamOffsetDeref h s off = Inl NullDeref else if unat off \<le> length (concat ds)
     then \<exists>j<length ps. MemStreamOffsetDeref h s off = Inr (Some \<lparr>sr_idx = of_nat j, sr_node = ps ! j, sr_sz = of_nat (length (cs ! j))\<rparr>, s) \<and>
       unat off \<le> length (concat (take (Suc j) cs)) \<and> (j = 0 \<or> length (concat (take j cs)) < unat off)
     else MemStreamOffsetDeref h s off = Inl NullDeref))"
proof -
  obtain h s ps where run: "for_each (st_append al) ds (Map.empty, MemStreamNew m False) = Inr (h, s)" "st_inv h s ps"
    "concat (st_content h ps) = concat ds" and ne: "ps = [] \<longleftrightarrow> ds = []" "length ps \<le> length ds"
    using append_run [OF assms(1) new_stream_inv, of ds m] assms(2,3) by (auto simp: MemStreamNew_def st_content_def)
  have unsafe: "\<not> st_held s" "\<not> st_safe s" and seg: "st_seg h (st_head s) ps NULL" and count: "unat (st_node_count s) = length ps"
    using run(2) by (simp_all add: st_inv_def)
  then have lock: "st_lock s = Inr s" "st_unlock s = s" by (simp_all add: st_lock_def mutex_lock_def st_unlock_def mutex_unlock_def)
  have fd: "MemStreamWriteToFD h s = Inr (st_content h ps, s)"
    using chunks_eq [OF seg, of "Suc (unat (st_node_count s))"] count lock by (simp add: MemStreamWriteToFD_def)
  have "unat (st_data_size s) = length (concat ds)" using run(2,3) by (simp add: st_inv_def)
  then have size: "st_data_size s = of_nat (length (concat ds))" by (metis of_nat_unat ucast_id)
  show ?thesis
  proof (cases "ds = []")
    case True
    with ne(1) have "ps = []" by simp
    with seg have "MemStreamOffsetDeref h s off = Inl NullDeref" using lock by (simp add: MemStreamOffsetDeref_def sn_load_def)
    with True run fd size getters [OF run(2)] show ?thesis
      by (intro exI [of _ h] exI [of _ s] exI [of _ ps] exI [of _ "st_content h ps"]) simp
  next
    case False
    with ne(1) have ps: "ps \<noteq> []" by simp
    then obtain n where n: "st_head s \<noteq> NULL" "h (st_head s) = Some n" "node_ok n" using seg by (cases ps) auto
    have deref: "MemStreamOffsetDeref h s off = and_then (st_find (length ps) h (st_head s) 0 (sn_sz n) off) (\<lambda>r. Inr (r, s))"
      using lock n(1,2) count by (simp add: MemStreamOffsetDeref_def)
    have f: "length ds < 2 ^ 31 \<Longrightarrow> if unat off \<le> 0 + length (concat (st_content h ps))
      then \<exists>j<length ps. st_find (length ps) h (st_head s) (int 0) (sn_sz n) off = Inr (Some \<lparr>sr_idx = of_nat (0 + j), sr_node = ps ! j, sr_sz = of_nat (length (st_content h ps ! j))\<rparr>) \<and>
        unat off \<le> 0 + length (concat (take (Suc j) (st_content h ps))) \<and>
        (0 + j = 0 \<or> 0 + length (concat (take j (st_content h ps))) < unat off)
      else st_find (length ps) h (st_head s) (int 0) (sn_sz n) off = Inl NullDeref"
      by (rule find_eq [OF seg ps order.refl n(2)]) (use run(3) assms(3) ne(2) in auto)
    have "length ds < 2 ^ 31 \<Longrightarrow> if unat off \<le> length (concat ds)
      then \<exists>j<length ps. MemStreamOffsetDeref h s off = Inr (Some \<lparr>sr_idx = of_nat j, sr_node = ps ! j, sr_sz = of_nat (length (st_content h ps ! j))\<rparr>, s) \<and>
        unat off \<le> length (concat (take (Suc j) (st_content h ps))) \<and> (j = 0 \<or> length (concat (take j (st_content h ps))) < unat off)
      else MemStreamOffsetDeref h s off = Inl NullDeref"
      using f unfolding deref run(3) by (auto split: if_splits)
    with False run fd size getters [OF run(2)] show ?thesis
      by (intro exI [of _ h] exI [of _ s] exI [of _ ps] exI [of _ "st_content h ps"]) simp
  qed
qed

definition st_bump :: "sheap \<Rightarrow> addr" where
  "st_bump h = Suc (Max (insert 0 (dom h)))"

lemma st_bump_allocates: "st_allocates st_bump"
proof (unfold st_allocates_def, intro allI impI conjI)
  fix h :: sheap
  assume fin: "finite (dom h)"
  show "st_bump h \<noteq> NULL" by (simp add: st_bump_def)
  have "st_bump h \<notin> dom h"
  proof
    assume "st_bump h \<in> dom h"
    with fin have "st_bump h \<le> Max (insert 0 (dom h))" by (intro Max_ge) auto
    then show False by (simp add: st_bump_def)
  qed
  then show "h (st_bump h) = None" by blast
qed

lemma stream_appends_witness:
  "\<exists>h s ps cs. for_each (st_append st_bump) [[1, 2, 3], [4]] (Map.empty, MemStreamNew 2 False) = Inr (h, s) \<and> st_inv h s ps \<and>
    concat cs = [1, 2, 3, 4] \<and> MemStreamWriteToFD h s = Inr (cs, s) \<and> MemStreamOffsetDeref h s 9 = Inl NullDeref"
  using stream_appends [OF st_bump_allocates, of "[[1, 2, 3], [4]]" 2 9] by auto

text \<open>
  C39: the faults. On a stream made thread safe the first write locks the mutex that it holds, and asking for
  the size or the number of nodes leaves it held, so that the next call stops. Cleaning a stream of
  two or more unreferenced nodes leaves the head pointing to a freed node: writing the stream to a descriptor or
  destroying it then reads freed memory. Destroying an empty stream does too, and cleaning one reads through null.
\<close>

theorem stream_faults:
  assumes "st_inv h s (x # y # ys)" "unreferenced h (y # ys)"
  shows "(\<exists>h' s'. MemStreamClean h s = Inr (h', s') \<and> st_data_size s' = 0 \<and> MemStreamWriteToFD h' s' = Inl BadPtr \<and>
      MemStreamDestroy h' s' = Inl BadPtr) \<and>
    MemStreamWrite al g (MemStreamNew m True) d k = Inl SelfDeadlock \<and>
    (\<exists>t. MemStreamGetDataSize (MemStreamNew m True) = Inr (0, t) \<and> MemStreamGetNodeCount t = Inl SelfDeadlock) \<and>
    MemStreamDestroy g (MemStreamNew m b) = Inl BadPtr \<and>
    MemStreamClean g (MemStreamNew m b) = Inl NullDeref"
proof -
  obtain h' s' n where c: "MemStreamClean h s = Inr (h', s')" "h' x = Some n" "sn_next n = y" "h' y = None"
    "st_head s' = x" "st_node_count s' = 1" "st_data_size s' = 0" "\<not> st_held s'" "\<not> st_safe s'" "node_ok n"
    using clean_eq [OF assms] by blast
  have p: "x \<noteq> NULL" "y \<noteq> NULL" "x \<noteq> y" using assms(1) by (auto simp: st_inv_def)
  have l: "st_lock s' = Inr s'" using c(8,9) by (simp add: st_lock_def mutex_lock_def)
  have "unat (sn_sz n) \<le> length (sn_data n)" using c(10) by (simp add: node_ok_def word_le_nat_alt)
  with c p have "st_chunks (Suc (Suc 0)) h' x = Inl BadPtr"
    by (simp add: st_chunks.simps [of "Suc (Suc 0)"] st_chunks.simps [of "Suc 0" h' y] sn_load_def)
  with c l have fd: "MemStreamWriteToFD h' s' = Inl BadPtr" by (simp add: MemStreamWriteToFD_def)
  have "MemStreamDestroy h' s' = Inl BadPtr"
    using c l p by (auto simp: MemStreamDestroy_def MemStreamNodeDestroy_def sn_load_def)
  with c fd show ?thesis
    by (simp add: MemStreamWrite_def MemStreamCreateNewNodeTail_def MemStreamNew_def st_lock_def mutex_lock_def
      MemStreamGetDataSize_def MemStreamGetNodeCount_def MemStreamDestroy_def MemStreamClean_def sn_load_def)
qed

definition two_nodes :: sheap where
  "two_nodes = [1 \<mapsto> \<lparr>sn_next = 2, sn_prev = 0, sn_refcount = 0, sn_sz = 1, sn_cap = 1, sn_off = 0, sn_data = [7]\<rparr>,
    2 \<mapsto> \<lparr>sn_next = 0, sn_prev = 1, sn_refcount = 0, sn_sz = 1, sn_cap = 2, sn_off = 0, sn_data = [8, 0]\<rparr>]"

lemma stream_faults_witness:
  "\<exists>h' s'. MemStreamClean two_nodes \<lparr>st_data_size = 2, st_data_off = 0, st_min_node_sz = 0, st_node_count = 2,
     st_head = 1, st_tail = 2, st_cur = 1, st_safe = False, st_held = False\<rparr> = Inr (h', s') \<and> MemStreamWriteToFD h' s' = Inl BadPtr"
proof -
  have "st_inv two_nodes \<lparr>st_data_size = 2, st_data_off = 0, st_min_node_sz = 0, st_node_count = 2,
     st_head = 1, st_tail = 2, st_cur = 1, st_safe = False, st_held = False\<rparr> [1, 2]"
    by (simp add: NULL_def st_inv_def two_nodes_def st_content_def sn_bytes_def node_ok_def)
  moreover have "unreferenced two_nodes [2]" by (simp add: unreferenced_def two_nodes_def)
  ultimately show ?thesis using stream_faults by blast
qed

end
