(* ===== verification/Spec2Isabelle.thy ===== *)
theory Spec2Isabelle
  imports DLinkedListRefine DynBitmapClaims Blowfish Rc4 Base64 Md5 Sha1 Sha256 SlotQueue MemArenaRuns MemSlotRuns LinkedListProps DynArray MemBufferClaims MemBufferCrypt
    BrbStringsProps BrbUtilsProps BrbNetworkProps MemStreamProps
begin

text \<open>
  A verification development of the BrByte framework (libbrb_core), its containers and its codecs.

  \<^bold>\<open>The program.\<close> libbrb_core is a C library in layers. data/core and data/utils hold the containers
  (lists, bitmaps, slot queues, arenas, arrays, buffers, tables), crypto the ciphers, digests and the
  Base64 codec, event the kqueue/epoll loop with timers, jobs and asynchronous requests, thread the
  thread pools, comm the endpoints. The upper layers keep their state in the containers: the doubly
  linked list and the slot queue are under nearly all of them, the bitmap under the slot queue, the
  memory arena and the mapped buffers. The development starts from the bottom.

  \<^bold>\<open>How C is modelled.\<close> A pointer is an address (0 is the null pointer) and linked structures live in
  a heap, a partial map from addresses to cells; arrays are lists with checked access. A statement
  that dereferences a null or dangling pointer, leaves an array, fails an assertion, divides by zero,
  overflows a signed integer or locks a mutex its thread holds yields a fault (\<open>BrbPrelude.fault\<close>), the rest is the value of the
  sum \<open>fault + 'a\<close>; \<open>and_then\<close> sequences statements and \<open>for_each\<close> is the counting loop. Unsigned
  numbers are \<open>w word\<close> values. Values of C \<open>int\<close> and \<open>long\<close> are integers: a result of arithmetic on them is checked
  to fit (\<open>in_int\<close>, \<open>in_long\<close>; otherwise the fault is \<open>Overflow\<close>) wherever the sizes and numbers the caller passes
  can make it overflow, and a conversion to a narrower or an unsigned type keeps the low bits (\<open>c_int\<close>, \<open>c_long\<close>,
  \<open>c_size\<close>). Positions in a buffer that the code keeps below a size it has computed in \<open>int\<close> need no check and are
  natural numbers. Unchecked are the counters of events in \<open>long\<close>, which would take 2 ^ 63 calls to overflow. The sums of
  sha256.c and the counter of \<open>LinkedListGetSize\<close> wrap around, as they do on the machines the code is built for.
  Structures passed by pointer are passed and returned by value; the tests of such a pointer for null
  are then always false and left out. Loops along pointers have fuel, and lemmas show how much is
  enough (the number of nodes); loops over a buffer recurse on it. Memory that \<open>realloc\<close> adds, and
  uninitialised locals, are arguments or fixed arbitrary bytes.

  \<^bold>\<open>Theories.\<close>
  \<^item> BrbPrelude: faults, sequencing, mutexes, arrays, C division, loops, and generic lemmas.
  \<^item> DListHeap, DLinkedList, DLinkedListProps, DLinkedListMore, DLinkedListSort, DLinkedListRefine:
    data/core/dlinked_list.c. Heap cells and chain segments; every operation; what each does to the
    abstract list (\<open>is_dlist\<close>) and which cells it leaves alone; duplication, filtering, cleaning; the
    merge sorts; refinement of sequences of operations by list functions. The locale \<open>dl_inserter\<close> is
    what head and tail insertion promise the functions that build lists.
  \<^item> DynBitmap, DynBitmapClaims: data/core/dyn_bitmap.c. The operations on bits and the locale
    \<open>index_set\<close>, a set of indices, which the slot queue relies on.
  \<^item> SlotQueue: data/core/slotqueue.c. The operations, a step relation of runs of grabs and returns,
    its invariant, and the faults of slots marked busy.
  \<^item> Blowfish, Rc4: crypto/blowfish.c and crypto/rc4.c. Feistel networks as a locale; key schedules
    in bounds, decryption inverts encryption.
  \<^item> Base64: crypto/base64.c against RFC 4648. The locale \<open>b64_loop\<close> is what the string and the binary
    encoder loop share.
  \<^item> HashAbsorb, Md5, Sha1, Sha256: crypto/md5.c, sha1.c, sha256.c. The Merkle-Damgard reference, the
    locale \<open>streaming\<close> of a buffered implementation, and each digest as an instance of it.

  \<^item> MemArena, MemArenaProps, MemArenaRuns: data/core/mem_arena.c, a growing table of blocks of objects. The
    operations, their invariant, and runs of them against the locale \<open>object_store\<close>.
  \<^item> MemSlot, MemSlotProps, MemSlotRuns: data/utils/mem_slot.c, slots in eight lists on top of the arena,
    refined by sequences of slot numbers.
  \<^item> LinkedList, LinkedListProps: data/core/linked_list.c in a heap. The loops along the nodes are partial
    functions, so that a list which has become a cycle has no result.
  \<^item> DynArray: data/core/dyn_array.c, refined by a list of elements.
  \<^item> MemBuffer, MemBufferProps, MemBufferClaims, MemBufferCrypt: data/core/mem_buf.c. Growth, appending,
    cutting, copying, positions, reading from descriptors, and the encryption on top of Blowfish.
  \<^item> BrbStrings, BrbStringsProps: data/utils/str.c over the functions of the C library it uses. Searches,
    escapes, percent decoding and dates.
  \<^item> BrbUtils, BrbUtilsProps: data/utils/utils.c. The string hash, check digits, domain names, dumps, times.
  \<^item> BrbNetwork, BrbNetworkProps: data/utils/utils_nw.c. Masks, comparison under a mask, networks as text.
  \<^item> MemStream, MemStreamProps: data/core/mem_stream.c. A chain of nodes in a heap, refined by the bytes
    appended; the locks and the pointers that cleaning leaves.

  \<^bold>\<open>Bounds.\<close> List operations need fuel for the number of nodes plus one; the padding loop of SHA-1
  has fuel 64 and takes fewer steps; the mapped slot queue's loops are bounded by the code itself
  (the slot count plus one). The outer loop of \<open>BrbStrFindSubStr\<close> has the size of the buffer as fuel, which it
  never exhausts. The properties state the sizes for which no integer overflows: bitmaps with indices and a growth
  rate below 2 ^ 62 (the scans, which count in \<open>int\<close>, below \<open>INT_MAX\<close>); slot queues below 2 ^ 31 slots; arenas of fewer
  than 2 ^ 59 blocks of fewer than 2 ^ 62 bytes; memory slots whose canaries fit \<open>int\<close> (11 n below 2 ^ 31);
  digests of chunks below the size at which the carry detection or the index breaks (4 GiB for MD5, 512 MiB for
  SHA-1, 2 GiB for SHA-256), the message itself being of any length; dynamic arrays with a growth rate below 2 ^ 28 in
  fewer than 2 ^ 28 operations; buffers whose sums fit 64 bits; strings whose length fits \<open>int\<close>, and half of that for the
  escapes, which double it; streams of fewer than 2 ^ 31 writes where a node is looked up by its offset.

  \<^bold>\<open>Not modelled.\<close> The layers above the containers (event loop, threads, endpoints, the JSON and AIO
  libraries) are driven by kernel calls, callbacks and external libraries. The remaining containers
  of data/ are listed as components with the reason each is left out.
\<close>

end
